(* ===== verification/WFX_Prelude.thy ===== *)
theory WFX_Prelude
  imports Main "HOL-Library.Word" "HOL-Library.Char_ord"
begin

text \<open>
  Shared vocabulary of the development: the machine types the engine uses
  (\<open>std::uint8_t\<close> up to \<open>std::uint64_t\<close> as words), byte strings as \<^typ>\<open>string\<close>,
  the error value that stands for \<open>Logger::Fatal\<close> (which ends the process), the
  searches of \<open>std::string_view\<close>, and the generic facts on lists, words and arithmetic
  that more than one component needs.
\<close>

unbundle bit_operations_syntax

named_theorems wfx_unfold \<open>definitions that a component's proofs unfold as a matter of course\<close>
named_theorems inv_intros \<open>preservation lemmas of the component invariants\<close>

type_synonym u8 = "8 word"
type_synonym u16 = "16 word"
type_synonym u32 = "32 word"
type_synonym u64 = "64 word"

text \<open>\<open>Logger::Fatal\<close> prints and terminates the process: no state survives it.\<close>

datatype fatal = Fatal string

text \<open>A byte of a string as the unsigned value the code casts it to.\<close>

abbreviation byte_of :: "char \<Rightarrow> u8" where
  "byte_of c \<equiv> of_char c"

abbreviation code_of :: "char \<Rightarrow> nat" where
  "code_of c \<equiv> of_char c"

abbreviation CR :: char where "CR \<equiv> CHR 0x0D"
abbreviation LF :: char where "LF \<equiv> CHR 0x0A"
abbreviation NUL :: char where "NUL \<equiv> CHR 0x00"
abbreviation TAB :: char where "TAB \<equiv> CHR 0x09"

text \<open>The next statement after one that may not return.\<close>

fun andThen :: "'e + 'a \<Rightarrow> ('a \<Rightarrow> 'e + 'b) \<Rightarrow> 'e + 'b" where
  "andThen (Inl e) f = Inl e"
| "andThen (Inr x) f = f x"

lemma andThen_Inr_iff: "andThen m f = Inr y \<longleftrightarrow> (\<exists>x. m = Inr x \<and> f x = Inr y)"
  by (cases m) auto

lemma andThen_assoc: "andThen (andThen m f) g = andThen m (\<lambda>x. andThen (f x) g)"
  by (cases m) auto

section \<open>Searches of \<open>std::string_view\<close>\<close>

text \<open>\<open>sv.find(c)\<close>: the first position of a byte, \<^const>\<open>None\<close> for \<open>npos\<close>.\<close>

fun sv_find :: "char \<Rightarrow> string \<Rightarrow> nat option" where
  "sv_find c [] = None"
| "sv_find c (x # xs) = (if x = c then Some 0 else map_option Suc (sv_find c xs))"

text \<open>\<open>sv.find(c, from)\<close>: the search starts at an offset, the result is absolute.\<close>

definition sv_find_from :: "char \<Rightarrow> nat \<Rightarrow> string \<Rightarrow> nat option" where
  "sv_find_from c from xs = map_option (\<lambda>n. n + from) (sv_find c (drop from xs))"

text \<open>\<open>sv.rfind(c)\<close>: the last position of a byte.\<close>

definition sv_rfind :: "char \<Rightarrow> string \<Rightarrow> nat option" where
  "sv_rfind c xs = map_option (\<lambda>n. length xs - 1 - n) (sv_find c (rev xs))"

text \<open>\<open>sv.substr(pos, n)\<close> for positions inside the view.\<close>

definition sv_substr :: "nat \<Rightarrow> nat \<Rightarrow> string \<Rightarrow> string" where
  "sv_substr pos n xs = take n (drop pos xs)"

lemma sv_find_None: "sv_find c xs = None \<longleftrightarrow> c \<notin> set xs"
  by (induction xs) auto

lemma sv_find_Some:
  "sv_find c xs = Some n \<longleftrightarrow> n < length xs \<and> xs ! n = c \<and> c \<notin> set (take n xs)"
proof (induction xs arbitrary: n)
  case Nil
  then show ?case by simp
next
  case (Cons x xs)
  show ?case by (cases n) (auto simp: Cons)
qed

lemma sv_find_lt: "sv_find c xs = Some n \<Longrightarrow> n < length xs"
  by (simp add: sv_find_Some)

lemma sv_find_append:
  "c \<notin> set xs \<Longrightarrow> sv_find c (xs @ c # ys) = Some (length xs)"
  by (induction xs) auto

lemma sv_find_append_notin:
  "c \<notin> set xs \<Longrightarrow> sv_find c (xs @ ys) = map_option (\<lambda>n. n + length xs) (sv_find c ys)"
  by (induction xs) (auto simp: option.map_comp o_def option.map_ident)

lemma sv_find_split:
  "sv_find c xs = Some n \<Longrightarrow> xs = take n xs @ c # drop (Suc n) xs"
  by (metis id_take_nth_drop sv_find_Some)

lemma sv_find_from_Some:
  "sv_find_from c from xs = Some n \<Longrightarrow> from \<le> n \<and> n < length xs \<and> xs ! n = c"
  by (auto simp: sv_find_from_def sv_find_Some add.commute)

lemma sv_rfind_None: "sv_rfind c xs = None \<longleftrightarrow> c \<notin> set xs"
  by (simp add: sv_rfind_def sv_find_None)

lemma sv_rfind_lt: "sv_rfind c xs = Some n \<Longrightarrow> n < length xs"
  by (auto simp: sv_rfind_def sv_find_Some)

section \<open>Splitting at a byte\<close>

text \<open>
  The segments of a string between occurrences of a separator. Not part of the program: the
  specifications of path handling are stated with it.
\<close>

fun segments :: "char \<Rightarrow> string \<Rightarrow> string list" where
  "segments c [] = [[]]"
| "segments c (x # xs) =
     (if x = c then [] # segments c xs
      else (case segments c xs of s # ss \<Rightarrow> (x # s) # ss | [] \<Rightarrow> [[x]]))"

lemma segments_nonempty [simp]: "segments c xs \<noteq> []"
  by (induction xs) (auto split: list.splits)

lemma segments_no_sep: "c \<notin> set xs \<Longrightarrow> segments c xs = [xs]"
  by (induction xs) auto

lemma segments_append_sep:
  "c \<notin> set xs \<Longrightarrow> segments c (xs @ c # ys) = xs # segments c ys"
  by (induction xs) auto

lemma segments_sep_free: "s \<in> set (segments c xs) \<Longrightarrow> c \<notin> set s"
proof (induction xs arbitrary: s)
  case Nil
  then show ?case by simp
next
  case (Cons x xs)
  then show ?case by (cases "segments c xs") (auto split: if_splits)
qed

section \<open>Lists\<close>

lemma list_update_take_drop:
  "i < length xs \<Longrightarrow> xs[i := v] = take i xs @ v # drop (Suc i) xs"
  by (rule upd_conv_take_nth_drop)

lemma drop_list_update_ge [simp]: "i < n \<Longrightarrow> drop n (xs[i := v]) = drop n xs"
  by (simp add: drop_update_cancel)

lemma take_Suc_update: "i < length xs \<Longrightarrow> take (Suc i) (xs[i := v]) = take i xs @ [v]"
  by (simp add: take_Suc_conv_app_nth)

lemma tl_drop_Suc: "tl (drop n xs) = drop (Suc n) xs"
  by (simp add: tl_drop drop_Suc)

lemma drop_eq_Cons:
  "drop i xs = y # ys \<longleftrightarrow> i < length xs \<and> y = xs ! i \<and> ys = drop (Suc i) xs"
proof (cases "i < length xs")
  case True
  then have "drop i xs = xs ! i # drop (Suc i) xs"
    by (simp add: Cons_nth_drop_Suc)
  then show ?thesis
    using True by auto
next
  case False
  then show ?thesis
    by simp
qed

text \<open>Results of operations that may end the process.\<close>

lemma map_sum_Inr: "map_sum id f x = Inr y \<longleftrightarrow> (\<exists>z. x = Inr z \<and> y = f z)"
  by (cases x) auto

section \<open>Words\<close>

lemma of_char_u8_inject [simp]: "(of_char c :: u8) = of_char d \<longleftrightarrow> c = d"
proof
  assume "(of_char c :: u8) = of_char d"
  then have "unat (of_char c :: u8) = unat (of_char d :: u8)"
    by simp
  moreover have "unat (of_char x :: u8) = of_char x" for x :: char
    by (simp add: unat_of_nat of_char_def flip: of_nat_of_char)
  ultimately show "c = d"
    by simp
qed simp

lemma unat_u8_lt: "unat (x :: u8) < 256"
  using unsigned_less[of x] by simp

lemma unat_u16_lt: "unat (x :: u16) < 65536"
  using unsigned_less[of x] by simp

lemma unat_u32_lt: "unat (x :: u32) < 4294967296"
  using unsigned_less[of x] by simp

lemma unat_u64_lt: "unat (x :: u64) < 18446744073709551616"
  using unsigned_less[of x] by simp

lemma unat_ucast_32_64 [simp]: "unat (ucast (x :: u32) :: u64) = unat x"
  using unat_u32_lt[of x] by (simp add: unsigned_ucast_eq take_bit_nat_eq_self)

lemma unat_ucast_64_32: "unat (ucast (x :: u64) :: u32) = unat x mod 2 ^ 32"
  by (simp add: unsigned_ucast_eq take_bit_eq_mod)

lemma unat_ucast_32_16: "unat (ucast (x :: u32) :: u16) = unat x mod 2 ^ 16"
  by (simp add: unsigned_ucast_eq take_bit_eq_mod)

lemma unat_ucast_16_32 [simp]: "unat (ucast (x :: u16) :: u32) = unat x"
  using unat_u16_lt[of x] by (simp add: unsigned_ucast_eq take_bit_nat_eq_self)

lemma unat_ucast_64_8: "unat (ucast (x :: u64) :: u8) = unat x mod 2 ^ 8"
  by (simp add: unsigned_ucast_eq take_bit_eq_mod)

lemma unat_add_u64: "unat ((a :: u64) + b) = (unat a + unat b) mod 2 ^ 64"
  by (simp add: unat_word_ariths)

lemma unat_add_u32: "unat ((a :: u32) + b) = (unat a + unat b) mod 2 ^ 32"
  by (simp add: unat_word_ariths)

lemmas word_less_unat = word_less_nat_alt
lemmas word_le_unat = word_le_nat_alt

text \<open>\<open>std::countr_zero\<close> and \<open>std::countl_zero\<close> on 64-bit words; 64 for zero.\<close>

definition countr_zero :: "u64 \<Rightarrow> nat" where
  "countr_zero w = length (takeWhile (\<lambda>n. \<not> bit w n) [0..<64])"

definition countl_zero :: "u64 \<Rightarrow> nat" where
  "countl_zero w = length (takeWhile (\<lambda>n. \<not> bit w (63 - n)) [0..<64])"

lemma countr_zero_spec:
  assumes "w \<noteq> 0"
  shows "countr_zero w < 64" "bit w (countr_zero w)"
proof -
  obtain n where n: "bit w n" using assms by (metis bit_eqI bit_0_eq bot_apply bot_bool_def)
  then have n64: "n < 64" using bit_imp_le_length[OF n] by simp
  have lt: "length (takeWhile (\<lambda>n. \<not> bit w n) [0..<64]) < length [0..<64]"
  proof (rule ccontr)
    assume "\<not> ?thesis"
    then have "takeWhile (\<lambda>n. \<not> bit w n) [0..<64] = [0..<64]"
      by (metis not_less takeWhile_eq_take take_all)
    then have "\<forall>k \<in> set [0..<64]. \<not> bit w k" by (metis set_takeWhileD)
    with n n64 show False by simp
  qed
  then show "countr_zero w < 64" by (simp add: countr_zero_def)
  show "bit w (countr_zero w)"
    using nth_length_takeWhile[OF lt] lt by (simp add: countr_zero_def)
qed

lemma countr_zero_below: "n < countr_zero w \<Longrightarrow> \<not> bit w n"
proof -
  assume n: "n < countr_zero w"
  have "countr_zero w \<le> 64" using length_takeWhile_le[of "\<lambda>n. \<not> bit w n" "[0..<64]"] by (simp add: countr_zero_def)
  with n have "takeWhile (\<lambda>n. \<not> bit w n) [0..<64] ! n = n"
    by (simp add: countr_zero_def takeWhile_nth)
  moreover have "takeWhile (\<lambda>n. \<not> bit w n) [0..<64] ! n \<in> set (takeWhile (\<lambda>n. \<not> bit w n) [0..<64])"
    using n by (simp add: countr_zero_def)
  ultimately show ?thesis by (metis set_takeWhileD)
qed

lemma less_8_cases: "(n :: nat) < 8 \<longleftrightarrow> n = 0 \<or> n = 1 \<or> n = 2 \<or> n = 3 \<or> n = 4 \<or> n = 5 \<or> n = 6 \<or> n = 7"
  by arith

end
