(* ===== verification/StringUtils.thy ===== *)
theory StringUtils
  imports WFX_Prelude
begin

text \<open>
  Model of \<open>src/utils/string/string.cpp\<close>: the comparisons header lookup rests on, the
  in-place normalisation of request paths, integer conversions and trimming. The path
  normaliser is modelled on the mutable buffer it rewrites, and is then shown to compute the
  same bytes as a list-based reference, on which the traversal-safety facts are proved.
\<close>

section \<open>Comparisons\<close>

definition ToLowerAscii :: "u8 \<Rightarrow> u8" where
  "ToLowerAscii c = (if 0x41 \<le> c \<and> c \<le> 0x5A then c OR 0x20 else c)"

definition CTStringCompare :: "string \<Rightarrow> string \<Rightarrow> bool" where
  "CTStringCompare lhs rhs =
     (if length lhs \<noteq> length rhs then False
      else foldl (\<lambda>result (l, r). result OR (byte_of l XOR byte_of r)) (0 :: u8) (zip lhs rhs) = 0)"

definition CTInsensitiveStringCompare :: "string \<Rightarrow> string \<Rightarrow> bool" where
  "CTInsensitiveStringCompare lhs rhs =
     (if length lhs \<noteq> length rhs then False
      else foldl (\<lambda>result (l, r). result OR (ToLowerAscii (byte_of l) XOR ToLowerAscii (byte_of r)))
             (0 :: u8) (zip lhs rhs) = 0)"

fun insensitive_loop :: "string \<Rightarrow> string \<Rightarrow> bool" where
  "insensitive_loop (l # ls) (r # rs) =
     (if ToLowerAscii (byte_of l) \<noteq> ToLowerAscii (byte_of r) then False else insensitive_loop ls rs)"
| "insensitive_loop _ _ = True"

definition InsensitiveStringCompare :: "string \<Rightarrow> string \<Rightarrow> bool" where
  "InsensitiveStringCompare lhs rhs =
     (if length lhs \<noteq> length rhs then False else insensitive_loop lhs rhs)"

text \<open>The key under which two header names are the same.\<close>

definition ci_key :: "string \<Rightarrow> u8 list" where
  "ci_key s = map (\<lambda>c. ToLowerAscii (byte_of c)) s"

lemma or_fold_zero:
  fixes f :: "'a \<Rightarrow> 'b \<Rightarrow> 'c::len word"
  shows "foldl (\<lambda>r (x, y). r OR f x y) a zs = 0 \<longleftrightarrow> a = 0 \<and> (\<forall>(x, y) \<in> set zs. f x y = 0)"
proof (induction zs arbitrary: a)
  case Nil
  then show ?case by simp
next
  case (Cons z zs)
  have "a OR b = 0 \<longleftrightarrow> a = 0 \<and> b = 0" for a b :: "'c word"
    by (metis or_eq_0_iff)
  with Cons show ?case by (cases z) auto
qed

lemma xor_zero_iff: "(a :: 'c::len word) XOR b = 0 \<longleftrightarrow> a = b"
  by (metis bit.xor_self bit.xor_left_self xor.right_neutral)

lemma zip_all_eq:
  "length xs = length ys \<Longrightarrow> (\<forall>(x, y) \<in> set (zip xs ys). f x = f y) \<longleftrightarrow> map f xs = map f ys"
  by (induction xs ys rule: list_induct2) auto

lemma CTInsensitive_ci_key: "CTInsensitiveStringCompare s t \<longleftrightarrow> ci_key s = ci_key t"
  by (auto simp: CTInsensitiveStringCompare_def or_fold_zero xor_zero_iff zip_all_eq ci_key_def
      dest: map_eq_imp_length_eq)

lemma insensitive_loop_ci:
  "length s = length t \<Longrightarrow> insensitive_loop s t \<longleftrightarrow> ci_key s = ci_key t"
  by (induction s t rule: list_induct2) (auto simp: ci_key_def)

lemma Insensitive_ci_key: "InsensitiveStringCompare s t \<longleftrightarrow> ci_key s = ci_key t"
  by (auto simp: InsensitiveStringCompare_def insensitive_loop_ci ci_key_def
      dest: map_eq_imp_length_eq)

lemma CTStringCompare_eq: "CTStringCompare s t \<longleftrightarrow> s = t"
proof -
  have inj: "inj byte_of" by (auto intro: injI)
  show ?thesis
    by (auto simp: CTStringCompare_def or_fold_zero xor_zero_iff zip_all_eq inj
        inj_map_eq_map)
qed

section \<open>Path normalisation\<close>

text \<open>
  \<open>NormalizeURIPathInplace\<close> reads at \<open>i\<close> and writes at \<open>out\<close> in the same buffer. The inner
  \<open>while(out > 0 && buf[out - 1] != '/') --out;\<close> is \<open>pop_to_slash\<close>.
\<close>

fun pop_to_slash :: "string \<Rightarrow> nat \<Rightarrow> nat" where
  "pop_to_slash buf 0 = 0"
| "pop_to_slash buf (Suc out) = (if buf ! out \<noteq> CHR ''/'' then pop_to_slash buf out else Suc out)"

lemma pop_to_slash_le: "pop_to_slash buf out \<le> out"
  by (induction out) auto

function normalize_loop :: "nat \<Rightarrow> string \<Rightarrow> nat \<Rightarrow> nat \<Rightarrow> string \<times> nat" where
  "normalize_loop len buf i out =
     (if i < len then
        if buf ! i = CHR ''/'' \<and> out > 0 \<and> buf ! (out - 1) = CHR ''/'' then
          normalize_loop len buf (i + 1) out
        else if buf ! i = CHR ''.'' \<and>
                (i + 1 \<ge> len \<or> buf ! (i + 1) = CHR ''/'' \<or> buf ! (i + 1) = NUL) then
          normalize_loop len buf
            (i + (if i + 1 < len \<and> buf ! (i + 1) = CHR ''/'' then 2 else 1)) out
        else if buf ! i = CHR ''.'' \<and> i + 1 < len \<and> buf ! (i + 1) = CHR ''.'' \<and>
                (i + 2 \<ge> len \<or> buf ! (i + 2) = CHR ''/'') then
          normalize_loop len buf
            (i + (if i + 2 < len \<and> buf ! (i + 2) = CHR ''/'' then 3 else 2))
            (if out > 1 then pop_to_slash buf (out - 1) else out)
        else normalize_loop len (buf[out := buf ! i]) (i + 1) (out + 1)
      else (buf, out))"
  by pat_completeness auto
termination
  by (relation "measure (\<lambda>(len, buf, i, out). len - i)") auto

declare normalize_loop.simps [simp del]

text \<open>The rewritten buffer and the length of the new view; \<^const>\<open>None\<close> when it returns false.\<close>

definition NormalizeURIPathInplace :: "string \<Rightarrow> (string \<times> nat) option" where
  "NormalizeURIPathInplace path =
     (if path = [] then None
      else (case normalize_loop (length path) path 0 0 of
              (buf, out) \<Rightarrow>
                (if out = 0 then Some (buf[0 := CHR ''/''], 1) else Some (buf, out))))"

subsection \<open>The list-based reference\<close>

text \<open>
  \<open>normalize_ref acc rest\<close> keeps the bytes written so far in reverse and the bytes still to be
  read, with the same four cases. It is the specification the buffer version refines.
\<close>

function normalize_ref :: "string \<Rightarrow> string \<Rightarrow> string" where
  "normalize_ref acc [] = acc"
| "normalize_ref acc (c # rest) =
     (if c = CHR ''/'' \<and> acc \<noteq> [] \<and> hd acc = CHR ''/'' then normalize_ref acc rest
      else if c = CHR ''.'' \<and> (rest = [] \<or> hd rest = CHR ''/'' \<or> hd rest = NUL) then
        normalize_ref acc (if rest \<noteq> [] \<and> hd rest = CHR ''/'' then tl rest else rest)
      else if c = CHR ''.'' \<and> rest \<noteq> [] \<and> hd rest = CHR ''.'' \<and>
              (tl rest = [] \<or> hd (tl rest) = CHR ''/'') then
        normalize_ref
          (if length acc > 1 then dropWhile (\<lambda>x. x \<noteq> CHR ''/'') (tl acc) else acc)
          (if tl rest \<noteq> [] \<and> hd (tl rest) = CHR ''/'' then tl (tl rest) else tl rest)
      else normalize_ref (c # acc) rest)"
  by pat_completeness auto
termination
  by (relation "measure (\<lambda>(acc, rest). length rest)") (auto simp: less_Suc_eq_le le_SucI)

declare normalize_ref.simps(2) [simp del]

definition pop_acc :: "string \<Rightarrow> string" where
  "pop_acc acc = (if length acc > 1 then dropWhile (\<lambda>x. x \<noteq> CHR ''/'') (tl acc) else acc)"

lemma normalize_ref_dot:
  assumes "r = [] \<or> hd r = CHR ''/'' \<or> hd r = NUL"
  shows "normalize_ref acc (CHR ''.'' # r) =
    normalize_ref acc (if r \<noteq> [] \<and> hd r = CHR ''/'' then tl r else r)"
  using assms by (simp add: normalize_ref.simps(2)[of _ "CHR ''.''"])

lemma normalize_ref_dotdot:
  assumes "r = [] \<or> hd r = CHR ''/''"
  shows "normalize_ref acc (CHR ''.'' # CHR ''.'' # r) =
    normalize_ref (pop_acc acc) (if r \<noteq> [] \<and> hd r = CHR ''/'' then tl r else r)"
  using assms by (simp add: normalize_ref.simps(2)[of _ "CHR ''.''"] pop_acc_def)

lemma pop_to_slash_take:
  "out \<le> length buf \<Longrightarrow>
   take (pop_to_slash buf out) buf = rev (dropWhile (\<lambda>x. x \<noteq> CHR ''/'') (rev (take out buf)))"
  by (induction out) (auto simp: take_Suc_conv_app_nth)

lemma rev_take_hd:
  "0 < out \<Longrightarrow> out \<le> length buf \<Longrightarrow> rev (take out buf) \<noteq> [] \<and> hd (rev (take out buf)) = buf ! (out - 1)"
  by (cases out) (auto simp: hd_rev take_Suc_conv_app_nth)

lemma rev_take_pop:
  assumes "out \<le> length buf"
  shows "rev (take (if out > 1 then pop_to_slash buf (out - 1) else out) buf) =
    pop_acc (rev (take out buf))"
proof (cases "out > 1")
  case True
  then obtain k where k: "out = Suc k" by (cases out) auto
  with assms have "tl (rev (take out buf)) = rev (take k buf)"
    by (simp add: take_Suc_conv_app_nth)
  moreover have "rev (take (pop_to_slash buf k) buf) =
      dropWhile (\<lambda>x. x \<noteq> CHR ''/'') (rev (take k buf))"
    using assms k by (simp add: pop_to_slash_take)
  moreover have "length (rev (take out buf)) > 1"
    using True assms by simp
  ultimately show ?thesis
    using True k by (simp only: pop_acc_def if_True diff_Suc_1)
next
  case False
  with assms show ?thesis by (simp add: pop_acc_def)
qed

text \<open>
  The writer never overtakes the reader, so the unread suffix is still the original input:
  the buffer loop and the reference agree.
\<close>

lemma normalize_loop_ref:
  assumes "out \<le> i" "len = length buf" "out \<le> length buf"
    and "normalize_loop len buf i out = (buf', out')"
  shows "rev (take out' buf') = normalize_ref (rev (take out buf)) (drop i buf)
    \<and> length buf' = length buf \<and> out' \<le> length buf'"
  using assms
proof (induction len buf i out rule: normalize_loop.induct)
  case (1 len buf i out)
  let ?acc = "rev (take out buf)"
  show ?case
  proof (cases "i < len")
    case False
    with "1.prems" show ?thesis by (simp add: normalize_loop.simps)
  next
    case True
    with "1.prems" have oi: "out \<le> length buf" and il: "i < length buf" by auto
    have dr: "drop i buf = buf ! i # drop (Suc i) buf"
      using il by (simp add: Cons_nth_drop_Suc)
    have rest: "drop (Suc i) buf = [] \<longleftrightarrow> i + 1 \<ge> len"
      "i + 1 < len \<Longrightarrow> hd (drop (Suc i) buf) = buf ! (i + 1)"
      "tl (drop (Suc i) buf) = drop (i + 2) buf"
      "i + 2 < len \<Longrightarrow> hd (drop (i + 2) buf) = buf ! (i + 2)"
      "drop (i + 2) buf = [] \<longleftrightarrow> i + 2 \<ge> len"
      "tl (drop (i + 2) buf) = drop (i + 3) buf"
      using "1.prems"(2) by (simp_all add: hd_drop_conv_nth tl_drop_Suc numeral_eq_Suc Suc_le_eq)
    have acc: "?acc \<noteq> [] \<longleftrightarrow> out > 0" "out > 0 \<Longrightarrow> hd ?acc = buf ! (out - 1)"
      using rev_take_hd[OF _ oi] by auto
    let ?s = "buf ! i = CHR ''/'' \<and> out > 0 \<and> buf ! (out - 1) = CHR ''/''"
    let ?d = "buf ! i = CHR ''.'' \<and> (i + 1 \<ge> len \<or> buf ! (i + 1) = CHR ''/'' \<or> buf ! (i + 1) = NUL)"
    let ?dd = "buf ! i = CHR ''.'' \<and> i + 1 < len \<and> buf ! (i + 1) = CHR ''.'' \<and>
                (i + 2 \<ge> len \<or> buf ! (i + 2) = CHR ''/'')"
    note loop = "1.prems"(4)[unfolded normalize_loop.simps[of len buf i out]]
    consider (slash) ?s | (dot) "\<not> ?s" ?d | (dotdot) "\<not> ?s" "\<not> ?d" ?dd
      | (copy) "\<not> ?s" "\<not> ?d" "\<not> ?dd" by blast
    then show ?thesis
    proof cases
      case slash
      have "normalize_ref ?acc (drop i buf) = normalize_ref ?acc (drop (i + 1) buf)"
        using slash acc dr by (simp add: normalize_ref.simps(2))
      with "1.IH"(1)[OF True slash] "1.prems" loop True slash show ?thesis by simp
    next
      case dot
      let ?j = "i + (if i + 1 < len \<and> buf ! (i + 1) = CHR ''/'' then 2 else 1)"
      have dr2: "drop i buf = CHR ''.'' # drop (Suc i) buf"
        using dot dr by simp
      have e: "drop (Suc i) buf = [] \<or> hd (drop (Suc i) buf) = CHR ''/'' \<or> hd (drop (Suc i) buf) = NUL"
        using dot rest by auto
      have j: "(if drop (Suc i) buf \<noteq> [] \<and> hd (drop (Suc i) buf) = CHR ''/''
                then tl (drop (Suc i) buf) else drop (Suc i) buf) = drop ?j buf"
        using rest(1-3) by auto
      have "normalize_ref ?acc (drop i buf) = normalize_ref ?acc (drop ?j buf)"
        unfolding dr2 normalize_ref_dot[OF e] j ..
      moreover have "normalize_loop len buf ?j out = (buf', out')"
        using loop True dot by auto
      ultimately show ?thesis
        using "1.IH"(2)[OF True dot] "1.prems" by simp
    next
      case dotdot
      let ?j = "i + (if i + 2 < len \<and> buf ! (i + 2) = CHR ''/'' then 3 else 2)"
      let ?o = "if out > 1 then pop_to_slash buf (out - 1) else out"
      have o: "?o \<le> ?j" "?o \<le> length buf"
        using "1.prems" oi pop_to_slash_le[of buf "out - 1"] by auto
      have dr2: "drop i buf = CHR ''.'' # CHR ''.'' # drop (i + 2) buf"
        using dotdot dr "1.prems"(2) by (simp add: drop_eq_Cons[of "Suc i"] numeral_eq_Suc)
      have e: "drop (i + 2) buf = [] \<or> hd (drop (i + 2) buf) = CHR ''/''"
        using dotdot rest by auto
      have j: "(if drop (i + 2) buf \<noteq> [] \<and> hd (drop (i + 2) buf) = CHR ''/''
                then tl (drop (i + 2) buf) else drop (i + 2) buf) = drop ?j buf"
        using rest(4-6) by auto
      have "normalize_ref ?acc (drop i buf) = normalize_ref (rev (take ?o buf)) (drop ?j buf)"
        unfolding dr2 normalize_ref_dotdot[OF e] j rev_take_pop[OF oi] ..
      moreover have "normalize_loop len buf ?j ?o = (buf', out')"
        using loop True dotdot by auto
      ultimately show ?thesis
        using "1.IH"(3)[OF True dotdot] o "1.prems" by simp
    next
      case copy
      let ?b = "buf[out := buf ! i]"
      have ol: "out < length buf" using "1.prems" il by simp
      have "\<not> (buf ! i = CHR ''/'' \<and> ?acc \<noteq> [] \<and> hd ?acc = CHR ''/'')"
        using copy(1) acc by metis
      moreover have "\<not> (buf ! i = CHR ''.'' \<and> (drop (Suc i) buf = [] \<or>
          hd (drop (Suc i) buf) = CHR ''/'' \<or> hd (drop (Suc i) buf) = NUL))"
        using copy(2) rest(1,2) by (metis not_le)
      moreover have "\<not> (buf ! i = CHR ''.'' \<and> drop (Suc i) buf \<noteq> [] \<and> hd (drop (Suc i) buf) = CHR ''.'' \<and>
          (tl (drop (Suc i) buf) = [] \<or> hd (tl (drop (Suc i) buf)) = CHR ''/''))"
        using copy(3) rest by (metis not_le)
      ultimately have "normalize_ref ?acc (drop i buf) = normalize_ref (buf ! i # ?acc) (drop (i + 1) buf)"
        unfolding dr normalize_ref.simps(2) by (simp only: if_False Suc_eq_plus1)
      also have "buf ! i # ?acc = rev (take (out + 1) ?b)"
        using ol by (simp add: take_Suc_update)
      also have "drop (i + 1) buf = drop (i + 1) ?b"
        using "1.prems" by simp
      finally have "normalize_ref ?acc (drop i buf) =
          normalize_ref (rev (take (out + 1) ?b)) (drop (i + 1) ?b)" .
      moreover have "normalize_loop len ?b (i + 1) (out + 1) = (buf', out')"
        using loop True copy by auto
      ultimately show ?thesis
        using "1.IH"(4)[OF True copy] "1.prems" ol by simp
    qed
  qed
qed

lemma NormalizeURIPathInplace_ref:
  assumes "NormalizeURIPathInplace path = Some (buf, out)"
  shows "take out buf = (let r = rev (normalize_ref [] path) in if r = [] then ''/'' else r)"
    and "length buf = length path" and "0 < out" and "out \<le> length path"
proof -
  obtain b o' where l: "normalize_loop (length path) path 0 0 = (b, o')" by fastforce
  have r: "rev (take o' b) = normalize_ref [] path" "length b = length path" "o' \<le> length b"
    using normalize_loop_ref[OF _ _ _ l] by auto
  have ne: "path \<noteq> []" and e: "(if o' = 0 then (b[0 := CHR ''/''], 1) else (b, o')) = (buf, out)"
    using assms l by (auto simp: NormalizeURIPathInplace_def split: if_splits)
  show "take out buf = (let r = rev (normalize_ref [] path) in if r = [] then ''/'' else r)"
  proof (cases "o' = 0")
    case True
    with r(1) have "normalize_ref [] path = []" by simp
    moreover have "take out buf = ''/''"
      using True e ne r(2) by (cases b) auto
    ultimately show ?thesis by simp
  next
    case False
    with e r ne have "take out buf = rev (normalize_ref [] path)" "take out buf \<noteq> []"
      by (auto simp flip: r(1))
    then show ?thesis by (simp add: Let_def)
  qed
  show "length buf = length path" "0 < out" "out \<le> length path"
    using e r ne by (auto split: if_splits simp: Suc_le_eq)
qed

subsection \<open>Traversal safety\<close>

text \<open>
  The invariant of the reference loop for a path that starts with a slash, on the reversed
  output: the output starts with a slash, has no doubled slash, no byte \<open>.\<close> before a slash, and
  when its newest byte is a \<open>.\<close> the input does not go on with a slash, an end, or a \<open>.\<close> before
  one of them.
\<close>

definition no_bad_pair :: "string \<Rightarrow> bool" where
  "no_bad_pair = successively (\<lambda>x y. \<not> (x = CHR ''/'' \<and> (y = CHR ''/'' \<or> y = CHR ''.'')))"

definition dot_pending :: "string \<Rightarrow> string \<Rightarrow> bool" where
  "dot_pending acc rest \<longleftrightarrow> (hd acc = CHR ''.'' \<longrightarrow>
     rest \<noteq> [] \<and> hd rest \<noteq> CHR ''/'' \<and>
     (hd rest = CHR ''.'' \<longrightarrow> tl rest \<noteq> [] \<and> hd (tl rest) \<noteq> CHR ''/''))"

definition normal_inv :: "string \<Rightarrow> string \<Rightarrow> bool" where
  "normal_inv acc rest \<longleftrightarrow>
     acc \<noteq> [] \<and> last acc = CHR ''/'' \<and> no_bad_pair acc \<and> dot_pending acc rest"

lemma no_bad_pair_tl: "no_bad_pair (x # xs) \<Longrightarrow> no_bad_pair xs"
  by (cases xs) (auto simp: no_bad_pair_def)

lemma no_bad_pair_dropWhile: "no_bad_pair xs \<Longrightarrow> no_bad_pair (dropWhile P xs)"
  by (induction xs) (auto dest: no_bad_pair_tl)

lemma last_dropWhile: "xs \<noteq> [] \<Longrightarrow> \<not> P (last xs) \<Longrightarrow>
  dropWhile P xs \<noteq> [] \<and> last (dropWhile P xs) = last xs \<and> \<not> P (hd (dropWhile P xs))"
  by (induction xs) auto

lemma normal_inv_pop:
  assumes "normal_inv acc rest" "hd acc = CHR ''.'' \<or> rest' = rest \<or> hd acc = CHR ''/'' \<or> length acc > 1"
    "length acc > 1 \<or> hd acc \<noteq> CHR ''.''"
  shows "normal_inv (pop_acc acc) rest'"
proof (cases "length acc > 1")
  case True
  with assms(1) obtain a as where a: "acc = a # as" "as \<noteq> []" "last as = CHR ''/''" "no_bad_pair as"
    by (cases acc) (auto simp: normal_inv_def dest: no_bad_pair_tl)
  have "hd (dropWhile (\<lambda>x. x \<noteq> CHR ''/'') as) = CHR ''/''"
    using last_dropWhile[of as "\<lambda>x. x \<noteq> CHR ''/''"] a by blast
  with True a last_dropWhile[of as "\<lambda>x. x \<noteq> CHR ''/''"] show ?thesis
    by (simp add: normal_inv_def pop_acc_def dot_pending_def no_bad_pair_dropWhile)
next
  case False
  with assms(1) have "acc = [CHR ''/'']"
    by (cases acc) (auto simp: normal_inv_def)
  then show ?thesis by (simp add: normal_inv_def pop_acc_def dot_pending_def no_bad_pair_def)
qed

lemma normalize_ref_inv:
  "normal_inv acc rest \<Longrightarrow> normal_inv (normalize_ref acc rest) []"
proof (induction acc rest rule: normalize_ref.induct)
  case (1 acc)
  then show ?case by simp
next
  case (2 acc c rest)
  let ?s = "c = CHR ''/'' \<and> acc \<noteq> [] \<and> hd acc = CHR ''/''"
  let ?d = "c = CHR ''.'' \<and> (rest = [] \<or> hd rest = CHR ''/'' \<or> hd rest = NUL)"
  let ?dd = "c = CHR ''.'' \<and> rest \<noteq> [] \<and> hd rest = CHR ''.'' \<and>
              (tl rest = [] \<or> hd (tl rest) = CHR ''/'')"
  note inv = "2.prems"
  note unf = normalize_ref.simps(2)[of acc c rest]
  consider (slash) ?s | (dot) "\<not> ?s" ?d | (dotdot) "\<not> ?s" "\<not> ?d" ?dd
    | (copy) "\<not> ?s" "\<not> ?d" "\<not> ?dd" by blast
  then show ?case
  proof cases
    case slash
    then have "normal_inv acc rest" using inv by (auto simp: normal_inv_def dot_pending_def)
    from "2.IH"(1)[OF slash this] slash show ?thesis unfolding unf by simp
  next
    case dot
    let ?r = "if rest \<noteq> [] \<and> hd rest = CHR ''/'' then tl rest else rest"
    have "normal_inv acc ?r"
      using inv dot by (auto simp: normal_inv_def dot_pending_def)
    from "2.IH"(2)[OF dot this] dot show ?thesis unfolding unf by auto
  next
    case dotdot
    let ?r = "if tl rest \<noteq> [] \<and> hd (tl rest) = CHR ''/'' then tl (tl rest) else tl rest"
    have "length acc > 1 \<or> hd acc \<noteq> CHR ''.''"
      using inv by (cases acc) (auto simp: normal_inv_def)
    moreover have "hd acc = CHR ''.'' \<or> hd acc = CHR ''/'' \<or> length acc > 1"
      using inv by (cases acc) (auto simp: normal_inv_def)
    ultimately have "normal_inv (pop_acc acc) ?r"
      using normal_inv_pop[OF inv] by blast
    with "2.IH"(3)[OF dotdot] dotdot show ?thesis unfolding unf pop_acc_def by auto
  next
    case copy
    obtain a as where a: "acc = a # as" using inv by (cases acc) (auto simp: normal_inv_def)
    have "normal_inv (c # acc) rest"
      using inv copy a by (auto simp: normal_inv_def dot_pending_def no_bad_pair_def)
    from "2.IH"(4)[OF copy this] copy show ?thesis unfolding unf by (simp only: if_False)
  qed
qed

lemma normalize_ref_slash: "normal_inv (normalize_ref [] (CHR ''/'' # p)) []"
proof -
  have "normalize_ref [] (CHR ''/'' # p) = normalize_ref [CHR ''/''] p"
    by (simp add: normalize_ref.simps(2))
  moreover have "normal_inv [CHR ''/''] p"
    by (simp add: normal_inv_def dot_pending_def no_bad_pair_def)
  ultimately show ?thesis using normalize_ref_inv by simp
qed

text \<open>From the reversed output to the segments of the result.\<close>

lemma segments_last_not_dot:
  assumes "successively (\<lambda>x y. \<not> (x = CHR ''.'' \<and> y = CHR ''/'')) xs"
    and "xs \<noteq> [] \<Longrightarrow> last xs \<noteq> CHR ''.''"
    and "s \<in> set (segments (CHR ''/'') xs)" "s \<noteq> []"
  shows "last s \<noteq> CHR ''.''"
  using assms
proof (induction xs arbitrary: s)
  case Nil
  then show ?case by simp
next
  case (Cons x xs)
  have suc: "successively (\<lambda>x y. \<not> (x = CHR ''.'' \<and> y = CHR ''/'')) xs"
    using Cons.prems(1) by (cases xs) auto
  have lst: "xs \<noteq> [] \<Longrightarrow> last xs \<noteq> CHR ''.''"
    using Cons.prems(2) by simp
  note IH = Cons.IH[OF suc lst]
  obtain s0 ss where seg: "segments (CHR ''/'') xs = s0 # ss"
    by (cases "segments (CHR ''/'') xs") auto
  have empty: "s0 = [] \<Longrightarrow> xs = [] \<or> hd xs = CHR ''/''"
    using seg by (cases xs) (auto split: if_splits list.splits)
  show ?case
  proof (cases "x = CHR ''/'' \<or> s \<in> set ss")
    case True
    then show ?thesis using Cons.prems(3,4) seg IH by auto
  next
    case False
    then have s: "s = x # s0" using Cons.prems(3) seg by auto
    show ?thesis
    proof (cases "s0 = []")
      case True
      then show ?thesis
        using s empty Cons.prems(1,2) by (cases xs) auto
    next
      case False
      then show ?thesis using s IH seg by auto
    qed
  qed
qed

lemma normal_path_shape:
  assumes "NormalizeURIPathInplace (CHR ''/'' # p) = Some (buf, out)"
  defines "r \<equiv> take out buf"
  shows "r \<noteq> []" "hd r = CHR ''/''"
    and "successively (\<lambda>x y. \<not> (y = CHR ''/'' \<and> (x = CHR ''/'' \<or> x = CHR ''.''))) r"
    and "last r \<noteq> CHR ''.''"
proof -
  let ?a = "normalize_ref [] (CHR ''/'' # p)"
  have inv: "normal_inv ?a []" by (rule normalize_ref_slash)
  then have ne: "?a \<noteq> []" by (simp add: normal_inv_def)
  have r: "r = rev ?a"
    using NormalizeURIPathInplace_ref(1)[OF assms(1)] ne by (simp add: r_def)
  show "r \<noteq> []" "hd r = CHR ''/''" "last r \<noteq> CHR ''.''"
    using inv ne r by (auto simp: normal_inv_def dot_pending_def hd_rev last_rev)
  show "successively (\<lambda>x y. \<not> (y = CHR ''/'' \<and> (x = CHR ''/'' \<or> x = CHR ''.''))) r"
    using inv by (simp add: r normal_inv_def no_bad_pair_def)
qed

text \<open>C11. For every request path that starts with a slash, the in-place normaliser succeeds, and
  the view it returns starts with a slash, is no longer than the input, has no doubled slash, and
  none of its segments is \<open>.\<close> or \<open>..\<close>: a request cannot name a parent directory.\<close>

theorem normalized_path_has_no_traversal:
  "\<exists>buf out. NormalizeURIPathInplace (CHR ''/'' # p) = Some (buf, out)
     \<and> length buf = Suc (length p) \<and> 0 < out \<and> out \<le> Suc (length p)
     \<and> hd (take out buf) = CHR ''/''
     \<and> successively (\<lambda>x y. \<not> (x = CHR ''/'' \<and> y = CHR ''/'')) (take out buf)
     \<and> ''.'' \<notin> set (segments (CHR ''/'') (take out buf))
     \<and> ''..'' \<notin> set (segments (CHR ''/'') (take out buf))"
proof -
  obtain buf out where n: "NormalizeURIPathInplace (CHR ''/'' # p) = Some (buf, out)"
    by (cases "NormalizeURIPathInplace (CHR ''/'' # p)")
      (auto simp: NormalizeURIPathInplace_def split: prod.splits if_splits)
  note shape = normal_path_shape[OF n]
  have suc: "successively (\<lambda>x y. \<not> (x = CHR ''.'' \<and> y = CHR ''/'')) (take out buf)"
    "successively (\<lambda>x y. \<not> (x = CHR ''/'' \<and> y = CHR ''/'')) (take out buf)"
    by (rule successively_mono[OF shape(3)], auto)+
  note seg = segments_last_not_dot[OF suc(1) shape(4)]
  have "''.'' \<notin> set (segments (CHR ''/'') (take out buf))"
    "''..'' \<notin> set (segments (CHR ''/'') (take out buf))"
    using seg[of "''.''"] seg[of "''..''"] by auto
  then show ?thesis
    using n NormalizeURIPathInplace_ref(2-4)[OF n] shape(2) suc(2)
    by (intro exI[of _ buf] exI[of _ out]) simp
qed

subsection \<open>Normalised paths are fixed points\<close>

definition clean_pair :: "char \<Rightarrow> char \<Rightarrow> bool" where
  "clean_pair x y \<longleftrightarrow> \<not> (y = CHR ''/'' \<and> (x = CHR ''/'' \<or> x = CHR ''.''))"

lemma normalize_ref_clean:
  assumes "successively clean_pair (rev acc @ rest)" "rest \<noteq> [] \<Longrightarrow> last rest \<noteq> CHR ''.''"
    and "NUL \<notin> set rest"
  shows "normalize_ref acc rest = rev rest @ acc"
  using assms
proof (induction rest arbitrary: acc)
  case Nil
  then show ?case by simp
next
  case (Cons c rest)
  have suc: "successively clean_pair (c # rest)"
    using Cons.prems(1) by (auto simp: successively_append_iff)
  have "\<not> (c = CHR ''/'' \<and> acc \<noteq> [] \<and> hd acc = CHR ''/'')"
    using Cons.prems(1) by (cases acc) (auto simp: successively_append_iff clean_pair_def)
  moreover have "\<not> (c = CHR ''.'' \<and> (rest = [] \<or> hd rest = CHR ''/'' \<or> hd rest = NUL))"
    using Cons.prems(2,3) suc by (cases rest) (auto simp: clean_pair_def)
  moreover have "\<not> (c = CHR ''.'' \<and> rest \<noteq> [] \<and> hd rest = CHR ''.'' \<and>
      (tl rest = [] \<or> hd (tl rest) = CHR ''/''))"
    using Cons.prems(2) suc by (cases rest; cases "tl rest") (auto simp: clean_pair_def)
  ultimately have "normalize_ref acc (c # rest) = normalize_ref (c # acc) rest"
    unfolding normalize_ref.simps(2) by (simp only: if_False)
  also have "\<dots> = rev rest @ c # acc"
    using Cons.IH[of "c # acc"] Cons.prems by (auto split: if_splits)
  finally show ?case by simp
qed

lemma set_normalize_ref: "set (normalize_ref acc rest) \<subseteq> set acc \<union> set rest"
proof (induction acc rest rule: normalize_ref.induct)
  case (2 acc c rest)
  let ?s = "c = CHR ''/'' \<and> acc \<noteq> [] \<and> hd acc = CHR ''/''"
  let ?d = "c = CHR ''.'' \<and> (rest = [] \<or> hd rest = CHR ''/'' \<or> hd rest = NUL)"
  let ?dd = "c = CHR ''.'' \<and> rest \<noteq> [] \<and> hd rest = CHR ''.'' \<and>
              (tl rest = [] \<or> hd (tl rest) = CHR ''/'')"
  have tl: "set (tl xs) \<subseteq> set xs" for xs :: string
    by (cases xs) auto
  have pop: "set (if length acc > 1 then dropWhile (\<lambda>x. x \<noteq> CHR ''/'') (tl acc) else acc) \<subseteq> set acc"
    using tl[of acc] by (auto dest: set_dropWhileD)
  have skip: "set (if P then tl rest else rest) \<subseteq> set rest"
    "set (if P then tl (tl rest) else tl rest) \<subseteq> set rest" for P
    using tl[of rest] tl[of "tl rest"] by auto
  consider (slash) ?s | (dot) "\<not> ?s" ?d | (dotdot) "\<not> ?s" "\<not> ?d" ?dd
    | (copy) "\<not> ?s" "\<not> ?d" "\<not> ?dd" by blast
  then show ?case
  proof cases
    case slash
    from "2.IH"(1)[OF slash] show ?thesis
      unfolding normalize_ref.simps(2)[of acc c rest] if_P[OF slash] by auto
  next
    case dot
    from "2.IH"(2)[OF dot] show ?thesis
      unfolding normalize_ref.simps(2)[of acc c rest] if_not_P[OF dot(1)] if_P[OF dot(2)]
      using skip(1) by (meson Un_mono order_trans set_subset_Cons subset_refl)
  next
    case dotdot
    from "2.IH"(3)[OF dotdot] show ?thesis
      unfolding normalize_ref.simps(2)[of acc c rest] if_not_P[OF dotdot(1)] if_not_P[OF dotdot(2)]
        if_P[OF dotdot(3)]
      using skip(2) pop by (meson Un_mono order_trans set_subset_Cons subset_refl)
  next
    case copy
    from "2.IH"(4)[OF copy] show ?thesis
      unfolding normalize_ref.simps(2)[of acc c rest] if_not_P[OF copy(1)] if_not_P[OF copy(2)]
        if_not_P[OF copy(3)] by auto
  qed
qed simp

text \<open>C28. Normalising twice changes nothing: for every NUL-free path that starts with a slash, the
  normaliser returns its own result unchanged.\<close>

theorem normalize_idempotent:
  assumes "NUL \<notin> set p"
    and "NormalizeURIPathInplace (CHR ''/'' # p) = Some (buf, out)"
  shows "\<exists>buf'. NormalizeURIPathInplace (take out buf) = Some (buf', out) \<and> take out buf' = take out buf"
proof -
  let ?r = "take out buf"
  note shape = normal_path_shape[OF assms(2)]
  have len: "length ?r = out"
    using NormalizeURIPathInplace_ref(2-4)[OF assms(2)] by simp
  obtain b o' where n: "NormalizeURIPathInplace ?r = Some (b, o')"
    using shape(1) by (cases "NormalizeURIPathInplace ?r")
      (auto simp: NormalizeURIPathInplace_def split: prod.splits if_splits)
  have "?r = rev (normalize_ref [] (CHR ''/'' # p))"
    using NormalizeURIPathInplace_ref(1)[OF assms(2)] normalize_ref_slash[of p]
    by (auto simp: normal_inv_def)
  then have nul: "NUL \<notin> set ?r"
    using set_normalize_ref[of "[]" "CHR ''/'' # p"] assms(1) by auto
  have "successively clean_pair ?r"
    using shape(3) by (simp add: clean_pair_def[abs_def])
  then have "normalize_ref [] ?r = rev ?r"
    using normalize_ref_clean[of "[]" ?r] shape(4) nul by simp
  then have "take o' b = ?r"
    using NormalizeURIPathInplace_ref(1)[OF n] shape(1) by auto
  moreover have "o' = length (take o' b)"
    using NormalizeURIPathInplace_ref(2-4)[OF n] by simp
  ultimately show ?thesis
    using n len by auto
qed

theorem normalize_idempotent_witness:
  "NormalizeURIPathInplace ''/a//../b/./c'' = Some (''/b/c../b/./c'', 4) \<and>
   (\<exists>buf'. NormalizeURIPathInplace (take 4 ''/b/c../b/./c'') = Some (buf', 4) \<and>
      take 4 buf' = take 4 ''/b/c../b/./c'')"
proof -
  have "NormalizeURIPathInplace ''/a//../b/./c'' = Some (''/b/c../b/./c'', 4)"
    by code_simp
  then show ?thesis
    using normalize_idempotent[of "''a//../b/./c''" "''/b/c../b/./c''" 4] by simp
qed

section \<open>Identifiers, integers, trimming\<close>

definition is_upper :: "char \<Rightarrow> bool" where
  "is_upper c \<longleftrightarrow> CHR ''A'' \<le> c \<and> c \<le> CHR ''Z''"

definition is_lower :: "char \<Rightarrow> bool" where
  "is_lower c \<longleftrightarrow> CHR ''a'' \<le> c \<and> c \<le> CHR ''z''"

definition is_digit :: "char \<Rightarrow> bool" where
  "is_digit c \<longleftrightarrow> CHR ''0'' \<le> c \<and> c \<le> CHR ''9''"

definition NormalizePathToIdentifier :: "string \<Rightarrow> string \<Rightarrow> string" where
  "NormalizePathToIdentifier path prefix =
     prefix @ map (\<lambda>c. if is_lower c \<or> is_upper c \<or> is_digit c then c else CHR ''_'') path"

text \<open>
  \<open>std::to_chars\<close> and \<open>std::from_chars\<close> for decimal integers: the shortest digit string, and the
  value of the longest digit prefix, out of range when it does not fit the type.
\<close>

definition digit_char :: "nat \<Rightarrow> char" where
  "digit_char d = char_of (48 + d)"

definition digit_val :: "char \<Rightarrow> nat" where
  "digit_val c = of_char c - 48"

fun to_chars :: "nat \<Rightarrow> string" where
  "to_chars n = (if n < 10 then [digit_char n] else to_chars (n div 10) @ [digit_char (n mod 10)])"

declare to_chars.simps [simp del]

definition digits_val :: "string \<Rightarrow> nat" where
  "digits_val ds = foldl (\<lambda>a d. 10 * a + digit_val d) 0 ds"

datatype from_chars_result =
    FcOk int nat           \<comment> \<open>value and number of characters consumed\<close>
  | FcInvalid              \<comment> \<open>\<open>std::errc::invalid_argument\<close>\<close>
  | FcOutOfRange           \<comment> \<open>\<open>std::errc::result_out_of_range\<close>\<close>

definition from_chars_unsigned :: "nat \<Rightarrow> string \<Rightarrow> from_chars_result" where
  "from_chars_unsigned maxv s =
     (let ds = takeWhile is_digit s in
      if ds = [] then FcInvalid
      else if digits_val ds > maxv then FcOutOfRange
      else FcOk (int (digits_val ds)) (length ds))"

definition from_chars_signed :: "int \<Rightarrow> int \<Rightarrow> string \<Rightarrow> from_chars_result" where
  "from_chars_signed minv maxv s =
     (let neg = (s \<noteq> [] \<and> hd s = CHR ''-'');
          body = (if neg then tl s else s);
          ds = takeWhile is_digit body;
          v = (if neg then - int (digits_val ds) else int (digits_val ds)) in
      if ds = [] then FcInvalid
      else if v < minv \<or> v > maxv then FcOutOfRange
      else FcOk v (length ds + (if neg then 1 else 0)))"

definition UInt64ToStr :: "u64 \<Rightarrow> string \<Rightarrow> string" where
  "UInt64ToStr value fallback =
     (let s = to_chars (unat value) in if length s > 21 then fallback else s)"

definition StrToUInt64 :: "string \<Rightarrow> u64 option" where
  "StrToUInt64 str =
     (if str = [] then None
      else (case from_chars_unsigned (2 ^ 64 - 1) str of
              FcOk v n \<Rightarrow> if n = length str then Some (word_of_int v) else None
            | _ \<Rightarrow> None))"

definition StrToInt64 :: "string \<Rightarrow> int option" where
  "StrToInt64 str =
     (if str = [] then None
      else (case from_chars_signed (- (2 ^ 63)) (2 ^ 63 - 1) str of
              FcOk v n \<Rightarrow> if n = length str then Some v else None
            | _ \<Rightarrow> None))"

text \<open>The six bytes of the \<open>find_first_not_of\<close> set, which \<open>std::isspace\<close> accepts in the C locale.\<close>

definition is_space :: "char \<Rightarrow> bool" where
  "is_space c \<longleftrightarrow> c \<in> set [CHR '' '', TAB, LF, CR, CHR 0x0C, CHR 0x0B]"

definition TrimInline :: "string \<Rightarrow> string" where
  "TrimInline s =
     (case filter (\<lambda>i. \<not> is_space (s ! i)) [0..<length s] of
        [] \<Rightarrow> []
      | start # more \<Rightarrow> (let stop = last (start # more) in drop start (take (stop + 1) s)))"

fun trim_start :: "string \<Rightarrow> nat \<Rightarrow> nat \<Rightarrow> nat" where
  "trim_start sv start 0 = start"
| "trim_start sv start (Suc n) =
     (if is_space (sv ! start) then trim_start sv (Suc start) n else start)"

fun trim_end :: "string \<Rightarrow> nat \<Rightarrow> nat \<Rightarrow> nat" where
  "trim_end sv start 0 = 0"
| "trim_end sv start (Suc stop) =
     (if Suc stop > start \<and> is_space (sv ! stop) then trim_end sv start stop else Suc stop)"

definition TrimView :: "string \<Rightarrow> string" where
  "TrimView sv =
     (let start = trim_start sv 0 (length sv); stop = trim_end sv start (length sv)
      in sv_substr start (stop - start) sv)"

subsection \<open>Round trip of decimal integers\<close>

lemma digit_val_char: "d < 10 \<Longrightarrow> digit_val (digit_char d) = d"
  by (simp add: digit_val_def digit_char_def take_bit_nat_eq_self)

lemma is_digit_char: "d < 10 \<Longrightarrow> is_digit (digit_char d)"
  by (simp add: is_digit_def digit_char_def less_eq_char_def take_bit_nat_eq_self)

lemma to_chars_digits: "list_all is_digit (to_chars n) \<and> to_chars n \<noteq> [] \<and> digits_val (to_chars n) = n"
proof (induction n rule: to_chars.induct)
  case (1 n)
  show ?case
  proof (cases "n < 10")
    case True
    then show ?thesis
      by (simp add: to_chars.simps[of n] is_digit_char digits_val_def digit_val_char)
  next
    case False
    with 1 show ?thesis
      by (simp add: to_chars.simps[of n] is_digit_char digits_val_def digit_val_char)
  qed
qed

lemma length_to_chars: "n < 10 ^ k \<Longrightarrow> 0 < k \<Longrightarrow> length (to_chars n) \<le> k"
proof (induction n arbitrary: k rule: to_chars.induct)
  case (1 n)
  show ?case
  proof (cases "n < 10")
    case True
    with "1.prems" show ?thesis by (simp add: to_chars.simps[of n])
  next
    case False
    with "1.prems" obtain j where k: "k = Suc j" "0 < j"
      by (cases k; cases "k - 1") auto
    with "1.prems" have "n div 10 < 10 ^ j"
      by (simp add: less_mult_imp_div_less mult.commute)
    with False k "1.IH"[of j] show ?thesis
      by (simp add: to_chars.simps[of n])
  qed
qed

lemma takeWhile_all: "list_all P xs \<Longrightarrow> takeWhile P xs = xs"
  by (simp add: list_all_iff)

text \<open>\<open>StrToUInt64\<close> reads back every 64-bit value \<open>UInt64ToStr\<close> prints, and the fallback string is
  never used.\<close>

theorem StrToUInt64_UInt64ToStr: "StrToUInt64 (UInt64ToStr v fallback) = Some v"
proof -
  let ?s = "to_chars (unat v)"
  have v: "unat v < 2 ^ 64" using unsigned_less[of v] by simp
  then have "unat v < 10 ^ 21" by simp
  then have "length ?s \<le> 21" by (rule length_to_chars) simp
  then have s: "UInt64ToStr v fallback = ?s" by (simp add: UInt64ToStr_def)
  note ds = to_chars_digits[of "unat v"]
  have "from_chars_unsigned (2 ^ 64 - 1) ?s = FcOk (int (unat v)) (length ?s)"
    using ds v by (simp add: from_chars_unsigned_def takeWhile_all)
  then show ?thesis
    using ds by (simp add: s StrToUInt64_def)
qed

subsection \<open>Trimming\<close>

text \<open>The loops of \<open>TrimView\<close> drop exactly the white space at both ends.\<close>

lemma trim_start_dropWhile:
  "n + start = length sv \<Longrightarrow> drop (trim_start sv start n) sv = dropWhile is_space (drop start sv)
     \<and> trim_start sv start n \<le> length sv \<and> start \<le> trim_start sv start n"
proof (induction n arbitrary: start)
  case 0
  then show ?case by simp
next
  case (Suc n)
  then have "drop start sv = sv ! start # drop (Suc start) sv"
    by (simp add: Cons_nth_drop_Suc)
  with Suc.prems Suc.IH[of "Suc start"] show ?case by auto
qed

lemma trim_end_dropWhile:
  "start \<le> stop \<Longrightarrow> stop \<le> length sv \<Longrightarrow>
   take (trim_end sv start stop - start) (drop start sv) =
     rev (dropWhile is_space (rev (take (stop - start) (drop start sv))))
   \<and> start \<le> trim_end sv start stop"
proof (induction stop)
  case 0
  then show ?case by simp
next
  case (Suc stop)
  show ?case
  proof (cases "start = Suc stop")
    case True
    then show ?thesis by simp
  next
    case False
    with Suc.prems have "take (Suc stop - start) (drop start sv) =
        take (stop - start) (drop start sv) @ [sv ! stop]"
      by (simp add: Suc_diff_le take_Suc_conv_app_nth)
    with False Suc show ?thesis by auto
  qed
qed

lemma TrimView_eq: "TrimView sv = rev (dropWhile is_space (rev (dropWhile is_space sv)))"
proof -
  let ?s = "trim_start sv 0 (length sv)"
  have s: "drop ?s sv = dropWhile is_space sv" "?s \<le> length sv"
    using trim_start_dropWhile[of "length sv" 0 sv] by auto
  have "take (trim_end sv ?s (length sv) - ?s) (drop ?s sv) =
      rev (dropWhile is_space (rev (take (length sv - ?s) (drop ?s sv))))"
    using trim_end_dropWhile[of ?s "length sv" sv] s by blast
  moreover have "take (length sv - ?s) (drop ?s sv) = dropWhile is_space sv"
    by (simp add: s(1)[symmetric])
  ultimately show ?thesis
    by (simp add: TrimView_def sv_substr_def Let_def)
qed

end
