(* ===== verification/HttpHeaders.thy ===== *)
theory HttpHeaders
  imports StringUtils
begin

text \<open>
  Model of \<open>src/http/headers\<close> and of the constants of \<open>src/shared/abis/constants.hpp\<close> the parser
  reads. A header map is an association list in which two keys are the same when
  \<open>CaseInsensitiveEqual\<close> says so. Keys are views or strings, so the operations take the function
  that reads a key's bytes. The laws of \<open>std::unordered_map\<close> need equal keys to have equal hashes,
  which is proved for \<open>CaseInsensitiveHash\<close>.
\<close>

section \<open>Methods and versions\<close>

datatype HttpMethod = M_GET | M_POST | M_PUT | M_DELETE | M_PATCH | M_HEAD | M_OPTIONS | M_CONNECT | M_TRACE | M_UNKNOWN

datatype HttpVersion = HTTP_1_0 | HTTP_1_1 | HTTP_2_0 | V_UNKNOWN

definition HttpMethodToEnum :: "string \<Rightarrow> HttpMethod" where
  "HttpMethodToEnum m =
     (if m = ''GET'' then M_GET else if m = ''POST'' then M_POST else if m = ''PUT'' then M_PUT
      else if m = ''DELETE'' then M_DELETE else if m = ''PATCH'' then M_PATCH
      else if m = ''HEAD'' then M_HEAD else if m = ''OPTIONS'' then M_OPTIONS
      else if m = ''CONNECT'' then M_CONNECT else if m = ''TRACE'' then M_TRACE else M_UNKNOWN)"

fun HttpMethodToStringView :: "HttpMethod \<Rightarrow> string" where
  "HttpMethodToStringView M_GET = ''GET''"
| "HttpMethodToStringView M_POST = ''POST''"
| "HttpMethodToStringView M_PUT = ''PUT''"
| "HttpMethodToStringView M_DELETE = ''DELETE''"
| "HttpMethodToStringView M_PATCH = ''PATCH''"
| "HttpMethodToStringView M_HEAD = ''HEAD''"
| "HttpMethodToStringView M_OPTIONS = ''OPTIONS''"
| "HttpMethodToStringView M_CONNECT = ''CONNECT''"
| "HttpMethodToStringView M_TRACE = ''TRACE''"
| "HttpMethodToStringView M_UNKNOWN = ''GET''"

definition HttpVersionToEnum :: "string \<Rightarrow> HttpVersion" where
  "HttpVersionToEnum v =
     (if v = ''HTTP/1.1'' then HTTP_1_1 else if v = ''HTTP/1.0'' then HTTP_1_0
      else if v = ''HTTP/2.0'' then HTTP_2_0 else V_UNKNOWN)"

lemma method_roundtrip: "m \<noteq> M_UNKNOWN \<Longrightarrow> HttpMethodToEnum (HttpMethodToStringView m) = m"
  by (cases m) (simp_all add: HttpMethodToEnum_def)

section \<open>Hash and equality of header names\<close>

definition Fnv1aCaseInsensitive :: "string \<Rightarrow> u64" where
  "Fnv1aCaseInsensitive s =
     foldl (\<lambda>hash ch. let c = byte_of ch in
              (hash XOR ucast (if 0x41 \<le> c \<and> c \<le> 0x5A then c OR 0x20 else c)) * 1099511628211)
       14695981039346656037 s"

definition CaseInsensitiveEqual :: "string \<Rightarrow> string \<Rightarrow> bool" where
  "CaseInsensitiveEqual lhs rhs = CTInsensitiveStringCompare lhs rhs"

definition CaseInsensitiveHash :: "string \<Rightarrow> u64" where
  "CaseInsensitiveHash key = Fnv1aCaseInsensitive key"

lemma Fnv1a_ci_key:
  "Fnv1aCaseInsensitive s = foldl (\<lambda>h c. (h XOR ucast c) * 1099511628211) 14695981039346656037 (ci_key s)"
  unfolding Fnv1aCaseInsensitive_def ci_key_def foldl_map
  by (simp add: ToLowerAscii_def Let_def)

lemma CaseInsensitiveEqual_ci: "CaseInsensitiveEqual s t \<longleftrightarrow> ci_key s = ci_key t"
  by (simp add: CaseInsensitiveEqual_def CTInsensitive_ci_key)

lemma equal_names_hash_equally:
  "CaseInsensitiveEqual s t \<Longrightarrow> CaseInsensitiveHash s = CaseInsensitiveHash t"
  by (simp add: CaseInsensitiveEqual_ci CaseInsensitiveHash_def Fnv1a_ci_key)

section \<open>The header map\<close>

type_synonym ('k, 'v) headers = "('k \<times> 'v) list"

fun SetHeader :: "('k \<Rightarrow> string) \<Rightarrow> 'k \<Rightarrow> 'v \<Rightarrow> ('k, 'v) headers \<Rightarrow> ('k, 'v) headers" where
  "SetHeader rd key val [] = [(key, val)]"
| "SetHeader rd key val ((k, v) # hs) =
     (if CaseInsensitiveEqual (rd k) (rd key) then (k, val) # hs else (k, v) # SetHeader rd key val hs)"

fun CheckAndGetHeader :: "('k \<Rightarrow> string) \<Rightarrow> string \<Rightarrow> ('k, 'v) headers \<Rightarrow> 'v option" where
  "CheckAndGetHeader rd key [] = None"
| "CheckAndGetHeader rd key ((k, v) # hs) =
     (if CaseInsensitiveEqual (rd k) key then Some v else CheckAndGetHeader rd key hs)"

definition HasHeader :: "('k \<Rightarrow> string) \<Rightarrow> string \<Rightarrow> ('k, 'v) headers \<Rightarrow> bool" where
  "HasHeader rd key hs = (CheckAndGetHeader rd key hs \<noteq> None)"

text \<open>\<open>GetHeader\<close> returns \<open>V{}\<close>, the empty value, for a name that is not there.\<close>

definition GetHeader :: "('k \<Rightarrow> string) \<Rightarrow> 'v \<Rightarrow> string \<Rightarrow> ('k, 'v) headers \<Rightarrow> 'v" where
  "GetHeader rd v0 key hs = (case CheckAndGetHeader rd key hs of Some v \<Rightarrow> v | None \<Rightarrow> v0)"

definition RemoveHeader :: "('k \<Rightarrow> string) \<Rightarrow> string \<Rightarrow> ('k, 'v) headers \<Rightarrow> ('k, 'v) headers" where
  "RemoveHeader rd key hs = filter (\<lambda>(k, v). \<not> CaseInsensitiveEqual (rd k) key) hs"

definition ClearHeaders :: "('k, 'v) headers \<Rightarrow> ('k, 'v) headers" where
  "ClearHeaders hs = []"

text \<open>The abstraction: a partial map on folded names.\<close>

definition header_map :: "('k \<Rightarrow> string) \<Rightarrow> ('k, 'v) headers \<Rightarrow> u8 list \<Rightarrow> 'v option" where
  "header_map rd hs = map_of (map (\<lambda>(k, v). (ci_key (rd k), v)) hs)"

definition headers_distinct :: "('k \<Rightarrow> string) \<Rightarrow> ('k, 'v) headers \<Rightarrow> bool" where
  "headers_distinct rd hs \<longleftrightarrow> distinct (map (\<lambda>h. ci_key (rd (fst h))) hs)"

lemma CheckAndGetHeader_map: "CheckAndGetHeader rd key hs = header_map rd hs (ci_key key)"
  by (induction hs) (auto simp: header_map_def CaseInsensitiveEqual_ci)

lemma SetHeader_map: "header_map rd (SetHeader rd key val hs) = (header_map rd hs)(ci_key (rd key) \<mapsto> val)"
  by (induction hs) (auto simp: header_map_def CaseInsensitiveEqual_ci)

lemma SetHeader_names:
  "map (\<lambda>h. ci_key (rd (fst h))) (SetHeader rd key val hs) =
     (let ns = map (\<lambda>h. ci_key (rd (fst h))) hs in
      if ci_key (rd key) \<in> set ns then ns else ns @ [ci_key (rd key)])"
  by (induction hs) (simp_all add: CaseInsensitiveEqual_ci Let_def split_paired_all eq_commute[of "ci_key (rd key)"])

lemma SetHeader_distinct: "headers_distinct rd hs \<Longrightarrow> headers_distinct rd (SetHeader rd key val hs)"
  unfolding headers_distinct_def SetHeader_names Let_def by simp

lemma SetHeader_all:
  assumes "\<forall>h \<in> set hs. P (fst h) \<and> Q (snd h)" "P key" "Q val"
  shows "\<forall>h \<in> set (SetHeader rd key val hs). P (fst h) \<and> Q (snd h)"
  using assms
proof (induction hs)
  case (Cons h hs)
  obtain k v where h: "h = (k, v)" by fastforce
  have "set (SetHeader rd key val (h # hs)) \<subseteq> {(k, val), (k, v)} \<union> set hs \<union> set (SetHeader rd key val hs)"
    unfolding h by auto
  with Cons h show ?case by fastforce
qed simp

lemma RemoveHeader_map: "header_map rd (RemoveHeader rd key hs) = (header_map rd hs)(ci_key key := None)"
  by (induction hs) (auto simp: header_map_def RemoveHeader_def CaseInsensitiveEqual_ci fun_eq_iff)

text \<open>
  The interface a client of the headers sees: what a lookup returns after a set, a removal or a
  clear, with names compared without case.
\<close>

locale header_store =
  fixes setv :: "string \<Rightarrow> 'v \<Rightarrow> 's \<Rightarrow> 's"
    and remv :: "string \<Rightarrow> 's \<Rightarrow> 's"
    and getv :: "string \<Rightarrow> 's \<Rightarrow> 'v option"
    and empty :: 's
  assumes get_set: "getv k' (setv k v s) = (if InsensitiveStringCompare k k' then Some v else getv k' s)"
    and get_rem: "getv k' (remv k s) = (if InsensitiveStringCompare k k' then None else getv k' s)"
    and get_empty: "getv k empty = None"
begin

fun store_all :: "(string \<times> 'v) list \<Rightarrow> 's" where
  "store_all [] = empty"
| "store_all ((k, v) # kvs) = setv k v (store_all kvs)"

lemma store_all_lookup:
  "getv k (store_all kvs) = map_option snd (List.find (\<lambda>(k', v). InsensitiveStringCompare k' k) kvs)"
  by (induction kvs) (auto simp: get_empty get_set)

end

interpretation hdr: header_store "SetHeader id" "RemoveHeader id" "CheckAndGetHeader id" "[]"
proof (unfold_locales, goal_cases)
  case (1 k' k v s)
  then show ?case by (auto simp: CheckAndGetHeader_map SetHeader_map Insensitive_ci_key)
next
  case (2 k' k s)
  then show ?case by (auto simp: CheckAndGetHeader_map RemoveHeader_map Insensitive_ci_key)
next
  case (3 k)
  then show ?case by simp
qed

end
