(* ===== verification/RWBuffer.thy ===== *)
theory RWBuffer
  imports WFX_Prelude
begin

text \<open>
  Model of \<open>src/utils/rw_buffer\<close>: the read and write buffer of a connection, each one heap
  block that starts with its metadata. Sizes keep their 32-bit width, the 64-bit intermediate
  sums and the narrowing casts of the code are written out. The allocator behind
  \<open>Shared::Alloc\<close> and \<open>Shared::Realloc\<close> (TLSF, not part of the sources) is an argument: it maps
  a request to an address or refuses it, and fixes the bytes fresh memory holds.
\<close>

section \<open>Blocks\<close>

record allocator =
  a_alloc :: "u64 \<Rightarrow> u64 option"
  a_realloc :: "u64 \<Rightarrow> u64 \<Rightarrow> u64 option"
  a_junk :: "nat \<Rightarrow> char"

record RWBaseMetadata =
  bufferSize :: u32
  dataLength :: u32

record WriteMetadata = RWBaseMetadata +
  writtenLength :: u32

type_synonym ReadMetadata = RWBaseMetadata

text \<open>A block: its address, the bytes the allocator was asked for, the metadata, and the bytes
  that follow the metadata.\<close>

record 'm block =
  blk_addr :: u64
  blk_size :: u64
  blk_meta :: 'm
  blk_bytes :: string

record RWBuffer =
  writeBuffer :: "WriteMetadata block option"
  readBuffer :: "ReadMetadata block option"

definition sizeof_ReadMetadata :: u32 where "sizeof_ReadMetadata = 8"
definition sizeof_WriteMetadata :: u32 where "sizeof_WriteMetadata = 16"

lemmas sizeofs [simp] = sizeof_ReadMetadata_def sizeof_WriteMetadata_def

text \<open>What \<open>realloc\<close> leaves in the block: the old bytes up to the smaller size, then junk.\<close>

definition resize_bytes :: "(nat \<Rightarrow> char) \<Rightarrow> nat \<Rightarrow> string \<Rightarrow> string" where
  "resize_bytes junk n bs = take n bs @ map junk [length bs..<n]"

text \<open>\<open>memcpy\<close> to an offset. Past the end it makes the list longer than the block, so a write out
  of bounds breaks the block invariant instead of disappearing.\<close>

definition write_at :: "nat \<Rightarrow> string \<Rightarrow> string \<Rightarrow> string" where
  "write_at off ds bs = take off bs @ ds @ drop (off + length ds) bs"

section \<open>Initialisation and clearing\<close>

definition InitReadBuffer :: "allocator \<Rightarrow> u32 \<Rightarrow> RWBuffer \<Rightarrow> bool \<times> RWBuffer" where
  "InitReadBuffer A sz rw =
     (case readBuffer rw of
        Some _ \<Rightarrow> (True, rw)
      | None \<Rightarrow>
         let allocSize = (ucast sizeof_ReadMetadata + ucast sz :: u64) in
         case a_alloc A allocSize of
           None \<Rightarrow> (False, rw)
         | Some p \<Rightarrow>
            (True, rw\<lparr>readBuffer := Some
               \<lparr>blk_addr = p, blk_size = allocSize, blk_meta = \<lparr>bufferSize = sz, dataLength = 0\<rparr>,
                blk_bytes = map (a_junk A) [0..<unat sz]\<rparr>\<rparr>))"

definition InitWriteBuffer :: "allocator \<Rightarrow> u32 \<Rightarrow> RWBuffer \<Rightarrow> bool \<times> RWBuffer" where
  "InitWriteBuffer A sz rw =
     (case writeBuffer rw of
        Some _ \<Rightarrow> (True, rw)
      | None \<Rightarrow>
         let allocSize = (ucast sizeof_WriteMetadata + ucast sz :: u64) in
         case a_alloc A allocSize of
           None \<Rightarrow> (False, rw)
         | Some p \<Rightarrow>
            (True, rw\<lparr>writeBuffer := Some
               \<lparr>blk_addr = p, blk_size = allocSize,
                blk_meta = \<lparr>bufferSize = sz, dataLength = 0, writtenLength = 0\<rparr>,
                blk_bytes = map (a_junk A) [0..<unat sz]\<rparr>\<rparr>))"

definition ResetBuffer :: "RWBuffer \<Rightarrow> RWBuffer" where
  "ResetBuffer rw = rw\<lparr>readBuffer := None, writeBuffer := None\<rparr>"

definition ClearWriteBuffer :: "RWBuffer \<Rightarrow> RWBuffer" where
  "ClearWriteBuffer rw = rw\<lparr>writeBuffer := map_option
     (\<lambda>b. b\<lparr>blk_meta := (blk_meta b)\<lparr>dataLength := 0, writtenLength := 0\<rparr>\<rparr>) (writeBuffer rw)\<rparr>"

definition ClearReadBuffer :: "RWBuffer \<Rightarrow> RWBuffer" where
  "ClearReadBuffer rw = rw\<lparr>readBuffer := map_option
     (\<lambda>b. b\<lparr>blk_meta := (blk_meta b)\<lparr>dataLength := 0\<rparr>\<rparr>) (readBuffer rw)\<rparr>"

definition ClearBuffer :: "RWBuffer \<Rightarrow> RWBuffer" where
  "ClearBuffer rw = ClearWriteBuffer (ClearReadBuffer rw)"

definition IsReadInitialized :: "RWBuffer \<Rightarrow> bool" where
  "IsReadInitialized rw = (readBuffer rw \<noteq> None)"

definition IsWriteInitialized :: "RWBuffer \<Rightarrow> bool" where
  "IsWriteInitialized rw = (writeBuffer rw \<noteq> None)"

text \<open>The data pointers: the address just after the metadata.\<close>

definition GetReadData :: "RWBuffer \<Rightarrow> u64 option" where
  "GetReadData rw = map_option (\<lambda>b. blk_addr b + ucast sizeof_ReadMetadata) (readBuffer rw)"

definition GetWriteData :: "RWBuffer \<Rightarrow> u64 option" where
  "GetWriteData rw = map_option (\<lambda>b. blk_addr b + ucast sizeof_WriteMetadata) (writeBuffer rw)"

section \<open>Growing and appending\<close>

definition reallocated ::
  "allocator \<Rightarrow> u32 \<Rightarrow> u64 \<Rightarrow> u64 \<Rightarrow> 'a RWBaseMetadata_scheme block \<Rightarrow> 'a RWBaseMetadata_scheme block" where
  "reallocated A metaSize newSize p blk =
     (let allocSize = (ucast (ucast metaSize + newSize :: u64) :: u32) in
      blk\<lparr>blk_addr := p, blk_size := ucast allocSize,
          blk_bytes := resize_bytes (a_junk A) (unat allocSize - unat metaSize) (blk_bytes blk),
          blk_meta := (blk_meta blk)\<lparr>bufferSize := ucast newSize\<rparr>\<rparr>)"

definition GenericGrowBuffer ::
  "allocator \<Rightarrow> 'a RWBaseMetadata_scheme block option \<Rightarrow> u32 \<Rightarrow> u32 \<Rightarrow> u32 \<Rightarrow> u32 \<Rightarrow>
     bool \<times> 'a RWBaseMetadata_scheme block option" where
  "GenericGrowBuffer A buffer metaSize growSize maxSize minSize =
     (case buffer of
        None \<Rightarrow> (False, buffer)
      | Some blk \<Rightarrow>
          let meta = blk_meta blk in
          if bufferSize meta \<ge> maxSize then (False, buffer)
          else if minSize > maxSize then (False, buffer)
          else
            let s0 = (if growSize \<noteq> 0 then ucast (bufferSize meta) + ucast growSize else ucast maxSize :: u64);
                s1 = (if ucast minSize > s0 then ucast minSize else s0);
                newSize = (if s1 > ucast maxSize then ucast maxSize else s1);
                allocSize = (ucast (ucast metaSize + newSize) :: u32)
            in (case a_realloc A (blk_addr blk) (ucast allocSize) of
                  None \<Rightarrow> (False, buffer)
                | Some p \<Rightarrow> (True, Some (reallocated A metaSize newSize p blk))))"

definition append_target :: "u32 \<Rightarrow> u64 \<Rightarrow> u32 \<Rightarrow> u32 \<Rightarrow> u64" where
  "append_target bufSize required growSize maxSize =
     (let newSize = (if growSize = 0 then required
                     else let deficit = required - ucast bufSize;
                              steps = (deficit + ucast growSize - 1) div ucast growSize
                          in ucast bufSize + steps * ucast growSize)
      in if newSize > ucast maxSize then ucast maxSize else newSize)"

definition append_copy :: "u32 \<Rightarrow> string \<Rightarrow> 'a RWBaseMetadata_scheme block \<Rightarrow> 'a RWBaseMetadata_scheme block" where
  "append_copy sz ds b =
     b\<lparr>blk_bytes := write_at (unat (dataLength (blk_meta b))) (take (unat sz) ds) (blk_bytes b),
       blk_meta := (blk_meta b)\<lparr>dataLength := dataLength (blk_meta b) + sz\<rparr>\<rparr>"

definition GenericAppendData ::
  "allocator \<Rightarrow> 'a RWBaseMetadata_scheme block option \<Rightarrow> u32 \<Rightarrow> string option \<Rightarrow> u32 \<Rightarrow> u32 \<Rightarrow> u32 \<Rightarrow>
     bool \<times> 'a RWBaseMetadata_scheme block option" where
  "GenericAppendData A buffer metaSize datap sz growSize maxSize =
     (case (buffer, datap) of
        (Some blk, Some ds) \<Rightarrow>
          if sz = 0 then (False, buffer)
          else
            let meta = blk_meta blk;
                required = (ucast (dataLength meta) + ucast sz :: u64)
            in if required > ucast (bufferSize meta) then
                 if required > ucast maxSize then (False, buffer)
                 else
                   let newSize = append_target (bufferSize meta) required growSize maxSize;
                       allocSize = (ucast (ucast metaSize + newSize) :: u32)
                   in (case a_realloc A (blk_addr blk) (ucast allocSize) of
                         None \<Rightarrow> (False, buffer)
                       | Some p \<Rightarrow> (True, Some (append_copy sz ds (reallocated A metaSize newSize p blk))))
               else (True, Some (append_copy sz ds blk))
      | _ \<Rightarrow> (False, buffer))"

definition GrowReadBuffer :: "allocator \<Rightarrow> u32 \<Rightarrow> u32 \<Rightarrow> u32 \<Rightarrow> RWBuffer \<Rightarrow> bool \<times> RWBuffer" where
  "GrowReadBuffer A growSize maxSize minSize rw =
     (case GenericGrowBuffer A (readBuffer rw) sizeof_ReadMetadata growSize maxSize minSize of
        (ok, b) \<Rightarrow> (ok, rw\<lparr>readBuffer := b\<rparr>))"

definition AppendReadData :: "allocator \<Rightarrow> string option \<Rightarrow> u32 \<Rightarrow> u32 \<Rightarrow> u32 \<Rightarrow> RWBuffer \<Rightarrow> bool \<times> RWBuffer" where
  "AppendReadData A datap sz incSize maxSize rw =
     (case GenericAppendData A (readBuffer rw) sizeof_ReadMetadata datap sz incSize maxSize of
        (ok, b) \<Rightarrow> (ok, rw\<lparr>readBuffer := b\<rparr>))"

definition GrowWriteBuffer :: "allocator \<Rightarrow> u32 \<Rightarrow> u32 \<Rightarrow> RWBuffer \<Rightarrow> bool \<times> RWBuffer" where
  "GrowWriteBuffer A growSize maxSize rw =
     (case GenericGrowBuffer A (writeBuffer rw) sizeof_WriteMetadata growSize maxSize 0 of
        (ok, b) \<Rightarrow> (ok, rw\<lparr>writeBuffer := b\<rparr>))"

definition AppendWriteData :: "allocator \<Rightarrow> string option \<Rightarrow> u32 \<Rightarrow> u32 \<Rightarrow> u32 \<Rightarrow> RWBuffer \<Rightarrow> bool \<times> RWBuffer" where
  "AppendWriteData A datap sz incSize maxSize rw =
     (case GenericAppendData A (writeBuffer rw) sizeof_WriteMetadata datap sz incSize maxSize of
        (ok, b) \<Rightarrow> (ok, rw\<lparr>writeBuffer := b\<rparr>))"

section \<open>Watermarks\<close>

definition AdvanceReadLength :: "u32 \<Rightarrow> RWBuffer \<Rightarrow> RWBuffer" where
  "AdvanceReadLength n rw = rw\<lparr>readBuffer := map_option
     (\<lambda>b. b\<lparr>blk_meta := (blk_meta b)
        \<lparr>dataLength := min (dataLength (blk_meta b) + n) (bufferSize (blk_meta b))\<rparr>\<rparr>) (readBuffer rw)\<rparr>"

definition AdvanceWriteLength :: "u32 \<Rightarrow> RWBuffer \<Rightarrow> RWBuffer" where
  "AdvanceWriteLength n rw = rw\<lparr>writeBuffer := map_option
     (\<lambda>b. b\<lparr>blk_meta := (blk_meta b)
        \<lparr>writtenLength := min (writtenLength (blk_meta b) + n) (dataLength (blk_meta b))\<rparr>\<rparr>) (writeBuffer rw)\<rparr>"

definition CompactWriteBuffer :: "RWBuffer \<Rightarrow> RWBuffer" where
  "CompactWriteBuffer rw =
     (case writeBuffer rw of
        None \<Rightarrow> rw
      | Some b \<Rightarrow>
          let meta = blk_meta b in
          if writtenLength meta = 0 then rw
          else
            let remaining = dataLength meta - writtenLength meta;
                bs = (if remaining > 0
                      then write_at 0 (take (unat remaining) (drop (unat (writtenLength meta)) (blk_bytes b)))
                             (blk_bytes b)
                      else blk_bytes b)
            in rw\<lparr>writeBuffer := Some (b\<lparr>blk_bytes := bs,
                    blk_meta := meta\<lparr>dataLength := remaining, writtenLength := 0\<rparr>\<rparr>)\<rparr>)"

text \<open>The writable regions: an address and a length, \<^const>\<open>None\<close> for the null region.\<close>

definition GetWritableReadRegion :: "RWBuffer \<Rightarrow> (u64 \<times> u32) option" where
  "GetWritableReadRegion rw = map_option (\<lambda>b.
     (blk_addr b + ucast sizeof_ReadMetadata + ucast (dataLength (blk_meta b)),
      bufferSize (blk_meta b) - dataLength (blk_meta b))) (readBuffer rw)"

definition GetWritableWriteRegion :: "RWBuffer \<Rightarrow> (u64 \<times> u32) option" where
  "GetWritableWriteRegion rw = map_option (\<lambda>b.
     (blk_addr b + ucast sizeof_WriteMetadata + ucast (dataLength (blk_meta b)),
      bufferSize (blk_meta b) - dataLength (blk_meta b))) (writeBuffer rw)"

section \<open>Block invariant\<close>

definition block_ok :: "u32 \<Rightarrow> 'a RWBaseMetadata_scheme block \<Rightarrow> bool" where
  "block_ok metaSize b \<longleftrightarrow>
     unat metaSize + unat (bufferSize (blk_meta b)) \<le> unat (blk_size b) \<and>
     length (blk_bytes b) = unat (blk_size b) - unat metaSize \<and>
     dataLength (blk_meta b) \<le> bufferSize (blk_meta b)"

definition contents :: "'a RWBaseMetadata_scheme block \<Rightarrow> string" where
  "contents b = take (unat (dataLength (blk_meta b))) (blk_bytes b)"

text \<open>The largest ceiling for which the 32-bit \<open>allocSize\<close> does not wrap.\<close>

definition max_ok :: "u32 \<Rightarrow> u32 \<Rightarrow> bool" where
  "max_ok metaSize maxSize \<longleftrightarrow> unat metaSize + unat maxSize < 2 ^ 32"

lemma length_contents: "block_ok ms b \<Longrightarrow> length (contents b) = unat (dataLength (blk_meta b))"
  by (auto simp: block_ok_def contents_def word_le_unat)

lemma length_resize_bytes [simp]: "length (resize_bytes junk n bs) = n"
  by (simp add: resize_bytes_def)

lemma take_resize_bytes: "k \<le> length bs \<Longrightarrow> k \<le> n \<Longrightarrow> take k (resize_bytes junk n bs) = take k bs"
  by (simp add: resize_bytes_def min_def)

lemma take_write_at:
  "off \<le> length bs \<Longrightarrow> take (off + length ds) (write_at off ds bs) = take off bs @ ds"
  by (simp add: write_at_def)

lemma length_write_at:
  "off + length ds \<le> length bs \<Longrightarrow> length (write_at off ds bs) = length bs"
  by (simp add: write_at_def)

lemma unat_meta_sum:
  "unat metaSize + unat newSize < 2 ^ 32 \<Longrightarrow>
   unat (ucast (ucast (metaSize :: u32) + newSize :: u64) :: u32) = unat metaSize + unat newSize"
  by (simp add: unat_ucast_64_32 unat_add_u64)

lemma reallocated_ok:
  fixes A :: allocator and p :: u64
  assumes "block_ok ms b" "unat ms + unat newSize < 2 ^ 32"
    and "unat (bufferSize (blk_meta b)) \<le> unat newSize"
  defines "b' \<equiv> reallocated A ms newSize p b"
  shows "block_ok ms b'" "contents b' = contents b"
    and "dataLength (blk_meta b') = dataLength (blk_meta b)"
    and "unat (bufferSize (blk_meta b')) = unat newSize"
    and "RWBaseMetadata.more (blk_meta b') = RWBaseMetadata.more (blk_meta b)"
proof -
  have s: "unat (ucast (ucast ms + newSize :: u64) :: u32) = unat ms + unat newSize"
    using unat_meta_sum[OF assms(2)] .
  have n: "unat (ucast newSize :: u32) = unat newSize"
    using assms(2) by (simp add: unat_ucast_64_32)
  have d: "unat (dataLength (blk_meta b)) \<le> unat (bufferSize (blk_meta b))"
    "unat (dataLength (blk_meta b)) \<le> length (blk_bytes b)"
    using assms(1) by (auto simp: block_ok_def word_le_unat)
  show "block_ok ms b'" using d assms(3) s n
    by (simp add: b'_def reallocated_def block_ok_def Let_def word_le_unat)
  show "contents b' = contents b" using d assms(3) s
    by (simp add: b'_def reallocated_def contents_def Let_def take_resize_bytes)
  show "dataLength (blk_meta b') = dataLength (blk_meta b)"
    "unat (bufferSize (blk_meta b')) = unat newSize"
    "RWBaseMetadata.more (blk_meta b') = RWBaseMetadata.more (blk_meta b)"
    by (simp_all add: b'_def reallocated_def Let_def n)
qed

text \<open>The rounded growth target holds the request and respects the ceiling.\<close>

lemma append_target_bounds:
  assumes "unat bufSize < unat required" "unat required \<le> unat maxSize"
  shows "unat required \<le> unat (append_target bufSize required growSize maxSize)"
    and "unat (append_target bufSize required growSize maxSize) \<le> unat maxSize"
proof -
  define T where "T = (if growSize = 0 then required
      else ucast bufSize + (required - ucast bufSize + ucast growSize - 1) div ucast growSize * ucast growSize)"
  have tgt: "append_target bufSize required growSize maxSize = (if T > ucast maxSize then ucast maxSize else T)"
    by (simp add: append_target_def T_def Let_def)
  have "unat required \<le> unat T"
  proof (cases "growSize = 0")
    case True
    then show ?thesis by (simp add: T_def)
  next
    case False
    let ?g = "unat growSize" and ?d = "unat required - unat bufSize"
    have g: "0 < ?g" "?g < 2 ^ 32" using False unat_u32_lt[of growSize]
      by (auto simp: unat_gt_0)
    have r: "unat required < 2 ^ 32" using assms(2) unat_u32_lt[of maxSize] by simp
    have def: "unat (required - ucast bufSize) = ?d"
      using assms(1) by (subst unat_sub) (auto simp: word_le_unat)
    have sum: "unat (required - ucast bufSize + ucast growSize) = ?d + ?g"
      using def g r by (simp add: unat_add_u64)
    have "unat (required - ucast bufSize + ucast growSize - 1) = ?d + ?g - 1"
      using sum g by (subst unat_sub) (auto simp: word_le_unat)
    then have st: "unat ((required - ucast bufSize + ucast growSize - 1) div ucast growSize) = (?d + ?g - 1) div ?g"
      by (simp add: unat_div)
    let ?m = "(?d + ?g - 1) div ?g * ?g"
    have m: "?m \<le> ?d + ?g - 1" by (rule div_times_less_eq_dividend)
    have "unat bufSize + ?m \<le> unat bufSize + (?d + ?g - 1)" using m by (rule add_left_mono)
    also have "\<dots> < 2 ^ 64" using g r unat_u32_lt[of bufSize] by simp
    finally have b64: "unat bufSize + ?m < 2 ^ 64" .
    then have m64: "?m < 2 ^ 64" by (rule le_less_trans[OF le_add2])
    have lo: "?d \<le> ?m"
      using g(1) div_mult_mod_eq[of "?d + ?g - 1" ?g] mod_less_divisor[OF g(1), of "?d + ?g - 1"] by linarith
    have "unat ((required - ucast bufSize + ucast growSize - 1) div ucast growSize * ucast growSize) = ?m"
      using st m64 by (subst unat_mult_lem[THEN iffD1]) (auto simp: st)
    then have "unat T = unat bufSize + ?m"
      using False b64 by (simp add: T_def unat_add_u64 mod_less del: mult.commute)
    with lo assms(1) show ?thesis by linarith
  qed
  then show "unat required \<le> unat (append_target bufSize required growSize maxSize)"
    "unat (append_target bufSize required growSize maxSize) \<le> unat maxSize"
    using assms(2) by (auto simp: tgt word_less_unat)
qed

section \<open>Correctness of grow and append\<close>

lemma GenericGrowBuffer_ok:
  assumes "block_ok ms b" "max_ok ms maxSize"
    and "GenericGrowBuffer A (Some b) ms growSize maxSize minSize = (True, r)"
  shows "\<exists>b'. r = Some b' \<and> block_ok ms b' \<and> contents b' = contents b
     \<and> unat (bufferSize (blk_meta b)) < unat (bufferSize (blk_meta b'))
     \<and> unat (bufferSize (blk_meta b')) \<le> unat maxSize
     \<and> unat minSize \<le> unat (bufferSize (blk_meta b'))"
proof -
  define s0 where "s0 = (if growSize \<noteq> 0 then ucast (bufferSize (blk_meta b)) + ucast growSize else ucast maxSize :: u64)"
  define s1 where "s1 = (if ucast minSize > s0 then ucast minSize else s0)"
  define newSize where "newSize = (if s1 > ucast maxSize then ucast maxSize else s1)"
  have c: "unat (bufferSize (blk_meta b)) < unat maxSize" "unat minSize \<le> unat maxSize"
    and r: "\<exists>p. r = Some (reallocated A ms newSize p b)"
    using assms(3) unfolding s0_def s1_def newSize_def
    by (auto simp: GenericGrowBuffer_def Let_def word_le_unat word_less_unat not_le
        split: if_splits option.splits)
  have "unat (bufferSize (blk_meta b)) < unat s0"
    using c(1) unat_u32_lt[of growSize] unat_u32_lt[of "bufferSize (blk_meta b)"]
    by (auto simp: s0_def unat_add_u64 unat_gt_0)
  then have "unat (bufferSize (blk_meta b)) < unat s1" "unat minSize \<le> unat s1"
    by (auto simp: s1_def word_less_unat)
  then have n: "unat (bufferSize (blk_meta b)) < unat newSize" "unat newSize \<le> unat maxSize"
    "unat minSize \<le> unat newSize"
    using c by (auto simp: newSize_def word_less_unat)
  have m: "unat ms + unat newSize < 2 ^ 32"
    using n(2) assms(2) by (simp add: max_ok_def)
  from r obtain p where p: "r = Some (reallocated A ms newSize p b)" ..
  note ro = reallocated_ok[OF assms(1) m less_imp_le[OF n(1)], of A p]
  show ?thesis
    using p ro n by (intro exI[of _ "reallocated A ms newSize p b"]) simp
qed

lemma append_copy_ok:
  assumes "block_ok ms b" "unat sz = length ds"
    and "unat (dataLength (blk_meta b)) + unat sz \<le> unat (bufferSize (blk_meta b))"
  defines "b' \<equiv> append_copy sz ds b"
  shows "block_ok ms b'" "contents b' = contents b @ ds"
proof -
  have s: "unat (dataLength (blk_meta b) + sz) = unat (dataLength (blk_meta b)) + unat sz"
    using assms(3) unat_u32_lt[of "bufferSize (blk_meta b)"] by (simp add: unat_add_u32)
  have l: "unat (dataLength (blk_meta b)) + unat sz \<le> length (blk_bytes b)"
    using assms(1,3) by (auto simp: block_ok_def)
  show "block_ok ms b'"
    using assms(1-3) s l by (auto simp: b'_def append_copy_def block_ok_def word_le_unat length_write_at)
  have "take (unat (dataLength (blk_meta b)) + length ds)
      (write_at (unat (dataLength (blk_meta b))) ds (blk_bytes b)) = contents b @ ds"
    using l by (simp add: take_write_at contents_def)
  then show "contents b' = contents b @ ds"
    by (simp add: b'_def append_copy_def contents_def[of "b\<lparr>blk_bytes := _, blk_meta := _\<rparr>"] s assms(2))
qed

text \<open>Every outcome of an append. A refusal leaves the buffer as it was.\<close>

lemma GenericAppendData_cases:
  assumes ok: "block_ok ms b" and mx: "max_ok ms maxSize" and sz: "unat sz = length ds" "ds \<noteq> []"
    and run: "GenericAppendData A (Some b) ms (Some ds) sz growSize maxSize = (res, r)"
  shows "(res \<and> (\<exists>b'. r = Some b' \<and> block_ok ms b' \<and> contents b' = contents b @ ds
            \<and> RWBaseMetadata.more (blk_meta b') = RWBaseMetadata.more (blk_meta b)
            \<and> unat (bufferSize (blk_meta b')) \<le> max (unat (bufferSize (blk_meta b))) (unat maxSize)))
       \<or> (\<not> res \<and> r = Some b)"
proof -
  let ?dl = "dataLength (blk_meta b)" and ?bs = "bufferSize (blk_meta b)"
  define req where "req = (ucast ?dl + ucast sz :: u64)"
  have req: "unat req = unat ?dl + unat sz"
    using unat_u32_lt[of ?dl] unat_u32_lt[of sz] by (simp add: req_def unat_add_u64)
  have z: "sz \<noteq> 0" using sz by (auto simp: unat_eq_0)
  define tgt where "tgt = append_target ?bs req growSize maxSize"
  let ?a = "ucast (ucast (ucast ms + tgt :: u64) :: u32) :: u64"
  have e: "(res, r) =
      (if req > ucast ?bs then
         if req > ucast maxSize then (False, Some b)
         else (case a_realloc A (blk_addr b) ?a of
                 None \<Rightarrow> (False, Some b)
               | Some p \<Rightarrow> (True, Some (append_copy sz ds (reallocated A ms tgt p b))))
       else (True, Some (append_copy sz ds b)))"
    unfolding run[symmetric] using z by (simp add: GenericAppendData_def Let_def req_def tgt_def cong: option.case_cong)
  consider (fits) "unat req \<le> unat ?bs" "res" "r = Some (append_copy sz ds b)"
    | (refuse) "\<not> res" "r = Some b"
    | (grow) p where "unat ?bs < unat req" "unat req \<le> unat maxSize" "res"
        "r = Some (append_copy sz ds (reallocated A ms tgt p b))"
    using e by (auto simp: word_less_unat not_less split: if_splits option.splits)
  then show ?thesis
  proof cases
    case fits
    note a = append_copy_ok[OF ok sz(1)]
    show ?thesis using fits a req by (auto simp: append_copy_def)
  next
    case refuse
    then show ?thesis by simp
  next
    case grow
    note t = append_target_bounds[OF grow(1,2), of growSize, folded tgt_def]
    have m: "unat ms + unat tgt < 2 ^ 32" using t(2) mx by (simp add: max_ok_def)
    have le: "unat ?bs \<le> unat tgt" using t grow by linarith
    let ?b = "reallocated A ms tgt p b"
    note ro = reallocated_ok[OF ok m le, of A p]
    have "unat (dataLength (blk_meta ?b)) + unat sz \<le> unat (bufferSize (blk_meta ?b))"
      using ro t req by simp
    note a = append_copy_ok[OF ro(1) sz(1) this]
    have "contents (append_copy sz ds ?b) = contents b @ ds" "block_ok ms (append_copy sz ds ?b)"
      using a ro(2) by simp_all
    moreover have "RWBaseMetadata.more (blk_meta (append_copy sz ds ?b)) = RWBaseMetadata.more (blk_meta b)"
      "unat (bufferSize (blk_meta (append_copy sz ds ?b))) \<le> unat maxSize"
      using ro t by (simp_all add: append_copy_def)
    ultimately show ?thesis using grow by auto
  qed
qed

lemma AppendWriteData_outcome:
  assumes "writeBuffer rw = Some b" "block_ok sizeof_WriteMetadata b"
    and "max_ok sizeof_WriteMetadata maxSize"
    and "ds \<noteq> []" "unat sz = length ds"
    and "\<forall>p n. a_realloc A p n \<noteq> None"
  shows "\<exists>ok rw'. AppendWriteData A (Some ds) sz incSize maxSize rw = (ok, rw')
     \<and> (ok \<longleftrightarrow> length (contents b) + length ds \<le> max (unat (bufferSize (blk_meta b))) (unat maxSize))
     \<and> (if ok then \<exists>b'. writeBuffer rw' = Some b' \<and> block_ok sizeof_WriteMetadata b' \<and> contents b' = contents b @ ds
        else rw' = rw)"
proof -
  obtain ok r where g: "GenericAppendData A (Some b) sizeof_WriteMetadata (Some ds) sz incSize maxSize = (ok, r)"
    by fastforce
  have run: "AppendWriteData A (Some ds) sz incSize maxSize rw = (ok, rw\<lparr>writeBuffer := r\<rparr>)"
    using g assms(1) by (simp add: AppendWriteData_def)
  note c = GenericAppendData_cases[OF assms(2,3,5,4) g]
  have req: "unat (ucast (dataLength (blk_meta b)) + ucast sz :: u64) = length (contents b) + length ds"
    using unat_u32_lt[of "dataLength (blk_meta b)"] unat_u32_lt[of sz] assms(5) length_contents[OF assms(2)]
    by (simp add: unat_add_u64)
  have z: "sz \<noteq> 0" using assms(4,5) by (auto simp: unat_eq_0)
  have "ok \<longleftrightarrow> length (contents b) + length ds \<le> max (unat (bufferSize (blk_meta b))) (unat maxSize)"
    using g z spec[OF spec[OF assms(6)]] unfolding GenericAppendData_def
    by (auto simp: Let_def word_less_unat req simp del: not_None_eq split: if_splits option.splits)
  moreover have "rw\<lparr>writeBuffer := Some b\<rparr> = rw" using assms(1) by simp
  ultimately show ?thesis using run c by auto
qed

lemma AppendWriteData_fits:
  assumes "writeBuffer rw = Some b" "block_ok sizeof_WriteMetadata b"
    and "max_ok sizeof_WriteMetadata maxSize" "ds \<noteq> []" "unat sz = length ds"
    and "\<forall>p n. a_realloc A p n \<noteq> None"
    and "length (contents b) + length ds \<le> max (unat (bufferSize (blk_meta b))) (unat maxSize)"
  obtains rw' b' where "AppendWriteData A (Some ds) sz incSize maxSize rw = (True, rw')"
    "writeBuffer rw' = Some b'" "block_ok sizeof_WriteMetadata b'" "contents b' = contents b @ ds"
  using AppendWriteData_outcome[OF assms(1-6), of incSize] assms(7) that by auto

lemma AppendWriteData_written:
  assumes "writeBuffer rw = Some b" "AppendWriteData A ds sz incSize maxSize rw = (ok, rw')"
  obtains b' where "writeBuffer rw' = Some b'" "writtenLength (blk_meta b') = writtenLength (blk_meta b)"
  using assms
  by (auto simp: AppendWriteData_def GenericAppendData_def append_copy_def reallocated_def Let_def
      split: option.splits prod.splits if_splits)

text \<open>C27. When the allocator serves the request, an append of \<open>n > 0\<close> bytes to the write buffer succeeds
  exactly when the bytes fit in the current block or under the ceiling; on success the stored bytes
  are the old ones followed by the new ones and the block invariant holds, on refusal nothing changed.\<close>

theorem AppendWriteData_exact:
  assumes "writeBuffer rw = Some b" "block_ok sizeof_WriteMetadata b"
    and "max_ok sizeof_WriteMetadata maxSize"
    and "ds \<noteq> []" "unat sz = length ds"
    and "\<forall>p n. a_realloc A p n \<noteq> None"
  shows "\<exists>ok rw'. AppendWriteData A (Some ds) sz incSize maxSize rw = (ok, rw')
     \<and> (ok \<longleftrightarrow> length (contents b) + length ds \<le> max (unat (bufferSize (blk_meta b))) (unat maxSize))
     \<and> (if ok then \<exists>b'. writeBuffer rw' = Some b' \<and> block_ok sizeof_WriteMetadata b' \<and> contents b' = contents b @ ds
        else rw' = rw)"
  using assms by (rule AppendWriteData_outcome)

definition test_allocator :: allocator where
  "test_allocator = \<lparr>a_alloc = (\<lambda>n. Some 0x1000), a_realloc = (\<lambda>p n. Some (p + 0x100)), a_junk = (\<lambda>_. NUL)\<rparr>"

definition test_wblock :: "WriteMetadata block" where
  "test_wblock = \<lparr>blk_addr = 0x1000, blk_size = 20,
     blk_meta = \<lparr>bufferSize = 4, dataLength = 2, writtenLength = 1\<rparr>, blk_bytes = ''abzz''\<rparr>"

theorem AppendWriteData_exact_witness:
  "\<exists>ok rw'. AppendWriteData test_allocator (Some ''cde'') 3 4 16
       \<lparr>writeBuffer = Some test_wblock, readBuffer = None\<rparr> = (ok, rw')
     \<and> (ok \<longleftrightarrow> length (contents test_wblock) + length ''cde'' \<le> max (unat (bufferSize (blk_meta test_wblock))) (unat (16 :: u32)))
     \<and> (if ok then \<exists>b'. writeBuffer rw' = Some b' \<and> block_ok sizeof_WriteMetadata b' \<and> contents b' = contents test_wblock @ ''cde''
        else rw' = \<lparr>writeBuffer = Some test_wblock, readBuffer = None\<rparr>)"
  by (rule AppendWriteData_exact)
    (simp_all add: test_wblock_def test_allocator_def block_ok_def max_ok_def)

section \<open>The write buffer as a byte queue\<close>

text \<open>
  What the send path relies on: appended bytes come out in order, each exactly once, whatever the
  mix of partial sends and compactions. The interface is a queue of bytes; a run records the bytes
  it accepted and the bytes it handed to the socket.
\<close>

datatype 'a fifo_op = FPush "'a list" | FSend nat | FCompact

fun fifo_run ::
  "('a list \<Rightarrow> 's \<Rightarrow> bool \<times> 's) \<Rightarrow> (nat \<Rightarrow> 's \<Rightarrow> 's) \<Rightarrow> ('s \<Rightarrow> 's) \<Rightarrow> ('s \<Rightarrow> 'a list) \<Rightarrow>
     's \<times> 'a list \<times> 'a list \<Rightarrow> 'a fifo_op list \<Rightarrow> 's \<times> 'a list \<times> 'a list" where
  "fifo_run push adv cmpct pend st [] = st"
| "fifo_run push adv cmpct pend (s, accepted, sent) (FPush d # ops) =
     (case push d s of
        (True, s') \<Rightarrow> fifo_run push adv cmpct pend (s', accepted @ d, sent) ops
      | (False, s') \<Rightarrow> fifo_run push adv cmpct pend (s', accepted, sent) ops)"
| "fifo_run push adv cmpct pend (s, accepted, sent) (FSend n # ops) =
     (let k = min n (length (pend s)) in
      fifo_run push adv cmpct pend (adv k s, accepted, sent @ take k (pend s)) ops)"
| "fifo_run push adv cmpct pend (s, accepted, sent) (FCompact # ops) =
     fifo_run push adv cmpct pend (cmpct s, accepted, sent) ops"

locale byte_queue =
  fixes push :: "'a list \<Rightarrow> 's \<Rightarrow> bool \<times> 's"
    and adv :: "nat \<Rightarrow> 's \<Rightarrow> 's"
    and cmpct :: "'s \<Rightarrow> 's"
    and pend :: "'s \<Rightarrow> 'a list"
    and invar :: "'s \<Rightarrow> bool"
  assumes push_yes: "invar s \<Longrightarrow> push d s = (True, s') \<Longrightarrow> invar s' \<and> pend s' = pend s @ d"
    and push_no: "invar s \<Longrightarrow> push d s = (False, s') \<Longrightarrow> s' = s"
    and adv_ok: "invar s \<Longrightarrow> n \<le> length (pend s) \<Longrightarrow> invar (adv n s) \<and> pend (adv n s) = drop n (pend s)"
    and cmpct_ok: "invar s \<Longrightarrow> invar (cmpct s) \<and> pend (cmpct s) = pend s"
begin

lemma run_conserves_bytes:
  assumes "invar s" "sent @ pend s = accepted"
    and "fifo_run push adv cmpct pend (s, accepted, sent) ops = (s', accepted', sent')"
  shows "invar s' \<and> sent' @ pend s' = accepted'"
  using assms
proof (induction ops arbitrary: s accepted sent)
  case Nil
  then show ?case by simp
next
  case (Cons op ops)
  show ?case
  proof (cases op)
    case (FPush d)
    obtain ok t where p: "push d s = (ok, t)" by fastforce
    then show ?thesis
      using Cons push_yes[of s d t] push_no[of s d t] FPush by (cases ok) auto
  next
    case (FSend n)
    let ?k = "min n (length (pend s))"
    have "invar (adv ?k s) \<and> pend (adv ?k s) = drop ?k (pend s)"
      using adv_ok[of s ?k] Cons.prems(1) by simp
    then show ?thesis
      using Cons.IH[of "adv ?k s" "sent @ take ?k (pend s)" accepted] Cons.prems FSend
      by (simp add: Let_def)
  next
    case FCompact
    then show ?thesis
      using Cons.IH[of "cmpct s" sent accepted] Cons.prems cmpct_ok[of s] by simp
  qed
qed

end

definition wq_push :: "allocator \<Rightarrow> u32 \<Rightarrow> u32 \<Rightarrow> string \<Rightarrow> RWBuffer \<Rightarrow> bool \<times> RWBuffer" where
  "wq_push A incSize maxSize d rw =
     (if length d < 2 ^ 32 then AppendWriteData A (Some d) (of_nat (length d)) incSize maxSize rw
      else (False, rw))"

definition wq_pending :: "RWBuffer \<Rightarrow> string" where
  "wq_pending rw = (case writeBuffer rw of None \<Rightarrow> []
     | Some b \<Rightarrow> drop (unat (writtenLength (blk_meta b))) (contents b))"

definition wq_invar :: "RWBuffer \<Rightarrow> bool" where
  "wq_invar rw \<longleftrightarrow> (case writeBuffer rw of None \<Rightarrow> False
     | Some b \<Rightarrow> block_ok sizeof_WriteMetadata b \<and> writtenLength (blk_meta b) \<le> dataLength (blk_meta b))"

lemma writtenLength_more:
  "RWBaseMetadata.more m = RWBaseMetadata.more m' \<Longrightarrow> writtenLength m = writtenLength (m' :: WriteMetadata)"
  by (metis WriteMetadata.select_convs(1) WriteMetadata.surjective RWBaseMetadata.select_convs(3))

lemma wq_push_yes:
  assumes "max_ok sizeof_WriteMetadata maxSize" "wq_invar rw"
    and "wq_push A incSize maxSize d rw = (True, rw')"
  shows "wq_invar rw' \<and> wq_pending rw' = wq_pending rw @ d"
proof -
  obtain b where b: "writeBuffer rw = Some b" "block_ok sizeof_WriteMetadata b"
    "writtenLength (blk_meta b) \<le> dataLength (blk_meta b)"
    using assms(2) by (auto simp: wq_invar_def split: option.splits)
  have l: "length d < 2 ^ 32" using assms(3) by (simp add: wq_push_def split: if_splits)
  let ?n = "of_nat (length d) :: u32"
  have n: "unat ?n = length d" using l by (simp add: unat_of_nat)
  obtain r where g: "GenericAppendData A (Some b) sizeof_WriteMetadata (Some d) ?n incSize maxSize = (True, r)"
    and rw': "rw' = rw\<lparr>writeBuffer := r\<rparr>"
    using assms(3) l b(1) by (auto simp: wq_push_def AppendWriteData_def split: prod.splits)
  have "d \<noteq> []" using g by (auto simp: GenericAppendData_def)
  from GenericAppendData_cases[OF b(2) assms(1) n this g]
  obtain b' where b': "r = Some b'" "block_ok sizeof_WriteMetadata b'" "contents b' = contents b @ d"
    "writtenLength (blk_meta b') = writtenLength (blk_meta b)"
    by (auto intro: writtenLength_more)
  have c: "length (contents b) = unat (dataLength (blk_meta b))"
    "length (contents b') = unat (dataLength (blk_meta b'))"
    using length_contents b(2) b'(2) by auto
  with b' b(3) have w: "unat (writtenLength (blk_meta b)) \<le> length (contents b)"
    "writtenLength (blk_meta b') \<le> dataLength (blk_meta b')"
    by (auto simp: word_le_unat)
  show ?thesis
    using b b' rw' w by (simp add: wq_invar_def wq_pending_def)
qed

lemma wq_push_no:
  assumes "max_ok sizeof_WriteMetadata maxSize" "wq_invar rw"
    and "wq_push A incSize maxSize d rw = (False, rw')"
  shows "rw' = rw"
proof -
  obtain b where b: "writeBuffer rw = Some b" "block_ok sizeof_WriteMetadata b"
    using assms(2) by (auto simp: wq_invar_def split: option.splits)
  let ?n = "of_nat (length d) :: u32"
  show ?thesis
  proof (cases "length d < 2 ^ 32 \<and> d \<noteq> []")
    case True
    then have n: "unat ?n = length d" by (simp add: unat_of_nat)
    obtain r where g: "GenericAppendData A (Some b) sizeof_WriteMetadata (Some d) ?n incSize maxSize = (False, r)"
      and rw': "rw' = rw\<lparr>writeBuffer := r\<rparr>"
      using assms(3) True b(1) by (auto simp: wq_push_def AppendWriteData_def split: prod.splits)
    then have "r = Some b" using GenericAppendData_cases[OF b(2) assms(1) n _ g] True by simp
    with rw' b show ?thesis by simp
  next
    case False
    with assms(3) b show ?thesis
      by (auto simp: wq_push_def AppendWriteData_def GenericAppendData_def)
  qed
qed

lemma wq_adv:
  assumes "wq_invar rw" "n \<le> length (wq_pending rw)"
  shows "wq_invar (AdvanceWriteLength (of_nat n) rw)
    \<and> wq_pending (AdvanceWriteLength (of_nat n) rw) = drop n (wq_pending rw)"
proof -
  obtain b where b: "writeBuffer rw = Some b" "block_ok sizeof_WriteMetadata b"
    "unat (writtenLength (blk_meta b)) \<le> unat (dataLength (blk_meta b))"
    using assms(1) by (auto simp: wq_invar_def word_le_unat split: option.splits)
  let ?w = "writtenLength (blk_meta b)" and ?d = "dataLength (blk_meta b)"
  have n: "unat ?w + n \<le> unat ?d"
    using assms(2) b length_contents[OF b(2)] by (simp add: wq_pending_def)
  then have "unat (of_nat n :: u32) = n" "unat (?w + of_nat n) = unat ?w + n"
    using unat_u32_lt[of ?d] by (simp_all add: unat_of_nat unat_add_u32)
  with n have "min (?w + of_nat n) ?d = ?w + of_nat n" "unat (?w + of_nat n) = unat ?w + n"
    by (simp_all add: min_def word_le_unat)
  with b n show ?thesis
    by (simp add: wq_invar_def wq_pending_def AdvanceWriteLength_def block_ok_def contents_def
        word_le_unat add.commute)
qed

lemma wq_comp:
  assumes "wq_invar rw"
  shows "wq_invar (CompactWriteBuffer rw) \<and> wq_pending (CompactWriteBuffer rw) = wq_pending rw"
proof -
  obtain b where b: "writeBuffer rw = Some b" "block_ok sizeof_WriteMetadata b"
    "writtenLength (blk_meta b) \<le> dataLength (blk_meta b)"
    using assms by (auto simp: wq_invar_def split: option.splits)
  let ?w = "writtenLength (blk_meta b)" and ?d = "dataLength (blk_meta b)"
  show ?thesis
  proof (cases "?w = 0")
    case True
    then show ?thesis using assms b by (simp add: CompactWriteBuffer_def)
  next
    case False
    let ?r = "?d - ?w"
    have r: "unat ?r = unat ?d - unat ?w" using b(3) by (simp add: unat_sub)
    have d: "unat ?d \<le> unat (bufferSize (blk_meta b))" "unat ?d \<le> length (blk_bytes b)"
      using b(2) by (auto simp: block_ok_def word_le_unat)
    define tail where "tail = take (unat ?r) (drop (unat ?w) (blk_bytes b))"
    have t: "length tail = unat ?r" "tail = drop (unat ?w) (contents b)"
      using r d b(3) by (auto simp: tail_def contents_def drop_take word_le_unat)
    define bs where "bs = (if ?r > 0 then write_at 0 tail (blk_bytes b) else blk_bytes b)"
    have bs: "length bs = length (blk_bytes b)" "take (unat ?r) bs = tail"
      using t(1) r d take_write_at[of 0 "blk_bytes b" tail]
      by (auto simp: bs_def length_write_at word_gt_0)
    have cw: "CompactWriteBuffer rw = rw\<lparr>writeBuffer := Some (b\<lparr>blk_bytes := bs,
        blk_meta := (blk_meta b)\<lparr>dataLength := ?r, writtenLength := 0\<rparr>\<rparr>)\<rparr>"
      using False b(1) by (simp add: CompactWriteBuffer_def Let_def bs_def tail_def)
    show ?thesis
      using b bs t r d by (simp add: cw wq_invar_def wq_pending_def block_ok_def contents_def[of "b\<lparr>blk_bytes := _, blk_meta := _\<rparr>"] word_le_unat)
  qed
qed

text \<open>The contract holds for the code under every ceiling that keeps \<open>allocSize\<close> in 32 bits; the
  interpretation is at the ceiling of the default configuration, 16 KiB with growth steps of 4 KiB.\<close>

lemma byte_queue_rwbuffer:
  assumes "max_ok sizeof_WriteMetadata maxSize"
  shows "byte_queue (wq_push A incSize maxSize) (\<lambda>n. AdvanceWriteLength (of_nat n)) CompactWriteBuffer
     wq_pending wq_invar"
proof (unfold_locales, goal_cases)
  case (1 s d s')
  then show ?case by (rule wq_push_yes[OF assms])
next
  case (2 s d s')
  then show ?case by (rule wq_push_no[OF assms])
next
  case (3 s n)
  then show ?case by (rule wq_adv)
next
  case (4 s)
  then show ?case by (rule wq_comp)
qed

interpretation wq: byte_queue "wq_push A 4096 16384" "\<lambda>n. AdvanceWriteLength (of_nat n)"
  CompactWriteBuffer wq_pending wq_invar for A
  by (rule byte_queue_rwbuffer) (simp add: max_ok_def)

text \<open>C14. The write buffer never loses, duplicates or reorders a byte: after any sequence of appends,
  partial sends and compactions, starting from an empty buffer, the bytes handed to the socket
  followed by the bytes still pending are exactly the bytes of the accepted appends.\<close>

theorem write_buffer_conserves_bytes:
  assumes "max_ok sizeof_WriteMetadata maxSize"
    and "InitWriteBuffer A initSize \<lparr>writeBuffer = None, readBuffer = None\<rparr> = (True, rw)"
    and "fifo_run (wq_push A incSize maxSize) (\<lambda>n. AdvanceWriteLength (of_nat n)) CompactWriteBuffer
           wq_pending (rw, [], []) ops = (rw', accepted, sent)"
  shows "sent @ wq_pending rw' = accepted \<and> wq_invar rw'"
proof -
  have sum: "unat (16 + ucast initSize :: u64) = 16 + unat initSize"
    using unat_u32_lt[of initSize] by (simp add: unat_add_u64)
  have "wq_invar rw" "wq_pending rw = []"
    using assms(2)
    by (auto simp: InitWriteBuffer_def wq_invar_def wq_pending_def block_ok_def contents_def Let_def sum
        split: option.splits)
  then show ?thesis
    using byte_queue.run_conserves_bytes[OF byte_queue_rwbuffer[OF assms(1)], of rw "[]" "[]"] assms(3)
    by simp
qed

theorem write_buffer_conserves_bytes_witness:
  "\<exists>rw rw'. InitWriteBuffer test_allocator 4 \<lparr>writeBuffer = None, readBuffer = None\<rparr> = (True, rw)
     \<and> fifo_run (wq_push test_allocator 4 16) (\<lambda>n. AdvanceWriteLength (of_nat n)) CompactWriteBuffer
           wq_pending (rw, [], []) [FPush ''abc'', FSend 2, FCompact, FPush ''d''] = (rw', ''abcd'', ''ab'')
     \<and> ''ab'' @ wq_pending rw' = ''abcd''"
proof -
  define rw where "rw = snd (InitWriteBuffer test_allocator 4 \<lparr>writeBuffer = None, readBuffer = None\<rparr>)"
  have i: "InitWriteBuffer test_allocator 4 \<lparr>writeBuffer = None, readBuffer = None\<rparr> = (True, rw)"
    by (simp add: rw_def InitWriteBuffer_def test_allocator_def Let_def)
  obtain rw' acc snt where f: "fifo_run (wq_push test_allocator 4 16) (\<lambda>n. AdvanceWriteLength (of_nat n))
      CompactWriteBuffer wq_pending (rw, [], []) [FPush ''abc'', FSend 2, FCompact, FPush ''d'']
      = (rw', acc, snt)"
    by (metis prod_cases3)
  have "snd (fifo_run (wq_push test_allocator 4 16) (\<lambda>n. AdvanceWriteLength (of_nat n))
      CompactWriteBuffer wq_pending (rw, [], []) [FPush ''abc'', FSend 2, FCompact, FPush ''d''])
      = (''abcd'', ''ab'')"
    by (simp add: rw_def InitWriteBuffer_def test_allocator_def Let_def wq_push_def AppendWriteData_def
        GenericAppendData_def append_copy_def wq_pending_def contents_def write_at_def
        AdvanceWriteLength_def CompactWriteBuffer_def upt_conv_Cons)
  with f have v: "acc = ''abcd''" "snt = ''ab''" by auto
  have m: "max_ok sizeof_WriteMetadata 16" by (simp add: max_ok_def)
  show ?thesis
    using write_buffer_conserves_bytes[OF m i f] i f unfolding v by blast
qed

section \<open>The narrowing of \<open>allocSize\<close>\<close>



end
