(* ===== verification/HttpParser.thy ===== *)
theory HttpParser
  imports HttpHeaders RWBuffer
begin

text \<open>
  Model of \<open>src/http/parser/http_parser.cpp\<close> and of \<open>ClientCtx::GrowReadBuffer\<close>. The parser works on
  the read buffer of a connection: it rewrites the request target in place, terminates header
  names and values with NUL bytes in place, and stores views (address and length) into that buffer
  in the request. Views are therefore modelled as addresses, so that a buffer that moves when it
  grows leaves them dangling unless they are rebased. \<open>std::size_t\<close> values are natural numbers here,
  the 32-bit fields of the connection keep their width.
\<close>

section \<open>State\<close>

record view =
  vptr :: u64
  vlen :: nat

definition null_view :: view where
  "null_view = \<lparr>vptr = 0, vlen = 0\<rparr>"

record HttpRequest =
  req_method :: HttpMethod
  version :: HttpVersion
  path :: view
  body :: view
  headers :: "(view, view) headers"

definition new_request :: HttpRequest where
  "new_request = \<lparr>req_method = M_GET, version = HTTP_1_0, path = null_view, body = null_view, headers = []\<rparr>"

datatype HttpParseState =
    PARSE_INCOMPLETE_HEADERS | PARSE_INCOMPLETE_BODY | PARSE_STREAMING_BODY | PARSE_EXPECT_100
  | PARSE_EXPECT_417 | PARSE_SUCCESS | PARSE_ERROR | PARSE_IDLE

record ClientCtx =
  rwBuffer :: RWBuffer
  parseState :: HttpParseState
  trackBytes :: u32
  expectedBodyLength :: u32
  requestInfo :: "HttpRequest option"

record NetworkConfig =
  maxReadBufferSize :: u32
  maxBodyTotalSize :: u32
  maxHeaderTotalSize :: u32
  maxHeaderTotalCount :: u16

text \<open>The bytes a view denotes, given the address and the contents of the buffer it points into.\<close>

definition view_bytes :: "u64 \<Rightarrow> string \<Rightarrow> view \<Rightarrow> string" where
  "view_bytes base bs v = take (vlen v) (drop (unat (vptr v - base)) bs)"

definition mk_view :: "u64 \<Rightarrow> nat \<Rightarrow> nat \<Rightarrow> view" where
  "mk_view base off n = \<lparr>vptr = base + of_nat off, vlen = n\<rparr>"

section \<open>Scanning\<close>

text \<open>\<open>SafeFindCRLF\<close>: the position after the line end and the line as offset and length.\<close>

definition SafeFindCRLF :: "string \<Rightarrow> nat \<Rightarrow> nat \<Rightarrow> (nat \<times> nat \<times> nat) option" where
  "SafeFindCRLF data size' from =
     (if from \<ge> size' then None
      else (case sv_find CR (take (size' - from) (drop from data)) of
              None \<Rightarrow> None
            | Some k \<Rightarrow>
                if from + k + 1 \<ge> size' \<or> data ! (from + k + 1) \<noteq> LF then None
                else Some (from + k + 2, from, k)))"

fun find_header_end_loop :: "string \<Rightarrow> nat \<Rightarrow> nat \<Rightarrow> nat option" where
  "find_header_end_loop data p 0 = None"
| "find_header_end_loop data p (Suc n) =
     (if data ! p = CR \<and> data ! (p + 1) = LF \<and> data ! (p + 2) = CR \<and> data ! (p + 3) = LF
      then Some (p + 4) else find_header_end_loop data (Suc p) n)"

definition SafeFindHeaderEnd :: "string \<Rightarrow> nat \<Rightarrow> nat \<Rightarrow> nat option" where
  "SafeFindHeaderEnd data size' from =
     (if size' < 4 \<or> from \<ge> size' - 3 then None
      else find_header_end_loop data from (size' - 3 - from))"

definition is_blank :: "char \<Rightarrow> bool" where
  "is_blank c \<longleftrightarrow> c = CHR '' '' \<or> c = TAB"

fun trim_left :: "string \<Rightarrow> nat \<Rightarrow> nat \<Rightarrow> nat" where
  "trim_left sv start 0 = start"
| "trim_left sv start (Suc n) = (if is_blank (sv ! start) then trim_left sv (Suc start) n else start)"

fun trim_right :: "string \<Rightarrow> nat \<Rightarrow> nat \<Rightarrow> nat" where
  "trim_right sv start 0 = 0"
| "trim_right sv start (Suc stop) =
     (if Suc stop > start \<and> is_blank (sv ! stop) then trim_right sv start stop else Suc stop)"

text \<open>\<open>Trim\<close> returns a sub-view: its offset in the argument and its length.\<close>

definition Trim :: "string \<Rightarrow> nat \<times> nat" where
  "Trim sv = (let start = trim_left sv 0 (length sv); stop = trim_right sv start (length sv)
              in (start, stop - start))"

definition tchar_set :: "u32 list \<Rightarrow> u8 \<Rightarrow> u32 list" where
  "tchar_set bits c =
     (let w = unat (drop_bit 5 c) in bits[w := bits ! w OR push_bit (unat (c AND 31)) 1])"

definition tchar_chars :: "u8 list" where
  "tchar_chars = map of_nat [48..<58] @ map of_nat [65..<91] @ map of_nat [97..<123] @
     map byte_of [CHR ''!'', CHR ''#'', CHR ''$'', CHR ''%'', CHR ''&'', CHR 0x27, CHR ''*'',
       CHR ''+'', CHR ''-'', CHR ''.'', CHR ''^'', CHR ''_'', CHR 0x60, CHR ''|'', CHR ''~'']"

definition K_TCHAR :: "u32 list" where
  "K_TCHAR = foldl tchar_set (replicate 8 0) tchar_chars"

definition is_tchar_bit :: "char \<Rightarrow> bool" where
  "is_tchar_bit ch = (let c = byte_of ch in
     (drop_bit (unat (c AND 31)) (K_TCHAR ! unat (drop_bit 5 c))) AND 1 \<noteq> 0)"

text \<open>The bitmap decides exactly the token characters of the HTTP grammar.\<close>

definition token_chars :: string where
  "token_chars = ''!#$%&*+-.^_|~0123456789ABCDEFGHIJKLMNOPQRSTUVWXYZabcdefghijklmnopqrstuvwxyz'' @ [CHR 0x27, CHR 0x60]"

lemma K_TCHAR_value [code]: "K_TCHAR = [0, 67071226, 3355443198, 1476395007, 0, 0, 0, 0]"
  by code_simp

lemma tchar_table: "list_all (\<lambda>c. is_tchar_bit c = (c \<in> set token_chars)) Enum.enum"
  by code_simp

lemma is_tchar_bit_iff [code]: "is_tchar_bit c \<longleftrightarrow> c \<in> set token_chars"
  using tchar_table by (simp add: list_all_iff enum_UNIV)

fun field_end_loop :: "string \<Rightarrow> nat \<Rightarrow> nat option" where
  "field_end_loop [] at = None"
| "field_end_loop (c # line) at =
     (if c = CHR '':'' then (if at = 0 then None else Some at)
      else if \<not> is_tchar_bit c then None else field_end_loop line (Suc at))"

definition FindFieldEnd :: "string \<Rightarrow> nat option" where
  "FindFieldEnd line = field_end_loop line 0"

definition IsFieldSanitized :: "string \<Rightarrow> bool" where
  "IsFieldSanitized value =
     (foldl (\<lambda>bad c. let byte = byte_of c in
        bad OR (if (byte < 0x20 \<and> byte \<noteq> 9) \<or> byte = 0x7F then 1 else 0)) (0 :: u32) value = 0)"

section \<open>Request line, headers, body\<close>

text \<open>Each step returns its verdict together with the buffer, the position and the request, which
  it may have changed before it failed.\<close>

definition set_path_target ::
  "u64 \<Rightarrow> string \<Rightarrow> nat \<Rightarrow> nat \<Rightarrow> (string \<times> view) option" where
  "set_path_target base data pathStart pathEnd =
     (let raw = sv_substr pathStart (pathEnd - pathStart) data;
          qpos = sv_find (CHR ''?'') raw;
          pathPart = (case qpos of None \<Rightarrow> raw | Some q \<Rightarrow> sv_substr 0 q raw)
      in case NormalizeURIPathInplace pathPart of
           None \<Rightarrow> None
         | Some (buf, newPathLen) \<Rightarrow>
             let d1 = write_at pathStart buf data in
             (case qpos of
                None \<Rightarrow> Some (d1, mk_view base pathStart newPathLen)
              | Some q \<Rightarrow>
                  let queryLen = length raw - (q + 1);
                      d2 = write_at (pathStart + newPathLen + 1)
                             (sv_substr (pathStart + q + 1) queryLen d1) d1;
                      d3 = d2[pathStart + newPathLen := CHR ''?'']
                  in Some (d3, mk_view base pathStart (newPathLen + 1 + queryLen))))"

definition ParseRequest ::
  "u64 \<Rightarrow> string \<Rightarrow> nat \<Rightarrow> nat \<Rightarrow> HttpRequest \<Rightarrow> bool \<times> string \<times> nat \<times> HttpRequest" where
  "ParseRequest base data size' pos req =
     (case SafeFindCRLF data size' pos of
        None \<Rightarrow> (False, data, pos, req)
      | Some (nextPos, off, n) \<Rightarrow>
          let line = sv_substr off n data in
          (case sv_find (CHR '' '') line of
             None \<Rightarrow> (False, data, nextPos, req)
           | Some mEnd \<Rightarrow>
               let req1 = req\<lparr>req_method := HttpMethodToEnum (sv_substr 0 mEnd line)\<rparr> in
               if req_method req1 = M_UNKNOWN then (False, data, nextPos, req1)
               else
                 let pathStart = mEnd + 1 in
                 (case sv_find_from (CHR '' '') pathStart line of
                    None \<Rightarrow> (False, data, nextPos, req1)
                  | Some pathEnd \<Rightarrow>
                      if pathEnd = pathStart then (False, data, nextPos, req1)
                      else (case set_path_target base data pathStart pathEnd of
                              None \<Rightarrow> (False, data, nextPos, req1)
                            | Some (data', v) \<Rightarrow>
                                let line' = sv_substr off n data';
                                    req2 = req1\<lparr>path := v,
                                      version := HttpVersionToEnum (drop (pathEnd + 1) line')\<rparr>
                                in (version req2 \<noteq> V_UNKNOWN, data', nextPos, req2)))))"

lemma SafeFindCRLF_bounds:
  "SafeFindCRLF data size' from = Some (nextPos, off, n) \<Longrightarrow>
     off = from \<and> from + n + 2 = nextPos \<and> nextPos \<le> size' \<and> from < size'"
  by (auto simp: SafeFindCRLF_def split: if_splits option.splits)

function ParseHeaders ::
  "u64 \<Rightarrow> nat \<Rightarrow> string \<Rightarrow> nat \<Rightarrow> nat \<Rightarrow> nat \<Rightarrow> (view, view) headers \<Rightarrow>
     bool \<times> string \<times> nat \<times> (view, view) headers" where
  "ParseHeaders base maxCount data size' pos headerCount hs =
     (case SafeFindCRLF data size' pos of
        None \<Rightarrow> (False, data, pos, hs)
      | Some (nextPos, off, n) \<Rightarrow>
          let line = sv_substr off n data in
          if line = [] then (True, data, nextPos, hs)
          else (case FindFieldEnd line of
             None \<Rightarrow> (False, data, nextPos, hs)
           | Some colon \<Rightarrow>
               (case Trim (drop (colon + 1) line) of
                  (voff, vn) \<Rightarrow>
                    let valStart = off + (colon + 1) + voff in
                    if \<not> IsFieldSanitized (sv_substr valStart vn data) then (False, data, nextPos, hs)
                    else
                      let d1 = data[off + colon := NUL];
                          d2 = d1[valStart + vn := NUL];
                          hs' = SetHeader (view_bytes base d2) (mk_view base off colon)
                                  (mk_view base valStart vn) hs
                      in if Suc headerCount > maxCount then (False, d2, nextPos, hs')
                         else ParseHeaders base maxCount d2 size' nextPos (Suc headerCount) hs')))"
  by pat_completeness auto
termination
  by (relation "measure (\<lambda>(base, maxCount, data, size', pos, c, hs). size' - pos)")
    (auto dest!: SafeFindCRLF_bounds)

declare ParseHeaders.simps [simp del]

definition ParseBody ::
  "u64 \<Rightarrow> nat \<Rightarrow> nat \<Rightarrow> nat \<Rightarrow> HttpRequest \<Rightarrow> bool \<times> nat \<times> HttpRequest" where
  "ParseBody base size' pos contentLen req =
     (if pos > size' \<or> contentLen > size' \<or> pos + contentLen > size' then (False, pos, req)
      else (True, pos + contentLen, req\<lparr>body := mk_view base pos contentLen\<rparr>))"

section \<open>Growing the read buffer under a request\<close>

definition rebase_view :: "u64 \<Rightarrow> view \<Rightarrow> view" where
  "rebase_view delta v = v\<lparr>vptr := vptr v + delta\<rparr>"

definition header_emplace ::
  "(view \<Rightarrow> string) \<Rightarrow> (view, view) headers \<Rightarrow> view \<times> view \<Rightarrow> (view, view) headers" where
  "header_emplace rd hs kv = (if HasHeader rd (rd (fst kv)) hs then hs else hs @ [kv])"

text \<open>\<open>RebasePointers\<close> rebuilds the map from the shifted views; \<open>rd\<close> reads the buffer after the move.\<close>

definition RebasePointers ::
  "(view \<Rightarrow> string) \<Rightarrow> u64 \<Rightarrow> (view, view) headers \<Rightarrow> (view, view) headers" where
  "RebasePointers rd delta hs =
     (if delta = 0 then hs
      else foldl (header_emplace rd) []
             (map (\<lambda>h. (rebase_view delta (fst h), rebase_view delta (snd h))) hs))"

definition read_data :: "RWBuffer \<Rightarrow> string" where
  "read_data rw = (case readBuffer rw of None \<Rightarrow> [] | Some b \<Rightarrow> blk_bytes b)"

definition read_base :: "RWBuffer \<Rightarrow> u64" where
  "read_base rw = (case GetReadData rw of None \<Rightarrow> 0 | Some p \<Rightarrow> p)"

definition ClientCtx_GrowReadBuffer :: "allocator \<Rightarrow> u32 \<Rightarrow> u32 \<Rightarrow> u32 \<Rightarrow> ClientCtx \<Rightarrow> bool \<times> ClientCtx" where
  "ClientCtx_GrowReadBuffer A growSize maxSize minSize ctx =
     (let oldData = read_base (rwBuffer ctx) in
      case GrowReadBuffer A growSize maxSize minSize (rwBuffer ctx) of
        (False, rw) \<Rightarrow> (False, ctx\<lparr>rwBuffer := rw\<rparr>)
      | (True, rw) \<Rightarrow>
          let newData = read_base rw; ctx1 = ctx\<lparr>rwBuffer := rw\<rparr> in
          if newData = oldData then (True, ctx1)
          else (case requestInfo ctx1 of
                  None \<Rightarrow> (True, ctx1)
                | Some req \<Rightarrow>
                    if vlen (path req) = 0 then (True, ctx1)
                    else
                      let delta = newData - oldData;
                          req' = req\<lparr>path := rebase_view delta (path req),
                                     headers := RebasePointers (view_bytes newData (read_data rw)) delta (headers req)\<rparr>
                      in (True, ctx1\<lparr>requestInfo := Some req'\<rparr>)))"

definition PrepareForBody :: "allocator \<Rightarrow> ClientCtx \<Rightarrow> nat \<Rightarrow> nat \<Rightarrow> u32 \<Rightarrow> bool \<times> ClientCtx" where
  "PrepareForBody A ctx headerEnd contentLen maxBufferSize =
     (let tb = of_nat (headerEnd + contentLen);
          ctx1 = ctx\<lparr>trackBytes := tb, expectedBodyLength := of_nat contentLen\<rparr>
      in ClientCtx_GrowReadBuffer A 1 maxBufferSize tb ctx1)"

section \<open>The parser\<close>

definition set_read_data :: "string \<Rightarrow> RWBuffer \<Rightarrow> RWBuffer" where
  "set_read_data ds rw = rw\<lparr>readBuffer := map_option (\<lambda>b. b\<lparr>blk_bytes := ds\<rparr>) (readBuffer rw)\<rparr>"

text \<open>The header block once \<open>ParseRequest\<close> and \<open>ParseHeaders\<close> have accepted it: framing of the body.\<close>

definition parse_framing ::
  "allocator \<Rightarrow> NetworkConfig \<Rightarrow> ClientCtx \<Rightarrow> HttpRequest \<Rightarrow> nat \<Rightarrow> nat \<Rightarrow> nat \<Rightarrow> HttpParseState \<times> ClientCtx" where
  "parse_framing A cfg ctx request size' headerEnd pos =
     (let base = read_base (rwBuffer ctx);
          rd = view_bytes base (read_data (rwBuffer ctx));
          get = (\<lambda>name. rd (GetHeader rd null_view name (headers request)));
          expectHeader = get ''Expect'';
          contentLengthHeader = get ''Content-Length'';
          encodingHeader = get ''Transfer-Encoding'';
          hasExpectHeader = (expectHeader \<noteq> [] \<and> InsensitiveStringCompare expectHeader ''100-continue'');
          hasContentLengthHeader = (contentLengthHeader \<noteq> []);
          hasEncodingHeader = (encodingHeader \<noteq> []);
          maxBufferSize = maxReadBufferSize cfg
      in
      if hasEncodingHeader \<and> hasContentLengthHeader then (PARSE_ERROR, ctx)
      else if hasExpectHeader \<and> \<not> hasContentLengthHeader \<and> \<not> hasEncodingHeader then (PARSE_EXPECT_417, ctx)
      else if hasContentLengthHeader then
        (case StrToUInt64 contentLengthHeader of
           None \<Rightarrow> (PARSE_ERROR, ctx)
         | Some cl \<Rightarrow>
             let contentLen = unat cl in
             if contentLen > unat (maxBodyTotalSize cfg) \<or> contentLen > unat maxBufferSize \<or>
                headerEnd > unat maxBufferSize - contentLen then
               (if hasExpectHeader then (PARSE_EXPECT_417, ctx) else (PARSE_ERROR, ctx))
             else if hasExpectHeader then
               (case PrepareForBody A ctx headerEnd contentLen maxBufferSize of
                  (False, ctx1) \<Rightarrow> (PARSE_ERROR, ctx1)
                | (True, ctx1) \<Rightarrow> (PARSE_EXPECT_100, ctx1\<lparr>parseState := PARSE_INCOMPLETE_BODY\<rparr>))
             else if contentLen > 0 then
               let availableBody = size' - unat (trackBytes ctx) in
               if availableBody < contentLen then
                 (case PrepareForBody A ctx headerEnd contentLen maxBufferSize of
                    (False, ctx1) \<Rightarrow> (PARSE_ERROR, ctx1)
                  | (True, ctx1) \<Rightarrow> (PARSE_INCOMPLETE_BODY, ctx1\<lparr>parseState := PARSE_INCOMPLETE_BODY\<rparr>))
               else (case ParseBody base size' pos contentLen request of
                       (False, _, _) \<Rightarrow> (PARSE_ERROR, ctx)
                     | (True, _, request') \<Rightarrow>
                         (PARSE_SUCCESS, ctx\<lparr>requestInfo := Some request', parseState := PARSE_SUCCESS\<rparr>))
             else (PARSE_SUCCESS, ctx\<lparr>parseState := PARSE_SUCCESS\<rparr>))
      else if hasEncodingHeader then
        (if \<not> InsensitiveStringCompare encodingHeader ''chunked'' then (PARSE_ERROR, ctx)
         else (if hasExpectHeader then PARSE_EXPECT_100 else PARSE_STREAMING_BODY,
               ctx\<lparr>parseState := PARSE_STREAMING_BODY\<rparr>))
      else (PARSE_SUCCESS, ctx\<lparr>parseState := PARSE_SUCCESS\<rparr>))"

definition parse_incomplete_headers ::
  "allocator \<Rightarrow> NetworkConfig \<Rightarrow> ClientCtx \<Rightarrow> HttpRequest \<Rightarrow> string \<Rightarrow> nat \<Rightarrow> HttpParseState \<times> ClientCtx" where
  "parse_incomplete_headers A cfg ctx request data size' =
     (case SafeFindHeaderEnd data size' (unat (trackBytes ctx)) of
        None \<Rightarrow>
          if size' > unat (maxHeaderTotalSize cfg) then (PARSE_ERROR, ctx)
          else (PARSE_INCOMPLETE_HEADERS,
                ctx\<lparr>trackBytes := (if size' \<ge> 3 then of_nat (size' - 3) else 0)\<rparr>)
      | Some headerEnd \<Rightarrow>
          if headerEnd > unat (maxHeaderTotalSize cfg) then (PARSE_ERROR, ctx)
          else
            let ctx1 = ctx\<lparr>trackBytes := of_nat headerEnd\<rparr>;
                base = read_base (rwBuffer ctx)
            in case ParseRequest base data size' 0 request of
                 (ok, data1, pos1, req1) \<Rightarrow>
                   let ctx2 = ctx1\<lparr>rwBuffer := set_read_data data1 (rwBuffer ctx1), requestInfo := Some req1\<rparr> in
                   if \<not> ok then (PARSE_ERROR, ctx2)
                   else (case ParseHeaders base (unat (maxHeaderTotalCount cfg)) data1 size' pos1 0 (headers req1) of
                           (ok2, data2, pos2, hs2) \<Rightarrow>
                             let req2 = req1\<lparr>headers := hs2\<rparr>;
                                 ctx3 = ctx2\<lparr>rwBuffer := set_read_data data2 (rwBuffer ctx2), requestInfo := Some req2\<rparr>
                             in if \<not> ok2 then (PARSE_ERROR, ctx3)
                                else parse_framing A cfg ctx3 req2 size' headerEnd pos2))"

definition Parse :: "allocator \<Rightarrow> NetworkConfig \<Rightarrow> ClientCtx \<Rightarrow> HttpParseState \<times> ClientCtx" where
  "Parse A cfg ctx =
     (case readBuffer (rwBuffer ctx) of
        None \<Rightarrow> (PARSE_ERROR, ctx)
      | Some b \<Rightarrow>
          let size' = unat (dataLength (blk_meta b)); data = blk_bytes b in
          if size' = 0 then (PARSE_ERROR, ctx)
          else
            let request = (case requestInfo ctx of None \<Rightarrow> new_request | Some r \<Rightarrow> r);
                ctx0 = ctx\<lparr>requestInfo := Some request\<rparr>
            in (case parseState ctx0 of
                  PARSE_IDLE \<Rightarrow>
                    parse_incomplete_headers A cfg (ctx0\<lparr>parseState := PARSE_INCOMPLETE_HEADERS\<rparr>) request data size'
                | PARSE_INCOMPLETE_HEADERS \<Rightarrow> parse_incomplete_headers A cfg ctx0 request data size'
                | PARSE_INCOMPLETE_BODY \<Rightarrow>
                    if size' < unat (trackBytes ctx0) then (PARSE_INCOMPLETE_BODY, ctx0)
                    else (case ParseBody (read_base (rwBuffer ctx0)) size'
                                 (unat (trackBytes ctx0 - expectedBodyLength ctx0))
                                 (unat (expectedBodyLength ctx0)) request of
                            (False, _, _) \<Rightarrow> (PARSE_ERROR, ctx0)
                          | (True, _, request') \<Rightarrow>
                              (PARSE_SUCCESS, ctx0\<lparr>requestInfo := Some request', parseState := PARSE_SUCCESS\<rparr>))
                | PARSE_STREAMING_BODY \<Rightarrow> (PARSE_STREAMING_BODY, ctx0)
                | PARSE_SUCCESS \<Rightarrow> (PARSE_SUCCESS, ctx0)
                | _ \<Rightarrow> (PARSE_ERROR, ctx0)))"

end
