(* ===== verification/HttpParserProofs.thy ===== *)
theory HttpParserProofs
  imports HttpParser
begin

text \<open>
  Properties of the request parser: the header terminator is never missed when bytes arrive in
  pieces, the line parser and the terminator scan agree on where the body starts, stored header
  fields are free of control bytes, and the views of a request survive the buffer moving.
\<close>

section \<open>The scan for the header terminator\<close>

definition hdr_at :: "string \<Rightarrow> nat \<Rightarrow> bool" where
  "hdr_at data p \<longleftrightarrow> data ! p = CR \<and> data ! (p + 1) = LF \<and> data ! (p + 2) = CR \<and> data ! (p + 3) = LF"

lemma find_header_end_loop_Suc:
  "find_header_end_loop data p (Suc n) =
     (if hdr_at data p then Some (p + 4) else find_header_end_loop data (Suc p) n)"
  by (simp add: hdr_at_def)

lemma find_header_end_loop_None:
  "find_header_end_loop data p n = None \<longleftrightarrow> (\<forall>q. p \<le> q \<and> q < p + n \<longrightarrow> \<not> hdr_at data q)"
proof (induction n arbitrary: p)
  case 0
  then show ?case by auto
next
  case (Suc n)
  have "(\<forall>q. p \<le> q \<and> q < p + Suc n \<longrightarrow> \<not> hdr_at data q) \<longleftrightarrow>
      \<not> hdr_at data p \<and> (\<forall>q. Suc p \<le> q \<and> q < Suc p + n \<longrightarrow> \<not> hdr_at data q)"
    by (metis Suc_leD Suc_leI add_Suc add_Suc_right le_less less_add_Suc1)
  then show ?case using Suc[of "Suc p"] by (simp add: find_header_end_loop_Suc del: find_header_end_loop.simps)
qed

lemma find_header_end_loop_Some:
  "find_header_end_loop data p n = Some e \<longleftrightarrow>
     (\<exists>q. e = q + 4 \<and> p \<le> q \<and> q < p + n \<and> hdr_at data q \<and> (\<forall>r. p \<le> r \<and> r < q \<longrightarrow> \<not> hdr_at data r))"
  (is "_ \<longleftrightarrow> (\<exists>q. ?first p n q)")
proof (induction n arbitrary: p)
  case 0
  then show ?case by simp
next
  case (Suc n)
  show ?case
  proof (cases "hdr_at data p")
    case True
    then have "?first p (Suc n) q \<longleftrightarrow> q = p \<and> e = p + 4" for q
      by (metis le_less less_add_Suc1 add_Suc_right not_less order_refl)
    with True show ?thesis by (auto simp: find_header_end_loop_Suc simp del: find_header_end_loop.simps)
  next
    case False
    then have "?first p (Suc n) q \<longleftrightarrow> ?first (Suc p) n q" for q
      by (metis Suc_leD Suc_leI add_Suc add_Suc_right le_less)
    with False Suc[of "Suc p"] show ?thesis
      by (simp add: find_header_end_loop_Suc del: find_header_end_loop.simps)
  qed
qed

lemma SafeFindHeaderEnd_None:
  "SafeFindHeaderEnd data n from = None \<longleftrightarrow> (\<forall>q. from \<le> q \<and> q + 3 < n \<longrightarrow> \<not> hdr_at data q)"
  unfolding SafeFindHeaderEnd_def
  by (auto simp: find_header_end_loop_None)

lemma SafeFindHeaderEnd_Some:
  "SafeFindHeaderEnd data n from = Some e \<longleftrightarrow>
     (\<exists>q. e = q + 4 \<and> from \<le> q \<and> q + 3 < n \<and> hdr_at data q \<and> (\<forall>r. from \<le> r \<and> r < q \<longrightarrow> \<not> hdr_at data r))"
  unfolding SafeFindHeaderEnd_def
  by (auto simp: find_header_end_loop_Some)

lemma SafeFindHeaderEnd_skip:
  assumes "\<forall>q < t. \<not> hdr_at data q"
  shows "SafeFindHeaderEnd data n t = SafeFindHeaderEnd data n 0"
proof (cases "SafeFindHeaderEnd data n 0")
  case None
  then have "SafeFindHeaderEnd data n t = None" by (simp add: SafeFindHeaderEnd_None)
  with None show ?thesis by simp
next
  case (Some e)
  then obtain q where q: "e = q + 4" "q + 3 < n" "hdr_at data q" "\<forall>r. r < q \<longrightarrow> \<not> hdr_at data r"
    by (auto simp: SafeFindHeaderEnd_Some)
  then have "t \<le> q" using assms by (meson not_less)
  with q have "SafeFindHeaderEnd data n t = Some e" by (auto simp: SafeFindHeaderEnd_Some)
  with Some show ?thesis by simp
qed

text \<open>Where no terminator lies wholly inside the first \<open>s\<close> bytes, none starts before \<open>s - 3\<close>.\<close>

lemma no_terminator_before:
  assumes "SafeFindHeaderEnd data s 0 = None"
    and "take s data' = take s data" "s \<le> length data" "s \<le> length data'"
  shows "\<forall>q < s - 3. \<not> hdr_at data' q"
proof (intro allI impI)
  fix q assume q: "q < s - 3"
  have "data' ! i = data ! i" if "i < s" for i
    using assms(2) that by (metis nth_take)
  then show "\<not> hdr_at data' q"
    using q assms(1) by (auto simp: SafeFindHeaderEnd_None hdr_at_def)
qed

lemma parse_incomplete_headers_track:
  assumes "SafeFindHeaderEnd data n (unat (trackBytes ctx)) = SafeFindHeaderEnd data n 0"
  shows "fst (parse_incomplete_headers A cfg ctx r data n) =
      fst (parse_incomplete_headers A cfg (ctx\<lparr>trackBytes := 0\<rparr>) r data n)
    \<and> (fst (parse_incomplete_headers A cfg ctx r data n) \<noteq> PARSE_ERROR \<longrightarrow>
       snd (parse_incomplete_headers A cfg ctx r data n) =
       snd (parse_incomplete_headers A cfg (ctx\<lparr>trackBytes := 0\<rparr>) r data n))"
  unfolding parse_incomplete_headers_def using assms
  by (cases "SafeFindHeaderEnd data n 0") (simp_all add: Let_def)


definition sample_config :: NetworkConfig where
  "sample_config = \<lparr>maxReadBufferSize = 64, maxBodyTotalSize = 32, maxHeaderTotalSize = 48, maxHeaderTotalCount = 8\<rparr>"

definition sample_ctx :: "string \<Rightarrow> u32 \<Rightarrow> u32 \<Rightarrow> ClientCtx" where
  "sample_ctx ds n t = \<lparr>rwBuffer = \<lparr>writeBuffer = None,
       readBuffer = Some \<lparr>blk_addr = 0x1000, blk_size = 8 + of_nat (length ds),
         blk_meta = \<lparr>bufferSize = of_nat (length ds), dataLength = n\<rparr>, blk_bytes = ds\<rparr>\<rparr>,
     parseState = PARSE_INCOMPLETE_HEADERS, trackBytes = t, expectedBodyLength = 0, requestInfo = None\<rparr>"


section \<open>The line parser and the terminator agree\<close>

lemma SafeFindCRLF_Some:
  assumes "SafeFindCRLF data n from = Some (nextPos, off, k)" "n \<le> length data"
  shows "off = from" "nextPos = from + k + 2" "nextPos \<le> n"
    and "data ! (from + k) = CR" "data ! (from + k + 1) = LF"
    and "\<forall>i < k. data ! (from + i) \<noteq> CR"
proof -
  define L where "L = take (n - from) (drop from data)"
  have Ln: "L ! i = data ! (from + i)" if "i < length L" for i
    using that assms(2) by (simp add: L_def)
  from assms(1) have f: "sv_find CR L = Some k" "\<not> (from + k + 1 \<ge> n \<or> data ! (from + k + 1) \<noteq> LF)"
    "off = from" "nextPos = from + k + 2"
    unfolding SafeFindCRLF_def L_def[symmetric] by (auto split: if_splits option.splits)
  then show "off = from" "nextPos = from + k + 2" "nextPos \<le> n" "data ! (from + k + 1) = LF"
    by auto
  have k: "k < length L" "L ! k = CR" "CR \<notin> set (take k L)"
    using f(1) unfolding sv_find_Some by blast+
  then show "data ! (from + k) = CR" using Ln by simp
  show "\<forall>i < k. data ! (from + i) \<noteq> CR"
  proof (intro allI impI)
    fix i assume i: "i < k"
    then have "L ! i \<in> set (take k L)"
      using k(1) by (auto simp: in_set_conv_nth intro!: exI[of _ i])
    then show "data ! (from + i) \<noteq> CR" using k(1,3) Ln[of i] i by auto
  qed
qed

text \<open>State of the line walk over the unchanged tail of the original buffer \<open>orig\<close>.\<close>

definition walk_inv :: "string \<Rightarrow> string \<Rightarrow> nat \<Rightarrow> bool" where
  "walk_inv orig data pos \<longleftrightarrow>
     length data = length orig \<and> 2 \<le> pos \<and> pos \<le> length orig \<and> drop pos data = drop pos orig
     \<and> orig ! (pos - 2) = CR \<and> orig ! (pos - 1) = LF \<and> (\<forall>q < pos - 2. \<not> hdr_at orig q)"

lemma walk_inv_nth: "walk_inv orig data pos \<Longrightarrow> pos \<le> i \<Longrightarrow> i < length orig \<Longrightarrow> data ! i = orig ! i"
  unfolding walk_inv_def by (metis le_add_diff_inverse nth_drop)

lemma walk_inv_step:
  assumes inv: "walk_inv orig data pos" and n: "n \<le> length data"
    and f: "SafeFindCRLF data n pos = Some (nextPos, off, k)" and k: "0 < k"
    and d: "length data' = length data" "drop nextPos data' = drop nextPos data"
  shows "walk_inv orig data' nextPos"
proof -
  note c = SafeFindCRLF_Some[OF f n]
  have len: "length data = length orig" using inv by (simp add: walk_inv_def)
  have nth: "orig ! i = data ! i" if "pos \<le> i" "i < length orig" for i
    using walk_inv_nth[OF inv that] by simp
  have lim: "pos + k + 1 < length orig" using c(2,3) n len by simp
  have no: "\<not> hdr_at orig q" if q: "q < nextPos - 2" for q
  proof -
    consider "q < pos - 2" | "q = pos - 2" | "q = pos - 1" | "pos \<le> q" by linarith
    then show ?thesis
    proof cases
      case 1
      then show ?thesis using inv by (simp add: walk_inv_def)
    next
      case 2
      then have "q + 2 = pos" using inv unfolding walk_inv_def by linarith
      then show ?thesis using c(6) k nth[of pos] lim by (auto simp: hdr_at_def)
    next
      case 3
      then show ?thesis using inv by (simp add: walk_inv_def hdr_at_def)
    next
      case 4
      then have "data ! q \<noteq> CR" using c(2,6) q
        by (metis add_diff_cancel_right' le_add_diff_inverse nat_add_left_cancel_less)
      then show ?thesis using nth[of q] 4 q c(2) lim by (simp add: hdr_at_def)
    qed
  qed
  have "drop nextPos data' = drop nextPos orig"
    using d(2) inv c(2) unfolding walk_inv_def
    by (metis add.assoc drop_drop add.commute)
  then show ?thesis
    using no d len lim c nth[of "pos + k"] nth[of "pos + k + 1"] by (simp add: walk_inv_def)
qed

lemma walk_inv_end:
  assumes "walk_inv orig data pos" "n \<le> length data" "SafeFindCRLF data n pos = Some (nextPos, off, 0)"
  shows "SafeFindHeaderEnd orig n 0 = Some nextPos"
proof -
  note c = SafeFindCRLF_Some[OF assms(3,2)]
  have l: "length data = length orig" using assms(1) by (simp add: walk_inv_def)
  have "data ! pos = orig ! pos" "data ! (pos + 1) = orig ! (pos + 1)"
    using c(2,3) assms(2) l by (auto intro: walk_inv_nth[OF assms(1)])
  moreover obtain p where p: "pos = p + 2"
    using assms(1) by (metis walk_inv_def le_add_diff_inverse2)
  ultimately have "hdr_at orig p"
    using c(2-5) assms(1) by (simp add: hdr_at_def walk_inv_def numeral_3_eq_3)
  then show ?thesis
    using c(2,3) assms(1) unfolding SafeFindHeaderEnd_Some walk_inv_def p
    by (intro exI[of _ p]) auto
qed

lemma drop_write_at:
  "off + length ds \<le> n \<Longrightarrow> n \<le> length bs \<Longrightarrow> drop n (write_at off ds bs) = drop n bs"
  by (simp add: write_at_def)

lemma set_path_target_frame:
  assumes "set_path_target base data pathStart pathEnd = Some (data', v)"
    and "pathStart < pathEnd" "pathEnd \<le> length data"
  shows "length data' = length data" "drop pathEnd data' = drop pathEnd data"
proof -
  define raw where "raw = sv_substr pathStart (pathEnd - pathStart) data"
  define part where "part = (case sv_find (CHR ''?'') raw of None \<Rightarrow> raw | Some q \<Rightarrow> sv_substr 0 q raw)"
  have raw: "length raw = pathEnd - pathStart" using assms(2,3) by (simp add: raw_def sv_substr_def)
  obtain buf m where n: "NormalizeURIPathInplace part = Some (buf, m)"
    using assms(1) unfolding set_path_target_def Let_def raw_def[symmetric] part_def[symmetric]
    by (auto split: option.splits)
  note b = NormalizeURIPathInplace_ref(2-4)[OF n]
  have "length data' = length data \<and> drop pathEnd data' = drop pathEnd data"
  proof (cases "sv_find (CHR ''?'') raw")
    case None
    then have "data' = write_at pathStart buf data" "part = raw"
      using assms(1) n unfolding set_path_target_def Let_def raw_def[symmetric] part_def[symmetric]
      by (auto simp: part_def)
    then show ?thesis
      using assms(2,3) raw b by (simp add: length_write_at drop_write_at)
  next
    case (Some q)
    define d1 where "d1 = write_at pathStart buf data"
    define ql where "ql = length raw - (q + 1)"
    define qs where "qs = sv_substr (pathStart + q + 1) ql d1"
    define d2 where "d2 = write_at (pathStart + m + 1) qs d1"
    have q: "q < length raw" using Some by (simp add: sv_find_Some)
    have lp: "length part = q" using Some q by (simp add: part_def sv_substr_def)
    have d': "data' = d2[pathStart + m := CHR ''?'']"
      using assms(1) n Some unfolding set_path_target_def Let_def raw_def[symmetric] part_def[symmetric]
      by (simp add: d1_def d2_def qs_def ql_def)
    have d1: "length d1 = length data" "drop pathEnd d1 = drop pathEnd data"
      using assms(2,3) raw b q lp by (simp_all add: d1_def length_write_at drop_write_at)
    have lq: "length qs \<le> ql" by (simp add: qs_def sv_substr_def)
    have "length d2 = length data" "drop pathEnd d2 = drop pathEnd data"
      using assms(2,3) raw b q lp lq d1 by (simp_all add: d2_def ql_def length_write_at drop_write_at)
    then show ?thesis
      using b lp q raw by (simp add: d' drop_list_update_ge)
  qed
  then show "length data' = length data" "drop pathEnd data' = drop pathEnd data" by auto
qed

lemma ParseRequest_ok:
  assumes "ParseRequest base data n 0 req = (True, data', nextPos, req')" "n \<le> length data"
  obtains k pathStart pathEnd v where
    "SafeFindCRLF data n 0 = Some (nextPos, 0, k)" "pathStart < pathEnd" "pathEnd < k"
    "set_path_target base data pathStart pathEnd = Some (data', v)"
proof -
  obtain np off k where f: "SafeFindCRLF data n 0 = Some (np, off, k)"
    using assms(1) by (auto simp: ParseRequest_def split: option.splits)
  note c = SafeFindCRLF_Some[OF f assms(2)]
  define line where "line = sv_substr off k data"
  have ll: "length line \<le> k" by (simp add: line_def sv_substr_def)
  obtain mEnd where m: "sv_find (CHR '' '') line = Some mEnd"
    using assms(1) f unfolding ParseRequest_def Let_def by (auto simp: line_def split: option.splits)
  have cond: "HttpMethodToEnum (sv_substr 0 mEnd line) \<noteq> M_UNKNOWN"
    using assms(1) f m unfolding ParseRequest_def Let_def by (auto simp: line_def split: if_splits)
  obtain pe where pe: "sv_find_from (CHR '' '') (mEnd + 1) line = Some pe"
    using assms(1) f m cond unfolding ParseRequest_def Let_def
    by (auto simp: line_def split: if_splits option.splits)
  have ne: "pe \<noteq> mEnd + 1"
    using assms(1) f m cond pe unfolding ParseRequest_def Let_def
    by (auto simp: line_def split: if_splits option.splits)
  obtain v where t: "set_path_target base data (mEnd + 1) pe = Some (data', v)" "np = nextPos"
    using assms(1) f m cond pe ne unfolding ParseRequest_def Let_def
    by (auto simp: line_def split: if_splits option.splits)
  have "mEnd + 1 \<le> pe" "pe < length line" using sv_find_from_Some[OF pe] by auto
  with t ne ll f c(1) show ?thesis by (intro that[of k "mEnd + 1" pe v]) auto
qed

lemma ParseRequest_walk:
  assumes "ParseRequest base data n 0 req = (True, data', nextPos, req')" "n \<le> length data"
  shows "walk_inv data data' nextPos"
proof -
  obtain k ps pe v where p: "SafeFindCRLF data n 0 = Some (nextPos, 0, k)" "ps < pe" "pe < k"
    "set_path_target base data ps pe = Some (data', v)"
    using ParseRequest_ok[OF assms] by blast
  note c = SafeFindCRLF_Some[OF p(1) assms(2)]
  have pe: "pe \<le> length data" using p(3) c(2,3) assms(2) by simp
  note fr = set_path_target_frame[OF p(4,2) pe]
  have np: "nextPos = pe + (nextPos - pe)" using p(3) c(2) by simp
  have "drop nextPos data' = drop nextPos data"
    by (subst (1 2) np) (metis fr(2) drop_drop add.commute)
  moreover have "\<forall>q < nextPos - 2. \<not> hdr_at data q"
    using c(2,6) by (simp add: hdr_at_def)
  ultimately show ?thesis
    using c assms(2) fr(1) by (simp add: walk_inv_def)
qed

lemma trim_left_le: "trim_left sv i n \<le> i + n"
proof (induction n arbitrary: i)
  case (Suc n)
  then show ?case using Suc[of "Suc i"] by simp
qed simp

lemma trim_right_le: "trim_right sv i n \<le> n"
  by (induction n) auto

lemma Trim_bounds: "Trim sv = (off, k) \<Longrightarrow> off + k \<le> length sv"
  using trim_left_le[of sv 0 "length sv"] trim_right_le[of sv "trim_left sv 0 (length sv)" "length sv"]
  by (auto simp: Trim_def Let_def)

lemma field_end_loop_Some:
  "field_end_loop line i = Some e \<Longrightarrow>
     i \<le> e \<and> 0 < e \<and> e < i + length line \<and> line ! (e - i) = CHR '':'' \<and>
     (\<forall>c \<in> set (take (e - i) line). is_tchar_bit c)"
proof (induction line arbitrary: i)
  case (Cons c line)
  show ?case
  proof (cases "c = CHR '':''")
    case True
    then show ?thesis using Cons.prems by (auto split: if_splits)
  next
    case False
    then have r: "is_tchar_bit c" "field_end_loop line (Suc i) = Some e"
      using Cons.prems by (auto split: if_splits)
    with Cons.IH[OF r(2)] obtain m where "e = Suc (i + m)"
      by (metis add_Suc le_Suc_ex)
    with Cons.IH[OF r(2)] r(1) show ?thesis by auto
  qed
qed simp

lemma FindFieldEnd_Some:
  "FindFieldEnd line = Some e \<Longrightarrow>
     0 < e \<and> e < length line \<and> line ! e = CHR '':'' \<and> (\<forall>c \<in> set (take e line). is_tchar_bit c)"
  using field_end_loop_Some[of line 0 e] by (simp add: FindFieldEnd_def)

text \<open>One accepted header line: what the loop body of \<open>ParseHeaders\<close> did.\<close>

definition field_step ::
  "u64 \<Rightarrow> nat \<Rightarrow> string \<Rightarrow> nat \<Rightarrow> (view, view) headers \<Rightarrow> string \<Rightarrow> nat \<Rightarrow> (view, view) headers \<Rightarrow> bool" where
  "field_step base n data pos hs data2 np hs2 \<longleftrightarrow>
     (\<exists>k colon vs vn. SafeFindCRLF data n pos = Some (np, pos, k) \<and> 0 < k
        \<and> FindFieldEnd (sv_substr pos k data) = Some colon \<and> colon < k
        \<and> pos + colon < vs \<and> vs + vn \<le> pos + k \<and> IsFieldSanitized (sv_substr vs vn data)
        \<and> data2 = data[pos + colon := NUL, vs + vn := NUL]
        \<and> hs2 = SetHeader (view_bytes base data2) (mk_view base pos colon) (mk_view base vs vn) hs)"

lemma ParseHeaders_cases:
  assumes "ParseHeaders base mc data n pos c hs = (True, data', pos', hs')" "n \<le> length data"
  shows "(SafeFindCRLF data n pos = Some (pos', pos, 0) \<and> data' = data \<and> hs' = hs) \<or>
    (\<exists>data2 np hs2. field_step base n data pos hs data2 np hs2 \<and> Suc c \<le> mc \<and>
       ParseHeaders base mc data2 n np (Suc c) hs2 = (True, data', pos', hs'))"
proof -
  note ph = assms(1)[unfolded ParseHeaders.simps[of base mc data]]
  obtain np k where f: "SafeFindCRLF data n pos = Some (np, pos, k)"
    using ph SafeFindCRLF_Some(1)[OF _ assms(2)] by (auto split: option.splits)
  define line where "line = sv_substr pos k data"
  have ll: "length line = k"
    using SafeFindCRLF_Some[OF f assms(2)] assms(2) by (simp add: line_def sv_substr_def)
  show ?thesis
  proof (cases "line = []")
    case True
    then have "k = 0" using ll by simp
    then show ?thesis using ph f True by (auto simp: line_def)
  next
    case False
    obtain colon where co: "FindFieldEnd line = Some colon"
      using ph f False by (auto simp: line_def Let_def split: option.splits)
    obtain voff vn where tr: "Trim (drop (colon + 1) line) = (voff, vn)" by fastforce
    define vs where "vs = pos + (colon + 1) + voff"
    have c: "colon < k" using FindFieldEnd_Some[OF co] ll by simp
    then have v: "vs + vn \<le> pos + k" using Trim_bounds[OF tr] ll by (simp add: vs_def)
    define d2 where "d2 = data[pos + colon := NUL, vs + vn := NUL]"
    define hs2 where "hs2 = SetHeader (view_bytes base d2) (mk_view base pos colon) (mk_view base vs vn) hs"
    have r: "IsFieldSanitized (sv_substr vs vn data)" "Suc c \<le> mc"
      "ParseHeaders base mc d2 n np (Suc c) hs2 = (True, data', pos', hs')"
      using ph f False co tr by (auto simp: line_def Let_def vs_def d2_def hs2_def split: if_splits)
    have "pos + colon < vs" "0 < k" using False ll by (auto simp: vs_def)
    then have "field_step base n data pos hs d2 np hs2"
      unfolding field_step_def using f co c v r(1) d2_def hs2_def unfolding line_def by blast
    with r show ?thesis by blast
  qed
qed

lemma field_step_data:
  assumes "field_step base n data pos hs data2 np hs2" "n \<le> length data"
  shows "length data2 = length data" "drop np data2 = drop np data" "pos < np"
proof -
  from assms obtain k colon vs vn where f: "SafeFindCRLF data n pos = Some (np, pos, k)" "colon < k"
    "vs + vn \<le> pos + k" "data2 = data[pos + colon := NUL, vs + vn := NUL]"
    unfolding field_step_def by blast
  with SafeFindCRLF_Some(2)[OF f(1) assms(2)]
  show "length data2 = length data" "drop np data2 = drop np data" "pos < np"
    by (simp_all add: drop_list_update_ge)
qed

text \<open>Invariant rule for the header loop.\<close>

lemma ParseHeaders_rule:
  assumes "ParseHeaders base mc data n pos c hs = (True, data', pos', hs')"
    and "n \<le> length data" "I data pos c hs"
    and step: "\<And>data pos c hs data2 np hs2. I data pos c hs \<Longrightarrow> n \<le> length data \<Longrightarrow> Suc c \<le> mc \<Longrightarrow>
           field_step base n data pos hs data2 np hs2 \<Longrightarrow> I data2 np (Suc c) hs2"
  shows "\<exists>pos0 c'. I data' pos0 c' hs' \<and> n \<le> length data' \<and> SafeFindCRLF data' n pos0 = Some (pos', pos0, 0)"
  using assms(1-3)
proof (induction "length data - pos" arbitrary: data pos c hs rule: less_induct)
  case less
  from ParseHeaders_cases[OF less.prems(1,2)] show ?case
  proof (elim disjE exE conjE)
    fix data2 np hs2
    assume f: "field_step base n data pos hs data2 np hs2" "Suc c \<le> mc"
      and r: "ParseHeaders base mc data2 n np (Suc c) hs2 = (True, data', pos', hs')"
    note d = field_step_data[OF f(1) less.prems(2)]
    have "pos < length data"
      using f(1) less.prems(2) by (auto simp: field_step_def dest: SafeFindCRLF_bounds)
    then show ?case
      using less.hyps[of data2 np "Suc c" hs2] r d less.prems(2) step[OF less.prems(3,2) f(2,1)] by simp
  qed (use less.prems in auto)
qed

lemma ParseHeaders_walk:
  assumes "ParseHeaders base mc data n pos c hs = (True, data', pos', hs')"
    and "walk_inv orig data pos" "n \<le> length data"
  shows "SafeFindHeaderEnd orig n 0 = Some pos' \<and> length data' = length orig \<and> drop pos' data' = drop pos' orig"
proof -
  have "walk_inv orig data2 np"
    if "walk_inv orig data pos" "n \<le> length data" "field_step base n data pos hs data2 np hs2"
    for data pos hs data2 np hs2
    using walk_inv_step[OF that(1,2)] that(3) field_step_data(1,2)[OF that(3,2)]
    by (auto simp: field_step_def)
  with ParseHeaders_rule[OF assms(1,3), of "\<lambda>data pos c hs. walk_inv orig data pos"] assms(2)
  obtain p where p: "walk_inv orig data' p" "n \<le> length data'" "SafeFindCRLF data' n p = Some (pos', p, 0)"
    by blast
  have "pos' = p + 2" using SafeFindCRLF_Some(2)[OF p(3,2)] by simp
  then show ?thesis
    using walk_inv_end[OF p] p(1) unfolding walk_inv_def by (metis add.commute drop_drop)
qed

text \<open>C3. The two readings of the header block agree. Whenever the request line and the header lines
  are accepted, the position where the line parser stops, which is where the body is taken from, is
  exactly the position that the terminator scan of the original bytes reports, which is what the
  body length is checked against; and the in-place rewriting of the header block has not touched a
  single byte of the body.\<close>

theorem body_starts_at_terminator:
  assumes "ParseRequest base data n 0 req = (True, data1, pos1, req1)"
    and "ParseHeaders base mc data1 n pos1 0 (headers req1) = (True, data2, pos2, hs2)"
    and "n \<le> length data"
  shows "SafeFindHeaderEnd data n 0 = Some pos2 \<and> length data2 = length data \<and> drop pos2 data2 = drop pos2 data"
proof -
  have w: "walk_inv data data1 pos1" by (rule ParseRequest_walk[OF assms(1,3)])
  then have "n \<le> length data1" using assms(3) by (simp add: walk_inv_def)
  from ParseHeaders_walk[OF assms(2) w this] show ?thesis .
qed

text \<open>A request on which the witnesses of the parser evaluate.\<close>

definition sample_request :: string where
  "sample_request = ''GET /. HTTP/1.1'' @ [CR, LF] @ ''A:1 '' @ [CR, LF, CR, LF] @ ''xy''"

definition sample_line :: "bool \<times> string \<times> nat \<times> HttpRequest" where
  "sample_line = ParseRequest 4096 sample_request 27 0 new_request"

definition sample_fields :: "bool \<times> string \<times> nat \<times> (view, view) headers" where
  "sample_fields = (case sample_line of (ok, data1, pos1, req1) \<Rightarrow>
     ParseHeaders 4096 8 data1 27 pos1 0 (headers req1))"

lemma sample_accepted:
  obtains data1 pos1 req1 data2 pos2 hs2 where
    "sample_line = (True, data1, pos1, req1)" "sample_fields = (True, data2, pos2, hs2)"
    "headers req1 = []" "hs2 \<noteq> []"
proof -
  have "fst sample_line" "headers (snd (snd (snd sample_line))) = []"
    "fst sample_fields" "snd (snd (snd sample_fields)) \<noteq> []"
    by code_simp+
  with that show ?thesis by (metis prod.collapse)
qed

theorem body_starts_at_terminator_witness:
  "SafeFindHeaderEnd sample_request 27 0 = Some (fst (snd (snd sample_fields)))
   \<and> drop 25 (fst (snd sample_fields)) = ''xy''"
proof (rule sample_accepted)
  fix data1 pos1 req1 data2 pos2 hs2
  assume s: "sample_line = (True, data1, pos1, req1)" "sample_fields = (True, data2, pos2, hs2)"
  have "SafeFindHeaderEnd sample_request 27 0 = Some pos2 \<and> length data2 = length sample_request
      \<and> drop pos2 data2 = drop pos2 sample_request"
    by (rule body_starts_at_terminator[of 4096 sample_request 27 new_request data1 pos1 req1 8 data2 pos2 hs2])
      (use s in \<open>simp_all add: sample_line_def sample_fields_def sample_request_def\<close>)
  moreover have "SafeFindHeaderEnd sample_request 27 0 = Some 25" "drop 25 sample_request = ''xy''"
    by code_simp+
  ultimately show ?thesis unfolding s(2) by (metis fst_conv snd_conv option.inject)
qed

section \<open>Stored header fields\<close>

lemma foldl_or_zero:
  "foldl (\<lambda>b c. b OR (if P c then 1 else 0)) (z :: u32) xs = 0 \<longleftrightarrow> z = 0 \<and> (\<forall>c \<in> set xs. \<not> P c)"
  by (induction xs arbitrary: z) (auto simp: or_eq_0_iff)

lemma IsFieldSanitized_iff:
  "IsFieldSanitized v \<longleftrightarrow> (\<forall>c \<in> set v. \<not> ((byte_of c < 0x20 \<and> byte_of c \<noteq> 9) \<or> byte_of c = 0x7F))"
  unfolding IsFieldSanitized_def Let_def foldl_or_zero by simp

text \<open>The request's name and value views: inside the consumed part of the buffer, terminated by a
  NUL byte, with token characters in the name and no control byte but TAB in the value.\<close>

definition name_ok :: "u64 \<Rightarrow> string \<Rightarrow> nat \<Rightarrow> view \<Rightarrow> bool" where
  "name_ok base data pos v \<longleftrightarrow> (\<exists>off k. v = mk_view base off k \<and> 0 < k \<and> off + k < pos \<and> pos \<le> length data
     \<and> data ! (off + k) = NUL \<and> (\<forall>c \<in> set (take k (drop off data)). c \<in> set token_chars))"

definition value_ok :: "u64 \<Rightarrow> string \<Rightarrow> nat \<Rightarrow> view \<Rightarrow> bool" where
  "value_ok base data pos v \<longleftrightarrow> (\<exists>off k. v = mk_view base off k \<and> off + k < pos \<and> pos \<le> length data
     \<and> data ! (off + k) = NUL \<and> IsFieldSanitized (take k (drop off data)))"

definition fields_inv :: "u64 \<Rightarrow> string \<Rightarrow> nat \<Rightarrow> nat \<Rightarrow> (view, view) headers \<Rightarrow> bool" where
  "fields_inv base data pos c hs \<longleftrightarrow> length hs \<le> c \<and> pos \<le> length data \<and>
     (\<forall>h \<in> set hs. name_ok base data pos (fst h) \<and> value_ok base data pos (snd h)) \<and>
     headers_distinct (view_bytes base data) hs"

lemma view_bytes_mk_view:
  "off < 2 ^ 64 \<Longrightarrow> view_bytes base data (mk_view base off k) = take k (drop off data)"
  by (simp add: view_bytes_def mk_view_def unat_of_nat)

lemma take_drop_prefix:
  assumes "take pos data2 = take pos data" "off + k \<le> pos"
  shows "take k (drop off data2) = take k (drop off data)"
proof -
  have "take k (drop off d) = take k (drop off (take pos d))" for d :: "'a list"
    using assms(2) by (simp add: drop_take min_def)
  then show ?thesis using assms(1) by metis
qed

lemma name_ok_mono:
  "name_ok base data pos v \<Longrightarrow> take pos data2 = take pos data \<Longrightarrow> pos \<le> np \<Longrightarrow> np \<le> length data2 \<Longrightarrow>
     name_ok base data2 np v"
  unfolding name_ok_def using take_drop_prefix[of pos data2 data] by (metis less_imp_le less_le_trans nth_take)

lemma value_ok_mono:
  "value_ok base data pos v \<Longrightarrow> take pos data2 = take pos data \<Longrightarrow> pos \<le> np \<Longrightarrow> np \<le> length data2 \<Longrightarrow>
     value_ok base data2 np v"
  unfolding value_ok_def using take_drop_prefix[of pos data2 data] by (metis less_imp_le less_le_trans nth_take)

lemma name_ok_bytes:
  assumes "name_ok base data pos v" "take pos data2 = take pos data" "length data < 2 ^ 64"
  shows "view_bytes base data2 v = view_bytes base data v"
proof -
  obtain off k where v: "v = mk_view base off k" "off + k < pos" "pos \<le> length data"
    using assms(1) unfolding name_ok_def by blast
  have "off < 2 ^ 64" using v(2,3) assms(3) by linarith
  with v take_drop_prefix[OF assms(2), of off k] show ?thesis by (simp add: view_bytes_mk_view)
qed

lemma name_ok_tokens:
  assumes "name_ok base data pos v" "length data < 2 ^ 64"
  shows "set (view_bytes base data v) \<subseteq> set token_chars"
proof -
  obtain off k where v: "v = mk_view base off k" "off + k < pos" "pos \<le> length data"
    "\<forall>c \<in> set (take k (drop off data)). c \<in> set token_chars"
    using assms(1) unfolding name_ok_def by blast
  have "off < 2 ^ 64" using v(2,3) assms(2) by linarith
  with v(1,4) show ?thesis by (auto simp: view_bytes_mk_view)
qed

lemma value_ok_clean:
  assumes "value_ok base data pos v" "length data < 2 ^ 64"
  shows "{CR, LF, NUL} \<inter> set (view_bytes base data v) = {}"
proof -
  obtain off k where v: "v = mk_view base off k" "off + k < pos" "pos \<le> length data"
    "IsFieldSanitized (take k (drop off data))"
    using assms(1) unfolding value_ok_def by blast
  have "off < 2 ^ 64" using v(2,3) assms(2) by linarith
  then have "view_bytes base data v = take k (drop off data)" using v(1) by (simp add: view_bytes_mk_view)
  moreover have "\<not> ((byte_of c < 0x20 \<and> byte_of c \<noteq> 9) \<or> byte_of c = 0x7F)" if "c \<in> set (take k (drop off data))" for c
    using v(4) that by (simp add: IsFieldSanitized_iff)
  moreover have "byte_of c < 0x20 \<and> byte_of c \<noteq> 9" if "c \<in> {CR, LF, NUL}" for c
    using that by auto
  ultimately show ?thesis by auto
qed

lemma SetHeader_length: "length (SetHeader rd key val hs) \<le> Suc (length hs)"
  by (induction rd key val hs rule: SetHeader.induct) auto

lemma field_step_inv:
  assumes inv: "fields_inv base data pos c hs" and n: "n \<le> length data" "length data < 2 ^ 64"
    and st: "field_step base n data pos hs data2 np hs2"
  shows "fields_inv base data2 np (Suc c) hs2"
proof -
  from st obtain k colon vs vn where f: "SafeFindCRLF data n pos = Some (np, pos, k)"
    "FindFieldEnd (sv_substr pos k data) = Some colon" "colon < k" "pos + colon < vs" "vs + vn \<le> pos + k"
    "IsFieldSanitized (sv_substr vs vn data)"
    and d2: "data2 = data[pos + colon := NUL, vs + vn := NUL]"
    and hs2: "hs2 = SetHeader (view_bytes base data2) (mk_view base pos colon) (mk_view base vs vn) hs"
    unfolding field_step_def by blast
  note cr = SafeFindCRLF_Some[OF f(1) n(1)]
  have pre: "take pos data2 = take pos data" using f(4) by (simp add: d2)
  have len: "length data2 = length data" "pos \<le> np" "np \<le> length data2"
    using cr(2,3) n(1) by (simp_all add: d2)
  have old: "\<forall>h \<in> set hs. name_ok base data2 np (fst h) \<and> value_ok base data2 np (snd h)"
    using inv name_ok_mono[OF _ pre len(2,3)] value_ok_mono[OF _ pre len(2,3)]
    unfolding fields_inv_def by blast
  have "take colon (drop pos data2) = take colon (sv_substr pos k data)"
    using f(3,4) by (simp add: d2 sv_substr_def drop_update_swap min_def)
  then have "\<forall>ch \<in> set (take colon (drop pos data2)). ch \<in> set token_chars"
    using FindFieldEnd_Some[OF f(2)] by (simp add: is_tchar_bit_iff)
  then have nk: "name_ok base data2 np (mk_view base pos colon)"
    unfolding name_ok_def using FindFieldEnd_Some[OF f(2)] f(3,4) cr(2) len
    by (intro exI[of _ pos] exI[of _ colon]) (simp add: d2)
  have "take vn (drop vs data2) = sv_substr vs vn data"
    using f(4) by (simp add: d2 sv_substr_def drop_update_swap)
  then have vk: "value_ok base data2 np (mk_view base vs vn)"
    unfolding value_ok_def using f(5,6) cr(2) len
    by (intro exI[of _ vs] exI[of _ vn]) (simp add: d2)
  have "map (\<lambda>h. ci_key (view_bytes base data2 (fst h))) hs = map (\<lambda>h. ci_key (view_bytes base data (fst h))) hs"
    using inv name_ok_bytes[OF _ pre n(2)] unfolding fields_inv_def by (intro map_cong) simp_all
  then have "headers_distinct (view_bytes base data2) hs"
    using inv unfolding fields_inv_def headers_distinct_def by metis
  then show ?thesis
    unfolding fields_inv_def hs2
    using SetHeader_all[OF old nk vk] SetHeader_distinct len(3) inv
      SetHeader_length[of "view_bytes base data2" "mk_view base pos colon" "mk_view base vs vn" hs]
    by (auto simp: fields_inv_def)
qed

text \<open>C10. What an accepted header block leaves in the request. At most \<open>maxHeaderTotalCount\<close> fields
  are stored, no two of them have names equal up to case, every name and value view lies inside the
  buffer and is terminated by a NUL byte, names are non-empty token strings and values contain no
  control byte but TAB, so that no stored field can carry a line break.\<close>

theorem accepted_headers_are_sanitised:
  assumes "ParseHeaders base mc data n pos 0 [] = (True, data', pos', hs')"
    and "n \<le> length data" "pos \<le> n" "length data < 2 ^ 64"
  shows "length hs' \<le> mc \<and> headers_distinct (view_bytes base data') hs' \<and>
     (\<forall>h \<in> set hs'. name_ok base data' pos' (fst h) \<and> value_ok base data' pos' (snd h)
        \<and> set (view_bytes base data' (fst h)) \<subseteq> set token_chars
        \<and> {CR, LF, NUL} \<inter> set (view_bytes base data' (snd h)) = {})"
proof -
  let ?I = "\<lambda>data pos c hs. fields_inv base data pos c hs \<and> length data < 2 ^ 64 \<and> c \<le> mc"
  have step: "?I data2 np (Suc c) hs2"
    if "?I data pos c hs" "n \<le> length data" "Suc c \<le> mc" "field_step base n data pos hs data2 np hs2"
    for data pos c hs data2 np hs2
    using field_step_inv[OF _ that(2) _ that(4)] field_step_data(1)[OF that(4,2)] that by auto
  have "?I data pos 0 []" using assms(2-4) by (simp add: fields_inv_def headers_distinct_def)
  with ParseHeaders_rule[where I = ?I, OF assms(1,2)] step
  have "\<exists>p c. ?I data' p c hs' \<and> n \<le> length data' \<and> SafeFindCRLF data' n p = Some (pos', p, 0)" by blast
  then obtain p c where p: "fields_inv base data' p c hs'" "length data' < 2 ^ 64" "c \<le> mc" "n \<le> length data'"
    "SafeFindCRLF data' n p = Some (pos', p, 0)" by blast
  have pp: "p \<le> pos'" "pos' \<le> length data'"
    using SafeFindCRLF_Some(2,3)[OF p(5,4)] p(4) by auto
  have nv: "name_ok base data' pos' (fst h)" "value_ok base data' pos' (snd h)" if "h \<in> set hs'" for h
    using p(1) that name_ok_mono[OF _ refl pp] value_ok_mono[OF _ refl pp] unfolding fields_inv_def by blast+
  with p(1,3) name_ok_tokens[OF _ p(2)] value_ok_clean[OF _ p(2)] show ?thesis
    unfolding fields_inv_def by (meson le_trans)
qed

theorem accepted_headers_are_sanitised_witness:
  "snd (snd (snd sample_fields)) \<noteq> [] \<and> length (snd (snd (snd sample_fields))) \<le> 8"
proof (rule sample_accepted)
  fix data1 pos1 req1 data2 pos2 hs2
  assume s: "sample_line = (True, data1, pos1, req1)" "sample_fields = (True, data2, pos2, hs2)"
    "headers req1 = []" "hs2 \<noteq> []"
  have "length (fst (snd sample_line)) = 27" "fst (snd (snd sample_line)) = 17" by code_simp+
  then have l: "length data1 = 27" "pos1 = 17" unfolding s by (simp_all only: fst_conv snd_conv)
  have "ParseHeaders 4096 8 data1 27 pos1 0 [] = (True, data2, pos2, hs2)"
    using s(2) unfolding sample_fields_def s(1) by (simp add: s(3))
  then have "length hs2 \<le> 8"
    using accepted_headers_are_sanitised[of 4096 8 data1 27 pos1 data2 pos2 hs2] l by simp
  with s(4) show ?thesis unfolding s(2) by simp
qed

section \<open>Views survive the buffer moving\<close>

definition view_in :: "u64 \<Rightarrow> nat \<Rightarrow> view \<Rightarrow> bool" where
  "view_in base n v \<longleftrightarrow> unat (vptr v - base) + vlen v \<le> n"

lemma rebase_view_offset: "vptr (rebase_view (new - old) v) - new = vptr v - old" "vlen (rebase_view d v) = vlen v"
  by (simp_all add: rebase_view_def)

lemma view_bytes_rebase:
  assumes "take n data' = take n data" "view_in old n v"
  shows "view_bytes new data' (rebase_view (new - old) v) = view_bytes old data v"
  using take_drop_prefix[OF assms(1)] assms(2)
  by (simp add: view_bytes_def view_in_def rebase_view_offset)

lemma view_in_rebase: "view_in new n (rebase_view (new - old) v) \<longleftrightarrow> view_in old n v"
  by (simp add: view_in_def rebase_view_offset)

lemma emplace_distinct:
  assumes "headers_distinct rd (acc @ hs)"
  shows "foldl (header_emplace rd) acc hs = acc @ hs"
  using assms
proof (induction hs arbitrary: acc)
  case (Cons h hs)
  have "CheckAndGetHeader rd (rd (fst h)) acc = None"
    using Cons.prems by (auto simp: CheckAndGetHeader_map header_map_def map_of_eq_None_iff
        headers_distinct_def image_image case_prod_unfold)
  then show ?case using Cons by (simp add: header_emplace_def HasHeader_def)
qed simp

lemma RebasePointers_distinct:
  assumes "headers_distinct (view_bytes old data) hs" "take n data' = take n data" "new \<noteq> old"
    and "\<forall>h \<in> set hs. view_in old n (fst h)"
  shows "RebasePointers (view_bytes new data') (new - old) hs =
    map (\<lambda>h. (rebase_view (new - old) (fst h), rebase_view (new - old) (snd h))) hs"
proof -
  have "map (\<lambda>h. ci_key (view_bytes new data' (rebase_view (new - old) (fst h)))) hs =
      map (\<lambda>h. ci_key (view_bytes old data (fst h))) hs"
    using assms(4) view_bytes_rebase[OF assms(2)] by (intro map_cong) simp_all
  then have "headers_distinct (view_bytes new data')
      (map (\<lambda>h. (rebase_view (new - old) (fst h), rebase_view (new - old) (snd h))) hs)"
    using assms(1) unfolding headers_distinct_def map_map o_def fst_conv by metis
  then show ?thesis
    using emplace_distinct[of _ "[]"] assms(3) by (simp add: RebasePointers_def)
qed

text \<open>C18. Growing the read buffer under a parsed request keeps the request intact. Even when the
  allocator moves the block, after \<open>ClientCtx::GrowReadBuffer\<close> succeeds the path and every header
  name and value, read through the request's views at the new address, are the bytes they were
  before, in the same order and with none lost, and every view still lies inside the data.\<close>

theorem grown_buffer_keeps_request:
  assumes "readBuffer (rwBuffer ctx) = Some b" "block_ok sizeof_ReadMetadata b" "max_ok sizeof_ReadMetadata maxSize"
    and "requestInfo ctx = Some req" "0 < vlen (path req)"
    and "headers_distinct (view_bytes (read_base (rwBuffer ctx)) (blk_bytes b)) (headers req)"
    and "\<forall>v \<in> insert (path req) (fst ` set (headers req) \<union> snd ` set (headers req)).
           view_in (read_base (rwBuffer ctx)) (unat (dataLength (blk_meta b))) v"
    and "ClientCtx_GrowReadBuffer A growSize maxSize minSize ctx = (True, ctx')"
  shows "\<exists>b' req'. readBuffer (rwBuffer ctx') = Some b' \<and> requestInfo ctx' = Some req'
     \<and> contents b' = contents b
     \<and> (let rd = view_bytes (read_base (rwBuffer ctx)) (blk_bytes b);
            rd' = view_bytes (read_base (rwBuffer ctx')) (blk_bytes b')
        in rd' (path req') = rd (path req)
         \<and> map (\<lambda>h. (rd' (fst h), rd' (snd h))) (headers req') = map (\<lambda>h. (rd (fst h), rd (snd h))) (headers req)
         \<and> (\<forall>v \<in> insert (path req') (fst ` set (headers req') \<union> snd ` set (headers req')).
              view_in (read_base (rwBuffer ctx')) (unat (dataLength (blk_meta b'))) v))"
proof -
  define n where "n = unat (dataLength (blk_meta b))"
  define old where "old = read_base (rwBuffer ctx)"
  obtain rw where g: "GrowReadBuffer A growSize maxSize minSize (rwBuffer ctx) = (True, rw)"
    using assms(8) by (auto simp: ClientCtx_GrowReadBuffer_def Let_def split: prod.splits bool.splits)
  then obtain r where r: "GenericGrowBuffer A (Some b) sizeof_ReadMetadata growSize maxSize minSize = (True, r)"
    "rw = (rwBuffer ctx)\<lparr>readBuffer := r\<rparr>"
    using assms(1) by (auto simp: GrowReadBuffer_def split: prod.splits)
  obtain b' where b': "r = Some b'" "contents b' = contents b" "block_ok sizeof_ReadMetadata b'"
    using GenericGrowBuffer_ok[OF assms(2,3) r(1)] by blast
  have dl: "unat (dataLength (blk_meta b')) = n"
    using length_contents[OF b'(3)] length_contents[OF assms(2)] b'(2) by (simp add: n_def)
  have pre: "take n (blk_bytes b') = take n (blk_bytes b)"
    using b'(2) dl by (simp add: contents_def n_def)
  define new where "new = read_base rw"
  have rb: "readBuffer rw = Some b'" "read_data rw = blk_bytes b'" using r(2) b'(1) by (simp_all add: read_data_def)
  have vin: "view_in old n (path req)" "\<forall>h \<in> set (headers req). view_in old n (fst h) \<and> view_in old n (snd h)"
    using assms(7) by (auto simp: n_def old_def)
  show ?thesis
  proof (cases "new = old")
    case True
    then have "ctx' = ctx\<lparr>rwBuffer := rw\<rparr>"
      using assms(8) g by (simp add: ClientCtx_GrowReadBuffer_def Let_def new_def old_def)
    moreover have "view_bytes old (blk_bytes b') v = view_bytes old (blk_bytes b) v" if "view_in old n v" for v
      using take_drop_prefix[OF pre] that by (simp add: view_bytes_def view_in_def)
    ultimately show ?thesis
      using rb b' assms(4,7) True vin dl
      by (auto simp: Let_def new_def[symmetric] old_def[symmetric] n_def[symmetric])
  next
    case False
    define hs where "hs = map (\<lambda>h. (rebase_view (new - old) (fst h), rebase_view (new - old) (snd h))) (headers req)"
    have "RebasePointers (view_bytes new (blk_bytes b')) (new - old) (headers req) = hs"
      unfolding hs_def using assms(6) vin(2) False
      by (intro RebasePointers_distinct[OF _ pre]) (simp_all add: old_def)
    then have "ctx' = ctx\<lparr>rwBuffer := rw, requestInfo := Some (req\<lparr>path := rebase_view (new - old) (path req), headers := hs\<rparr>)\<rparr>"
      using assms(4,5,8) g False rb(2)
      by (simp add: ClientCtx_GrowReadBuffer_def Let_def new_def old_def)
    with rb b' vin dl show ?thesis
      by (auto simp: Let_def new_def[symmetric] old_def[symmetric] n_def[symmetric] hs_def
          view_bytes_rebase[OF pre] view_in_rebase)
  qed
qed

definition sample_parsed :: ClientCtx where
  "sample_parsed = (sample_ctx ''/a:b'' 4 0)\<lparr>requestInfo := Some (new_request
     \<lparr>path := \<lparr>vptr = 0x1008, vlen = 2\<rparr>, headers := [(\<lparr>vptr = 0x1009, vlen = 1\<rparr>, \<lparr>vptr = 0x100B, vlen = 1\<rparr>)]\<rparr>)\<rparr>"

theorem grown_buffer_keeps_request_witness:
  "\<exists>b' req'. readBuffer (rwBuffer (snd (ClientCtx_GrowReadBuffer test_allocator 4 16 0 sample_parsed))) = Some b'
     \<and> requestInfo (snd (ClientCtx_GrowReadBuffer test_allocator 4 16 0 sample_parsed)) = Some req'
     \<and> contents b' = ''/a:b''"
proof -
  obtain ctx' where g: "ClientCtx_GrowReadBuffer test_allocator 4 16 0 sample_parsed = (True, ctx')"
    by (simp add: ClientCtx_GrowReadBuffer_def GrowReadBuffer_def GenericGrowBuffer_def sample_parsed_def
        sample_ctx_def test_allocator_def Let_def read_base_def GetReadData_def reallocated_def new_request_def)
  obtain b req where b: "readBuffer (rwBuffer sample_parsed) = Some b" "requestInfo sample_parsed = Some req"
    by (simp add: sample_parsed_def sample_ctx_def)
  then have c: "contents b = ''/a:b''" by (auto simp: sample_parsed_def sample_ctx_def contents_def)
  have "\<exists>b' req'. readBuffer (rwBuffer ctx') = Some b' \<and> requestInfo ctx' = Some req' \<and> contents b' = contents b"
    using grown_buffer_keeps_request[OF b(1) _ _ b(2) _ _ _ g] b
    by (auto simp: sample_parsed_def sample_ctx_def block_ok_def max_ok_def read_base_def GetReadData_def
        headers_distinct_def view_in_def)
  with g c show ?thesis by simp
qed

end
