(* ===== verification/Encoding.thy ===== *)
theory Encoding
  imports WFX_Prelude
begin

text \<open>
  Model of \<open>src/include/wfx/utils/encoding.hpp\<close>: Base64, hex and percent encoding. Each codec has a
  span form that writes into a caller's buffer and reports how much it wrote, and an allocating form
  built on it. The buffer is a list written through \<open>put\<close>; a store past its end would be lost, so a
  result that contains every byte is also the proof that no store was out of range.
\<close>

section \<open>Output buffers\<close>

definition put :: "'a \<Rightarrow> 'a list \<times> nat \<Rightarrow> 'a list \<times> nat" where
  "put c st = ((fst st)[snd st := c], snd st + 1)"

definition puts :: "'a list \<Rightarrow> 'a list \<times> nat \<Rightarrow> 'a list \<times> nat" where
  "puts cs st = foldl (\<lambda>st c. put c st) st cs"

lemma puts_Nil [simp]: "puts [] st = st"
  and puts_Cons [simp]: "puts (c # cs) st = puts cs (put c st)"
  and puts_append: "puts (cs @ ds) st = puts ds (puts cs st)"
  by (simp_all add: puts_def)

lemma puts_in_range:
  "snd st + length cs \<le> length (fst st) \<Longrightarrow>
     snd (puts cs st) = snd st + length cs \<and> length (fst (puts cs st)) = length (fst st) \<and>
     take (snd st + length cs) (fst (puts cs st)) = take (snd st) (fst st) @ cs"
proof (induction cs arbitrary: st)
  case (Cons c cs)
  have "snd (put c st) = snd st + 1" "length (fst (put c st)) = length (fst st)"
    "take (snd st + 1) (fst (put c st)) = take (snd st) (fst st) @ [c]"
    using Cons.prems by (simp_all add: put_def take_Suc_update)
  then show ?case using Cons.IH[of "put c st"] Cons.prems by simp
qed simp

lemma puts_fresh:
  assumes "length cs \<le> length out"
  shows "snd (puts cs (out, 0)) = length cs" "take (length cs) (fst (puts cs (out, 0))) = cs"
  using puts_in_range[of "(out, 0)" cs] assms by simp_all

section \<open>Alphabets and the character table\<close>

definition BASE64_STD_ALPHABET :: string where
  "BASE64_STD_ALPHABET = ''ABCDEFGHIJKLMNOPQRSTUVWXYZabcdefghijklmnopqrstuvwxyz0123456789+/''"

definition BASE64_URL_ALPHABET :: string where
  "BASE64_URL_ALPHABET = ''ABCDEFGHIJKLMNOPQRSTUVWXYZabcdefghijklmnopqrstuvwxyz0123456789-_''"

definition HEX_LOWER :: string where "HEX_LOWER = ''0123456789abcdef''"
definition HEX_UPPER :: string where "HEX_UPPER = ''0123456789ABCDEF''"

record CharInfo =
  base64 :: u8
  hex :: u8
  urlSafe :: bool

definition set_base64 :: "char \<Rightarrow> u8 \<Rightarrow> CharInfo list \<Rightarrow> CharInfo list" where
  "set_base64 c v t = t[code_of c := (t ! code_of c)\<lparr>base64 := v\<rparr>]"

definition set_hex :: "char \<Rightarrow> u8 \<Rightarrow> CharInfo list \<Rightarrow> CharInfo list" where
  "set_hex c v t = t[code_of c := (t ! code_of c)\<lparr>hex := v\<rparr>]"

definition url_safe_code :: "nat \<Rightarrow> bool" where
  "url_safe_code c \<longleftrightarrow> (code_of (CHR ''A'') \<le> c \<and> c \<le> code_of (CHR ''Z'')) \<or>
     (code_of (CHR ''a'') \<le> c \<and> c \<le> code_of (CHR ''z'')) \<or>
     (code_of (CHR ''0'') \<le> c \<and> c \<le> code_of (CHR ''9'')) \<or>
     c = code_of (CHR ''-'') \<or> c = code_of (CHR ''.'') \<or> c = code_of (CHR ''_'') \<or> c = code_of (CHR ''~'')"

definition CHAR_TABLE :: "CharInfo list" where
  "CHAR_TABLE =
     (let t0 = replicate 256 \<lparr>base64 = 0xFF, hex = 0xFF, urlSafe = False\<rparr>;
          t1 = foldl (\<lambda>t i. set_base64 (BASE64_URL_ALPHABET ! i) (of_nat i)
                              (set_base64 (BASE64_STD_ALPHABET ! i) (of_nat i) t)) t0 [0..<64];
          t2 = foldl (\<lambda>t i. set_hex (HEX_UPPER ! i) (of_nat i)
                              (set_hex (HEX_LOWER ! i) (of_nat i) t)) t1 [0..<16]
      in map (\<lambda>c. (t2 ! c)\<lparr>urlSafe := url_safe_code c\<rparr>) [0..<256])"

definition char_info :: "char \<Rightarrow> CharInfo" where
  "char_info c = CHAR_TABLE ! code_of c"

lemma foldl_pair_updates:
  "foldl (\<lambda>t i. upd (u i) (v i) (upd (s i) (v i) t)) t is =
     foldl (\<lambda>t kv. upd (fst kv) (snd kv) t) t (concat (map (\<lambda>i. [(s i, v i), (u i, v i)]) is))"
  by (induction "is" arbitrary: t) auto

lemma length_set [simp]: "length (set_base64 c v t) = length t" "length (set_hex c v t) = length t"
  by (simp_all add: set_base64_def set_hex_def)

lemma set_base64_nth:
  "length t = 256 \<Longrightarrow> set_base64 k v t ! code_of c = (if c = k then (t ! code_of c)\<lparr>base64 := v\<rparr> else t ! code_of c)"
  by (simp add: set_base64_def nth_list_update of_char_eq_iff)

lemma set_hex_nth:
  "length t = 256 \<Longrightarrow> set_hex k v t ! code_of c = (if c = k then (t ! code_of c)\<lparr>hex := v\<rparr> else t ! code_of c)"
  by (simp add: set_hex_def nth_list_update of_char_eq_iff)

lemma fold_set_base64:
  "length t = 256 \<Longrightarrow> length (foldl (\<lambda>t kv. set_base64 (fst kv) (snd kv) t) t kvs) = 256 \<and>
     foldl (\<lambda>t kv. set_base64 (fst kv) (snd kv) t) t kvs ! code_of c =
     (t ! code_of c)\<lparr>base64 := (case map_of (rev kvs) c of Some v \<Rightarrow> v | None \<Rightarrow> base64 (t ! code_of c))\<rparr>"
  by (induction kvs rule: rev_induct) (auto simp: set_base64_nth)

lemma fold_set_hex:
  "length t = 256 \<Longrightarrow> length (foldl (\<lambda>t kv. set_hex (fst kv) (snd kv) t) t kvs) = 256 \<and>
     foldl (\<lambda>t kv. set_hex (fst kv) (snd kv) t) t kvs ! code_of c =
     (t ! code_of c)\<lparr>hex := (case map_of (rev kvs) c of Some v \<Rightarrow> v | None \<Rightarrow> hex (t ! code_of c))\<rparr>"
  by (induction kvs rule: rev_induct) (auto simp: set_hex_nth)

definition base64_entries :: "(char \<times> u8) list" where
  "base64_entries = concat (map (\<lambda>i. [(BASE64_STD_ALPHABET ! i, of_nat i), (BASE64_URL_ALPHABET ! i, of_nat i)]) [0..<64])"

definition hex_entries :: "(char \<times> u8) list" where
  "hex_entries = concat (map (\<lambda>i. [(HEX_LOWER ! i, of_nat i), (HEX_UPPER ! i, of_nat i)]) [0..<16])"

lemma char_info_eq:
  "char_info c = \<lparr>base64 = (case map_of (rev base64_entries) c of Some v \<Rightarrow> v | None \<Rightarrow> 0xFF),
     hex = (case map_of (rev hex_entries) c of Some v \<Rightarrow> v | None \<Rightarrow> 0xFF), urlSafe = url_safe_code (code_of c)\<rparr>"
proof -
  let ?t0 = "replicate 256 \<lparr>base64 = 0xFF, hex = 0xFF, urlSafe = False\<rparr> :: CharInfo list"
  have c: "code_of c < 256" by simp
  define t1 where "t1 = foldl (\<lambda>t kv. set_base64 (fst kv) (snd kv) t) ?t0 base64_entries"
  have t1: "length t1 = 256" "t1 ! code_of c =
      \<lparr>base64 = (case map_of (rev base64_entries) c of Some v \<Rightarrow> v | None \<Rightarrow> 0xFF), hex = 0xFF, urlSafe = False\<rparr>"
    unfolding t1_def using fold_set_base64[of ?t0 base64_entries c] c by (simp_all cong: option.case_cong)
  have "char_info c = (foldl (\<lambda>t kv. set_hex (fst kv) (snd kv) t) t1 hex_entries ! code_of c)\<lparr>urlSafe := url_safe_code (code_of c)\<rparr>"
    using c unfolding char_info_def CHAR_TABLE_def Let_def foldl_pair_updates
      base64_entries_def[symmetric] hex_entries_def[symmetric] t1_def[symmetric] by simp
  then show ?thesis using fold_set_hex[OF t1(1), of hex_entries c] t1(2) by (simp cong: option.case_cong)
qed

lemma base64_check:
  "let es = rev base64_entries in
     list_all (\<lambda>i. map_of es (BASE64_STD_ALPHABET ! i) = Some (of_nat i) \<and>
       map_of es (BASE64_URL_ALPHABET ! i) = Some (of_nat i)) [0..<64]"
  by code_simp

lemma hex_check:
  "let es = rev hex_entries in
     list_all (\<lambda>i. map_of es (HEX_LOWER ! i) = Some (of_nat i) \<and> map_of es (HEX_UPPER ! i) = Some (of_nat i)) [0..<16]"
  by code_simp

lemma base64_of_alphabet:
  assumes "i < 64"
  shows "base64 (char_info ((if u then BASE64_URL_ALPHABET else BASE64_STD_ALPHABET) ! i)) = of_nat i"
  using base64_check assms by (simp add: char_info_eq list_all_iff Let_def)

lemma hex_of_alphabet:
  assumes "i < 16"
  shows "hex (char_info ((if u then HEX_UPPER else HEX_LOWER) ! i)) = of_nat i"
  using hex_check assms by (simp add: char_info_eq list_all_iff Let_def)

section \<open>Lengths\<close>

definition Base64EncodedLen :: "nat \<Rightarrow> bool \<Rightarrow> nat" where
  "Base64EncodedLen bytes padded = (if padded then ((bytes + 2) div 3) * 4 else (bytes * 4 + 2) div 3)"

definition Base64DecodedMaxLen :: "nat \<Rightarrow> nat" where
  "Base64DecodedMaxLen chars = chars * 3 div 4"

definition HexEncodedLen :: "nat \<Rightarrow> nat" where "HexEncodedLen bytes = bytes * 2"
definition UrlEncodedMaxLen :: "nat \<Rightarrow> nat" where "UrlEncodedMaxLen bytes = bytes * 3"
definition UrlDecodedMaxLen :: "nat \<Rightarrow> nat" where "UrlDecodedMaxLen chars = chars"
definition HexDecodedLen :: "nat \<Rightarrow> nat" where "HexDecodedLen chars = chars div 2"

section \<open>Base64\<close>

definition sextet :: "string \<Rightarrow> u32 \<Rightarrow> nat \<Rightarrow> char" where
  "sextet alphabet chunk shift = alphabet ! unat (drop_bit shift chunk AND 0x3F)"

fun base64_groups :: "string \<Rightarrow> bool \<Rightarrow> u8 list \<Rightarrow> string \<times> nat \<Rightarrow> string \<times> nat" where
  "base64_groups alphabet padded (p0 # p1 # p2 # rest) st =
     (let chunk = push_bit 16 (ucast p0) OR push_bit 8 (ucast p1) OR ucast p2 :: u32;
          st1 = put (sextet alphabet chunk 18) st;
          st2 = put (sextet alphabet chunk 12) st1;
          st3 = put (sextet alphabet chunk 6) st2;
          st4 = put (sextet alphabet chunk 0) st3
      in base64_groups alphabet padded rest st4)"
| "base64_groups alphabet padded [p0] st =
     (let chunk = push_bit 16 (ucast p0) :: u32;
          st1 = put (sextet alphabet chunk 18) st;
          st2 = put (sextet alphabet chunk 12) st1
      in if padded then put (CHR ''='') (put (CHR ''='') st2) else st2)"
| "base64_groups alphabet padded [p0, p1] st =
     (let chunk = push_bit 16 (ucast p0) OR push_bit 8 (ucast p1) :: u32;
          st1 = put (sextet alphabet chunk 18) st;
          st2 = put (sextet alphabet chunk 12) st1;
          st3 = put (sextet alphabet chunk 6) st2
      in if padded then put (CHR ''='') st3 else st3)"
| "base64_groups alphabet padded [] st = st"

definition Base64Encode_span :: "string \<Rightarrow> string \<Rightarrow> bool \<Rightarrow> bool \<Rightarrow> bool \<times> nat \<times> string" where
  "Base64Encode_span data out urlSafe' padded =
     (if length out < Base64EncodedLen (length data) padded then (False, 0, out)
      else let alphabet = (if urlSafe' then BASE64_URL_ALPHABET else BASE64_STD_ALPHABET);
               st = base64_groups alphabet padded (map of_char data) (out, 0)
           in (True, snd st, fst st))"

definition Base64Encode :: "string \<Rightarrow> bool \<Rightarrow> bool \<Rightarrow> string" where
  "Base64Encode data urlSafe' padded =
     (case Base64Encode_span data (replicate (Base64EncodedLen (length data) padded) NUL) urlSafe' padded of
        (ok, written, out) \<Rightarrow> take (if ok then written else 0) out)"

fun strip_padding :: "string \<Rightarrow> nat \<Rightarrow> nat" where
  "strip_padding data 0 = 0"
| "strip_padding data (Suc n) = (if data ! n = CHR ''='' then strip_padding data n else Suc n)"

fun base64_decode_loop :: "string \<Rightarrow> u32 \<Rightarrow> nat \<Rightarrow> u8 list \<times> nat \<Rightarrow> bool \<times> u8 list \<times> nat" where
  "base64_decode_loop [] buf bits st = (True, st)"
| "base64_decode_loop (c # cs) buf bits st =
     (let v = base64 (char_info c) in
      if v = 0xFF then (False, st)
      else
        let buf' = push_bit 6 buf OR ucast v; bits' = bits + 6 in
        if bits' \<ge> 8 then
          if snd st = length (fst st) then (False, st)
          else base64_decode_loop cs buf' (bits' - 8) (put (ucast (drop_bit (bits' - 8) buf' AND 0xFF)) st)
        else base64_decode_loop cs buf' bits' st)"

declare base64_decode_loop.simps(2) [simp del]

definition Base64Decode_span :: "string \<Rightarrow> u8 list \<Rightarrow> bool \<times> nat \<times> u8 list" where
  "Base64Decode_span data out =
     (case base64_decode_loop (take (strip_padding data (length data)) data) 0 0 (out, 0) of
        (ok, out', o') \<Rightarrow> (ok, if ok then o' else 0, out'))"

definition Base64Decode :: "string \<Rightarrow> (u8 list) option" where
  "Base64Decode data =
     (case Base64Decode_span data (replicate (Base64DecodedMaxLen (length data)) 0) of
        (ok, written, out) \<Rightarrow> if ok then Some (take written out) else None)"

text \<open>The characters a run of the encoder writes.\<close>

fun base64_chars :: "string \<Rightarrow> bool \<Rightarrow> u8 list \<Rightarrow> string" where
  "base64_chars al padded (p0 # p1 # p2 # rest) =
     (let chunk = push_bit 16 (ucast p0) OR push_bit 8 (ucast p1) OR ucast p2
      in [sextet al chunk 18, sextet al chunk 12, sextet al chunk 6, sextet al chunk 0] @ base64_chars al padded rest)"
| "base64_chars al padded [p0] =
     (let chunk = push_bit 16 (ucast p0)
      in [sextet al chunk 18, sextet al chunk 12] @ (if padded then ''=='' else []))"
| "base64_chars al padded [p0, p1] =
     (let chunk = push_bit 16 (ucast p0) OR push_bit 8 (ucast p1)
      in [sextet al chunk 18, sextet al chunk 12, sextet al chunk 6] @ (if padded then ''='' else []))"
| "base64_chars al padded [] = []"

lemma base64_groups_puts: "base64_groups al padded bs st = puts (base64_chars al padded bs) st"
  by (induction al padded bs st rule: base64_groups.induct) (simp_all add: Let_def)

lemma Base64EncodedLen_step: "Base64EncodedLen (n + 3) padded = Base64EncodedLen n padded + 4"
proof -
  have "(n + 3 + 2) div 3 = (n + 2) div 3 + 1" "((n + 3) * 4 + 2) div 3 = (n * 4 + 2) div 3 + 4" by presburger+
  then show ?thesis by (simp only: Base64EncodedLen_def split: if_splits) simp
qed

lemma length_base64_chars: "length (base64_chars al padded bs) = Base64EncodedLen (length bs) padded"
proof (induction al padded bs rule: base64_chars.induct)
  case (1 al padded p0 p1 p2 rest)
  then show ?case using Base64EncodedLen_step[of "length rest" padded] by (simp add: Let_def numeral_3_eq_3)
qed (simp_all add: Let_def Base64EncodedLen_def)

lemma Base64Encode_chars:
  "Base64Encode data u padded = base64_chars (if u then BASE64_URL_ALPHABET else BASE64_STD_ALPHABET) padded (map of_char data)"
proof -
  let ?cs = "base64_chars (if u then BASE64_URL_ALPHABET else BASE64_STD_ALPHABET) padded (map of_char data)"
  have l: "length ?cs = Base64EncodedLen (length data) padded" by (simp add: length_base64_chars)
  show ?thesis
    unfolding Base64Encode_def Base64Encode_span_def base64_groups_puts Let_def l[symmetric]
    using puts_fresh[of ?cs "replicate (length ?cs) NUL"] by simp
qed

lemma and_63_lt: "unat (w AND 0x3F :: u32) < 64"
  using word_and_le1[of w "0x3F"] by (simp add: word_le_nat_alt)

lemma base64_sextet:
  "base64 (char_info (sextet (if u then BASE64_URL_ALPHABET else BASE64_STD_ALPHABET) chunk k))
     = ucast (drop_bit k chunk AND 0x3F)"
proof -
  have "of_nat (unat w) = (ucast w :: u8)" for w :: u32 by simp
  then show ?thesis unfolding sextet_def base64_of_alphabet[OF and_63_lt] .
qed

lemma sextet_valid: "(ucast (w AND 0x3F :: u32) :: u8) \<noteq> 0xFF"
proof -
  have "\<not> bit (ucast (w AND 0x3F :: u32) :: u8) 7" by (simp add: bit_simps)
  moreover have "bit (0xFF :: u8) 7" by simp
  ultimately show ?thesis by metis
qed

lemma bits_upto_8: "(\<And>n. n < 8 \<Longrightarrow> bit a n = bit b n) \<Longrightarrow> a = (b :: u8)"
  by (rule bit_word_eqI) simp

lemma bit_u8_high: "8 \<le> n \<Longrightarrow> \<not> bit (w :: u8) n"
  using bit_imp_le_length[of w n] by auto

text \<open>Regrouping 6-bit pieces into bytes: the three bytes of a full group, and the bytes of the
  two short final groups, whatever the accumulator held before.\<close>

lemma regroup:
  fixes x y z :: u8 and buf :: u32
  defines "c \<equiv> push_bit 16 (ucast x) OR push_bit 8 (ucast y) OR ucast z :: u32"
  defines "b1 \<equiv> push_bit 6 buf OR ucast (ucast (drop_bit 18 c AND 0x3F) :: u8) :: u32"
  defines "b2 \<equiv> push_bit 6 b1 OR ucast (ucast (drop_bit 12 c AND 0x3F) :: u8) :: u32"
  defines "b3 \<equiv> push_bit 6 b2 OR ucast (ucast (drop_bit 6 c AND 0x3F) :: u8) :: u32"
  defines "b4 \<equiv> push_bit 6 b3 OR ucast (ucast (drop_bit 0 c AND 0x3F) :: u8) :: u32"
  shows "ucast (drop_bit 4 b2 AND 0xFF) = x" "ucast (drop_bit 2 b3 AND 0xFF) = y"
    "ucast (drop_bit 0 b4 AND 0xFF) = z"
  unfolding c_def b1_def b2_def b3_def b4_def
  by (rule bits_upto_8, unfold less_8_cases, elim disjE; simp add: bit_simps bit_u8_high)+

lemma regroup_short:
  fixes p0 p1 :: u8
  shows "(push_bit 16 (ucast p0) :: u32) = push_bit 16 (ucast p0) OR push_bit 8 (ucast (0 :: u8)) OR ucast (0 :: u8)"
    "(push_bit 16 (ucast p0) OR push_bit 8 (ucast p1) :: u32) = push_bit 16 (ucast p0) OR push_bit 8 (ucast p1) OR ucast (0 :: u8)"
  by simp_all

lemma put_room:
  "snd st < length (fst st) \<Longrightarrow> snd (put c st) = Suc (snd st) \<and> length (fst (put c st)) = length (fst st)"
  by (simp add: put_def)

lemma base64_decode_first:
  assumes "al = (if u then BASE64_URL_ALPHABET else BASE64_STD_ALPHABET)"
  shows "base64_decode_loop (sextet al c k # cs) buf 0 st =
     base64_decode_loop cs (push_bit 6 buf OR ucast (ucast (drop_bit k c AND 0x3F) :: u8)) 6 st"
  by (simp only: base64_decode_loop.simps(2) Let_def assms base64_sextet sextet_valid) simp

lemma base64_decode_more:
  assumes "al = (if u then BASE64_URL_ALPHABET else BASE64_STD_ALPHABET)" "snd st < length (fst st)"
    and "buf' = push_bit 6 buf OR ucast (ucast (drop_bit k c AND 0x3F) :: u8)" "bits = b + 2"
  shows "base64_decode_loop (sextet al c k # cs) buf bits st =
     base64_decode_loop cs buf' b (put (ucast (drop_bit b buf' AND 0xFF)) st)"
proof -
  have "bits + 6 \<ge> 8" "bits + 6 - 8 = b" "snd st \<noteq> length (fst st)" using assms(2,4) by auto
  then show ?thesis
    by (simp only: base64_decode_loop.simps(2) Let_def assms(1) base64_sextet sextet_valid if_False if_True
        assms(3)[unfolded assms(1), symmetric])
qed

text \<open>The four characters of a full group, and the prefixes of them that a short group has.\<close>

lemma base64_decode_group:
  fixes p0 p1 p2 :: u8
  assumes "al = (if u then BASE64_URL_ALPHABET else BASE64_STD_ALPHABET)" "snd st + 3 \<le> length (fst st)"
  defines "c \<equiv> push_bit 16 (ucast p0) OR push_bit 8 (ucast p1) OR ucast p2 :: u32"
  shows "\<exists>buf'. base64_decode_loop (sextet al c 18 # sextet al c 12 # sextet al c 6 # sextet al c 0 # cs) buf 0 st =
       base64_decode_loop cs buf' 0 (puts [p0, p1, p2] st)"
proof -
  define b1 where "b1 = push_bit 6 buf OR ucast (ucast (drop_bit 18 c AND 0x3F) :: u8)"
  define b2 where "b2 = push_bit 6 b1 OR ucast (ucast (drop_bit 12 c AND 0x3F) :: u8)"
  define b3 where "b3 = push_bit 6 b2 OR ucast (ucast (drop_bit 6 c AND 0x3F) :: u8)"
  define b4 where "b4 = push_bit 6 b3 OR ucast (ucast (drop_bit 0 c AND 0x3F) :: u8)"
  note r = regroup[where buf = buf and x = p0 and y = p1 and z = p2, folded c_def, folded b1_def, folded b2_def, folded b3_def, folded b4_def]
  have "base64_decode_loop (sextet al c 18 # sextet al c 12 # sextet al c 6 # sextet al c 0 # cs) buf 0 st =
      base64_decode_loop (sextet al c 12 # sextet al c 6 # sextet al c 0 # cs) b1 6 st"
    unfolding b1_def by (rule base64_decode_first[OF assms(1)])
  also have "\<dots> = base64_decode_loop (sextet al c 6 # sextet al c 0 # cs) b2 4 (put p0 st)"
    by (subst base64_decode_more[OF assms(1) _ b2_def, of st 6 4]) (use assms(2) r in simp_all)
  also have "\<dots> = base64_decode_loop (sextet al c 0 # cs) b3 2 (put p1 (put p0 st))"
    by (subst base64_decode_more[OF assms(1) _ b3_def, of _ 4 2]) (use assms(2) r in \<open>simp_all add: put_def\<close>)
  also have "\<dots> = base64_decode_loop cs b4 0 (put p2 (put p1 (put p0 st)))"
    by (subst base64_decode_more[OF assms(1) _ b4_def, of _ 2 0]) (use assms(2) r in \<open>simp_all add: put_def\<close>)
  finally show ?thesis by auto
qed

lemma base64_decode_short:
  fixes p0 p1 :: u8
  assumes "al = (if u then BASE64_URL_ALPHABET else BASE64_STD_ALPHABET)"
  defines "c \<equiv> push_bit 16 (ucast p0) OR push_bit 8 (ucast p1) OR ucast (0 :: u8) :: u32"
  shows "snd st + 1 \<le> length (fst st) \<Longrightarrow> p1 = 0 \<Longrightarrow>
      base64_decode_loop [sextet al c 18, sextet al c 12] buf 0 st = (True, puts [p0] st)"
    and "snd st + 2 \<le> length (fst st) \<Longrightarrow>
      base64_decode_loop [sextet al c 18, sextet al c 12, sextet al c 6] buf 0 st = (True, puts [p0, p1] st)"
proof -
  define b1 where "b1 = push_bit 6 buf OR ucast (ucast (drop_bit 18 c AND 0x3F) :: u8)"
  define b2 where "b2 = push_bit 6 b1 OR ucast (ucast (drop_bit 12 c AND 0x3F) :: u8)"
  define b3 where "b3 = push_bit 6 b2 OR ucast (ucast (drop_bit 6 c AND 0x3F) :: u8)"
  note r = regroup(1,2)[where buf = buf and x = p0 and y = p1 and z = 0, folded c_def, folded b1_def, folded b2_def, folded b3_def]
  have two: "base64_decode_loop (sextet al c 18 # sextet al c 12 # cs) buf 0 st = base64_decode_loop cs b2 4 (put p0 st)"
    if "snd st + 1 \<le> length (fst st)" for cs
    using base64_decode_first[OF assms(1), of c 18 "sextet al c 12 # cs" buf st, folded b1_def]
      base64_decode_more[OF assms(1) _ b2_def, of st 6 4 cs] that r by simp
  show "base64_decode_loop [sextet al c 18, sextet al c 12] buf 0 st = (True, puts [p0] st)"
    if "snd st + 1 \<le> length (fst st)" "p1 = 0"
    using two[OF that(1), of "[]"] by simp
  show "base64_decode_loop [sextet al c 18, sextet al c 12, sextet al c 6] buf 0 st = (True, puts [p0, p1] st)"
    if "snd st + 2 \<le> length (fst st)"
    using two[of "[sextet al c 6]"] base64_decode_more[OF assms(1) _ b3_def, of "put p0 st" 4 2 "[]"] that r
    by (simp add: put_def)
qed

lemma base64_decode_chars:
  assumes "al = (if u then BASE64_URL_ALPHABET else BASE64_STD_ALPHABET)"
    and "snd st + length bs \<le> length (fst st)" "\<not> padded"
  shows "base64_decode_loop (base64_chars al padded bs) buf 0 st = (True, puts bs st)"
  using assms
proof (induction al padded bs arbitrary: buf st rule: base64_chars.induct)
  case (1 al padded p0 p1 p2 rest)
  have "snd st + 3 \<le> length (fst st)" "snd (puts [p0, p1, p2] st) + length rest \<le> length (fst (puts [p0, p1, p2] st))"
    using "1.prems"(2) by (simp_all add: put_def)
  with base64_decode_group[OF "1.prems"(1)] "1.IH"[OF refl "1.prems"(1) _ "1.prems"(3)] show ?case
    by (simp add: Let_def) (metis (no_types, lifting))
next
  case (2 al padded p0)
  then show ?case
    using base64_decode_short(1)[OF "2.prems"(1), of st 0 p0 buf] by (simp add: Let_def)
next
  case (3 al padded p0 p1)
  then show ?case
    using base64_decode_short(2)[OF "3.prems"(1), of st p0 p1 buf] by (simp add: Let_def)
next
  case (4 al padded)
  then show ?case by simp
qed

lemma sextet_not_pad: "sextet (if u then BASE64_URL_ALPHABET else BASE64_STD_ALPHABET) c k \<noteq> CHR ''=''"
proof -
  have "base64 (char_info (CHR ''='')) = 0xFF" unfolding char_info_eq by code_simp
  then show ?thesis using base64_sextet[of u c k] sextet_valid[of "drop_bit k c"] by metis
qed

lemma base64_chars_padding:
  assumes "al = (if u then BASE64_URL_ALPHABET else BASE64_STD_ALPHABET)"
  shows "\<exists>k. base64_chars al padded bs = base64_chars al False bs @ replicate k (CHR ''='')"
  using assms
proof (induction al padded bs rule: base64_chars.induct)
  case (1 al padded p0 p1 p2 rest)
  then show ?case by (simp add: Let_def)
next
  case (2 al padded p0)
  show ?case by (rule exI[of _ "if padded then 2 else 0"]) (simp add: Let_def numeral_2_eq_2)
next
  case (3 al padded p0 p1)
  show ?case by (rule exI[of _ "if padded then 1 else 0"]) (simp add: Let_def)
next
  case (4 al padded)
  show ?case by simp
qed

lemma base64_chars_last:
  assumes "al = (if u then BASE64_URL_ALPHABET else BASE64_STD_ALPHABET)" "bs \<noteq> []"
  shows "base64_chars al False bs \<noteq> [] \<and> last (base64_chars al False bs) \<noteq> CHR ''=''"
  using assms
proof (induction al False bs rule: base64_chars.induct)
  case (1 al p0 p1 p2 rest)
  then show ?case
    using sextet_not_pad[of u] by (cases "rest = []") (simp_all add: Let_def)
qed (use sextet_not_pad[of u] in \<open>simp_all add: Let_def\<close>)

lemma strip_padding_append:
  assumes "cs = [] \<or> last cs \<noteq> CHR ''=''" "n \<le> k"
  shows "strip_padding (cs @ replicate k (CHR ''='')) (length cs + n) = length cs"
  using assms(2)
proof (induction n)
  case 0
  show ?case using assms(1) by (cases cs rule: rev_cases) (auto simp: nth_append)
next
  case (Suc n)
  then show ?case by (simp add: nth_append)
qed

text \<open>C31. Base64 round trip. For every byte string, either alphabet, padded or not, decoding what
  the encoder produced gives back exactly the bytes.\<close>

theorem Base64Decode_Base64Encode:
  "Base64Decode (Base64Encode data urlSafe' padded) = Some (map of_char data)"
proof -
  define al where "al = (if urlSafe' then BASE64_URL_ALPHABET else BASE64_STD_ALPHABET)"
  define bs where "bs = (map of_char data :: u8 list)"
  define cs where "cs = base64_chars al False bs"
  obtain k where e: "Base64Encode data urlSafe' padded = cs @ replicate k (CHR ''='')"
    using base64_chars_padding[OF al_def] Base64Encode_chars unfolding cs_def al_def bs_def by metis
  let ?e = "cs @ replicate k (CHR ''='')"
  have "cs = [] \<or> last cs \<noteq> CHR ''=''"
    using base64_chars_last[OF al_def] unfolding cs_def by (cases "bs = []") auto
  then have strip: "take (strip_padding ?e (length ?e)) ?e = cs"
    using strip_padding_append[of cs k k] by simp
  have "length bs \<le> Base64DecodedMaxLen (length cs)"
    unfolding cs_def length_base64_chars Base64EncodedLen_def Base64DecodedMaxLen_def if_False by presburger
  also have "\<dots> \<le> Base64DecodedMaxLen (length ?e)"
    unfolding Base64DecodedMaxLen_def by (intro div_le_mono) simp
  finally have room: "length bs \<le> Base64DecodedMaxLen (length ?e)" .
  let ?out = "replicate (Base64DecodedMaxLen (length ?e)) (0 :: u8)"
  have "base64_decode_loop cs 0 0 (?out, 0) = (True, puts bs (?out, 0))"
    using base64_decode_chars[OF al_def, of "(?out, 0)" bs False 0] room by (simp add: cs_def)
  then have "Base64Decode ?e = Some bs"
    unfolding Base64Decode_def Base64Decode_span_def strip
    using puts_fresh[of bs ?out] room by (simp add: prod.case_eq_if)
  then show ?thesis unfolding e bs_def .
qed

section \<open>Hex\<close>

fun hex_encode_loop :: "string \<Rightarrow> string \<Rightarrow> nat \<Rightarrow> string \<Rightarrow> string" where
  "hex_encode_loop table [] i out = out"
| "hex_encode_loop table (c # cs) i out =
     (let byte = byte_of c;
          out1 = out[i * 2 := table ! unat (drop_bit 4 byte)];
          out2 = out1[i * 2 + 1 := table ! unat (byte AND 0x0F)]
      in hex_encode_loop table cs (i + 1) out2)"

definition HexEncode_span :: "string \<Rightarrow> string \<Rightarrow> bool \<Rightarrow> bool \<times> nat \<times> string" where
  "HexEncode_span data out upper =
     (if length out < HexEncodedLen (length data) then (False, 0, out)
      else (True, HexEncodedLen (length data), hex_encode_loop (if upper then HEX_UPPER else HEX_LOWER) data 0 out))"

definition HexEncode :: "string \<Rightarrow> bool \<Rightarrow> string" where
  "HexEncode data upper =
     (case HexEncode_span data (replicate (HexEncodedLen (length data)) NUL) upper of
        (ok, written, out) \<Rightarrow> take (if ok then written else 0) out)"

fun hex_decode_loop :: "string \<Rightarrow> nat \<Rightarrow> u8 list \<Rightarrow> bool \<times> u8 list" where
  "hex_decode_loop (c0 # c1 # cs) i out =
     (let hi = hex (char_info c0); lo = hex (char_info c1) in
      if hi = 0xFF \<or> lo = 0xFF then (False, out)
      else hex_decode_loop cs (i + 2) (out[i div 2 := push_bit 4 hi OR lo]))"
| "hex_decode_loop _ i out = (True, out)"

definition HexDecode_span :: "string \<Rightarrow> u8 list \<Rightarrow> bool \<times> nat \<times> u8 list" where
  "HexDecode_span data out =
     (if length data mod 2 \<noteq> 0 \<or> length out < HexDecodedLen (length data) then (False, 0, out)
      else (case hex_decode_loop data 0 out of
              (ok, out') \<Rightarrow> (ok, if ok then HexDecodedLen (length data) else 0, out')))"

definition HexDecode :: "string \<Rightarrow> (u8 list) option" where
  "HexDecode data =
     (case HexDecode_span data (replicate (HexDecodedLen (length data)) 0) of
        (ok, written, out) \<Rightarrow> if ok then Some (take written out) else None)"

definition hex_pair :: "string \<Rightarrow> u8 \<Rightarrow> string" where
  "hex_pair table byte = [table ! unat (drop_bit 4 byte), table ! unat (byte AND 0x0F)]"

lemma hex_encode_loop_puts:
  "hex_encode_loop table cs i out = fst (puts (concat (map (\<lambda>c. hex_pair table (byte_of c)) cs)) (out, i * 2))"
  by (induction cs arbitrary: i out) (simp_all add: Let_def hex_pair_def put_def)

lemma length_hex_pairs: "length (concat (map (\<lambda>c. hex_pair table (f c)) cs)) = 2 * length cs"
  by (induction cs) (simp_all add: hex_pair_def)

lemma HexEncode_eq:
  "HexEncode data upper = concat (map (\<lambda>c. hex_pair (if upper then HEX_UPPER else HEX_LOWER) (byte_of c)) data)"
proof -
  let ?cs = "concat (map (\<lambda>c. hex_pair (if upper then HEX_UPPER else HEX_LOWER) (byte_of c)) data)"
  have l: "length ?cs = HexEncodedLen (length data)" by (simp add: length_hex_pairs HexEncodedLen_def mult.commute)
  show ?thesis
    unfolding HexEncode_def HexEncode_span_def hex_encode_loop_puts
    using puts_fresh(2)[of ?cs "replicate (length ?cs) NUL"] unfolding l by simp
qed

lemma nibble_lt: "unat (drop_bit 4 (w :: u8)) < 16" "unat (w AND 0x0F) < 16"
proof -
  show "unat (w AND 0x0F) < 16" using word_and_le1[of w "0x0F"] by (simp add: word_le_nat_alt)
  have "unat (drop_bit 4 w) = unat w div 16"
    unfolding unat_drop_bit_eq by (simp add: drop_bit_eq_div)
  then show "unat (drop_bit 4 w) < 16" using unat_u8_lt[of w] by simp
qed

lemma hex_of_nibble:
  "hex (char_info ((if u then HEX_UPPER else HEX_LOWER) ! unat (drop_bit 4 w))) = drop_bit 4 (w :: u8)"
  "hex (char_info ((if u then HEX_UPPER else HEX_LOWER) ! unat (w AND 0x0F))) = w AND 0x0F"
  unfolding hex_of_alphabet[OF nibble_lt(1)] hex_of_alphabet[OF nibble_lt(2)] by simp_all

lemma nibble_valid: "drop_bit 4 (w :: u8) \<noteq> 0xFF" "w AND 0x0F \<noteq> (0xFF :: u8)"
proof -
  have b: "bit (0xFF :: u8) 7" by simp
  have "\<not> bit (drop_bit 4 w) 7" "\<not> bit (w AND 0x0F) 7" by (simp_all add: bit_simps bit_u8_high)
  with b show "drop_bit 4 w \<noteq> 0xFF" "w AND 0x0F \<noteq> 0xFF" by metis+
qed

lemma nibbles_join: "push_bit 4 (drop_bit 4 w) OR (w AND 0x0F) = (w :: u8)"
  by (rule bits_upto_8, unfold less_8_cases, elim disjE; simp add: bit_simps)

lemma hex_decode_pairs:
  "2 * (length bs + k) \<le> 2 * length out \<Longrightarrow>
   hex_decode_loop (concat (map (hex_pair (if u then HEX_UPPER else HEX_LOWER)) bs)) (2 * k) out
     = (True, fst (puts bs (out, k)))"
proof (induction bs arbitrary: k out)
  case (Cons b bs)
  show ?case
    using Cons.IH[of "Suc k" "out[k := b]"] Cons.prems
    by (simp add: hex_pair_def Let_def hex_of_nibble nibble_valid nibbles_join put_def)
qed simp

text \<open>Hex round trip, in either case: decoding what the encoder produced gives back the bytes.\<close>

theorem HexDecode_HexEncode: "HexDecode (HexEncode data upper) = Some (map of_char data)"
proof -
  define bs where "bs = (map of_char data :: u8 list)"
  let ?e = "concat (map (hex_pair (if upper then HEX_UPPER else HEX_LOWER)) bs)"
  have e: "HexEncode data upper = ?e" by (simp add: HexEncode_eq bs_def o_def)
  have l: "length ?e = 2 * length bs" using length_hex_pairs[where f = "\<lambda>b. b"] by simp
  have "hex_decode_loop ?e 0 (replicate (length bs) 0) = (True, fst (puts bs (replicate (length bs) 0, 0)))"
    using hex_decode_pairs[of bs 0] by simp
  then have "HexDecode ?e = Some bs"
    using puts_fresh(2)[of bs "replicate (length bs) 0"]
    by (simp add: HexDecode_def HexDecode_span_def HexDecodedLen_def l)
  then show ?thesis unfolding e bs_def .
qed

section \<open>Percent encoding\<close>

definition byte_char :: "u8 \<Rightarrow> char" where
  "byte_char w = char_of (unat w)"

fun url_encode_loop :: "string \<Rightarrow> string \<times> nat \<Rightarrow> string \<times> nat" where
  "url_encode_loop [] st = st"
| "url_encode_loop (c # cs) st =
     (let byte = byte_of c in
      if urlSafe (char_info c) then url_encode_loop cs (put c st)
      else
        let st1 = put (CHR ''%'') st;
            st2 = put (HEX_UPPER ! unat (drop_bit 4 byte)) st1;
            st3 = put (HEX_UPPER ! unat (byte AND 0x0F)) st2
        in url_encode_loop cs st3)"

definition UrlEncode_span :: "string \<Rightarrow> string \<Rightarrow> bool \<times> nat \<times> string" where
  "UrlEncode_span data out =
     (if length out < UrlEncodedMaxLen (length data) then (False, 0, out)
      else let st = url_encode_loop data (out, 0) in (True, snd st, fst st))"

definition UrlEncode :: "string \<Rightarrow> string" where
  "UrlEncode data =
     (case UrlEncode_span data (replicate (UrlEncodedMaxLen (length data)) NUL) of
        (ok, written, out) \<Rightarrow> take (if ok then written else 0) out)"

fun url_decode_loop :: "string \<Rightarrow> string \<times> nat \<Rightarrow> bool \<times> string \<times> nat" where
  "url_decode_loop [] st = (True, st)"
| "url_decode_loop (c # cs) st =
     (if c = CHR ''%'' then
        (case cs of
           c1 # c2 # cs' \<Rightarrow>
             let hi = hex (char_info c1); lo = hex (char_info c2) in
             if hi = 0xFF \<or> lo = 0xFF then (False, st)
             else url_decode_loop cs' (put (byte_char (push_bit 4 hi OR lo)) st)
         | _ \<Rightarrow> (False, st))
      else if c = CHR ''+'' then url_decode_loop cs (put (CHR '' '') st)
      else url_decode_loop cs (put c st))"

definition UrlDecode_span :: "string \<Rightarrow> string \<Rightarrow> bool \<times> nat \<times> string" where
  "UrlDecode_span data out =
     (if length out < UrlDecodedMaxLen (length data) then (False, 0, out)
      else (case url_decode_loop data (out, 0) of
              (ok, out', o') \<Rightarrow> (ok, if ok then o' else 0, out')))"

definition UrlDecode :: "string \<Rightarrow> bool \<times> string" where
  "UrlDecode data =
     (case UrlDecode_span data (replicate (UrlDecodedMaxLen (length data)) NUL) of
        (ok, written, out) \<Rightarrow> (ok, take (if ok then written else 0) out))"

definition url_escape :: "char \<Rightarrow> string" where
  "url_escape c = (if urlSafe (char_info c) then [c] else CHR ''%'' # hex_pair HEX_UPPER (byte_of c))"

lemma url_encode_puts: "url_encode_loop cs st = puts (concat (map url_escape cs)) st"
  by (induction cs arbitrary: st) (simp_all add: Let_def url_escape_def hex_pair_def)

lemma length_url_escapes: "length cs \<le> length (concat (map url_escape cs)) \<and> length (concat (map url_escape cs)) \<le> 3 * length cs"
  by (induction cs) (auto simp: url_escape_def hex_pair_def)

lemma UrlEncode_eq: "UrlEncode data = concat (map url_escape data)"
proof -
  let ?cs = "concat (map url_escape data)" and ?o = "replicate (UrlEncodedMaxLen (length data)) NUL"
  have "length ?cs \<le> length ?o" using length_url_escapes[of data] by (simp add: UrlEncodedMaxLen_def mult.commute)
  from puts_fresh[OF this] show ?thesis
    by (simp add: UrlEncode_def UrlEncode_span_def url_encode_puts Let_def)
qed

lemma byte_char_of_char [simp]: "byte_char (byte_of c) = c"
proof -
  have "unat (byte_of c) = code_of c"
    by (simp add: unat_of_nat of_char_def flip: of_nat_of_char)
  then show ?thesis by (simp add: byte_char_def)
qed

lemma url_safe_plain: "urlSafe (char_info c) \<Longrightarrow> c \<noteq> CHR ''%'' \<and> c \<noteq> CHR ''+''"
  by (auto simp: char_info_eq url_safe_code_def)

lemma url_decode_escapes:
  "url_decode_loop (concat (map url_escape cs)) st = (True, puts cs st)"
proof (induction cs arbitrary: st)
  case (Cons c cs)
  show ?case
  proof (cases "urlSafe (char_info c)")
    case True
    with url_safe_plain[OF True] show ?thesis using Cons.IH[of "put c st"] by (simp add: url_escape_def)
  next
    case False
    then show ?thesis
      using Cons.IH[of "put c st"] hex_of_nibble[of True "byte_of c"] nibble_valid[of "byte_of c"]
      by (simp add: url_escape_def hex_pair_def Let_def nibbles_join)
  qed
qed simp

text \<open>C32. Percent encoding round trip: the encoder's output contains only unreserved characters and
  escapes, so no byte can be taken for a separator, and decoding it gives back the input.\<close>

theorem UrlDecode_UrlEncode:
  "UrlDecode (UrlEncode data) = (True, data) \<and>
   list_all (\<lambda>c. urlSafe (char_info c) \<or> c = CHR ''%'') (UrlEncode data)"
proof
  let ?e = "concat (map url_escape data)" and ?o = "replicate (length (concat (map url_escape data))) NUL"
  have "length data \<le> length ?o" using length_url_escapes[of data] by simp
  from puts_fresh[OF this] show "UrlDecode (UrlEncode data) = (True, data)"
    by (simp add: UrlEncode_eq UrlDecode_def UrlDecode_span_def UrlDecodedMaxLen_def url_decode_escapes prod.case_eq_if)
  have up: "urlSafe (char_info (HEX_UPPER ! i))" if "i < 16" for i
  proof -
    have "list_all (\<lambda>i. url_safe_code (code_of (HEX_UPPER ! i))) [0..<16]" by code_simp
    with that show ?thesis by (simp add: list_all_iff char_info_eq)
  qed
  show "list_all (\<lambda>c. urlSafe (char_info c) \<or> c = CHR ''%'') (UrlEncode data)"
    unfolding UrlEncode_eq list_all_iff by (auto simp: url_escape_def hex_pair_def up nibble_lt split: if_splits)
qed

end
