(* ===== verification/Uuid.thy ===== *)
theory Uuid
  imports Encoding StringUtils
begin

text \<open>
  Model of \<open>src/shared/abis/uuid.hpp\<close>: the 16 bytes of a UUID, parsing and printing of the 36
  character form through the two lookup tables of the source. Printing and parsing invert each
  other, and parsing accepts exactly the strings that print, up to the case of the digits.
\<close>

record UUID =
  bytes :: "u8 list"

definition uuid_ok :: "UUID \<Rightarrow> bool" where
  "uuid_ok u \<longleftrightarrow> length (bytes u) = 16"

definition Clear :: "UUID \<Rightarrow> UUID" where
  "Clear u = u\<lparr>bytes := replicate 16 0\<rparr>"

definition IsZero :: "UUID \<Rightarrow> bool" where
  "IsZero u \<longleftrightarrow> bytes u = replicate 16 0"

definition Equals :: "UUID \<Rightarrow> UUID \<Rightarrow> bool" where
  "Equals u v \<longleftrightarrow> bytes u = bytes v"

definition Zero :: UUID where
  "Zero = Clear \<lparr>bytes = replicate 16 0\<rparr>"

text \<open>\<open>FromBytes\<close> on a pointer: \<^const>\<open>None\<close> is the null pointer.\<close>

definition FromBytes :: "u8 list option \<Rightarrow> UUID" where
  "FromBytes data = (case data of Some ds \<Rightarrow> \<lparr>bytes = take 16 ds\<rparr> | None \<Rightarrow> Clear \<lparr>bytes = replicate 16 0\<rparr>)"

definition kDecode :: "u8 list" where
  "kDecode =
     replicate 16 0xFF @
     replicate 16 0xFF @
     replicate 16 0xFF @
     [0x00, 0x01, 0x02, 0x03, 0x04, 0x05, 0x06, 0x07, 0x08, 0x09, 0xFF, 0xFF, 0xFF, 0xFF, 0xFF, 0xFF] @
     [0xFF, 0x0A, 0x0B, 0x0C, 0x0D, 0x0E, 0x0F, 0xFF, 0xFF, 0xFF, 0xFF, 0xFF, 0xFF, 0xFF, 0xFF, 0xFF] @
     replicate 16 0xFF @
     [0xFF, 0x0A, 0x0B, 0x0C, 0x0D, 0x0E, 0x0F, 0xFF, 0xFF, 0xFF, 0xFF, 0xFF, 0xFF, 0xFF, 0xFF, 0xFF] @
     replicate 16 0xFF @
     replicate 16 0xFF @
     replicate 16 0xFF @
     replicate 16 0xFF @
     replicate 16 0xFF @
     replicate 16 0xFF @
     replicate 16 0xFF @
     replicate 16 0xFF @
     replicate 16 0xFF"

definition kHex :: string where
  "kHex =
     ''000102030405060708090a0b0c0d0e0f'' @
     ''101112131415161718191a1b1c1d1e1f'' @
     ''202122232425262728292a2b2c2d2e2f'' @
     ''303132333435363738393a3b3c3d3e3f'' @
     ''404142434445464748494a4b4c4d4e4f'' @
     ''505152535455565758595a5b5c5d5e5f'' @
     ''606162636465666768696a6b6c6d6e6f'' @
     ''707172737475767778797a7b7c7d7e7f'' @
     ''808182838485868788898a8b8c8d8e8f'' @
     ''909192939495969798999a9b9c9d9e9f'' @
     ''a0a1a2a3a4a5a6a7a8a9aaabacadaeaf'' @
     ''b0b1b2b3b4b5b6b7b8b9babbbcbdbebf'' @
     ''c0c1c2c3c4c5c6c7c8c9cacbcccdcecf'' @
     ''d0d1d2d3d4d5d6d7d8d9dadbdcdddedf'' @
     ''e0e1e2e3e4e5e6e7e8e9eaebecedeeef'' @
     ''f0f1f2f3f4f5f6f7f8f9fafbfcfdfeff''"

text \<open>The destination byte and the source offset of each expansion of the macro \<open>P\<close>.\<close>

definition uuid_positions :: "(nat \<times> nat) list" where
  "uuid_positions = [(0, 0), (1, 2), (2, 4), (3, 6), (4, 9), (5, 11), (6, 14), (7, 16), (8, 19), (9, 21),
     (10, 24), (11, 26), (12, 28), (13, 30), (14, 32), (15, 34)]"

fun uuid_decode :: "string \<Rightarrow> (nat \<times> nat) list \<Rightarrow> UUID \<Rightarrow> bool \<times> UUID" where
  "uuid_decode s [] out = (True, out)"
| "uuid_decode s ((dst, i) # ps) out =
     (let hi = kDecode ! code_of (s ! i); lo = kDecode ! code_of (s ! (i + 1)) in
      if hi = 0xFF \<or> lo = 0xFF then (False, out)
      else uuid_decode s ps (out\<lparr>bytes := (bytes out)[dst := push_bit 4 hi OR lo]\<rparr>))"

definition FromString :: "string \<Rightarrow> UUID \<Rightarrow> bool \<times> UUID" where
  "FromString s out =
     (if length s \<noteq> 36 then (False, out)
      else if s ! 8 \<noteq> CHR ''-'' \<or> s ! 13 \<noteq> CHR ''-'' \<or> s ! 18 \<noteq> CHR ''-'' \<or> s ! 23 \<noteq> CHR ''-'' then (False, out)
      else uuid_decode s uuid_positions out)"

text \<open>The overload on a C string: \<open>strnlen(str, 37)\<close> over a buffer, \<^const>\<open>None\<close> the null pointer.\<close>

definition strnlen :: "string \<Rightarrow> nat \<Rightarrow> nat" where
  "strnlen s n = length (takeWhile (\<lambda>c. c \<noteq> NUL) (take n s))"

definition FromString_cstr :: "string option \<Rightarrow> UUID \<Rightarrow> bool \<times> UUID" where
  "FromString_cstr str out =
     (case str of
        None \<Rightarrow> (False, out)
      | Some s \<Rightarrow> if strnlen s 37 = 36 then FromString (take 36 s) out else (False, out))"

definition uuid_W :: "UUID \<Rightarrow> nat \<Rightarrow> string" where
  "uuid_W u i = [kHex ! (unat (bytes u ! i) * 2), kHex ! (unat (bytes u ! i) * 2 + 1)]"

text \<open>The 36 characters and the terminating NUL.\<close>

definition ToString :: "UUID \<Rightarrow> string" where
  "ToString u =
     uuid_W u 0 @ uuid_W u 1 @ uuid_W u 2 @ uuid_W u 3 @ ''-'' @
     uuid_W u 4 @ uuid_W u 5 @ ''-'' @
     uuid_W u 6 @ uuid_W u 7 @ ''-'' @
     uuid_W u 8 @ uuid_W u 9 @ ''-'' @
     uuid_W u 10 @ uuid_W u 11 @ uuid_W u 12 @ uuid_W u 13 @ uuid_W u 14 @ uuid_W u 15 @ [NUL]"

section \<open>The tables\<close>

lemma kHex_pairs: "kHex = concat (map (\<lambda>b. [HEX_LOWER ! (b div 16), HEX_LOWER ! (b mod 16)]) [0..<256])"
  by code_simp

lemma kDecode_digits: "list_all (\<lambda>d. kDecode ! code_of (HEX_LOWER ! d) = of_nat d) [0..<16]"
  by code_simp

lemma kDecode_inverse:
  "list_all (\<lambda>c. kDecode ! code_of c = 0xFF \<or>
     HEX_LOWER ! unat (kDecode ! code_of c) = byte_char (ToLowerAscii (byte_of c)) \<and> kDecode ! code_of c < 16) Enum.enum"
  by code_simp

lemma concat_pairs_nth:
  "b < length xs \<Longrightarrow> concat (map (\<lambda>x. [f x, g x]) xs) ! (b * 2) = f (xs ! b) \<and>
     concat (map (\<lambda>x. [f x, g x]) xs) ! (b * 2 + 1) = g (xs ! b)"
proof (induction xs arbitrary: b)
  case (Cons x xs)
  then show ?case by (cases b) auto
qed simp

lemma uuid_W_digits:
  "uuid_W u i = [HEX_LOWER ! (unat (bytes u ! i) div 16), HEX_LOWER ! (unat (bytes u ! i) mod 16)]"
  unfolding uuid_W_def kHex_pairs
  using concat_pairs_nth[of "unat (bytes u ! i)" "[0..<256]" "\<lambda>b. HEX_LOWER ! (b div 16)" "\<lambda>b. HEX_LOWER ! (b mod 16)"]
    unat_u8_lt[of "bytes u ! i"] by simp

lemma kDecode_digit: "d < 16 \<Longrightarrow> kDecode ! code_of (HEX_LOWER ! d) = of_nat d"
  using kDecode_digits by (simp add: list_all_iff)

lemma small_not_255: "d < 16 \<Longrightarrow> (of_nat d :: u8) \<noteq> 0xFF"
proof
  assume d: "d < 16" "(of_nat d :: u8) = 0xFF"
  have "unat (of_nat d :: u8) = d" using d(1) by (simp add: unat_of_nat)
  moreover have "unat (of_nat d :: u8) = 255" by (simp only: d(2)) simp
  ultimately show False using d(1) by linarith
qed

lemma byte_of_digits: "push_bit 4 (of_nat (unat w div 16)) OR of_nat (unat w mod 16) = (w :: u8)"
proof -
  have "unat (drop_bit 4 w) = unat w div 16" unfolding unat_drop_bit_eq by (simp add: drop_bit_eq_div)
  then have "of_nat (unat w div 16) = drop_bit 4 w" by (metis of_nat_unat ucast_id)
  moreover have "unat (take_bit 4 w) = unat w mod 16" unfolding unsigned_take_bit_eq by (simp add: take_bit_eq_mod)
  moreover have "take_bit 4 w = w AND 0x0F" by (simp add: take_bit_eq_mask mask_eq_exp_minus_1)
  ultimately show ?thesis using nibbles_join[of w] by (metis of_nat_unat ucast_id)
qed

section \<open>Printing and parsing\<close>

lemma digit_pair_decodes:
  assumes "s ! i = HEX_LOWER ! (unat w div 16)" "s ! (i + 1) = HEX_LOWER ! (unat w mod 16)"
  shows "uuid_decode s ((dst, i) # ps) out = uuid_decode s ps (out\<lparr>bytes := (bytes out)[dst := w]\<rparr>)"
proof -
  have "unat w div 16 < 16" "unat w mod 16 < 16" using unat_u8_lt[of w] by auto
  then show ?thesis
    using assms by (simp add: Let_def kDecode_digit small_not_255 byte_of_digits)
qed

declare uuid_decode.simps(2) [simp del]

lemma FromString_ToString:
  assumes "length bs = 16" "length (bytes out) = 16"
  shows "FromString (take 36 (ToString \<lparr>bytes = bs\<rparr>)) out = (True, out\<lparr>bytes := bs\<rparr>)"
proof -
  define hi where "hi w = HEX_LOWER ! (unat w div 16)" for w :: u8
  define lo where "lo w = HEX_LOWER ! (unat w mod 16)" for w :: u8
  obtain b0 b1 b2 b3 b4 b5 b6 b7 b8 b9 b10 b11 b12 b13 b14 b15 where
    b: "bs = [b0, b1, b2, b3, b4, b5, b6, b7, b8, b9, b10, b11, b12, b13, b14, b15]"
    using assms(1) by (auto simp: numeral_eq_Suc length_Suc_conv)
  obtain o0 o1 o2 o3 o4 o5 o6 o7 o8 o9 o10 o11 o12 o13 o14 o15 where
    o: "bytes out = [o0, o1, o2, o3, o4, o5, o6, o7, o8, o9, o10, o11, o12, o13, o14, o15]"
    using assms(2) by (auto simp: numeral_eq_Suc length_Suc_conv)
  define s where "s = [hi b0, lo b0, hi b1, lo b1, hi b2, lo b2, hi b3, lo b3, CHR ''-'', hi b4, lo b4, hi b5, lo b5,
    CHR ''-'', hi b6, lo b6, hi b7, lo b7, CHR ''-'', hi b8, lo b8, hi b9, lo b9, CHR ''-'', hi b10, lo b10, hi b11, lo b11,
    hi b12, lo b12, hi b13, lo b13, hi b14, lo b14, hi b15, lo b15]"
  have s: "take 36 (ToString \<lparr>bytes = bs\<rparr>) = s"
    by (simp add: ToString_def uuid_W_digits b s_def hi_def lo_def)
  have step: "uuid_decode s ((dst, i) # ps) (out\<lparr>bytes := xs\<rparr>) = uuid_decode s ps (out\<lparr>bytes := xs[dst := w]\<rparr>)"
    if "s ! i = hi w" "s ! (i + 1) = lo w" for dst i ps xs w
    using digit_pair_decodes[of s i w dst ps "out\<lparr>bytes := xs\<rparr>"] that unfolding hi_def lo_def by simp
  have steps:
    "\<And>ps xs. uuid_decode s ((0, 0) # ps) (out\<lparr>bytes := xs\<rparr>) = uuid_decode s ps (out\<lparr>bytes := xs[0 := b0]\<rparr>)"
    "\<And>ps xs. uuid_decode s ((1, 2) # ps) (out\<lparr>bytes := xs\<rparr>) = uuid_decode s ps (out\<lparr>bytes := xs[1 := b1]\<rparr>)"
    "\<And>ps xs. uuid_decode s ((2, 4) # ps) (out\<lparr>bytes := xs\<rparr>) = uuid_decode s ps (out\<lparr>bytes := xs[2 := b2]\<rparr>)"
    "\<And>ps xs. uuid_decode s ((3, 6) # ps) (out\<lparr>bytes := xs\<rparr>) = uuid_decode s ps (out\<lparr>bytes := xs[3 := b3]\<rparr>)"
    "\<And>ps xs. uuid_decode s ((4, 9) # ps) (out\<lparr>bytes := xs\<rparr>) = uuid_decode s ps (out\<lparr>bytes := xs[4 := b4]\<rparr>)"
    "\<And>ps xs. uuid_decode s ((5, 11) # ps) (out\<lparr>bytes := xs\<rparr>) = uuid_decode s ps (out\<lparr>bytes := xs[5 := b5]\<rparr>)"
    "\<And>ps xs. uuid_decode s ((6, 14) # ps) (out\<lparr>bytes := xs\<rparr>) = uuid_decode s ps (out\<lparr>bytes := xs[6 := b6]\<rparr>)"
    "\<And>ps xs. uuid_decode s ((7, 16) # ps) (out\<lparr>bytes := xs\<rparr>) = uuid_decode s ps (out\<lparr>bytes := xs[7 := b7]\<rparr>)"
    "\<And>ps xs. uuid_decode s ((8, 19) # ps) (out\<lparr>bytes := xs\<rparr>) = uuid_decode s ps (out\<lparr>bytes := xs[8 := b8]\<rparr>)"
    "\<And>ps xs. uuid_decode s ((9, 21) # ps) (out\<lparr>bytes := xs\<rparr>) = uuid_decode s ps (out\<lparr>bytes := xs[9 := b9]\<rparr>)"
    "\<And>ps xs. uuid_decode s ((10, 24) # ps) (out\<lparr>bytes := xs\<rparr>) = uuid_decode s ps (out\<lparr>bytes := xs[10 := b10]\<rparr>)"
    "\<And>ps xs. uuid_decode s ((11, 26) # ps) (out\<lparr>bytes := xs\<rparr>) = uuid_decode s ps (out\<lparr>bytes := xs[11 := b11]\<rparr>)"
    "\<And>ps xs. uuid_decode s ((12, 28) # ps) (out\<lparr>bytes := xs\<rparr>) = uuid_decode s ps (out\<lparr>bytes := xs[12 := b12]\<rparr>)"
    "\<And>ps xs. uuid_decode s ((13, 30) # ps) (out\<lparr>bytes := xs\<rparr>) = uuid_decode s ps (out\<lparr>bytes := xs[13 := b13]\<rparr>)"
    "\<And>ps xs. uuid_decode s ((14, 32) # ps) (out\<lparr>bytes := xs\<rparr>) = uuid_decode s ps (out\<lparr>bytes := xs[14 := b14]\<rparr>)"
    "\<And>ps xs. uuid_decode s ((15, 34) # ps) (out\<lparr>bytes := xs\<rparr>) = uuid_decode s ps (out\<lparr>bytes := xs[15 := b15]\<rparr>)"
    by (rule step; simp add: s_def)+
  have "uuid_decode s uuid_positions (out\<lparr>bytes := bytes out\<rparr>) = (True, out\<lparr>bytes := bs\<rparr>)"
    unfolding uuid_positions_def steps o uuid_decode.simps(1) b by simp
  then show ?thesis unfolding s FromString_def by (simp add: s_def)
qed

lemma ToString_shape:
  "length (ToString u) = 37" "ToString u = take 36 (ToString u) @ [NUL]" "NUL \<notin> set (take 36 (ToString u))"
proof -
  have d: "HEX_LOWER ! k \<noteq> NUL" if "k < 16" for k
  proof -
    have "list_all (\<lambda>k. HEX_LOWER ! k \<noteq> NUL) [0..<16]" by code_simp
    with that show ?thesis by (simp add: list_all_iff)
  qed
  have "unat w div 16 < 16" "unat w mod 16 < 16" for w :: u8 using unat_u8_lt[of w] by auto
  then have n: "NUL \<noteq> HEX_LOWER ! (unat w div 16)" "NUL \<noteq> HEX_LOWER ! (unat w mod 16)" for w :: u8
    using d by metis+
  show "length (ToString u) = 37" "ToString u = take 36 (ToString u) @ [NUL]" "NUL \<notin> set (take 36 (ToString u))"
    by (simp_all add: ToString_def uuid_W_digits n)
qed

text \<open>C34. Parsing inverts printing. For every 16-byte UUID, \<open>FromString\<close> accepts the text
  \<open>ToString\<close> produced, as a view and as a NUL-terminated C string, and stores exactly that UUID,
  whatever the output object held before.\<close>

theorem uuid_print_parse:
  assumes "uuid_ok u" "uuid_ok out"
  shows "FromString (take 36 (ToString u)) out = (True, u) \<and> FromString_cstr (Some (ToString u)) out = (True, u)"
proof -
  have f: "FromString (take 36 (ToString u)) out = (True, u)"
    using FromString_ToString[of "bytes u" out] assms by (cases u; cases out) (simp add: uuid_ok_def)
  have "takeWhile (\<lambda>c. c \<noteq> NUL) (take 36 (ToString u) @ [NUL]) = take 36 (ToString u)"
    using ToString_shape(3)[of u] by (subst takeWhile_append2) auto
  then have "strnlen (ToString u) 37 = 36"
    unfolding strnlen_def using ToString_shape(1,2)[of u] by simp
  with f show ?thesis by (simp add: FromString_cstr_def)
qed

theorem uuid_print_parse_witness:
  "uuid_ok Zero \<and> FromString (take 36 (ToString (FromBytes (Some (map of_nat [0..<16]))))) Zero =
     (True, FromBytes (Some (map of_nat [0..<16])))"
proof -
  have z: "uuid_ok Zero" "uuid_ok (FromBytes (Some (map of_nat [0..<16])))"
    by (simp_all add: uuid_ok_def Zero_def Clear_def FromBytes_def)
  show ?thesis using uuid_print_parse[OF z(2,1)] z(1) by blast
qed

section \<open>What the parser accepts\<close>

definition lower :: "char \<Rightarrow> char" where
  "lower c = byte_char (ToLowerAscii (byte_of c))"

lemma kDecode_lower:
  assumes "kDecode ! code_of c \<noteq> 0xFF"
  shows "HEX_LOWER ! unat (kDecode ! code_of c) = lower c" "unat (kDecode ! code_of c) < 16"
proof -
  have "HEX_LOWER ! unat (kDecode ! code_of c) = lower c \<and> kDecode ! code_of c < 16"
    using kDecode_inverse assms by (auto simp: list_all_iff enum_UNIV lower_def)
  then show "HEX_LOWER ! unat (kDecode ! code_of c) = lower c" "unat (kDecode ! code_of c) < 16"
    by (auto simp: word_less_nat_alt)
qed

lemma unat_join:
  assumes "unat hi < 16" "unat lo < 16"
  shows "unat (push_bit 4 hi OR lo :: u8) = 16 * unat hi + unat lo"
proof -
  have "hi = of_nat (unat hi)" "lo = of_nat (unat lo)" by simp_all
  moreover have "push_bit 4 (of_nat h) OR of_nat l = (of_nat (16 * h + l) :: u8)" if "h < 16" "l < 16" for h l
  proof -
    have "unat (of_nat (16 * h + l) :: u8) = 16 * h + l"
      using that by (simp only: unat_of_nat take_bit_eq_mod) simp
    then show ?thesis using byte_of_digits[of "of_nat (16 * h + l)"] that by simp
  qed
  ultimately have "push_bit 4 hi OR lo = of_nat (16 * unat hi + unat lo)" using assms by metis
  then show ?thesis using assms by (simp only: unat_of_nat take_bit_eq_mod) simp
qed

lemma uuid_decode_bytes:
  assumes "uuid_decode s ps out = (True, u)" "distinct (map fst ps)" "\<forall>p \<in> set ps. fst p < length (bytes out)"
  shows "length (bytes u) = length (bytes out)
    \<and> (\<forall>d < length (bytes out). d \<notin> fst ` set ps \<longrightarrow> bytes u ! d = bytes out ! d)
    \<and> (\<forall>p \<in> set ps. uuid_W u (fst p) = [lower (s ! snd p), lower (s ! (snd p + 1))])"
  using assms
proof (induction s ps out rule: uuid_decode.induct)
  case (2 s dst i ps out)
  let ?hi = "kDecode ! code_of (s ! i)" and ?lo = "kDecode ! code_of (s ! (i + 1))"
  let ?out = "out\<lparr>bytes := (bytes out)[dst := push_bit 4 ?hi OR ?lo]\<rparr>"
  have v: "?hi \<noteq> 0xFF" "?lo \<noteq> 0xFF" "uuid_decode s ps ?out = (True, u)"
    using "2.prems"(1) by (auto simp: uuid_decode.simps Let_def split: if_splits)
  have ih: "length (bytes u) = length (bytes out)"
    "\<forall>d < length (bytes out). d \<notin> fst ` set ps \<longrightarrow> bytes u ! d = bytes ?out ! d"
    "\<forall>p \<in> set ps. uuid_W u (fst p) = [lower (s ! snd p), lower (s ! (snd p + 1))]"
    using "2.IH"[OF refl refl _ v(3)] v "2.prems"(2,3) by simp_all
  have "bytes u ! dst = push_bit 4 ?hi OR ?lo"
    using ih(2) "2.prems"(2,3) by simp
  then have "uuid_W u dst = [lower (s ! i), lower (s ! (i + 1))]"
    using kDecode_lower[OF v(1)] kDecode_lower[OF v(2)] unat_join[of ?hi ?lo]
    by (simp add: uuid_W_digits)
  then show ?case using ih by simp
qed simp

text \<open>C33. Parsing accepts only what prints. Whenever \<open>FromString\<close> succeeds, printing the stored UUID
  gives the input text with its hex digits in lower case: the parser accepts no alternative
  spelling, and two texts that differ in more than case never parse to the same UUID.\<close>

theorem uuid_parse_print:
  assumes "FromString s out = (True, u)" "uuid_ok out"
  shows "uuid_ok u \<and> ToString u = map lower s @ [NUL]"
proof -
  have s: "length s = 36" "s ! 8 = CHR ''-''" "s ! 13 = CHR ''-''" "s ! 18 = CHR ''-''" "s ! 23 = CHR ''-''"
    and d: "uuid_decode s uuid_positions out = (True, u)"
    using assms(1) by (auto simp: FromString_def split: if_splits)
  have p: "distinct (map fst uuid_positions)" "\<forall>p \<in> set uuid_positions. fst p < length (bytes out)"
    using assms(2) by (auto simp: uuid_positions_def uuid_ok_def)
  note w = uuid_decode_bytes[OF d p]
  note W = w[THEN conjunct2, THEN conjunct2, unfolded uuid_positions_def, simplified]
  have dash: "lower (CHR ''-'') = CHR ''-''" by code_simp
  have "map lower s = map (\<lambda>k. lower (s ! k)) [0..<36]"
    using s(1) by (intro nth_equalityI) simp_all
  also have "[0..<36] = [0,1,2,3,4,5,6,7,8,9,10,11,12,13,14,15,16,17,18,19,20,21,22,23,24,25,26,27,28,29,30,31,32,33,34,35]"
    by (simp add: upt_conv_Cons)
  finally have "map lower s @ [NUL] = ToString u"
    unfolding ToString_def by (simp add: W s dash)
  then show ?thesis using w assms(2) by (simp add: uuid_ok_def)
qed

theorem uuid_parse_print_witness:
  "FromString (take 36 (ToString Zero)) Zero = (True, Zero) \<and>
   ToString Zero = map lower (take 36 (ToString Zero)) @ [NUL]"
proof -
  have z: "uuid_ok Zero" by (simp add: uuid_ok_def Zero_def Clear_def)
  have "FromString (take 36 (ToString Zero)) Zero = (True, Zero)"
    using FromString_ToString[of "bytes Zero" Zero] by (simp add: Zero_def Clear_def)
  with uuid_parse_print[OF this z] show ?thesis by blast
qed

end
