(* ===== verification/BitmapPool.thy ===== *)
theory BitmapPool
  imports WFX_Prelude
begin

text \<open>
  Model of \<open>src/utils/pool/bitmap_pool.hpp\<close>: a fixed pool of slots with one bit per slot in 64-bit
  words, a second optional bitmap of preferred slots, and a cursor that remembers the word of the last
  allocation. The objects of the pool play no role in the allocation and are left out: a pointer into
  the pool is the slot's index. Whether an allocation of storage succeeds is an argument.
\<close>

section \<open>State and operations\<close>

record pool =
  bitmap :: "u64 list"
  marks :: "u64 list option"
  slots :: u32
  words :: u32
  lastUsedIndex :: u32

definition MAX_64_ALIGNED :: u64 where "MAX_64_ALIGNED = 0xFFFFFFC0"

definition BitmapPool_new :: "bool \<Rightarrow> u32 \<Rightarrow> bool \<Rightarrow> fatal + pool" where
  "BitmapPool_new allocated numSlots exactSize =
     (let (sl, wd) =
        (if exactSize then (numSlots, ucast (drop_bit 6 (ucast numSlots + 63 :: u64)))
         else
           let r0 = (ucast numSlots + 63 :: u64) AND NOT 63;
               r1 = (if r0 > MAX_64_ALIGNED then MAX_64_ALIGNED else r0);
               s = (ucast r1 :: u32)
           in (s, drop_bit 6 s));
          tailBits = sl AND 63;
          bm = replicate (unat wd) 0
      in if sl > 0 \<and> \<not> allocated then Inl (Fatal ''[BitmapPool]: Failed to create pools'')
         else Inr \<lparr>bitmap = (if sl > 0 \<and> tailBits \<noteq> 0
                             then bm[unat (wd - 1) := NOT (push_bit (unat tailBits) 1 - 1)] else bm),
                   marks = None, slots = sl, words = wd, lastUsedIndex = 0\<rparr>)"

text \<open>One of the two scans of \<open>AllocSlot\<close>: words \<open>w\<close> up to \<open>w + n\<close>.\<close>

fun alloc_scan :: "pool \<Rightarrow> nat \<Rightarrow> nat \<Rightarrow> (nat \<times> pool) option" where
  "alloc_scan p w 0 = None"
| "alloc_scan p w (Suc n) =
     (let inv = NOT (bitmap p ! w) in
      if inv \<noteq> 0 then
        let b = countr_zero inv in
        Some (64 * w + b, p\<lparr>bitmap := (bitmap p)[w := bitmap p ! w OR push_bit b 1], lastUsedIndex := of_nat w\<rparr>)
      else alloc_scan p (Suc w) n)"

definition AllocSlot :: "pool \<Rightarrow> nat option \<times> pool" where
  "AllocSlot p =
     (let l = unat (lastUsedIndex p) in
      case alloc_scan p l (unat (words p) - l) of
        Some (i, p') \<Rightarrow> (Some i, p')
      | None \<Rightarrow> (case alloc_scan p 0 l of Some (i, p') \<Rightarrow> (Some i, p') | None \<Rightarrow> (None, p)))"

fun marked_scan :: "pool \<Rightarrow> u64 list \<Rightarrow> nat \<Rightarrow> nat \<Rightarrow> (nat \<times> pool) option" where
  "marked_scan p ms w 0 = None"
| "marked_scan p ms w (Suc n) =
     (let available = ms ! w AND NOT (bitmap p ! w) in
      if available \<noteq> 0 then
        let b = countr_zero available in
        Some (64 * w + b, p\<lparr>bitmap := (bitmap p)[w := bitmap p ! w OR push_bit b 1],
                            marks := Some (ms[w := ms ! w AND NOT (push_bit b 1)])\<rparr>)
      else marked_scan p ms (Suc w) n)"

definition AllocMarked :: "pool \<Rightarrow> nat option \<times> pool" where
  "AllocMarked p =
     (case marks p of
        None \<Rightarrow> (None, p)
      | Some ms \<Rightarrow> (case marked_scan p ms 0 (unat (words p)) of Some (i, p') \<Rightarrow> (Some i, p') | None \<Rightarrow> (None, p)))"

definition slot_word :: "u32 \<Rightarrow> nat" where "slot_word idx = unat (drop_bit 6 idx)"
definition slot_bit :: "u32 \<Rightarrow> nat" where "slot_bit idx = unat (idx AND 63)"

definition Mark :: "bool \<Rightarrow> u32 \<Rightarrow> pool \<Rightarrow> pool" where
  "Mark allocated idx p =
     (let p1 = (case marks p of
                  None \<Rightarrow> (if allocated then p\<lparr>marks := Some (replicate (unat (words p)) 0)\<rparr> else p)
                | Some _ \<Rightarrow> p)
      in case marks p1 of
           None \<Rightarrow> p1
         | Some ms \<Rightarrow> p1\<lparr>marks := Some (ms[slot_word idx := ms ! slot_word idx OR push_bit (slot_bit idx) 1])\<rparr>)"

definition Unmark :: "u32 \<Rightarrow> pool \<Rightarrow> pool" where
  "Unmark idx p =
     (case marks p of
        None \<Rightarrow> p
      | Some ms \<Rightarrow> p\<lparr>marks := Some (ms[slot_word idx := ms ! slot_word idx AND NOT (push_bit (slot_bit idx) 1)])\<rparr>)"

definition FreeSlot :: "u32 \<Rightarrow> pool \<Rightarrow> pool" where
  "FreeSlot idx p =
     p\<lparr>bitmap := (bitmap p)[slot_word idx := bitmap p ! slot_word idx AND NOT (push_bit (slot_bit idx) 1)]\<rparr>"

definition IsAllocated :: "u32 \<Rightarrow> pool \<Rightarrow> bool" where
  "IsAllocated idx p \<longleftrightarrow> bitmap p ! slot_word idx AND push_bit (slot_bit idx) 1 \<noteq> 0"

definition GetSlots :: "pool \<Rightarrow> u32" where "GetSlots p = slots p"

section \<open>The set of taken slots\<close>

definition bits_at :: "u64 list \<Rightarrow> nat \<Rightarrow> bool" where
  "bits_at bs i \<longleftrightarrow> bit (bs ! (i div 64)) (i mod 64)"

definition taken :: "pool \<Rightarrow> nat set" where
  "taken p = {i. i < unat (slots p) \<and> bits_at (bitmap p) i}"

definition pool_ok :: "pool \<Rightarrow> bool" where
  "pool_ok p \<longleftrightarrow> length (bitmap p) = unat (words p) \<and> unat (slots p) \<le> 64 * unat (words p)
     \<and> unat (words p) \<le> 2 ^ 26 \<and> unat (lastUsedIndex p) \<le> unat (words p)
     \<and> (\<forall>i. unat (slots p) \<le> i \<and> i < 64 * unat (words p) \<longrightarrow> bits_at (bitmap p) i)
     \<and> (case marks p of None \<Rightarrow> True | Some ms \<Rightarrow> length ms = unat (words p))"

lemma bit_one_shift: "n < 64 \<Longrightarrow> bit (2 ^ b :: u64) n \<longleftrightarrow> n = b"
  by (auto simp: bit_simps)

lemma slot_split: "b < 64 \<Longrightarrow> i div 64 = w \<Longrightarrow> i = 64 * w + b \<longleftrightarrow> i mod 64 = (b :: nat)"
  using mult_div_mod_eq[of 64 i] by (metis add_left_cancel)

lemma bits_at_set:
  assumes "w < length bs" "b < 64"
  shows "bits_at (bs[w := bs ! w OR push_bit b 1]) i \<longleftrightarrow> bits_at bs i \<or> i = 64 * w + b"
proof (cases "i div 64 = w")
  case True
  have "i = 64 * w + b \<longleftrightarrow> i mod 64 = b" using slot_split[OF assms(2)] True by blast
  then show ?thesis
    using True assms by (simp add: bits_at_def bit_or_iff bit_one_shift)
next
  case False
  have "i \<noteq> 64 * w + b" using False assms(2) by auto
  with False show ?thesis by (simp add: bits_at_def nth_list_update)
qed

lemma bits_at_clear:
  assumes "w < length bs" "b < 64"
  shows "bits_at (bs[w := bs ! w AND NOT (push_bit b 1)]) i \<longleftrightarrow> bits_at bs i \<and> i \<noteq> 64 * w + b"
proof (cases "i div 64 = w")
  case True
  have "i = 64 * w + b \<longleftrightarrow> i mod 64 = b" using slot_split[OF assms(2)] True by blast
  then show ?thesis
    using True assms by (simp add: bits_at_def bit_and_iff bit_not_iff bit_one_shift)
next
  case False
  have "i \<noteq> 64 * w + b" using False assms(2) by auto
  with False show ?thesis by (simp add: bits_at_def nth_list_update)
qed

lemma slot_word_bit:
  "slot_word idx = unat idx div 64" "slot_bit idx = unat idx mod 64" "64 * slot_word idx + slot_bit idx = unat idx"
proof -
  show w: "slot_word idx = unat idx div 64"
    unfolding slot_word_def unat_drop_bit_eq by (simp add: drop_bit_eq_div)
  have "idx AND 63 = take_bit 6 idx" by (simp add: take_bit_eq_mask mask_eq_exp_minus_1)
  then show b: "slot_bit idx = unat idx mod 64"
    unfolding slot_bit_def by (simp only: unsigned_take_bit_eq) (simp add: take_bit_eq_mod)
  show "64 * slot_word idx + slot_bit idx = unat idx" unfolding w b by simp
qed

text \<open>A free word lies at \<open>w\<close>: what the scans find.\<close>

definition took :: "pool \<Rightarrow> nat \<Rightarrow> pool \<Rightarrow> bool" where
  "took p i p' \<longleftrightarrow> i < unat (slots p) \<and> i \<notin> taken p \<and> taken p' = insert i (taken p)
     \<and> pool_ok p' \<and> slots p' = slots p \<and> words p' = words p"

lemma set_bit_took:
  assumes ok: "pool_ok p" and w: "w < unat (words p)" "b < 64" "\<not> bit (bitmap p ! w) b"
    and p': "bitmap p' = (bitmap p)[w := bitmap p ! w OR push_bit b 1]" "slots p' = slots p" "words p' = words p"
      "unat (lastUsedIndex p') \<le> unat (words p)"
      "case marks p' of None \<Rightarrow> True | Some ms \<Rightarrow> length ms = unat (words p)"
  shows "took p (64 * w + b) p'"
proof -
  have len: "w < length (bitmap p)" using ok w(1) by (simp add: pool_ok_def)
  have free: "\<not> bits_at (bitmap p) (64 * w + b)" using w by (simp add: bits_at_def)
  have "64 * w + b < 64 * unat (words p)" using w(1,2) by linarith
  with free have lt: "64 * w + b < unat (slots p)"
    using ok unfolding pool_ok_def by (metis not_less)
  have eq: "bits_at (bitmap p') i \<longleftrightarrow> bits_at (bitmap p) i \<or> i = 64 * w + b" for i
    unfolding p'(1) by (rule bits_at_set[OF len w(2)])
  have "length (bitmap p') = length (bitmap p)" by (simp add: p'(1))
  then show ?thesis
    unfolding took_def taken_def pool_ok_def eq p'(2,3)
    using lt free ok p'(4,5) unfolding pool_ok_def by (auto split: option.splits)
qed

lemma alloc_scan_Some:
  assumes "pool_ok p" "w + n \<le> unat (words p)" "alloc_scan p w n = Some (i, p')"
  shows "took p i p' \<and> marks p' = marks p"
  using assms(2,3)
proof (induction n arbitrary: w)
  case (Suc n)
  show ?case
  proof (cases "NOT (bitmap p ! w) = 0")
    case True
    then show ?thesis using Suc.IH[of "Suc w"] Suc.prems by simp
  next
    case False
    note c = countr_zero_spec[OF False]
    have r: "i = 64 * w + countr_zero (NOT (bitmap p ! w))"
      "p' = p\<lparr>bitmap := (bitmap p)[w := bitmap p ! w OR push_bit (countr_zero (NOT (bitmap p ! w))) 1], lastUsedIndex := of_nat w\<rparr>"
      using Suc.prems(2) False by (auto simp: Let_def)
    have w: "w < unat (words p)" using Suc.prems(1) by simp
    have lw: "unat (of_nat w :: u32) = w"
      using w assms(1) by (simp add: unat_of_nat pool_ok_def take_bit_eq_mod)
    have "\<not> bit (bitmap p ! w) (countr_zero (NOT (bitmap p ! w)))"
      using c by (simp add: bit_not_iff)
    then show ?thesis
      unfolding r(1) using set_bit_took[OF assms(1) w c(1), of p'] assms(1) lw w
      by (simp add: r(2) pool_ok_def)
  qed
qed simp

lemma alloc_scan_None:
  "alloc_scan p w n = None \<Longrightarrow> w \<le> v \<Longrightarrow> v < w + n \<Longrightarrow> bitmap p ! v = NOT 0"
proof (induction n arbitrary: w)
  case (Suc n)
  have z: "NOT (bitmap p ! w) = 0" "alloc_scan p (Suc w) n = None"
    using Suc.prems(1) by (auto simp: Let_def split: if_splits)
  show ?case
  proof (cases "v = w")
    case True
    then show ?thesis using z(1) by (metis bit.double_compl)
  next
    case False
    then show ?thesis using Suc z(2) by simp
  qed
qed simp

lemma alloc_took:
  assumes "pool_ok p"
  shows "AllocSlot p = (Some i, p') \<Longrightarrow> took p i p'"
    and "AllocSlot p = (None, p') \<Longrightarrow> p' = p \<and> taken p = {i. i < unat (slots p)}"
proof -
  let ?l = "unat (lastUsedIndex p)" and ?n = "unat (words p)"
  have l: "?l + (?n - ?l) \<le> ?n" "0 + ?l \<le> ?n" using assms by (auto simp: pool_ok_def)
  show "took p i p'" if "AllocSlot p = (Some i, p')"
    using that alloc_scan_Some[OF assms l(1)] alloc_scan_Some[OF assms l(2)]
    by (auto simp: AllocSlot_def Let_def split: option.splits)
  show "p' = p \<and> taken p = {i. i < unat (slots p)}" if none: "AllocSlot p = (None, p')"
  proof -
    have n: "alloc_scan p ?l (?n - ?l) = None" "alloc_scan p 0 ?l = None" "p' = p"
      using none by (auto simp: AllocSlot_def Let_def split: option.splits)
    have full: "bitmap p ! v = NOT 0" if "v < ?n" for v
      using alloc_scan_None[OF n(1), of v] alloc_scan_None[OF n(2), of v] that by (cases "v < ?l") auto
    have "bits_at (bitmap p) i" if "i < unat (slots p)" for i
    proof -
      have "i div 64 < ?n" using that assms by (auto simp: pool_ok_def)
      then show ?thesis by (simp add: bits_at_def full bit_not_iff)
    qed
    then show ?thesis using n(3) by (auto simp: taken_def)
  qed
qed

text \<open>C30. \<open>AllocSlot\<close> hands out a slot exactly when one is free. On a well-formed pool the slot it
  returns lies inside the pool and was free, afterwards exactly that slot is taken in addition and
  the pool is well-formed again; when it returns null the pool is unchanged and every slot is taken.\<close>

theorem AllocSlot_exact:
  assumes "pool_ok p"
  shows "case AllocSlot p of
      (Some i, p') \<Rightarrow> i < unat (slots p) \<and> i \<notin> taken p \<and> taken p' = insert i (taken p) \<and> pool_ok p' \<and> slots p' = slots p
    | (None, p') \<Rightarrow> p' = p \<and> taken p = {i. i < unat (slots p)}"
  using alloc_took[OF assms] by (auto simp: took_def split: prod.splits option.splits)

theorem AllocSlot_exact_witness:
  "AllocSlot \<lparr>bitmap = [5], marks = None, slots = 64, words = 1, lastUsedIndex = 0\<rparr> =
     (Some 1, \<lparr>bitmap = [7], marks = None, slots = 64, words = 1, lastUsedIndex = 0\<rparr>) \<and>
   1 \<notin> taken \<lparr>bitmap = [5], marks = None, slots = 64, words = 1, lastUsedIndex = 0\<rparr>"
proof -
  let ?p = "\<lparr>bitmap = [5], marks = None, slots = 64, words = 1, lastUsedIndex = 0\<rparr>"
  have ok: "pool_ok ?p" by (auto simp: pool_ok_def)
  have a: "AllocSlot ?p = (Some 1, \<lparr>bitmap = [7], marks = None, slots = 64, words = 1, lastUsedIndex = 0\<rparr>)"
    by code_simp
  show ?thesis using AllocSlot_exact[OF ok] a by simp
qed

lemma marked_scan_Some:
  assumes "pool_ok p" "marks p = Some ms" "w + n \<le> unat (words p)" "marked_scan p ms w n = Some (i, p')"
  shows "took p i p' \<and> bits_at ms i"
  using assms(3,4)
proof (induction n arbitrary: w)
  case (Suc n)
  let ?a = "ms ! w AND NOT (bitmap p ! w)"
  show ?case
  proof (cases "?a = 0")
    case True
    then show ?thesis using Suc.IH[of "Suc w"] Suc.prems by simp
  next
    case False
    note c = countr_zero_spec[OF False]
    let ?b = "countr_zero ?a"
    have r: "i = 64 * w + ?b"
      "p' = p\<lparr>bitmap := (bitmap p)[w := bitmap p ! w OR push_bit ?b 1], marks := Some (ms[w := ms ! w AND NOT (push_bit ?b 1)])\<rparr>"
      using Suc.prems(2) False by (auto simp: Let_def)
    have w: "w < unat (words p)" using Suc.prems(1) by simp
    have b: "\<not> bit (bitmap p ! w) ?b" "bit (ms ! w) ?b"
      using c by (simp_all add: bit_not_iff bit_and_iff)
    then show ?thesis
      unfolding r(1) using set_bit_took[OF assms(1) w c(1) b(1), of p'] assms(1,2) c(1)
      by (simp add: r(2) pool_ok_def bits_at_def)
  qed
qed simp

lemma AllocMarked_took:
  assumes "pool_ok p" "AllocMarked p = (r, p')"
  shows "case r of None \<Rightarrow> p' = p | Some i \<Rightarrow> took p i p' \<and> (\<exists>ms. marks p = Some ms \<and> bits_at ms i)"
  using assms marked_scan_Some[OF assms(1), of _ 0 "unat (words p)"]
  by (fastforce simp: AllocMarked_def split: option.splits prod.splits)

lemma slot_word_lt: "pool_ok p \<Longrightarrow> unat idx < unat (slots p) \<Longrightarrow> slot_word idx < length (bitmap p)" "slot_bit idx < 64"
  by (auto simp: slot_word_bit pool_ok_def)

lemma FreeSlot_taken:
  assumes ok: "pool_ok p" and i: "unat idx < unat (slots p)"
  shows "taken (FreeSlot idx p) = taken p - {unat idx} \<and> pool_ok (FreeSlot idx p) \<and> slots (FreeSlot idx p) = slots p"
proof -
  have bm: "bitmap (FreeSlot idx p) = (bitmap p)[slot_word idx := bitmap p ! slot_word idx AND NOT (push_bit (slot_bit idx) 1)]"
    by (simp add: FreeSlot_def)
  have eq: "bits_at (bitmap (FreeSlot idx p)) k \<longleftrightarrow> bits_at (bitmap p) k \<and> k \<noteq> unat idx" for k
    unfolding bm bits_at_clear[OF slot_word_lt(1)[OF ok i] slot_word_lt(2)] slot_word_bit(3) ..
  have "length (bitmap (FreeSlot idx p)) = length (bitmap p)" "slots (FreeSlot idx p) = slots p"
    "words (FreeSlot idx p) = words p" "marks (FreeSlot idx p) = marks p" "lastUsedIndex (FreeSlot idx p) = lastUsedIndex p"
    by (simp_all add: FreeSlot_def)
  then show ?thesis using ok i unfolding taken_def pool_ok_def eq by (auto split: option.splits)
qed

lemma IsAllocated_taken: "unat idx < unat (slots p) \<Longrightarrow> IsAllocated idx p \<longleftrightarrow> unat idx \<in> taken p"
proof -
  assume i: "unat idx < unat (slots p)"
  have "w AND push_bit b 1 \<noteq> 0 \<longleftrightarrow> bit w b" if "b < 64" for w :: u64 and b
  proof -
    have "bit (w AND push_bit b 1) n \<longleftrightarrow> n = b \<and> bit w b" for n
      using that by (auto simp: bit_simps)
    then show ?thesis by (metis bit_0_eq bot_apply bot_bool_def bit_eqI)
  qed
  from this[OF slot_word_lt(2)] i show ?thesis
    by (simp add: IsAllocated_def taken_def bits_at_def slot_word_bit)
qed

lemma Mark_taken: "pool_ok p \<Longrightarrow> taken (Mark a idx p) = taken p \<and> pool_ok (Mark a idx p) \<and> slots (Mark a idx p) = slots p"
  by (auto simp: Mark_def Let_def taken_def pool_ok_def split: option.splits)

lemma Unmark_taken: "pool_ok p \<Longrightarrow> taken (Unmark idx p) = taken p \<and> pool_ok (Unmark idx p) \<and> slots (Unmark idx p) = slots p"
  by (auto simp: Unmark_def taken_def pool_ok_def split: option.splits)

lemma bit_tail: "i < 64 \<Longrightarrow> b < 64 \<Longrightarrow> bit (NOT (push_bit b 1 - 1) :: u64) i \<longleftrightarrow> b \<le> i"
proof -
  assume "i < 64" "b < 64"
  have "push_bit b 1 - 1 = (mask b :: u64)" by (simp add: mask_eq_exp_minus_1)
  then show ?thesis using \<open>i < 64\<close> \<open>b < 64\<close> by (auto simp: bit_not_iff bit_mask_iff)
qed

lemma unat_round_up:
  "unat (drop_bit 6 (ucast (n :: u32) + 63 :: u64)) = (unat n + 63) div 64"
  "unat ((ucast (n :: u32) + 63 :: u64) AND NOT 63) = 64 * ((unat n + 63) div 64)"
proof -
  let ?w = "drop_bit 6 (ucast n + 63 :: u64)"
  have s: "unat (ucast n + 63 :: u64) = unat n + 63"
    using unat_u32_lt[of n] by (simp add: unat_add_u64)
  then show w: "unat ?w = (unat n + 63) div 64"
    unfolding unat_drop_bit_eq by (simp add: drop_bit_eq_div)
  have m: "(63 :: u64) = mask 6" by (simp add: mask_eq_exp_minus_1)
  have "x AND NOT 63 = push_bit 6 (drop_bit 6 x)" for x :: u64
    unfolding m by (rule bit_word_eqI) (auto simp: bit_simps)
  then have "unat ((ucast n + 63 :: u64) AND NOT 63) = unat (push_bit 6 ?w)" by metis
  also have "\<dots> = 64 * unat ?w mod 2 ^ 64" by (simp only: push_bit_eq_mult unat_word_ariths) (simp add: mult.commute)
  also have "\<dots> = 64 * ((unat n + 63) div 64)"
    unfolding w using unat_u32_lt[of n] by simp
  finally show "unat ((ucast n + 63 :: u64) AND NOT 63) = 64 * ((unat n + 63) div 64)" .
qed

lemma words_exact: "s mod 64 = 0 \<Longrightarrow> (s + 63) div 64 = s div 64 \<and> 64 * (s div 64) = (s :: nat)"
  by (auto elim!: dvdE simp: mod_eq_0_iff_dvd)

lemma words_tail:
  assumes "s mod 64 \<noteq> (0 :: nat)"
  shows "(s + 63) div 64 = Suc (s div 64)"
proof -
  define q r where "q = s div 64" and "r = s mod 64"
  have "s = 64 * q + r" "0 < r" "r < 64" using assms by (simp_all add: q_def r_def)
  then have "(s + 63) div 64 = q + (r + 63) div 64" by simp
  also have "(r + 63) div 64 = 1" using \<open>0 < r\<close> \<open>r < 64\<close> by (intro div_nat_eqI) simp_all
  finally show ?thesis by (simp add: q_def)
qed

lemma words_cover: "s \<le> 64 * ((s + 63) div 64 :: nat)"
proof (cases "s mod 64 = 0")
  case False
  have "64 * (s div 64) + s mod 64 = s" "s mod 64 < 64" by simp_all
  then show ?thesis unfolding words_tail[OF False] mult_Suc_right by linarith
qed (simp add: words_exact)

definition rounded_slots :: "u32 \<Rightarrow> nat" where
  "rounded_slots n = min 0xFFFFFFC0 (64 * ((unat n + 63) div 64))"

lemma unat_rounded:
  "unat (ucast (let r0 = (ucast n + 63 :: u64) AND NOT 63 in if r0 > MAX_64_ALIGNED then MAX_64_ALIGNED else r0) :: u32) = rounded_slots n"
  using unat_round_up(2)[of n] unat_u32_lt[of n]
  by (simp add: Let_def rounded_slots_def unat_ucast_64_32 MAX_64_ALIGNED_def word_less_unat)

lemma new_pool_shape:
  assumes "BitmapPool_new a n exactSize = Inr p"
  shows "unat (words p) = (unat (slots p) + 63) div 64"
    and "unat (slots p) = (if exactSize then unat n else rounded_slots n)"
    and "bitmap p = (if slots p > 0 \<and> slots p AND 63 \<noteq> 0
           then (replicate (unat (words p)) 0)[unat (words p - 1) := NOT (push_bit (unat (slots p AND 63)) 1 - 1)]
           else replicate (unat (words p)) 0)"
    and "marks p = None \<and> lastUsedIndex p = 0"
proof -
  define s where "s = (if exactSize then n else
    ucast (let r0 = (ucast n + 63 :: u64) AND NOT 63 in if r0 > MAX_64_ALIGNED then MAX_64_ALIGNED else r0))"
  define w where "w = (if exactSize then ucast (drop_bit 6 (ucast n + 63 :: u64)) else drop_bit 6 s)"
  have p: "slots p = s" "words p = w" "marks p = None" "lastUsedIndex p = 0"
    "bitmap p = (if s > 0 \<and> s AND 63 \<noteq> 0 then (replicate (unat w) 0)[unat (w - 1) := NOT (push_bit (unat (s AND 63)) 1 - 1)]
       else replicate (unat w) 0)"
    using assms by (auto simp: BitmapPool_new_def Let_def s_def w_def split: if_splits)
  show slots: "unat (slots p) = (if exactSize then unat n else rounded_slots n)"
    unfolding p(1) s_def using unat_rounded by simp
  have "rounded_slots n mod 64 = 0" by (simp add: rounded_slots_def min_def)
  then have "(rounded_slots n + 63) div 64 = rounded_slots n div 64" by (simp add: words_exact)
  moreover have "unat (drop_bit 6 s) = unat s div 64" unfolding unat_drop_bit_eq by (simp add: drop_bit_eq_div)
  ultimately show "unat (words p) = (unat (slots p) + 63) div 64"
    unfolding p(2) w_def using slots p(1) unat_round_up(1)[of n] unat_u32_lt[of n]
    by (simp add: unat_ucast_64_32 unat_drop_bit_eq drop_bit_eq_div)
  show "bitmap p = (if slots p > 0 \<and> slots p AND 63 \<noteq> 0
           then (replicate (unat (words p)) 0)[unat (words p - 1) := NOT (push_bit (unat (slots p AND 63)) 1 - 1)]
           else replicate (unat (words p)) 0)" "marks p = None \<and> lastUsedIndex p = 0"
    using p by simp_all
qed

lemma new_pool_ok:
  assumes "BitmapPool_new a n exactSize = Inr p"
  shows "pool_ok p \<and> taken p = {}"
proof -
  note sh = new_pool_shape[OF assms]
  let ?s = "unat (slots p)" and ?w = "unat (words p)"
  have s32: "?s < 4294967296" by (rule unat_u32_lt)
  have t: "unat (slots p AND 63) = ?s mod 64" using slot_word_bit(2)[of "slots p"] by (simp add: slot_bit_def)
  have bits: "bits_at (bitmap p) i \<longleftrightarrow> ?s \<le> i" if i: "i < 64 * ?w" for i
  proof (cases "?s mod 64 = 0")
    case True
    then have "bitmap p = replicate ?w 0" using sh(3) t by (metis unat_eq_zero)
    moreover have "i < ?s" using i sh(1) words_exact[OF True] by simp
    ultimately show ?thesis using i by (simp add: bits_at_def)
  next
    case False
    then have "slots p \<noteq> 0" "slots p AND 63 \<noteq> 0" using t by auto
    then have bm: "bitmap p = (replicate ?w 0)[unat (words p - 1) := NOT (push_bit (?s mod 64) 1 - 1)]"
      using sh(3) t by (simp add: word_gt_0)
    have "words p \<noteq> 0" using i by auto
    then have w1: "unat (words p - 1) = ?w - 1" by (simp add: unat_minus_one)
    show ?thesis
    proof (cases "i div 64 = ?w - 1")
      case True
      then have "bits_at (bitmap p) i \<longleftrightarrow> ?s mod 64 \<le> i mod 64"
        unfolding bits_at_def bm w1 using i bit_tail[of "i mod 64" "?s mod 64"] by simp
      moreover have "?s div 64 = ?w - 1" using words_tail[OF False] sh(1) by simp
      ultimately show ?thesis
        using True by (metis div_mult_mod_eq add_le_cancel_left)
    next
      case other: False
      then have "i div 64 < ?s div 64" using i words_tail[OF False] sh(1) by (simp add: less_mult_imp_div_less mult.commute less_Suc_eq)
      then have "i < ?s" by (metis div_le_mono not_less)
      then show ?thesis unfolding bits_at_def bm w1 using other i by (simp add: nth_list_update)
    qed
  qed
  have "?w \<le> 2 ^ 26" using s32 sh(1) by simp
  moreover have "?s \<le> 64 * ?w" unfolding sh(1) by (rule words_cover)
  moreover have "length (bitmap p) = ?w" by (simp add: sh(3))
  ultimately show ?thesis using bits sh(4) by (auto simp: pool_ok_def taken_def)
qed

section \<open>The pool as an allocator of handles\<close>

text \<open>
  What the owners of a pool rely on (connections, rate limiter entries, endpoint slots): a handle is
  held by one owner at a time. A run applies operations and records the handles its owners hold;
  \<open>PFree k\<close> gives back the \<open>k\<close>-th of them.
\<close>

datatype pool_op = PAlloc | PAllocMarked | PFree nat | PMark nat | PUnmark nat

fun pool_step ::
  "('s \<Rightarrow> nat option \<times> 's) \<Rightarrow> ('s \<Rightarrow> nat option \<times> 's) \<Rightarrow> (nat \<Rightarrow> 's \<Rightarrow> 's) \<Rightarrow> (nat \<Rightarrow> 's \<Rightarrow> 's) \<Rightarrow>
     (nat \<Rightarrow> 's \<Rightarrow> 's) \<Rightarrow> pool_op \<Rightarrow> 's \<times> nat list \<Rightarrow> 's \<times> nat list" where
  "pool_step al alm fr mk um PAlloc (s, hs) = (case al s of (Some i, s') \<Rightarrow> (s', i # hs) | (None, s') \<Rightarrow> (s', hs))"
| "pool_step al alm fr mk um PAllocMarked (s, hs) = (case alm s of (Some i, s') \<Rightarrow> (s', i # hs) | (None, s') \<Rightarrow> (s', hs))"
| "pool_step al alm fr mk um (PFree k) (s, hs) =
     (if k < length hs then (fr (hs ! k) s, take k hs @ drop (Suc k) hs) else (s, hs))"
| "pool_step al alm fr mk um (PMark i) (s, hs) = (mk i s, hs)"
| "pool_step al alm fr mk um (PUnmark i) (s, hs) = (um i s, hs)"

locale slot_pool =
  fixes al alm :: "'s \<Rightarrow> nat option \<times> 's" and fr mk um :: "nat \<Rightarrow> 's \<Rightarrow> 's"
    and held :: "'s \<Rightarrow> nat set" and cap :: "'s \<Rightarrow> nat" and invar :: "'s \<Rightarrow> bool"
  assumes al_Some: "invar s \<Longrightarrow> al s = (Some i, s') \<Longrightarrow>
        invar s' \<and> cap s' = cap s \<and> i < cap s \<and> i \<notin> held s \<and> held s' = insert i (held s)"
    and al_None: "invar s \<Longrightarrow> al s = (None, s') \<Longrightarrow> s' = s \<and> held s = {i. i < cap s}"
    and alm_Some: "invar s \<Longrightarrow> alm s = (Some i, s') \<Longrightarrow>
        invar s' \<and> cap s' = cap s \<and> i < cap s \<and> i \<notin> held s \<and> held s' = insert i (held s)"
    and alm_None: "invar s \<Longrightarrow> alm s = (None, s') \<Longrightarrow> s' = s"
    and fr_held: "invar s \<Longrightarrow> i \<in> held s \<Longrightarrow> invar (fr i s) \<and> cap (fr i s) = cap s \<and> held (fr i s) = held s - {i}"
    and held_cap: "held s \<subseteq> {i. i < cap s}"
    and mk_held: "invar s \<Longrightarrow> invar (mk i s) \<and> cap (mk i s) = cap s \<and> held (mk i s) = held s"
    and um_held: "invar s \<Longrightarrow> invar (um i s) \<and> cap (um i s) = cap s \<and> held (um i s) = held s"
begin

definition owned :: "nat \<Rightarrow> 's \<times> nat list \<Rightarrow> bool" where
  "owned n st \<longleftrightarrow> invar (fst st) \<and> cap (fst st) = n \<and> distinct (snd st) \<and> set (snd st) = held (fst st)"

lemma owned_alloc:
  assumes "owned n (s, hs)" "f s = (r, s')"
    and "\<And>i. r = Some i \<Longrightarrow> invar s' \<and> cap s' = cap s \<and> i < cap s \<and> i \<notin> held s \<and> held s' = insert i (held s)"
    and "r = None \<Longrightarrow> s' = s"
  shows "owned n (case f s of (Some i, s') \<Rightarrow> (s', i # hs) | (None, s') \<Rightarrow> (s', hs))"
  using assms by (cases r) (simp_all add: owned_def)

lemma owned_step:
  assumes o: "owned n st"
  shows "owned n (pool_step al alm fr mk um a st)"
proof -
  obtain s hs where st: "st = (s, hs)" by fastforce
  have inv: "invar s" using o by (simp add: owned_def st)
  show ?thesis
  proof (cases a)
    case PAlloc
    obtain r s' where r: "al s = (r, s')" by fastforce
    show ?thesis unfolding PAlloc st pool_step.simps
      using r al_Some[OF inv] al_None[OF inv] by (intro owned_alloc[where f = al, OF o[unfolded st] r]) auto
  next
    case PAllocMarked
    obtain r s' where r: "alm s = (r, s')" by fastforce
    show ?thesis unfolding PAllocMarked st pool_step.simps
      using r alm_Some[OF inv] alm_None[OF inv] by (intro owned_alloc[where f = alm, OF o[unfolded st] r]) auto
  next
    case (PFree k)
    show ?thesis
    proof (cases "k < length hs")
      case True
      have hs: "hs = take k hs @ hs ! k # drop (Suc k) hs" using id_take_nth_drop[OF True] .
      from arg_cong[OF hs, of set] have "set hs = insert (hs ! k) (set (take k hs @ drop (Suc k) hs))"
        by (simp only: set_append list.set Un_insert_right)
      moreover have "distinct hs" using o st by (simp add: owned_def)
      then have "distinct (take k hs @ hs ! k # drop (Suc k) hs)" by (subst (asm) hs)
      moreover have "hs ! k \<in> held s" using o st True nth_mem[OF True] by (simp add: owned_def)
      ultimately show ?thesis
        using o fr_held[OF inv, of "hs ! k"] True PFree st by (auto simp: owned_def)
    qed (use o PFree st in simp)
  next
    case (PMark i)
    then show ?thesis using o mk_held[OF inv] st by (simp add: owned_def)
  next
    case (PUnmark i)
    then show ?thesis using o um_held[OF inv] st by (simp add: owned_def)
  qed
qed

lemma owned_run: "owned n st \<Longrightarrow> owned n (foldl (\<lambda>st a. pool_step al alm fr mk um a st) st ops)"
  by (induction ops arbitrary: st) (simp_all add: owned_step)

lemma handles_exclusive:
  assumes "invar s" "held s = {}"
    and "foldl (\<lambda>st a. pool_step al alm fr mk um a st) (s, []) ops = (s', hs)"
  shows "distinct hs \<and> set hs \<subseteq> {i. i < cap s} \<and> length hs \<le> cap s \<and> (fst (al s') = None \<longleftrightarrow> length hs = cap s)"
proof -
  have o: "owned (cap s) (s', hs)"
    using owned_run[of "cap s" "(s, [])" ops] assms by (simp add: owned_def)
  then have c: "cap s' = cap s" "invar s'" "distinct hs" "set hs = held s'" by (auto simp: owned_def)
  have sub: "set hs \<subseteq> {i. i < cap s}" using held_cap[of s'] c by simp
  then have len: "length hs \<le> cap s"
    using card_mono[OF _ sub] distinct_card[OF c(3)] by simp
  have "fst (al s') = None \<longleftrightarrow> set hs = {i. i < cap s}"
  proof (cases "al s'")
    case (Pair r t)
    then show ?thesis
      using al_None[OF c(2)] al_Some[OF c(2)] c by (cases r) auto
  qed
  also have "\<dots> \<longleftrightarrow> length hs = cap s"
  proof
    assume "length hs = cap s"
    then have "card (set hs) = card {i. i < cap s}" using distinct_card[OF c(3)] by simp
    then show "set hs = {i. i < cap s}" by (intro card_subset_eq[OF _ sub]) simp
  next
    assume "set hs = {i. i < cap s}"
    then show "length hs = cap s" using distinct_card[OF c(3)] by simp
  qed
  finally show ?thesis using c sub len by blast
qed

end

text \<open>The bitmap pool keeps the contract; marking asks for storage, which may or may not be there.\<close>

definition bp_free :: "nat \<Rightarrow> pool \<Rightarrow> pool" where
  "bp_free i p = FreeSlot (of_nat i) p"

lemma slot_of_nat: "i < unat (slots p) \<Longrightarrow> unat (of_nat i :: u32) = i"
  using unat_u32_lt[of "slots p"] by (simp add: unat_of_nat take_bit_eq_mod)

lemma slot_pool_bitmap:
  "slot_pool AllocSlot AllocMarked bp_free (\<lambda>i. Mark a (of_nat i)) (\<lambda>i. Unmark (of_nat i)) taken (\<lambda>p. unat (slots p)) pool_ok"
proof (unfold_locales, goal_cases)
  case (1 s i s')
  then show ?case using alloc_took(1)[OF 1] unfolding took_def by simp
next
  case (2 s s')
  then show ?case using alloc_took(2)[OF 2] by blast
next
  case (3 s i s')
  then show ?case using AllocMarked_took[OF 3] unfolding took_def by simp
next
  case (4 s s')
  then show ?case using AllocMarked_took[OF 4] by simp
next
  case (5 s i)
  then have "i < unat (slots s)" by (simp add: taken_def)
  with 5 show ?case using FreeSlot_taken[of s "of_nat i"] slot_of_nat[of i s] by (simp add: bp_free_def)
next
  case (6 s)
  then show ?case by (auto simp: taken_def)
next
  case (7 s i)
  then show ?case using Mark_taken by simp
next
  case (8 s i)
  then show ?case using Unmark_taken by simp
qed

interpretation bp: slot_pool AllocSlot AllocMarked bp_free "\<lambda>i. Mark a (of_nat i)" "\<lambda>i. Unmark (of_nat i)"
  taken "\<lambda>p. unat (slots p)" pool_ok for a
  by (rule slot_pool_bitmap)

text \<open>C19. A slot has one owner. Starting from a fresh pool, after any sequence of allocations (plain
  or marked), releases of held slots, marks and unmarks, the slots held are pairwise distinct and
  inside the pool, and a plain allocation fails only when every slot of the pool is held.\<close>

theorem pool_slots_have_one_owner:
  assumes "BitmapPool_new True numSlots exactSize = Inr p"
    and "foldl (\<lambda>st a. pool_step AllocSlot AllocMarked bp_free (\<lambda>i. Mark marksAllocated (of_nat i)) (\<lambda>i. Unmark (of_nat i)) a st)
           (p, []) ops = (p', hs)"
  shows "distinct hs \<and> set hs \<subseteq> {i. i < unat (slots p)}
     \<and> (fst (AllocSlot p') = None \<longleftrightarrow> length hs = unat (slots p))
     \<and> (exactSize \<longrightarrow> slots p = numSlots)"
proof -
  have "pool_ok p" "taken p = {}" using new_pool_ok[OF assms(1)] by auto
  from bp.handles_exclusive[OF this assms(2)] new_pool_shape(2)[OF assms(1)] show ?thesis by (auto simp: word_unat_eq_iff)
qed

theorem pool_slots_have_one_owner_witness:
  "\<exists>p. BitmapPool_new True 3 True = Inr p \<and> distinct (snd
     (foldl (\<lambda>st a. pool_step AllocSlot AllocMarked bp_free (\<lambda>i. Mark True (of_nat i)) (\<lambda>i. Unmark (of_nat i)) a st)
           (p, []) [PAlloc, PAlloc, PFree 0, PMark 1, PAllocMarked]))"
proof -
  obtain p where p: "BitmapPool_new True 3 True = Inr p" by (simp add: BitmapPool_new_def Let_def)
  show ?thesis
    using pool_slots_have_one_owner[OF p, of True "[PAlloc, PAlloc, PFree 0, PMark 1, PAllocMarked]"] p
    by (metis prod.collapse)
qed

end
