(* ===== verification/Swar.thy ===== *)
theory Swar
  imports WFX_Prelude
begin

text \<open>
  The byte-parallel matching of \<open>src/utils/hash_map/hash_shard.hpp\<close>: eight control bytes are read
  as one little-endian 64-bit word, and a match is a word with bit 7 of each matching lane set.
  The facts below say what each mask means lane by lane, that \<open>countr_zero(mask) >> 3\<close> is the first
  matching lane and that \<open>mask &= mask - 1\<close> drops exactly that lane.
\<close>

definition load64 :: "u8 list \<Rightarrow> u64" where
  "load64 bs = foldr (\<lambda>b w. push_bit 8 w OR ucast b) bs 0"

definition hi_bits :: u64 where "hi_bits = 0x8080808080808080"

definition MatchByte :: "u64 \<Rightarrow> u8 \<Rightarrow> u64" where
  "MatchByte grp tag =
     (let bcast = ucast tag * 0x0101010101010101; cmp = grp XOR bcast
      in (cmp - 0x0101010101010101) AND NOT cmp AND hi_bits)"

definition MatchEmpty :: "u64 \<Rightarrow> u64" where
  "MatchEmpty grp = grp AND push_bit 1 grp AND hi_bits"

definition MatchEmptyOrDeleted :: "u64 \<Rightarrow> u64" where
  "MatchEmptyOrDeleted grp = grp AND hi_bits"

definition lanes :: "u64 \<Rightarrow> nat set" where
  "lanes w = {i. i < 8 \<and> bit w (8 * i + 7)}"

definition lane_word :: "u64 \<Rightarrow> bool" where
  "lane_word w \<longleftrightarrow> (\<forall>n. bit w n \<longrightarrow> n mod 8 = 7)"

lemma load64_Cons: "load64 (b # bs) = push_bit 8 (load64 bs) OR ucast b"
  by (simp add: load64_def)

lemma bit_load64:
  "n < 64 \<Longrightarrow> length bs \<le> 8 \<Longrightarrow> bit (load64 bs) n \<longleftrightarrow> n div 8 < length bs \<and> bit (bs ! (n div 8)) (n mod 8)"
proof (induction bs arbitrary: n)
  case Nil
  then show ?case by (simp add: load64_def)
next
  case (Cons b bs)
  show ?case
  proof (cases "n < 8")
    case True
    then show ?thesis by (simp add: load64_Cons bit_simps)
  next
    case False
    then obtain m where m: "n = m + 8" by (metis add.commute le_Suc_ex not_less)
    have "\<not> bit b n" using False bit_imp_le_length[of b n] by auto
    moreover have "(m + 8) div 8 = Suc (m div 8)" "(m + 8) mod 8 = m mod 8" by simp_all
    ultimately show ?thesis using Cons.IH[of m] Cons.prems by (simp add: load64_Cons bit_simps m)
  qed
qed

lemma replicate_8: "replicate 8 x = [x, x, x, x, x, x, x, x]"
  by (simp add: numeral_eq_Suc)

lemma bit_lane_mask: "bit hi_bits n \<longleftrightarrow> n < 64 \<and> n mod 8 = 7"
proof -
  have "hi_bits = load64 (replicate 8 0x80)" by (simp add: load64_def replicate_8 hi_bits_def)
  moreover have "bit (load64 (replicate 8 0x80)) n \<longleftrightarrow> n mod 8 = 7" if "n < 64"
  proof -
    have "n div 8 < 8" using that by simp
    then have "bit (load64 (replicate 8 0x80)) n \<longleftrightarrow> bit (0x80 :: u8) (n mod 8)"
      using bit_load64[OF that, of "replicate 8 0x80"] by simp
    moreover have "bit (0x80 :: u8) k \<longleftrightarrow> k = 7" if "k < 8" for k
    proof -
      have "(0x80 :: u8) = 2 ^ 7" by simp
      then show ?thesis using that by (simp only: bit_exp_iff) auto
    qed
    ultimately show ?thesis by simp
  qed
  moreover have "\<not> bit hi_bits n" if "\<not> n < 64"
    using bit_imp_le_length[of hi_bits n] that by auto
  ultimately show ?thesis by auto
qed

section \<open>Masks and lanes\<close>

lemma lane_word_masked: "lane_word (w AND hi_bits)"
  by (simp add: lane_word_def bit_and_iff bit_lane_mask)

lemma lane_words: "lane_word (MatchByte w t)" "lane_word (MatchEmpty w)" "lane_word (MatchEmptyOrDeleted w)"
  unfolding MatchByte_def MatchEmpty_def MatchEmptyOrDeleted_def Let_def
  by (simp_all add: lane_word_def bit_and_iff bit_lane_mask)

lemma lane_word_zero: "lane_word w \<Longrightarrow> w = 0 \<longleftrightarrow> lanes w = {}"
proof
  assume lw: "lane_word w" and e: "lanes w = {}"
  show "w = 0"
  proof (rule bit_word_eqI)
    fix n assume n: "n < LENGTH(64)"
    have "\<not> bit w n"
    proof
      assume b: "bit w n"
      then have m: "n mod 8 = 7" using lw by (simp add: lane_word_def)
      have "8 * (n div 8) + 7 = n" using mult_div_mod_eq[of 8 n] m by simp
      moreover have "n div 8 < 8" using n by simp
      ultimately have "n div 8 \<in> lanes w" using b by (simp add: lanes_def)
      with e show False by simp
    qed
    then show "bit w n = bit 0 n" by simp
  qed
qed (simp add: lanes_def)

lemma lane_bit:
  assumes "length bs = 8" "i < 8" "k < 8"
  shows "bit (load64 bs) (8 * i + k) \<longleftrightarrow> bit (bs ! i) k"
proof -
  have "8 * i + k < 64" "(8 * i + k) div 8 = i" "(8 * i + k) mod 8 = k" using assms by simp_all
  then show ?thesis using bit_load64[of "8 * i + k" bs] assms by simp
qed

lemma lanes_EmptyOrDeleted: "length bs = 8 \<Longrightarrow> lanes (MatchEmptyOrDeleted (load64 bs)) = {i. i < 8 \<and> bit (bs ! i) 7}"
  by (auto simp: lanes_def MatchEmptyOrDeleted_def bit_and_iff bit_lane_mask lane_bit)

lemma lanes_Empty: "length bs = 8 \<Longrightarrow> lanes (MatchEmpty (load64 bs)) = {i. i < 8 \<and> bit (bs ! i) 7 \<and> bit (bs ! i) 6}"
proof -
  assume l: "length bs = 8"
  have "bit (push_bit 1 (load64 bs)) (8 * i + 7) \<longleftrightarrow> bit (bs ! i) 6" if "i < 8" for i
    using lane_bit[OF l that, of 6] that unfolding bit_push_bit_iff by (simp add: add.commute)
  then show ?thesis using l unfolding lanes_def MatchEmpty_def bit_and_iff bit_lane_mask by (auto simp: lane_bit)
qed

text \<open>The first matching lane and the step to the next one.\<close>

lemma first_lane:
  assumes "lane_word w" "w \<noteq> 0"
  shows "countr_zero w div 8 \<in> lanes w" "\<forall>i \<in> lanes w. countr_zero w div 8 \<le> i"
    and "countr_zero w = 8 * (countr_zero w div 8) + 7"
proof -
  note c = countr_zero_spec[OF assms(2)]
  have "countr_zero w mod 8 = 7" using assms(1) c(2) by (simp add: lane_word_def)
  then show e: "countr_zero w = 8 * (countr_zero w div 8) + 7" using mult_div_mod_eq[of 8 "countr_zero w"] by simp
  show "countr_zero w div 8 \<in> lanes w" using c e by (simp add: lanes_def)
  show "\<forall>i \<in> lanes w. countr_zero w div 8 \<le> i"
  proof
    fix i assume "i \<in> lanes w"
    then have "\<not> 8 * i + 7 < countr_zero w" using countr_zero_below by (auto simp: lanes_def)
    then show "countr_zero w div 8 \<le> i" using e by linarith
  qed
qed

lemma bit_split_nat:
  assumes "r < 2 ^ k"
  shows "bit (2 ^ k * m + r :: nat) n \<longleftrightarrow> (if n < k then bit r n else bit m (n - k))"
proof (cases "n < k")
  case True
  then obtain d where k: "k = n + Suc d" by (metis add_Suc_right less_iff_Suc_add)
  have e: "2 ^ k * m + r = r + 2 ^ n * (2 * (2 ^ d * m))" by (simp add: k power_add)
  have "(2 ^ k * m + r) div 2 ^ n = r div 2 ^ n + 2 * (2 ^ d * m)"
    unfolding e using div_mult_self2[of "2 ^ n" r "2 * (2 ^ d * m)"] by (simp add: add.commute)
  then show ?thesis using True by (simp add: bit_iff_odd)
next
  case False
  then obtain d where n: "n = k + d" by (metis le_Suc_ex not_less)
  have "(2 ^ k * m + r) div 2 ^ n = (2 ^ k * m + r) div 2 ^ k div 2 ^ d" by (simp add: n power_add div_mult2_eq)
  also have "(2 ^ k * m + r) div 2 ^ k = m" using assms by simp
  finally show ?thesis using False by (simp add: bit_iff_odd n)
qed

lemma bit_unat: "bit (unat (w :: u64)) n \<longleftrightarrow> bit w n"
  using bit_imp_possible_bit[of w n] by (auto simp: bit_unsigned_iff)

lemma bit_minus_one:
  fixes w :: u64
  assumes "w \<noteq> 0"
  shows "bit (w AND (w - 1)) n \<longleftrightarrow> bit w n \<and> n \<noteq> countr_zero w"
proof -
  define t where "t = countr_zero w"
  define m where "m = unat w div 2 ^ Suc t"
  note c = countr_zero_spec[OF assms, folded t_def]
  have "take_bit (Suc t) (unat w) = 2 ^ t"
  proof (rule bit_eqI)
    fix k
    show "bit (take_bit (Suc t) (unat w)) k \<longleftrightarrow> bit (2 ^ t :: nat) k"
      using c countr_zero_below[of k w] unfolding bit_take_bit_iff bit_unat bit_exp_iff t_def[symmetric]
      by (auto simp: less_Suc_eq)
  qed
  then have "unat w mod 2 ^ Suc t = 2 ^ t" by (simp add: take_bit_eq_mod)
  then have w: "unat w = 2 ^ Suc t * m + 2 ^ t"
    unfolding m_def by (metis mult_div_mod_eq)
  have "unat (w - 1) = unat w - 1" using assms by (simp add: unat_minus_one)
  also have "\<dots> = 2 ^ Suc t * m + mask t" using w by (simp add: mask_eq_exp_minus_1)
  finally have w1: "unat (w - 1) = 2 ^ Suc t * m + mask t" .
  have lt: "2 ^ t < (2 ^ Suc t :: nat)" "mask t < (2 ^ Suc t :: nat)" by (simp_all add: mask_eq_exp_minus_1 less_imp_diff_less)
  have "bit w n \<longleftrightarrow> (if n < Suc t then n = t else bit m (n - Suc t))"
    unfolding bit_unat[symmetric, of w] w bit_split_nat[OF lt(1)] by (auto simp: bit_exp_iff)
  moreover have "bit (w - 1) n \<longleftrightarrow> (if n < Suc t then n < t else bit m (n - Suc t))"
    unfolding bit_unat[symmetric, of "w - 1"] w1 bit_split_nat[OF lt(2)] by (simp add: bit_mask_iff)
  ultimately show ?thesis unfolding t_def[symmetric] by (auto simp: bit_and_iff)
qed

lemma next_lane:
  assumes "lane_word w" "w \<noteq> 0"
  shows "lane_word (w AND (w - 1))" "lanes (w AND (w - 1)) = lanes w - {countr_zero w div 8}"
proof -
  show "lane_word (w AND (w - 1))" using assms(1) by (simp add: lane_word_def bit_and_iff)
  have "8 * i + 7 = countr_zero w \<longleftrightarrow> i = countr_zero w div 8" for i
    using first_lane(3)[OF assms] by auto
  then show "lanes (w AND (w - 1)) = lanes w - {countr_zero w div 8}"
    using bit_minus_one[OF assms(2)] by (auto simp: lanes_def)
qed

lemma next_lane_less: "w \<noteq> 0 \<Longrightarrow> unat (w AND (w - 1)) < unat (w :: u64)"
proof -
  assume "w \<noteq> 0"
  have "unat (w AND (w - 1)) \<le> unat (w - 1)" using word_and_le1[of w "w - 1"] by (simp add: word_le_nat_alt)
  also have "\<dots> < unat w" using \<open>w \<noteq> 0\<close> by (simp add: unat_minus_one unat_gt_0)
  finally show ?thesis .
qed

section \<open>Matching a tag\<close>

definition ones :: u64 where "ones = 0x0101010101010101"

lemma push_or_add: "push_bit 8 w OR ucast (b :: u8) = (256 * w + ucast b :: u64)"
proof -
  have "\<not> (bit (push_bit 8 w) n \<and> bit (ucast b :: u64) n)" for n
  proof
    assume "bit (push_bit 8 w) n \<and> bit (ucast b :: u64) n"
    then have "8 \<le> n" "bit b n" by (auto simp: bit_simps)
    then show False using bit_imp_le_length[of b n] by auto
  qed
  then have "push_bit 8 w + ucast b = push_bit 8 w OR ucast b" by (intro disjunctive_add) blast
  then show ?thesis by (simp add: push_bit_eq_mult mult.commute)
qed

lemma broadcast: "ucast (t :: u8) * 0x0101010101010101 = load64 (replicate 8 t)"
  unfolding replicate_8 load64_def foldr.simps o_def id_def push_or_add by (simp add: algebra_simps)

lemma load64_xor:
  assumes "length bs = 8" "length cs = 8"
  shows "load64 bs XOR load64 cs = load64 (map2 (XOR) bs cs)"
proof (rule bit_word_eqI)
  fix n assume "n < LENGTH(64)"
  then have n: "n < 64" by simp
  then have "n div 8 < 8" by simp
  then show "bit (load64 bs XOR load64 cs) n = bit (load64 (map2 (XOR) bs cs)) n"
    using assms by (simp add: bit_xor_iff bit_load64[OF n])
qed

lemma borrow:
  fixes U V N :: int
  assumes "0 < N" "U mod (256 * N) < N" "N \<le> V mod (256 * N)" "V mod (256 * N) < 2 * N"
  shows "128 * N \<le> (U - V) mod (256 * N)"
proof -
  let ?M = "256 * N" and ?x = "U mod (256 * N) - V mod (256 * N)"
  have l: "0 \<le> U mod ?M" using assms(1) by simp
  have "(U - V) mod ?M = (?x + ?M) mod ?M" by (simp add: mod_diff_eq)
  also have "\<dots> = ?x + ?M" using assms l by (intro mod_pos_pos_trivial) linarith+
  finally show ?thesis using assms l by linarith
qed

lemma top_bit:
  assumes "2 ^ n \<le> (x :: int) mod 2 ^ Suc n"
  shows "bit x n"
proof -
  have "x mod 2 ^ Suc n div 2 ^ n = 1"
    using assms pos_mod_bound[of "2 ^ Suc n" x] by (intro int_div_pos_eq[where r = "x mod 2 ^ Suc n - 2 ^ n"]) auto
  then have "bit (take_bit (Suc n) x) n" by (simp add: bit_iff_odd take_bit_eq_mod)
  then show ?thesis by (simp add: bit_take_bit_iff)
qed

lemma ones_lane: "i < 8 \<Longrightarrow> 2 ^ (8 * i) \<le> (uint ones) mod (256 * 2 ^ (8 * i)) \<and> uint ones mod (256 * 2 ^ (8 * i)) < 2 * 2 ^ (8 * i)"
  unfolding less_8_cases by (elim disjE) (simp_all add: ones_def)

lemma zero_lane_borrows:
  assumes "length cs = 8" "i < 8" "cs ! i = 0"
  shows "bit (load64 cs - ones) (8 * i + 7)"
proof -
  let ?N = "2 ^ (8 * i) :: int"
  have "take_bit (8 * i + 8) (load64 cs) = take_bit (8 * i) (load64 cs)"
  proof (rule bit_word_eqI)
    fix n assume "n < LENGTH(64)"
    then have n: "n < 64" by simp
    have "\<not> bit (load64 cs) n" if "8 * i \<le> n" "n < 8 * i + 8"
    proof -
      have "n div 8 = i" using that by (intro div_nat_eqI) simp_all
      then show ?thesis using bit_load64[OF n, of cs] assms by simp
    qed
    then show "bit (take_bit (8 * i + 8) (load64 cs)) n = bit (take_bit (8 * i) (load64 cs)) n"
      by (cases "n < 8 * i") (auto simp: bit_take_bit_iff not_less)
  qed
  then have "uint (load64 cs) mod 2 ^ (8 * i + 8) = uint (load64 cs) mod 2 ^ (8 * i)"
    by (metis take_bit_eq_mod unsigned_take_bit_eq)
  then have "uint (load64 cs) mod (256 * ?N) < ?N" by (simp add: power_add mult.commute)
  from borrow[OF _ this] ones_lane[OF assms(2)]
  have "128 * ?N \<le> (uint (load64 cs) - uint ones) mod (256 * ?N)" by auto
  then have "2 ^ (8 * i + 7) \<le> (uint (load64 cs) - uint ones) mod 2 ^ Suc (8 * i + 7)"
    by (simp add: power_add mult.commute)
  then have "bit (uint (load64 cs) - uint ones) (8 * i + 7)" by (rule top_bit)
  then have "bit (take_bit 64 (uint (load64 cs) - uint ones)) (8 * i + 7)"
    using assms(2) by (simp add: bit_take_bit_iff)
  then have "bit (uint (load64 cs - ones)) (8 * i + 7)"
    by (simp add: uint_word_arith_bintrs)
  then show ?thesis by (simp add: bit_uint_iff)
qed

lemma MatchByte_cmp:
  assumes "length bs = 8"
  shows "MatchByte (load64 bs) t = (load64 (map (\<lambda>b. b XOR t) bs) - ones) AND NOT (load64 (map (\<lambda>b. b XOR t) bs)) AND hi_bits"
proof -
  have "map2 (XOR) bs (replicate 8 t) = map (\<lambda>b. b XOR t) bs"
    using assms by (intro nth_equalityI) simp_all
  then show ?thesis
    using load64_xor[OF assms, of "replicate 8 t"] unfolding MatchByte_def broadcast Let_def ones_def by simp
qed

lemma lanes_MatchByte:
  assumes "length bs = 8" "\<not> bit t 7"
  shows "lanes (MatchByte (load64 bs) t) \<subseteq> {i. i < 8 \<and> \<not> bit (bs ! i) 7}"
    and "i < 8 \<Longrightarrow> bs ! i = t \<Longrightarrow> i \<in> lanes (MatchByte (load64 bs) t)"
proof -
  let ?cs = "map (\<lambda>b. b XOR t) bs"
  have l: "length ?cs = 8" using assms(1) by simp
  have c: "bit (load64 ?cs) (8 * i + 7) \<longleftrightarrow> bit (bs ! i) 7" if "i < 8" for i
    using lane_bit[OF l that, of 7] assms that by (simp add: bit_xor_iff)
  show "lanes (MatchByte (load64 bs) t) \<subseteq> {i. i < 8 \<and> \<not> bit (bs ! i) 7}"
    unfolding lanes_def MatchByte_cmp[OF assms(1)] bit_and_iff bit_not_iff using c by auto
  show "i \<in> lanes (MatchByte (load64 bs) t)" if "i < 8" "bs ! i = t"
    unfolding lanes_def MatchByte_cmp[OF assms(1)] bit_and_iff bit_not_iff bit_lane_mask
    using c[OF that(1)] zero_lane_borrows[OF l that(1)] that assms by simp
qed

end
