(* ===== verification/HashShard.thy ===== *)
theory HashShard
  imports Swar
begin

text \<open>
  Model of \<open>src/utils/hash_map/hash_shard.hpp\<close> and \<open>hash_shard.ipp\<close>: the open-addressing hash table
  behind the timers and the limiters. Control bytes and entries are lists, a slot of raw storage is
  \<^const>\<open>None\<close>, \<open>std::size_t\<close> values are natural numbers with the wrap of the capacity doubling written
  out, and a pointer to a value is the index of its slot. Three things are arguments: \<open>hs\<close>, the
  library's \<open>std::hash\<close> of the key type; \<open>esz\<close>, the size of an entry; and \<open>A\<close>, which says for which
  sizes the allocator serves a request. \<open>Logger::Fatal\<close> is the left injection of the result.
\<close>

section \<open>Constants, tags, hashing\<close>

definition GROUP_WIDTH :: nat where "GROUP_WIDTH = 8"
definition TAG_EMPTY :: u8 where "TAG_EMPTY = 0xFF"
definition TAG_DELETED :: u8 where "TAG_DELETED = 0x80"
definition NO_INSERT_POS :: nat where "NO_INSERT_POS = 2 ^ 64 - 1"

definition WFXHash :: "('k \<Rightarrow> u64) \<Rightarrow> 'k \<Rightarrow> u64" where
  "WFXHash hs key = (let h = hs key * 0x9E3779B97F4A7C15 in h XOR drop_bit 32 h)"

definition hash_h2 :: "('k \<Rightarrow> u64) \<Rightarrow> 'k \<Rightarrow> u8" where
  "hash_h2 hs key = ucast (drop_bit 57 (WFXHash hs key))"

definition IsFull :: "u8 \<Rightarrow> bool" where
  "IsFull m \<longleftrightarrow> m AND 0x80 = 0"

section \<open>Floating point conversions\<close>

text \<open>
  The load factor test compares \<open>float(n) / capacity\<close> with \<open>0.875f\<close>. The conversion rounds to 24
  significant bits, half to even; the capacity is a power of two, so that its conversion and the
  division are exact and the test is a comparison of integers. \<open>Init\<close> divides in double precision.
\<close>

fun bitlen :: "nat \<Rightarrow> nat" where
  "bitlen n = (if n = 0 then 0 else Suc (bitlen (n div 2)))"

declare bitlen.simps [simp del]

definition round_half_even :: "nat \<Rightarrow> nat \<Rightarrow> nat" where
  "round_half_even num den =
     (let q = num div den; r = num mod den in if 2 * r > den \<or> (2 * r = den \<and> odd q) then q + 1 else q)"

definition round_sig :: "nat \<Rightarrow> nat \<Rightarrow> nat" where
  "round_sig p n = (let t = bitlen n in if t \<le> p then n else round_half_even n (2 ^ (t - p)) * 2 ^ (t - p))"

definition past_load_factor :: "nat \<Rightarrow> nat \<Rightarrow> bool" where
  "past_load_factor n capacity \<longleftrightarrow> 8 * round_sig 24 n > 7 * round_sig 24 capacity"

definition double_div_trunc :: "nat \<Rightarrow> nat \<Rightarrow> nat \<Rightarrow> nat" where
  "double_div_trunc a num den =
     (let n = round_sig 53 a * num; t = bitlen (n div den)
      in if t \<le> 53 then round_half_even (n * 2 ^ (53 - t)) den div 2 ^ (53 - t)
         else round_half_even n (den * 2 ^ (t - 53)) * 2 ^ (t - 53))"

definition bit_ceil :: "nat \<Rightarrow> nat" where
  "bit_ceil n = (if n \<le> 1 then 1 else 2 ^ bitlen (n - 1))"

section \<open>State\<close>

type_synonym ('k, 'v) slots = "('k \<times> 'v) option list"

record ('k, 'v) shard =
  ready :: bool
  entries :: "('k, 'v) slots"
  meta :: "u8 list"
  capacity :: nat
  initialBucketCapacity :: nat
  shard_size :: nat
  deletedCount :: nat

definition new_shard :: "('k, 'v) shard" where
  "new_shard = \<lparr>ready = False, entries = [], meta = [], capacity = 0, initialBucketCapacity = 0, shard_size = 0, deletedCount = 0\<rparr>"

definition SafeByteSize :: "nat \<Rightarrow> nat \<Rightarrow> fatal + nat" where
  "SafeByteSize cnt elemSize =
     (if cnt > (2 ^ 64 - 1) div elemSize then Inl (Fatal ''[HashShard]: Requested capacity overflows allocation size'')
      else Inr (cnt * elemSize))"

definition SetMetaByte :: "u8 list \<Rightarrow> nat \<Rightarrow> nat \<Rightarrow> u8 \<Rightarrow> u8 list" where
  "SetMetaByte m cap pos tag =
     (let m1 = m[pos := tag] in if pos < GROUP_WIDTH then m1[cap + pos := tag] else m1)"

definition Init :: "(nat \<Rightarrow> bool) \<Rightarrow> nat \<Rightarrow> nat \<Rightarrow> bool \<Rightarrow> ('k, 'v) shard \<Rightarrow> fatal + ('k, 'v) shard" where
  "Init A esz cap0 forLiveCount s =
     (if ready s then Inl (Fatal ''[HashShard]: Init() called twice'')
      else
        let cap1 = (if forLiveCount then double_div_trunc cap0 (2 ^ 24) 11744051 + 1 else cap0);
            cap = bit_ceil (if cap1 < GROUP_WIDTH then GROUP_WIDTH else cap1)
        in case SafeByteSize cap esz of
             Inl e \<Rightarrow> Inl e
           | Inr eb \<Rightarrow>
               if \<not> A eb then Inl (Fatal ''[HashShard]: Failed to get memory for entries'')
               else (case SafeByteSize (cap + GROUP_WIDTH) 1 of
                       Inl e \<Rightarrow> Inl e
                     | Inr mb \<Rightarrow>
                         if \<not> A mb then Inl (Fatal ''[HashShard]: Failed to get memory for metadata'')
                         else Inr (s\<lparr>ready := True, entries := replicate cap None,
                                     meta := replicate (cap + GROUP_WIDTH) TAG_EMPTY,
                                     capacity := cap, initialBucketCapacity := cap\<rparr>)))"

section \<open>Probing\<close>

definition group_word :: "u8 list \<Rightarrow> nat \<Rightarrow> u64" where
  "group_word m base = load64 (take GROUP_WIDTH (drop base m))"

definition KeysEqual :: "('k \<times> 'v) option \<Rightarrow> 'k \<Rightarrow> bool" where
  "KeysEqual e key = (case e of Some (k, v) \<Rightarrow> k = key | None \<Rightarrow> False)"

function match_loop :: "'k \<Rightarrow> ('k, 'v) slots \<Rightarrow> nat \<Rightarrow> u64 \<Rightarrow> nat option" where
  "match_loop key ents base matches =
     (if matches = 0 then None
      else
        let pos = base + countr_zero matches div 8 in
        if KeysEqual (ents ! pos) key then Some pos
        else match_loop key ents base (matches AND (matches - 1)))"
  by pat_completeness auto
termination
  by (relation "measure (\<lambda>(key, ents, base, matches). unat matches)") (auto simp: next_lane_less)

declare match_loop.simps [simp del]

definition first_avail :: "u64 \<Rightarrow> nat \<Rightarrow> nat option" where
  "first_avail word base =
     (let avail = MatchEmptyOrDeleted word in if avail \<noteq> 0 then Some (base + countr_zero avail div 8) else None)"

fun find_slot_loop ::
  "('k, 'v) slots \<Rightarrow> u8 list \<Rightarrow> nat \<Rightarrow> 'k \<Rightarrow> u8 \<Rightarrow> nat \<Rightarrow> nat \<Rightarrow> nat \<Rightarrow> nat option \<Rightarrow> fatal + (nat \<times> bool)" where
  "find_slot_loop ents m groupMask key h2 0 groupIdx stride insertPos =
     Inl (Fatal ''[HashShard]: FindSlot exhausted every group, table is completely full'')"
| "find_slot_loop ents m groupMask key h2 (Suc n) groupIdx stride insertPos =
     (let base = groupIdx * GROUP_WIDTH; word = group_word m base in
      case match_loop key ents base (MatchByte word h2) of
        Some pos \<Rightarrow> Inr (pos, True)
      | None \<Rightarrow>
          let insertPos' = (if insertPos = None then first_avail word base else insertPos) in
          if MatchEmpty word \<noteq> 0 then
            Inr (case insertPos' of Some p \<Rightarrow> p | None \<Rightarrow> NO_INSERT_POS, False)
          else find_slot_loop ents m groupMask key h2 n
                 ((groupIdx + Suc stride) AND groupMask) (Suc stride) insertPos')"

definition FindSlot ::
  "('k \<Rightarrow> u64) \<Rightarrow> ('k, 'v) slots \<Rightarrow> u8 list \<Rightarrow> nat \<Rightarrow> 'k \<Rightarrow> fatal + (nat \<times> bool)" where
  "FindSlot hs ents m cap key =
     (let groupMask = cap div GROUP_WIDTH - 1
      in find_slot_loop ents m groupMask key (hash_h2 hs key) (Suc groupMask)
           (unat (WFXHash hs key) AND groupMask) 0 None)"

fun find_available_loop :: "u8 list \<Rightarrow> nat \<Rightarrow> nat \<Rightarrow> nat \<Rightarrow> nat \<Rightarrow> fatal + nat" where
  "find_available_loop m groupMask 0 groupIdx stride =
     Inl (Fatal ''[HashShard]: FindAvailableSlot exhausted every group during in-place compaction'')"
| "find_available_loop m groupMask (Suc n) groupIdx stride =
     (case first_avail (group_word m (groupIdx * GROUP_WIDTH)) (groupIdx * GROUP_WIDTH) of
        Some pos \<Rightarrow> Inr pos
      | None \<Rightarrow> find_available_loop m groupMask n ((groupIdx + Suc stride) AND groupMask) (Suc stride))"

definition FindAvailableSlot :: "('k \<Rightarrow> u64) \<Rightarrow> u8 list \<Rightarrow> nat \<Rightarrow> 'k \<Rightarrow> fatal + nat" where
  "FindAvailableSlot hs m cap key =
     (let groupMask = cap div GROUP_WIDTH - 1
      in find_available_loop m groupMask (Suc groupMask) (unat (WFXHash hs key) AND groupMask) 0)"

section \<open>Growing and compacting\<close>

fun rehash_loop ::
  "('k \<Rightarrow> u64) \<Rightarrow> ('k, 'v) slots \<Rightarrow> u8 list \<Rightarrow> nat list \<Rightarrow> nat \<Rightarrow> ('k, 'v) slots \<Rightarrow> u8 list \<Rightarrow>
     fatal + (('k, 'v) slots \<times> u8 list)" where
  "rehash_loop hs ents m [] newCap ne nm = Inr (ne, nm)"
| "rehash_loop hs ents m (i # is) newCap ne nm =
     (if \<not> IsFull (m ! i) then rehash_loop hs ents m is newCap ne nm
      else (case ents ! i of
              None \<Rightarrow> rehash_loop hs ents m is newCap ne nm
            | Some (k, v) \<Rightarrow>
                (case FindSlot hs ne nm newCap k of
                   Inl e \<Rightarrow> Inl e
                 | Inr (pos, found) \<Rightarrow>
                     rehash_loop hs ents m is newCap (ne[pos := Some (k, v)])
                       (SetMetaByte nm newCap pos (hash_h2 hs k)))))"

definition Resize ::
  "(nat \<Rightarrow> bool) \<Rightarrow> ('k \<Rightarrow> u64) \<Rightarrow> nat \<Rightarrow> nat \<Rightarrow> ('k, 'v) shard \<Rightarrow> fatal + (bool \<times> ('k, 'v) shard)" where
  "Resize A hs esz newCapacity s =
     (if \<not> ready s then Inr (False, s)
      else if newCapacity = 0 \<and> capacity s > 2 ^ 63 then Inr (False, s)
      else
        let c0 = (if newCapacity = 0 then capacity s * 2 mod 2 ^ 64 else newCapacity) in
        if c0 < initialBucketCapacity s then Inr (True, s)
        else
          let c1 = (if c0 < capacity s then capacity s else c0);
              c = bit_ceil (if c1 < GROUP_WIDTH then GROUP_WIDTH else c1)
          in case SafeByteSize c esz of
               Inl e \<Rightarrow> Inl e
             | Inr eb \<Rightarrow>
                 if \<not> A eb then Inr (False, s)
                 else (case SafeByteSize (c + GROUP_WIDTH) 1 of
                         Inl e \<Rightarrow> Inl e
                       | Inr mb \<Rightarrow>
                           if \<not> A mb then Inr (False, s)
                           else (case rehash_loop hs (entries s) (meta s) [0..<capacity s] c
                                        (replicate c None) (replicate (c + GROUP_WIDTH) TAG_EMPTY) of
                                   Inl e \<Rightarrow> Inl e
                                 | Inr (ne, nm) \<Rightarrow>
                                     Inr (True, s\<lparr>entries := ne, meta := nm, capacity := c, deletedCount := 0\<rparr>))))"

definition compact_mark :: "nat \<Rightarrow> u8 list \<Rightarrow> nat \<Rightarrow> u8 list" where
  "compact_mark cap m i =
     (if IsFull (m ! i) then SetMetaByte m cap i TAG_DELETED
      else if m ! i = TAG_DELETED then SetMetaByte m cap i TAG_EMPTY
      else m)"

text \<open>The slot that \<open>FindAvailableSlot\<close> returns is not full, so that every round of the cycle below
  settles one more slot.\<close>

lemma first_avail_short:
  assumes "first_avail (group_word m base) base = Some pos"
  shows "pos < length m \<and> bit (m ! pos) 7"
proof -
  let ?bs = "take GROUP_WIDTH (drop base m)"
  let ?w = "MatchEmptyOrDeleted (load64 ?bs)"
  have l: "length ?bs \<le> 8" by (simp add: GROUP_WIDTH_def)
  have w: "?w \<noteq> 0" "pos = base + countr_zero ?w div 8"
    using assms by (auto simp: first_avail_def group_word_def Let_def split: if_splits)
  define i where "i = countr_zero ?w div 8"
  have "i \<in> lanes ?w" using first_lane(1)[OF lane_words(3) w(1)] by (simp add: i_def)
  then have i: "i < 8" "bit (load64 ?bs) (8 * i + 7)" by (simp_all add: lanes_def MatchEmptyOrDeleted_def bit_and_iff)
  then have "8 * i + 7 < 64" "(8 * i + 7) div 8 = i" "(8 * i + 7) mod 8 = 7" by simp_all
  then have "i < length ?bs" "bit (?bs ! i) 7" using bit_load64[OF _ l, of "8 * i + 7"] i(2) by auto
  then show ?thesis using w(2) unfolding i_def[symmetric] by auto
qed

lemma FindAvailableSlot_avail:
  assumes "FindAvailableSlot hs m cap key = Inr pos"
  shows "pos < length m \<and> bit (m ! pos) 7"
proof -
  have "find_available_loop m gm n g st = Inr pos \<Longrightarrow> pos < length m \<and> bit (m ! pos) 7" for gm n g st
    using first_avail_short[of m] by (induction m gm n g st rule: find_available_loop.induct) (auto split: option.splits)
  then show ?thesis using assms unfolding FindAvailableSlot_def Let_def by blast
qed

lemma hash_h2_full: "\<not> bit (hash_h2 hs key) 7"
  using bit_imp_le_length[of "WFXHash hs key" 64] by (auto simp: hash_h2_def bit_simps)

definition unsettled :: "u8 list \<Rightarrow> nat" where
  "unsettled m = length (filter (\<lambda>b. bit b 7) m)"

lemma unsettled_update:
  "\<not> bit t 7 \<Longrightarrow> unsettled (m[i := t]) + (if i < length m \<and> bit (m ! i) 7 then 1 else 0) = unsettled m"
  unfolding unsettled_def
proof (induction m arbitrary: i)
  case (Cons b m)
  then show ?case by (cases i) auto
qed simp

lemma unsettled_SetMetaByte:
  assumes "\<not> bit t 7" "pos < length m" "bit (m ! pos) 7"
  shows "unsettled (SetMetaByte m cap pos t) < unsettled m"
proof -
  have "unsettled (m[pos := t]) < unsettled m" using unsettled_update[OF assms(1), of m pos] assms by simp
  moreover have "unsettled ((m[pos := t])[cap + pos := t]) \<le> unsettled (m[pos := t])"
    using unsettled_update[OF assms(1), of "m[pos := t]" "cap + pos"] by (simp split: if_splits)
  ultimately show ?thesis by (simp add: SetMetaByte_def Let_def)
qed

text \<open>Following a cycle: the entry in \<open>i\<close> goes to its slot, what was there comes back to \<open>i\<close>.\<close>

function compact_cycle ::
  "('k \<Rightarrow> u64) \<Rightarrow> nat \<Rightarrow> nat \<Rightarrow> ('k, 'v) slots \<Rightarrow> u8 list \<Rightarrow> fatal + (('k, 'v) slots \<times> u8 list)" where
  "compact_cycle hs cap i ents m =
     (if m ! i \<noteq> TAG_DELETED then Inr (ents, m)
      else (case ents ! i of
              None \<Rightarrow> Inl (Fatal ''read of raw storage'')
            | Some (k, v) \<Rightarrow>
                (case FindAvailableSlot hs m cap k of
                   Inl e \<Rightarrow> Inl e
                 | Inr pos \<Rightarrow>
                     if pos = i then Inr (ents, SetMetaByte m cap i (hash_h2 hs k))
                     else if m ! pos = TAG_EMPTY then
                       Inr (ents[pos := Some (k, v), i := None],
                            SetMetaByte (SetMetaByte m cap pos (hash_h2 hs k)) cap i TAG_EMPTY)
                     else compact_cycle hs cap i (ents[i := ents ! pos, pos := ents ! i])
                            (SetMetaByte m cap pos (hash_h2 hs k)))))"
  by pat_completeness auto
termination
  by (relation "measure (\<lambda>(hs, cap, i, ents, m). unsettled m)")
    (auto dest!: FindAvailableSlot_avail intro!: unsettled_SetMetaByte simp: hash_h2_full)

declare compact_cycle.simps [simp del]

fun compact_loop ::
  "('k \<Rightarrow> u64) \<Rightarrow> nat \<Rightarrow> nat list \<Rightarrow> ('k, 'v) slots \<Rightarrow> u8 list \<Rightarrow> fatal + (('k, 'v) slots \<times> u8 list)" where
  "compact_loop hs cap [] ents m = Inr (ents, m)"
| "compact_loop hs cap (i # is) ents m =
     (case compact_cycle hs cap i ents m of
        Inl e \<Rightarrow> Inl e
      | Inr (ents', m') \<Rightarrow> compact_loop hs cap is ents' m')"

definition CompactInPlace :: "('k \<Rightarrow> u64) \<Rightarrow> ('k, 'v) shard \<Rightarrow> fatal + ('k, 'v) shard" where
  "CompactInPlace hs s =
     (let cap = capacity s; m1 = foldl (compact_mark cap) (meta s) [0..<cap]
      in case compact_loop hs cap [0..<cap] (entries s) m1 of
           Inl e \<Rightarrow> Inl e
         | Inr (ents, m) \<Rightarrow> Inr (s\<lparr>entries := ents, meta := m, deletedCount := 0\<rparr>))"

section \<open>The operations\<close>

text \<open>The room an insertion makes beforehand; a failed growth is only a warning.\<close>

definition make_room ::
  "(nat \<Rightarrow> bool) \<Rightarrow> ('k \<Rightarrow> u64) \<Rightarrow> nat \<Rightarrow> ('k, 'v) shard \<Rightarrow> fatal + ('k, 'v) shard" where
  "make_room A hs esz s =
     (if past_load_factor (shard_size s + deletedCount s + 1) (capacity s) then
        if past_load_factor (shard_size s + 1) (capacity s) then map_sum id snd (Resize A hs esz 0 s)
        else CompactInPlace hs s
      else Inr s)"

definition InsertOrGet ::
  "(nat \<Rightarrow> bool) \<Rightarrow> ('k \<Rightarrow> u64) \<Rightarrow> nat \<Rightarrow> 'k \<Rightarrow> 'v \<Rightarrow> bool \<Rightarrow> ('k, 'v) shard \<Rightarrow>
     fatal + (nat option \<times> ('k, 'v) shard)" where
  "InsertOrGet A hs esz key val overwriteExisting s =
     (if \<not> ready s then Inr (None, s)
      else (case make_room A hs esz s of
              Inl e \<Rightarrow> Inl e
            | Inr s1 \<Rightarrow>
                (case FindSlot hs (entries s1) (meta s1) (capacity s1) key of
                   Inl e \<Rightarrow> Inl e
                 | Inr (pos, True) \<Rightarrow>
                     Inr (Some pos, if overwriteExisting then s1\<lparr>entries := (entries s1)[pos := Some (key, val)]\<rparr> else s1)
                 | Inr (pos, False) \<Rightarrow>
                     Inr (Some pos,
                       s1\<lparr>entries := (entries s1)[pos := Some (key, val)],
                          meta := SetMetaByte (meta s1) (capacity s1) pos (hash_h2 hs key),
                          shard_size := shard_size s1 + 1,
                          deletedCount := (if meta s1 ! pos = TAG_DELETED then deletedCount s1 - 1 else deletedCount s1)\<rparr>))))"

definition Emplace where
  "Emplace A hs esz key val s = map_sum id (map_prod (\<lambda>r. r \<noteq> None) id) (InsertOrGet A hs esz key val True s)"

definition Insert where
  "Insert A hs esz key val s = map_sum id (map_prod (\<lambda>r. r \<noteq> None) id) (InsertOrGet A hs esz key val True s)"

definition GetOrInsert where
  "GetOrInsert A hs esz key defaultValue s = InsertOrGet A hs esz key defaultValue False s"

definition Get :: "('k \<Rightarrow> u64) \<Rightarrow> 'k \<Rightarrow> ('k, 'v) shard \<Rightarrow> fatal + nat option" where
  "Get hs key s =
     (if \<not> ready s then Inr None
      else map_sum id (\<lambda>(pos, found). if found then Some pos else None)
             (FindSlot hs (entries s) (meta s) (capacity s) key))"

definition Erase :: "('k \<Rightarrow> u64) \<Rightarrow> 'k \<Rightarrow> ('k, 'v) shard \<Rightarrow> fatal + (bool \<times> ('k, 'v) shard)" where
  "Erase hs key s =
     (if \<not> ready s then Inr (False, s)
      else (case FindSlot hs (entries s) (meta s) (capacity s) key of
              Inl e \<Rightarrow> Inl e
            | Inr (pos, False) \<Rightarrow> Inr (False, s)
            | Inr (pos, True) \<Rightarrow>
                let indexBefore = (pos + capacity s - GROUP_WIDTH) AND (capacity s - 1);
                    beforeRun = countl_zero (MatchEmpty (group_word (meta s) indexBefore)) div 8;
                    afterRun = countr_zero (MatchEmpty (group_word (meta s) pos)) div 8;
                    tomb = (beforeRun + afterRun \<ge> GROUP_WIDTH)
                in Inr (True, s\<lparr>entries := (entries s)[pos := None],
                        meta := SetMetaByte (meta s) (capacity s) pos (if tomb then TAG_DELETED else TAG_EMPTY),
                        deletedCount := (if tomb then deletedCount s + 1 else deletedCount s),
                        shard_size := shard_size s - 1\<rparr>)))"

text \<open>Reading and writing through the pointer that \<open>Get\<close> and \<open>GetOrInsert\<close> return.\<close>

definition value_at :: "('k, 'v) shard \<Rightarrow> nat \<Rightarrow> 'v option" where
  "value_at s pos = map_option snd (entries s ! pos)"

definition store_at :: "('k, 'v) shard \<Rightarrow> nat \<Rightarrow> 'v \<Rightarrow> ('k, 'v) shard" where
  "store_at s pos v = s\<lparr>entries := (entries s)[pos := map_option (\<lambda>kv. (fst kv, v)) (entries s ! pos)]\<rparr>"

end
