(* ===== verification/HashShardProofs.thy ===== *)
theory HashShardProofs
  imports HashShard
begin

text \<open>
  Correctness of the hash table: the probe sequence visits every group, a lookup finds a key exactly
  when it is stored, insertion, erasure, growth and in-place compaction keep the table well-formed
  and implement a partial map. The map interface at the end is what the clients of the table use.
\<close>

section \<open>The probe sequence\<close>

definition probe :: "nat \<Rightarrow> nat \<Rightarrow> nat \<Rightarrow> nat" where
  "probe G h j = (h + j * (j + 1) div 2) mod G"

lemma and_mask: "x AND (2 ^ k - 1) = (x :: nat) mod 2 ^ k"
  by (metis mask_eq_exp_minus_1 take_bit_eq_mask take_bit_eq_mod)

lemma probe_0: "G = 2 ^ k \<Longrightarrow> h AND (G - 1) = probe G h 0"
  by (simp only: probe_def and_mask) simp

lemma probe_Suc: "G = 2 ^ k \<Longrightarrow> (probe G h j + Suc j) AND (G - 1) = probe G h (Suc j)"
proof -
  assume G: "G = 2 ^ k"
  have "Suc j * (Suc j + 1) = j * (j + 1) + Suc j * 2" by simp
  then have "Suc j * (Suc j + 1) div 2 = j * (j + 1) div 2 + Suc j" by simp
  then show ?thesis unfolding G and_mask probe_def by (metis add.assoc mod_add_left_eq)
qed

lemma probe_lt: "0 < G \<Longrightarrow> probe G h j < G"
  by (simp add: probe_def)

lemma triangle: "2 * int (j * (j + 1) div 2) = int (j * (j + 1))"
proof -
  have "int (2 * (j * (j + 1) div 2)) = int (j * (j + 1))" by simp
  then show ?thesis unfolding of_nat_mult[of 2] of_nat_numeral .
qed

text \<open>Two equal triangular numbers modulo a power of two: \<open>(j - i) (i + j + 1)\<close> would be divisible by
  twice the modulus, one factor is odd, and both are too small.\<close>

lemma probe_inj:
  assumes "i < j" "j < 2 ^ k"
  shows "probe (2 ^ k) h i \<noteq> probe (2 ^ k) h j"
proof
  let ?T = "\<lambda>j :: nat. j * (j + 1) div 2"
  assume "probe (2 ^ k) h i = probe (2 ^ k) h j"
  then have "(?T j + h) mod 2 ^ k = (?T i + h) mod 2 ^ k" by (simp add: probe_def add.commute)
  then have "(int (?T j) - int (?T i)) mod 2 ^ k = 0"
    by (metis (no_types, opaque_lifting) add_diff_cancel_right mod_diff_cong of_nat_add of_nat_mod of_nat_numeral of_nat_power
        cancel_comm_monoid_add_class.diff_cancel mod_0)
  then have "(2 :: int) ^ k dvd int (?T j) - int (?T i)" by (simp add: mod_eq_0_iff_dvd)
  then have "2 * (2 :: int) ^ k dvd 2 * (int (?T j) - int (?T i))" by (rule mult_dvd_mono[OF dvd_refl])
  moreover have "2 * (int (?T j) - int (?T i)) = int (j * (j + 1)) - int (i * (i + 1))"
    unfolding right_diff_distrib triangle ..
  moreover have "\<dots> = int (j - i) * int (i + j + 1)" using assms(1) by (simp add: algebra_simps of_nat_diff)
  ultimately have d: "2 ^ Suc k dvd int (j - i) * int (i + j + 1)" by simp
  have "odd (int (j - i)) \<or> odd (int (i + j + 1))" using assms(1) by simp presburger
  then have "2 ^ Suc k dvd int (i + j + 1) \<or> 2 ^ Suc k dvd int (j - i)"
    using d by (metis coprime_dvd_mult_right_iff coprime_dvd_mult_left_iff coprime_power_left_iff coprime_left_2_iff_odd)
  then have "2 ^ Suc k dvd i + j + 1 \<or> 2 ^ Suc k dvd j - i"
    by (metis of_nat_dvd_iff of_nat_numeral of_nat_power)
  then have "2 ^ Suc k \<le> i + j + 1 \<or> 2 ^ Suc k \<le> j - i"
    using assms(1) by (auto dest: dvd_imp_le)
  then show False using assms by simp
qed

lemma probe_surj:
  assumes "g < 2 ^ k"
  shows "\<exists>j < 2 ^ k. probe (2 ^ k) h j = g"
proof -
  have inj: "inj_on (probe (2 ^ k) h) {..<2 ^ k}"
    by (rule inj_onI) (metis lessThan_iff nat_neq_iff probe_inj)
  have "probe (2 ^ k) h ` {..<2 ^ k} \<subseteq> {..<2 ^ k}" by (auto simp: probe_lt)
  then have "probe (2 ^ k) h ` {..<2 ^ k} = {..<2 ^ k}"
    using card_image[OF inj] by (intro card_subset_eq) simp_all
  then show ?thesis using assms by (metis imageE lessThan_iff)
qed

section \<open>Groups of control bytes\<close>

definition shape :: "u8 list \<Rightarrow> nat \<Rightarrow> bool" where
  "shape m cap \<longleftrightarrow> (\<exists>k. cap = 2 ^ (k + 3)) \<and> length m = cap + 8 \<and> (\<forall>i < 8. m ! (cap + i) = m ! i)"

definition tags_ok :: "u8 list \<Rightarrow> nat \<Rightarrow> bool" where
  "tags_ok m cap \<longleftrightarrow> (\<forall>i < cap. m ! i = TAG_EMPTY \<or> m ! i = TAG_DELETED \<or> \<not> bit (m ! i) 7)"

definition no_empty :: "u8 list \<Rightarrow> nat \<Rightarrow> bool" where
  "no_empty m g \<longleftrightarrow> (\<forall>i < 8. m ! (g * 8 + i) \<noteq> TAG_EMPTY)"

lemma tag_bits: "bit TAG_EMPTY 7" "bit TAG_EMPTY 6" "bit TAG_DELETED 7" "\<not> bit TAG_DELETED 6"
  "TAG_EMPTY \<noteq> TAG_DELETED" "TAG_DELETED \<noteq> TAG_EMPTY"
  by (simp_all add: TAG_EMPTY_def TAG_DELETED_def)

lemma IsFull_bit: "IsFull b \<longleftrightarrow> \<not> bit b 7"
proof -
  have e: "(0x80 :: u8) = 2 ^ 7" by simp
  have "bit (b AND 2 ^ 7) n \<longleftrightarrow> n = 7 \<and> bit b 7" for n
    unfolding bit_and_iff bit_exp_iff by auto
  then show ?thesis unfolding IsFull_def e by (metis bit_0_eq bot_apply bot_bool_def bit_eqI)
qed

lemma shape_groups: "shape m cap \<Longrightarrow> \<exists>k. cap div 8 = 2 ^ k \<and> cap = 8 * (cap div 8) \<and> 8 \<le> cap"
  by (auto simp: shape_def power_add)

lemma group_bytes:
  assumes "shape m cap" "base < cap"
  shows "group_word m base = load64 (take 8 (drop base m))" "length (take 8 (drop base m)) = 8"
    "\<And>i. i < 8 \<Longrightarrow> take 8 (drop base m) ! i = m ! (base + i)"
  using assms by (auto simp: group_word_def GROUP_WIDTH_def shape_def)

lemma group_base: "shape m cap \<Longrightarrow> g < cap div 8 \<Longrightarrow> g * 8 < cap \<and> (\<forall>i < 8. g * 8 + i < cap)"
  using shape_groups[of m cap] by auto

lemma first_avail_None:
  assumes "shape m cap" "g < cap div 8"
  shows "first_avail (group_word m (g * 8)) (g * 8) = None \<longleftrightarrow> (\<forall>i < 8. \<not> bit (m ! (g * 8 + i)) 7)"
proof -
  have b: "g * 8 < cap" using group_base[OF assms] by blast
  note gb = group_bytes[OF assms(1) b]
  show ?thesis
    unfolding first_avail_def Let_def gb(1)
    using lane_word_zero[OF lane_words(3), of "load64 (take 8 (drop (g * 8) m))"] lanes_EmptyOrDeleted[OF gb(2)] gb(3)
    by auto
qed

lemma first_avail_Some:
  assumes "shape m cap" "g < cap div 8" "first_avail (group_word m (g * 8)) (g * 8) = Some pos"
  shows "pos div 8 = g" "pos < cap" "bit (m ! pos) 7"
proof -
  have b: "g * 8 < cap" using group_base[OF assms(1,2)] by blast
  note gb = group_bytes[OF assms(1) b]
  let ?w = "MatchEmptyOrDeleted (load64 (take 8 (drop (g * 8) m)))"
  have w: "?w \<noteq> 0" "pos = g * 8 + countr_zero ?w div 8"
    using assms(3) unfolding first_avail_def Let_def gb(1) by (auto split: if_splits)
  have "countr_zero ?w div 8 < 8" "bit (m ! pos) 7"
    using first_lane(1)[OF lane_words(3) w(1)] lanes_EmptyOrDeleted[OF gb(2)] gb(3) w(2) by auto
  then show "pos div 8 = g" "pos < cap" "bit (m ! pos) 7"
    using w(2) group_base[OF assms(1,2)] by auto
qed

lemma MatchEmpty_group:
  assumes "shape m cap" "tags_ok m cap" "g < cap div 8"
  shows "MatchEmpty (group_word m (g * 8)) \<noteq> 0 \<longleftrightarrow> \<not> no_empty m g"
proof -
  have b: "g * 8 < cap" "\<forall>i < 8. g * 8 + i < cap" using group_base[OF assms(1,3)] by blast+
  note gb = group_bytes[OF assms(1) b(1)]
  have "bit (m ! (g * 8 + i)) 7 \<and> bit (m ! (g * 8 + i)) 6 \<longleftrightarrow> m ! (g * 8 + i) = TAG_EMPTY" if "i < 8" for i
    using assms(2) b(2) that tag_bits unfolding tags_ok_def by metis
  then have "lanes (MatchEmpty (load64 (take 8 (drop (g * 8) m)))) = {i. i < 8 \<and> m ! (g * 8 + i) = TAG_EMPTY}"
    unfolding lanes_Empty[OF gb(2)] using gb(3) by (intro Collect_cong) (metis (no_types, lifting))
  then show ?thesis
    unfolding gb(1) no_empty_def
    using lane_word_zero[OF lane_words(2), of "load64 (take 8 (drop (g * 8) m))"] by auto
qed

lemma match_loop_Some:
  assumes "lane_word w" "match_loop key ents base w = Some pos"
  shows "\<exists>i \<in> lanes w. pos = base + i \<and> KeysEqual (ents ! pos) key"
  using assms
proof (induction key ents base w rule: match_loop.induct)
  case (1 key ents base w)
  show ?case
  proof (cases "w = 0 \<or> KeysEqual (ents ! (base + countr_zero w div 8)) key")
    case True
    then show ?thesis
      using "1.prems" first_lane(1)[OF "1.prems"(1)] match_loop.simps[of key ents base w]
      by (auto simp: Let_def split: if_splits)
  next
    case False
    then have "match_loop key ents base (w AND (w - 1)) = Some pos"
      using "1.prems"(2) match_loop.simps[of key ents base w] by (simp add: Let_def)
    then show ?thesis
      using "1.IH"[OF _ refl] False next_lane[OF "1.prems"(1)] by auto
  qed
qed

lemma match_loop_None:
  assumes "lane_word w" "match_loop key ents base w = None" "i \<in> lanes w"
  shows "\<not> KeysEqual (ents ! (base + i)) key"
  using assms
proof (induction key ents base w rule: match_loop.induct)
  case (1 key ents base w)
  have w: "w \<noteq> 0" using "1.prems"(3) by (auto simp: lanes_def)
  have n: "\<not> KeysEqual (ents ! (base + countr_zero w div 8)) key" "match_loop key ents base (w AND (w - 1)) = None"
    using "1.prems"(2) match_loop.simps[of key ents base w] w by (auto simp: Let_def split: if_splits)
  show ?case
    using "1.IH"[OF w refl n(1)] n next_lane[OF "1.prems"(1) w] "1.prems"(3)
    by (cases "i = countr_zero w div 8") auto
qed

section \<open>Well-formed tables\<close>

text \<open>A key is reachable in group \<open>g\<close>: some probe lands there, and no earlier group has an empty slot.\<close>

definition reach :: "u8 list \<Rightarrow> nat \<Rightarrow> nat \<Rightarrow> nat \<Rightarrow> bool" where
  "reach m cap h g \<longleftrightarrow> (\<exists>j < cap div 8. probe (cap div 8) h j = g \<and> (\<forall>j' < j. no_empty m (probe (cap div 8) h j')))"

definition somes :: "('k, 'v) slots \<Rightarrow> ('k \<times> 'v) list" where
  "somes ents = List.map_filter id ents"

definition wf_tbl :: "('k \<Rightarrow> u64) \<Rightarrow> ('k, 'v) slots \<Rightarrow> u8 list \<Rightarrow> nat \<Rightarrow> bool" where
  "wf_tbl hs ents m cap \<longleftrightarrow> shape m cap \<and> tags_ok m cap \<and> length ents = cap \<and> distinct (map fst (somes ents))
     \<and> (\<forall>i < cap. ents ! i = None \<longrightarrow> bit (m ! i) 7)
     \<and> (\<forall>i < cap. \<forall>k v. ents ! i = Some (k, v) \<longrightarrow>
          m ! i = hash_h2 hs k \<and> reach m cap (unat (WFXHash hs k)) (i div 8))"

definition has_empty :: "u8 list \<Rightarrow> nat \<Rightarrow> bool" where
  "has_empty m cap \<longleftrightarrow> (\<exists>i < cap. m ! i = TAG_EMPTY)"

lemma set_somes: "set (somes ents) = {kv. Some kv \<in> set ents}"
  by (auto simp: somes_def map_filter_def) force

lemma somes_Cons: "somes (e # ents) = (case e of None \<Rightarrow> somes ents | Some kv \<Rightarrow> kv # somes ents)"
  by (cases e) (simp_all add: somes_def map_filter_def)

lemma KeysEqual_iff: "KeysEqual e key \<longleftrightarrow> (\<exists>v. e = Some (key, v))"
  by (auto simp: KeysEqual_def split: option.splits)

lemma reach_no_empty_mono:
  assumes "reach m cap h g" "\<And>g. g < cap div 8 \<Longrightarrow> no_empty m g \<Longrightarrow> no_empty m' g"
  shows "reach m' cap h g"
proof -
  obtain j where j: "j < cap div 8" "probe (cap div 8) h j = g" "\<forall>j' < j. no_empty m (probe (cap div 8) h j')"
    using assms(1) unfolding reach_def by blast
  then have "probe (cap div 8) h j' < cap div 8" for j' by (intro probe_lt) simp
  with j assms(2) show ?thesis unfolding reach_def by blast
qed

text \<open>What a probe walk returns when it does not exhaust the groups.\<close>

lemma find_slot_loop_ok:
  assumes wf: "wf_tbl hs ents m cap" and em: "has_empty m cap"
    and G: "G = cap div 8" and h: "h = unat (WFXHash hs key)"
  shows "n + j = G \<Longrightarrow> (\<forall>j' < j. no_empty m (probe G h j') \<and> (\<forall>i < 8. \<not> KeysEqual (ents ! (probe G h j' * 8 + i)) key)) \<Longrightarrow>
     (case ip of None \<Rightarrow> (\<forall>j' < j. \<forall>i < 8. \<not> bit (m ! (probe G h j' * 8 + i)) 7)
      | Some p \<Rightarrow> p < cap \<and> bit (m ! p) 7 \<and> reach m cap h (p div 8)) \<Longrightarrow>
     \<exists>pos found. find_slot_loop ents m (G - 1) key (hash_h2 hs key) n (probe G h j) j ip = Inr (pos, found) \<and> pos < cap \<and>
       (if found then KeysEqual (ents ! pos) key
        else bit (m ! pos) 7 \<and> reach m cap h (pos div 8) \<and>
             (\<exists>J. \<not> no_empty m (probe G h J) \<and>
                (\<forall>j' \<le> J. \<forall>i < 8. \<not> KeysEqual (ents ! (probe G h j' * 8 + i)) key)))"
proof (induction n arbitrary: j ip)
  case 0
  obtain p where p: "p < cap" "m ! p = TAG_EMPTY" using em by (auto simp: has_empty_def)
  have "shape m cap" using wf by (simp add: wf_tbl_def)
  from shape_groups[OF this] obtain k where k: "cap div 8 = 2 ^ k" "cap = 8 * (cap div 8)" by blast
  have "p div 8 < 2 ^ k" using p(1) k by auto
  then obtain j' where j': "j' < 2 ^ k" "probe (2 ^ k) h j' = p div 8" using probe_surj by blast
  then have "no_empty m (p div 8)" using "0.prems"(1,2) G k(1) by (metis add_0)
  then have "m ! (p div 8 * 8 + p mod 8) \<noteq> TAG_EMPTY" unfolding no_empty_def by (elim allE[of _ "p mod 8"]) simp
  with p(2) show ?case by simp
next
  case (Suc n)
  have sh: "shape m cap" "tags_ok m cap" using wf by (auto simp: wf_tbl_def)
  obtain k where k: "G = 2 ^ k" "cap = 8 * G" using shape_groups[OF sh(1)] unfolding G by blast
  let ?g = "probe G h j"
  have g: "?g < cap div 8" using probe_lt[of G h j] k(1) G by simp
  have b: "?g * 8 < cap" "\<forall>i < 8. ?g * 8 + i < cap" using group_base[OF sh(1) g] by auto
  note gb = group_bytes[OF sh(1) b(1)]
  let ?w = "group_word m (?g * 8)"
  have flagged: "i \<in> lanes (MatchByte ?w (hash_h2 hs key))" if "i < 8" "KeysEqual (ents ! (?g * 8 + i)) key" for i
  proof -
    have "m ! (?g * 8 + i) = hash_h2 hs key" using wf that b(2) by (auto simp: wf_tbl_def KeysEqual_iff)
    then show ?thesis
      unfolding gb(1) using lanes_MatchByte(2)[OF gb(2) hash_h2_full[of hs key] that(1)] gb(3)[OF that(1)] by simp
  qed
  show ?case
  proof (cases "match_loop key ents (?g * 8) (MatchByte ?w (hash_h2 hs key))")
    case (Some pos)
    from match_loop_Some[OF lane_words(1) Some] obtain i where
      i: "i \<in> lanes (MatchByte ?w (hash_h2 hs key))" "pos = ?g * 8 + i" "KeysEqual (ents ! pos) key" by blast
    have "i < 8" using i(1) by (simp add: lanes_def)
    then show ?thesis using Some i(2,3) b(2) by (intro exI[of _ pos] exI[of _ True]) (simp add: Let_def GROUP_WIDTH_def)
  next
    case None
    have nokey: "\<forall>i < 8. \<not> KeysEqual (ents ! (?g * 8 + i)) key"
      using match_loop_None[OF lane_words(1) None] flagged by blast
    define ip' where "ip' = (if ip = None then first_avail ?w (?g * 8) else ip)"
    have reach_g: "reach m cap h ?g"
      unfolding reach_def G[symmetric] using Suc.prems(1,2) by (intro exI[of _ j]) auto
    have ip': "case ip' of None \<Rightarrow> (\<forall>j' < Suc j. \<forall>i < 8. \<not> bit (m ! (probe G h j' * 8 + i)) 7)
        | Some p \<Rightarrow> p < cap \<and> bit (m ! p) 7 \<and> reach m cap h (p div 8)"
    proof (cases ip)
      case ipn: None
      show ?thesis
      proof (cases "first_avail ?w (?g * 8)")
        case None
        then show ?thesis
          using ipn Suc.prems(3) first_avail_None[OF sh(1) g] by (auto simp: ip'_def less_Suc_eq)
      next
        case (Some p)
        then show ?thesis using ipn first_avail_Some[OF sh(1) g Some] reach_g by (simp add: ip'_def)
      qed
    next
      case (Some p)
      then show ?thesis using Suc.prems(3) by (simp add: ip'_def)
    qed
    show ?thesis
    proof (cases "no_empty m ?g")
      case True
      then have "MatchEmpty ?w = 0" using MatchEmpty_group[OF sh g] by simp
      then have step: "find_slot_loop ents m (G - 1) key (hash_h2 hs key) (Suc n) ?g j ip =
          find_slot_loop ents m (G - 1) key (hash_h2 hs key) n (probe G h (Suc j)) (Suc j) ip'"
        using None probe_Suc[OF k(1), of h j] by (simp add: Let_def GROUP_WIDTH_def ip'_def)
      show ?thesis
        unfolding step by (rule Suc.IH) (use Suc.prems True nokey ip' in \<open>auto simp: less_Suc_eq\<close>)
    next
      case False
      then have me: "MatchEmpty ?w \<noteq> 0" using MatchEmpty_group[OF sh g] by simp
      obtain i where i: "i < 8" "m ! (?g * 8 + i) = TAG_EMPTY" using False by (auto simp: no_empty_def)
      have "ip' \<noteq> None"
      proof
        assume "ip' = None"
        with ip' i(1) have "\<not> bit (m ! (?g * 8 + i)) 7" by simp
        with i(2) tag_bits(1) show False by simp
      qed
      then obtain p where p: "ip' = Some p" by auto
      have "find_slot_loop ents m (G - 1) key (hash_h2 hs key) (Suc n) ?g j ip = Inr (p, False)"
        using None me p by (simp add: Let_def GROUP_WIDTH_def ip'_def)
      moreover have "\<forall>j' \<le> j. \<forall>i < 8. \<not> KeysEqual (ents ! (probe G h j' * 8 + i)) key"
        using Suc.prems(2) nokey by (auto simp: le_less)
      ultimately show ?thesis using ip' p False by auto
    qed
  qed
qed

lemma FindSlot_ok:
  assumes wf: "wf_tbl hs ents m cap" and em: "has_empty m cap"
  obtains pos where "FindSlot hs ents m cap key = Inr (pos, True)" "pos < cap" "KeysEqual (ents ! pos) key"
  | pos where "FindSlot hs ents m cap key = Inr (pos, False)" "pos < cap" "bit (m ! pos) 7"
      "reach m cap (unat (WFXHash hs key)) (pos div 8)" "\<forall>i < cap. \<not> KeysEqual (ents ! i) key"
proof -
  let ?G = "cap div 8" and ?h = "unat (WFXHash hs key)"
  have sh: "shape m cap" using wf by (simp add: wf_tbl_def)
  obtain k where k: "?G = 2 ^ k" "cap = 8 * ?G" using shape_groups[OF sh] by blast
  have "FindSlot hs ents m cap key = find_slot_loop ents m (?G - 1) key (hash_h2 hs key) ?G (probe ?G ?h 0) 0 None"
    unfolding FindSlot_def Let_def GROUP_WIDTH_def probe_0[OF k(1), symmetric] using k(1) by simp
  with find_slot_loop_ok[OF wf em refl refl, where n = ?G and j = 0 and ip = None and key = key] obtain pos found where
    f: "FindSlot hs ents m cap key = Inr (pos, found)" "pos < cap"
    "if found then KeysEqual (ents ! pos) key
     else bit (m ! pos) 7 \<and> reach m cap ?h (pos div 8) \<and> (\<exists>J. \<not> no_empty m (probe ?G ?h J) \<and>
         (\<forall>j' \<le> J. \<forall>i < 8. \<not> KeysEqual (ents ! (probe ?G ?h j' * 8 + i)) key))" by auto
  show ?thesis
  proof (cases found)
    case True
    then show ?thesis using that(1) f by simp
  next
    case False
    then obtain J where J: "\<not> no_empty m (probe ?G ?h J)"
      "\<forall>j' \<le> J. \<forall>i < 8. \<not> KeysEqual (ents ! (probe ?G ?h j' * 8 + i)) key" using f(3) by auto
    have "\<not> KeysEqual (ents ! i) key" if i: "i < cap" for i
    proof
      assume key: "KeysEqual (ents ! i) key"
      then have "reach m cap ?h (i div 8)" using wf i by (auto simp: wf_tbl_def KeysEqual_iff)
      then obtain j where j: "probe ?G ?h j = i div 8" "\<forall>j' < j. no_empty m (probe ?G ?h j')" by (auto simp: reach_def)
      then have "j \<le> J" using J(1) by (metis not_less)
      then have "\<not> KeysEqual (ents ! (i div 8 * 8 + i mod 8)) key" using J(2) j(1) by (metis mod_less_divisor zero_less_numeral)
      with key show False by simp
    qed
    then show ?thesis using that(2) f False by simp
  qed
qed

text \<open>The map a table stands for.\<close>

definition tbl_map :: "('k, 'v) slots \<Rightarrow> 'k \<Rightarrow> 'v option" where
  "tbl_map ents = map_of (somes ents)"

lemma tbl_map_Some:
  assumes "distinct (map fst (somes ents))"
  shows "tbl_map ents k = Some v \<longleftrightarrow> Some (k, v) \<in> set ents"
  unfolding tbl_map_def using assms by (simp add: set_somes)

lemma tbl_map_nth: "distinct (map fst (somes ents)) \<Longrightarrow> i < length ents \<Longrightarrow> ents ! i = Some (k, v) \<Longrightarrow> tbl_map ents k = Some v"
  by (metis nth_mem tbl_map_Some)

lemma tbl_map_None: "tbl_map ents k = None \<longleftrightarrow> (\<forall>i < length ents. \<not> KeysEqual (ents ! i) k)"
proof -
  have "tbl_map ents k = None \<longleftrightarrow> (\<forall>v. Some (k, v) \<notin> set ents)"
    unfolding tbl_map_def by (auto simp: map_of_eq_None_iff set_somes image_iff)
  then show ?thesis by (auto simp: KeysEqual_iff in_set_conv_nth)
qed

lemma map_of_mid: "map_of xs k = None \<Longrightarrow> map_of (xs @ (k, v) # ys) = (map_of (xs @ ys))(k \<mapsto> v)"
  by (auto simp: map_add_def fun_eq_iff split: option.splits)

lemma map_of_absent: "k \<notin> fst ` set xs \<Longrightarrow> map_of xs k = None"
  by (simp add: map_of_eq_None_iff)

lemma somes_update:
  assumes "i < length ents" "distinct (map fst (somes ents))"
  shows "ents ! i = None \<Longrightarrow> tbl_map ents k = None \<Longrightarrow>
      distinct (map fst (somes (ents[i := Some (k, v)]))) \<and> tbl_map (ents[i := Some (k, v)]) = (tbl_map ents)(k \<mapsto> v)"
    and "ents ! i = Some (k, w) \<Longrightarrow>
      distinct (map fst (somes (ents[i := Some (k, v)]))) \<and> tbl_map (ents[i := Some (k, v)]) = (tbl_map ents)(k \<mapsto> v)"
    and "ents ! i = Some (k, w) \<Longrightarrow>
      distinct (map fst (somes (ents[i := None]))) \<and> tbl_map (ents[i := None]) = (tbl_map ents)(k := None)"
proof -
  have split: "ents = take i ents @ ents ! i # drop (Suc i) ents" by (rule id_take_nth_drop[OF assms(1)])
  define xs ys where "xs = somes (take i ents)" and "ys = somes (drop (Suc i) ents)"
  have app: "somes (a @ b) = somes a @ somes b" for a b :: "('a \<times> 'b) option list"
    by (simp add: somes_def map_filter_def)
  have upd: "somes (ents[i := e]) = xs @ (case e of None \<Rightarrow> [] | Some kv \<Rightarrow> [kv]) @ ys" for e
    unfolding upd_conv_take_nth_drop[OF assms(1)] app xs_def ys_def somes_Cons by (cases e) simp_all
  have old: "somes ents = xs @ (case ents ! i of None \<Rightarrow> [] | Some kv \<Rightarrow> [kv]) @ ys"
    using upd[of "ents ! i"] by simp
  show "distinct (map fst (somes (ents[i := Some (k, v)]))) \<and> tbl_map (ents[i := Some (k, v)]) = (tbl_map ents)(k \<mapsto> v)"
    if "ents ! i = None" "tbl_map ents k = None"
  proof -
    have k: "k \<notin> fst ` set xs" "k \<notin> fst ` set ys"
      using that old by (auto simp: tbl_map_def map_of_eq_None_iff)
    with assms(2) that(1) old show ?thesis
      unfolding tbl_map_def upd by (simp add: map_of_mid[OF map_of_absent] del: map_of_append)
  qed
  show "distinct (map fst (somes (ents[i := Some (k, v)]))) \<and> tbl_map (ents[i := Some (k, v)]) = (tbl_map ents)(k \<mapsto> v)"
    "distinct (map fst (somes (ents[i := None]))) \<and> tbl_map (ents[i := None]) = (tbl_map ents)(k := None)"
    if e: "ents ! i = Some (k, w)"
  proof -
    have o: "somes ents = xs @ (k, w) # ys" using old e by simp
    have k: "k \<notin> fst ` set xs" "k \<notin> fst ` set ys" using assms(2) unfolding o by auto
    have m: "map_of (xs @ (k, u) # ys) = (map_of (xs @ ys))(k \<mapsto> u)" for u by (rule map_of_mid[OF map_of_absent[OF k(1)]])
    have n: "map_of (xs @ ys) k = None" using k by (intro map_of_absent) auto
    show "distinct (map fst (somes (ents[i := Some (k, v)]))) \<and> tbl_map (ents[i := Some (k, v)]) = (tbl_map ents)(k \<mapsto> v)"
      using assms(2) unfolding tbl_map_def upd o by (simp add: m del: map_of_append)
    show "distinct (map fst (somes (ents[i := None]))) \<and> tbl_map (ents[i := None]) = (tbl_map ents)(k := None)"
      using assms(2) n unfolding tbl_map_def upd o by (simp add: m fun_upd_idem del: map_of_append)
  qed
qed

section \<open>Writing control bytes\<close>

lemma SetMetaByte_nth:
  assumes "shape m cap" "pos < cap"
  shows "shape (SetMetaByte m cap pos t) cap"
    and "i < cap \<Longrightarrow> SetMetaByte m cap pos t ! i = (if i = pos then t else m ! i)"
    and "length (SetMetaByte m cap pos t) = length m"
proof -
  have l: "length m = cap + 8" "8 \<le> cap" using assms(1) shape_groups[OF assms(1)] by (auto simp: shape_def)
  show nth: "SetMetaByte m cap pos t ! i = (if i = pos then t else m ! i)" if "i < cap" for i
    using that assms(2) l by (auto simp: SetMetaByte_def Let_def nth_list_update)
  show len: "length (SetMetaByte m cap pos t) = length m" by (simp add: SetMetaByte_def Let_def)
  have "SetMetaByte m cap pos t ! (cap + i) = SetMetaByte m cap pos t ! i" if "i < 8" for i
  proof -
    have "SetMetaByte m cap pos t ! (cap + i) = (if i = pos then t else m ! (cap + i))"
      using that assms(2) l by (auto simp: SetMetaByte_def Let_def nth_list_update GROUP_WIDTH_def)
    moreover have "m ! (cap + i) = m ! i" using assms(1) that by (simp add: shape_def)
    moreover have "i < cap" using that l by simp
    ultimately show ?thesis by (simp add: nth)
  qed
  then show "shape (SetMetaByte m cap pos t) cap" using assms(1) len by (simp add: shape_def)
qed

lemma SetMetaByte_no_empty:
  assumes "shape m cap" "pos < cap" "t \<noteq> TAG_EMPTY \<or> \<not> no_empty m (pos div 8)" "g < cap div 8" "no_empty m g"
  shows "no_empty (SetMetaByte m cap pos t) g"
  unfolding no_empty_def
proof (intro allI impI)
  fix i :: nat assume i: "i < 8"
  have lt: "g * 8 + i < cap" using group_base[OF assms(1,4)] i by blast
  have "g = pos div 8" if "g * 8 + i = pos" using that i by auto
  then show "SetMetaByte m cap pos t ! (g * 8 + i) \<noteq> TAG_EMPTY"
    using assms(3,5) i SetMetaByte_nth(2)[OF assms(1,2) lt] unfolding no_empty_def by metis
qed

definition num :: "(u8 \<Rightarrow> bool) \<Rightarrow> u8 list \<Rightarrow> nat \<Rightarrow> nat" where
  "num P m cap = card {i. i < cap \<and> P (m ! i)}"

lemma num_SetMetaByte:
  assumes "shape m cap" "pos < cap"
  shows "num P (SetMetaByte m cap pos t) cap + (if P (m ! pos) then 1 else 0) = num P m cap + (if P t then 1 else 0)"
proof -
  let ?A = "{i. i < cap \<and> i \<noteq> pos \<and> P (m ! i)}"
  have "{i. i < cap \<and> P (SetMetaByte m cap pos t ! i)} = (if P t then insert pos ?A else ?A)"
    using assms(2) SetMetaByte_nth(2)[OF assms] by (auto split: if_splits)
  moreover have "{i. i < cap \<and> P (m ! i)} = (if P (m ! pos) then insert pos ?A else ?A)"
    using assms(2) by auto
  ultimately show ?thesis unfolding num_def by simp
qed

lemma num_le: "num P m cap \<le> cap"
  unfolding num_def using card_mono[of "{..<cap}" "{i. i < cap \<and> P (m ! i)}"] by auto

lemma has_empty_num:
  assumes "tags_ok m cap"
  shows "has_empty m cap \<longleftrightarrow> num IsFull m cap + num (\<lambda>b. b = TAG_DELETED) m cap < cap"
proof -
  let ?F = "{i. i < cap \<and> IsFull (m ! i)}" and ?D = "{i. i < cap \<and> m ! i = TAG_DELETED}"
    and ?E = "{i. i < cap \<and> m ! i = TAG_EMPTY}"
  have "{..<cap} = (?F \<union> ?D) \<union> ?E" using assms by (auto simp: tags_ok_def IsFull_bit)
  moreover have "(?F \<union> ?D) \<inter> ?E = {}" "?F \<inter> ?D = {}" using tag_bits by (auto simp: IsFull_bit)
  ultimately have "cap = card ?F + card ?D + card ?E"
    by (metis (no_types, lifting) card_Un_disjoint card_lessThan finite_Un finite_lessThan)
  moreover have "has_empty m cap \<longleftrightarrow> 0 < card ?E"
    by (auto simp: has_empty_def card_gt_0_iff)
  ultimately show ?thesis unfolding num_def by linarith
qed

section \<open>Insertion\<close>

lemma hash_tag: "hash_h2 hs k \<noteq> TAG_EMPTY" "hash_h2 hs k \<noteq> TAG_DELETED" "IsFull (hash_h2 hs k)"
  using hash_h2_full[of hs k] tag_bits by (auto simp: IsFull_bit)

lemma wf_tbl_store:
  assumes wf: "wf_tbl hs ents m cap" and pos: "pos < cap"
    and t: "t = TAG_EMPTY \<Longrightarrow> \<not> no_empty m (pos div 8)" "t = TAG_EMPTY \<or> t = TAG_DELETED \<or> \<not> bit t 7"
    and e: "case e of None \<Rightarrow> bit t 7 | Some (k, v) \<Rightarrow> t = hash_h2 hs k \<and> reach m cap (unat (WFXHash hs k)) (pos div 8)"
    and d: "distinct (map fst (somes (ents[pos := e])))"
  shows "wf_tbl hs (ents[pos := e]) (SetMetaByte m cap pos t) cap"
proof -
  let ?m = "SetMetaByte m cap pos t"
  have w: "shape m cap" "tags_ok m cap" "length ents = cap" using wf by (auto simp: wf_tbl_def)
  note sm = SetMetaByte_nth[OF w(1) pos]
  have r: "reach ?m cap h g" if "reach m cap h g" for h g
    using that SetMetaByte_no_empty[OF w(1) pos] t(1) by (intro reach_no_empty_mono[OF that]) blast
  have "tags_ok ?m cap" using w(2) sm(2) t(2) by (auto simp: tags_ok_def)
  moreover have "bit (?m ! i) 7" if "i < cap" "ents[pos := e] ! i = None" for i
    using that wf e sm(2)[OF that(1)] w(3) by (cases "i = pos") (auto simp: wf_tbl_def)
  moreover have "?m ! i = hash_h2 hs k \<and> reach ?m cap (unat (WFXHash hs k)) (i div 8)"
    if "i < cap" "ents[pos := e] ! i = Some (k, v)" for i k v
    using that wf e sm(2)[OF that(1)] w(3) r by (cases "i = pos") (auto simp: wf_tbl_def)
  ultimately show ?thesis using sm(1) w(3) d by (simp add: wf_tbl_def)
qed

section \<open>Erasure\<close>

lemma last_lane:
  assumes "lane_word w" "countl_zero w div 8 < 8"
  shows "7 - countl_zero w div 8 \<in> lanes w"
proof -
  let ?n = "countl_zero w"
  have lt: "length (takeWhile (\<lambda>n. \<not> bit w (63 - n)) [0..<64]) < length [0..<64]"
    using assms(2) by (simp add: countl_zero_def)
  then have b: "bit w (63 - ?n)" "?n < 64"
    using nth_length_takeWhile[OF lt] by (simp_all add: countl_zero_def)
  then have "(63 - ?n) mod 8 = 7" using assms(1) by (simp add: lane_word_def)
  then have "63 - ?n = 8 * ((63 - ?n) div 8) + 7" using mult_div_mod_eq[of 8 "63 - ?n"] by simp
  then obtain i where i: "63 - ?n = 8 * i + 7" by blast
  then have "?n = 8 * (7 - i)" "i \<le> 7" using b(2) by auto
  then have "7 - ?n div 8 = i" by simp
  then show ?thesis using b(1) i \<open>i \<le> 7\<close> by (simp add: lanes_def)
qed

lemma empty_lane:
  assumes "shape m cap" "tags_ok m cap" "base < cap"
  shows "i \<in> lanes (MatchEmpty (group_word m base)) \<longleftrightarrow>
    i < 8 \<and> m ! (if base + i < cap then base + i else base + i - cap) = TAG_EMPTY"
proof -
  note gb = group_bytes[OF assms(1,3)]
  have e: "bit (m ! q) 7 \<and> bit (m ! q) 6 \<longleftrightarrow> m ! q = TAG_EMPTY" if "q < cap" for q
    using assms(2) that tag_bits unfolding tags_ok_def by metis
  define q where "q = (if base + i < cap then base + i else base + i - cap)"
  have q: "m ! (base + i) = m ! q" "q < cap" if "i < 8"
  proof -
    have c: "8 \<le> cap" using shape_groups[OF assms(1)] by blast
    show "m ! (base + i) = m ! q"
    proof (cases "base + i < cap")
      case False
      then obtain d where d: "base + i = cap + d" by (metis le_Suc_ex not_less)
      then have "d < 8" using assms(3) that by simp
      then show ?thesis using assms(1) d by (simp add: shape_def q_def)
    qed (simp add: q_def)
    show "q < cap" using assms(3) that c by (auto simp: q_def)
  qed
  have "bit (take 8 (drop base m) ! i) 7 \<and> bit (take 8 (drop base m) ! i) 6 \<longleftrightarrow> m ! q = TAG_EMPTY" if "i < 8"
    unfolding gb(3)[OF that] q(1)[OF that] by (rule e[OF q(2)[OF that]])
  then show ?thesis
    unfolding gb(1) lanes_Empty[OF gb(2)] q_def[symmetric] by blast
qed

text \<open>The erasure test: fewer than eight full slots in a row around the slot mean that its own aligned
  group has an empty slot, so that no probe ever passed through that group.\<close>

lemma erase_run:
  assumes "shape m cap" "tags_ok m cap" "pos < cap"
    and "countl_zero (MatchEmpty (group_word m ((pos + cap - GROUP_WIDTH) AND (cap - 1)))) div 8 +
         countr_zero (MatchEmpty (group_word m pos)) div 8 < GROUP_WIDTH"
  shows "\<not> no_empty m (pos div 8)"
proof -
  define base where "base = (pos + cap - GROUP_WIDTH) AND (cap - 1)"
  define a where "a = countr_zero (MatchEmpty (group_word m pos)) div 8"
  define b where "b = countl_zero (MatchEmpty (group_word m base)) div 8"
  have ab: "a + b < 8" using assms(4) by (simp add: a_def b_def base_def GROUP_WIDTH_def)
  obtain k where cap: "cap = 2 ^ (k + 3)" using assms(1) by (auto simp: shape_def)
  have c8: "8 \<le> cap" using shape_groups[OF assms(1)] by blast
  have base: "base = (if 8 \<le> pos then pos - 8 else pos + cap - 8)"
  proof -
    have "base = (pos + cap - 8) mod cap" unfolding base_def GROUP_WIDTH_def cap by (rule and_mask)
    moreover have "(pos + cap - 8) mod cap = pos - 8" if "8 \<le> pos"
    proof -
      have "(pos + cap - 8) mod cap = ((pos - 8) + cap) mod cap" using that by simp
      also have "\<dots> = pos - 8" using assms(3) by simp
      finally show ?thesis .
    qed
    ultimately show ?thesis using assms(3) c8 by simp
  qed
  have bl: "base < cap" using base assms(3) c8 by auto
  have "countr_zero (0 :: u64) = 64"
    unfolding countr_zero_def by (subst takeWhile_eq_all_conv[THEN iffD2]) simp_all
  then have ne: "MatchEmpty (group_word m pos) \<noteq> 0" using ab unfolding a_def by auto
  have ea: "m ! (if pos + a < cap then pos + a else pos + a - cap) = TAG_EMPTY"
    using empty_lane[OF assms(1-3)] first_lane(1)[OF lane_words(2) ne] unfolding a_def by blast
  have "countl_zero (MatchEmpty (group_word m base)) div 8 < 8" using ab by (simp add: b_def)
  then have eb: "m ! (if base + (7 - b) < cap then base + (7 - b) else base + (7 - b) - cap) = TAG_EMPTY"
    using empty_lane[OF assms(1,2) bl] last_lane[OF lane_words(2)] unfolding b_def by blast
  let ?g = "pos div 8" and ?r = "pos mod 8"
  have p: "pos = ?g * 8 + ?r" "?r < 8" by simp_all
  have gl: "?g < cap div 8" using assms(3) cap by (simp add: power_add)
  show ?thesis
  proof (cases "?r + a < 8")
    case True
    then have "pos + a < cap" using group_base[OF assms(1) gl] p by (metis add.assoc)
    then have "m ! (?g * 8 + (?r + a)) = TAG_EMPTY" using ea p(1) by (simp add: add.assoc)
    then show ?thesis using True unfolding no_empty_def by blast
  next
    case False
    then have br: "b < ?r" using ab by linarith
    then have "b < pos" using p by linarith
    then have "(if base + (7 - b) < cap then base + (7 - b) else base + (7 - b) - cap) = pos - 1 - b"
      using base ab assms(3) c8 by auto
    moreover have "pos - 1 - b = ?g * 8 + (?r - 1 - b)" using p br by linarith
    ultimately have "m ! (?g * 8 + (?r - 1 - b)) = TAG_EMPTY" using eb by simp
    moreover have "?r - 1 - b < 8" using p(2) by linarith
    ultimately show ?thesis unfolding no_empty_def by blast
  qed
qed

section \<open>One insertion\<close>

lemma full_slot:
  assumes "wf_tbl hs ents m cap" "i < cap"
  shows "IsFull (m ! i) \<longleftrightarrow> ents ! i \<noteq> None"
proof (cases "ents ! i")
  case (Some kv)
  then obtain k v where "ents ! i = Some (k, v)" by (cases kv) auto
  moreover from this assms have "m ! i = hash_h2 hs k" unfolding wf_tbl_def by blast
  ultimately show ?thesis using hash_tag(3) by simp
qed (use assms in \<open>auto simp: wf_tbl_def IsFull_bit\<close>)

lemma num_full:
  assumes "wf_tbl hs ents m cap"
  shows "num IsFull m cap = length (somes ents)"
proof -
  note full_slot[OF assms]
  then have "num IsFull m cap = card {i. i < length ents \<and> ents ! i \<noteq> None}"
    using assms unfolding num_def wf_tbl_def by (metis (mono_tags, lifting))
  also have "\<dots> = length (filter (\<lambda>e. e \<noteq> None) ents)" by (simp add: length_filter_conv_card)
  also have "\<dots> = length (somes ents)" by (simp add: somes_def map_filter_def)
  finally show ?thesis .
qed

lemma insert_at:
  assumes wf: "wf_tbl hs ents m cap" and em: "has_empty m cap" and new: "tbl_map ents k = None"
  obtains pos where "FindSlot hs ents m cap k = Inr (pos, False)" "pos < cap"
    "wf_tbl hs (ents[pos := Some (k, v)]) (SetMetaByte m cap pos (hash_h2 hs k)) cap"
    "tbl_map (ents[pos := Some (k, v)]) = (tbl_map ents)(k \<mapsto> v)"
    "length (somes (ents[pos := Some (k, v)])) = length (somes ents) + 1"
    "num (\<lambda>b. b = TAG_DELETED) (SetMetaByte m cap pos (hash_h2 hs k)) cap + (if m ! pos = TAG_DELETED then 1 else 0) =
     num (\<lambda>b. b = TAG_DELETED) m cap"
proof (rule FindSlot_ok[OF wf em, of k])
  have sh: "shape m cap" "length ents = cap" "distinct (map fst (somes ents))" using wf by (auto simp: wf_tbl_def)
  fix pos assume f: "FindSlot hs ents m cap k = Inr (pos, False)" "pos < cap" "bit (m ! pos) 7"
    "reach m cap (unat (WFXHash hs k)) (pos div 8)"
  have n: "ents ! pos = None"
    using full_slot[OF wf f(2)] f(3) by (metis IsFull_bit)
  have u: "distinct (map fst (somes (ents[pos := Some (k, v)])))" "tbl_map (ents[pos := Some (k, v)]) = (tbl_map ents)(k \<mapsto> v)"
    using somes_update(1)[OF _ sh(3) n new] f(2) sh(2) by auto
  have w: "wf_tbl hs (ents[pos := Some (k, v)]) (SetMetaByte m cap pos (hash_h2 hs k)) cap"
    by (rule wf_tbl_store[OF wf f(2) _ _ _ u(1)]) (use hash_tag[of hs k] hash_h2_full[of hs k] f(4) in auto)
  show thesis
  proof (rule that[OF f(1,2) w u(2)])
    show "length (somes (ents[pos := Some (k, v)])) = length (somes ents) + 1"
      using num_SetMetaByte[OF sh(1) f(2), of IsFull "hash_h2 hs k"] f(3) hash_tag(3)
      unfolding num_full[OF w] num_full[OF wf] by (simp add: IsFull_bit)
    show "num (\<lambda>b. b = TAG_DELETED) (SetMetaByte m cap pos (hash_h2 hs k)) cap + (if m ! pos = TAG_DELETED then 1 else 0) =
       num (\<lambda>b. b = TAG_DELETED) m cap"
      using num_SetMetaByte[OF sh(1) f(2), of "\<lambda>b. b = TAG_DELETED" "hash_h2 hs k"] hash_tag(2) by simp
  qed
next
  fix pos assume "pos < cap" "KeysEqual (ents ! pos) k"
  then show thesis using new wf by (auto simp: tbl_map_None wf_tbl_def)
qed

section \<open>Rehashing into a fresh table\<close>

lemma fresh_table:
  fixes hs :: "'k \<Rightarrow> u64"
  assumes "cap = 2 ^ (k + 3)"
  shows "wf_tbl hs (replicate cap None :: ('k, 'v) slots) (replicate (cap + 8) TAG_EMPTY) cap"
    "num (\<lambda>b. b = TAG_DELETED) (replicate (cap + 8) TAG_EMPTY) cap = 0"
    "somes (replicate cap None :: ('k, 'v) slots) = []" "has_empty (replicate (cap + 8) TAG_EMPTY) cap"
proof -
  have c: "0 < cap" "8 \<le> cap" using assms by (auto simp: power_add)
  show "somes (replicate cap None) = ([] :: ('k \<times> 'v) list)" by (simp add: somes_def map_filter_def)
  then show "wf_tbl hs (replicate cap None :: ('k, 'v) slots) (replicate (cap + 8) TAG_EMPTY) cap"
    using assms c tag_bits by (auto simp: wf_tbl_def shape_def tags_ok_def)
  show "num (\<lambda>b. b = TAG_DELETED) (replicate (cap + 8) TAG_EMPTY) cap = 0"
    using tag_bits unfolding num_def by simp
  show "has_empty (replicate (cap + 8) TAG_EMPTY) cap"
    using c unfolding has_empty_def by (intro exI[of _ 0]) simp
qed

lemma rehash_loop_ok:
  assumes "wf_tbl hs ne nm c" "num (\<lambda>b. b = TAG_DELETED) nm c = 0"
    and "\<forall>i \<in> set is. IsFull (m ! i) \<longleftrightarrow> ents ! i \<noteq> None"
    and "distinct (map fst (somes ne @ somes (map ((!) ents) is)))"
    and "length (somes ne) + length (somes (map ((!) ents) is)) < c"
  shows "\<exists>ne' nm'. rehash_loop hs ents m is c ne nm = Inr (ne', nm') \<and> wf_tbl hs ne' nm' c \<and>
    num (\<lambda>b. b = TAG_DELETED) nm' c = 0 \<and> tbl_map ne' = tbl_map ne ++ map_of (somes (map ((!) ents) is)) \<and>
    length (somes ne') = length (somes ne) + length (somes (map ((!) ents) is))"
  using assms
proof (induction "is" arbitrary: ne nm)
  case Nil
  then show ?case by (simp add: somes_def map_filter_def)
next
  case (Cons i "is")
  show ?case
  proof (cases "ents ! i")
    case None
    then show ?thesis using Cons.IH[OF Cons.prems(1,2)] Cons.prems(3-5) by (simp add: somes_Cons)
  next
    case (Some kv)
    obtain k v where kv: "ents ! i = Some (k, v)" using Some by (cases kv) auto
    have new: "tbl_map ne k = None"
      using Cons.prems(4) kv by (auto simp: tbl_map_def map_of_eq_None_iff somes_Cons)
    have "has_empty nm c"
      using has_empty_num Cons.prems(1,2,5) num_full[OF Cons.prems(1)] by (auto simp: wf_tbl_def)
    from insert_at[OF Cons.prems(1) this new, of v] obtain pos where
      p: "FindSlot hs ne nm c k = Inr (pos, False)"
        "wf_tbl hs (ne[pos := Some (k, v)]) (SetMetaByte nm c pos (hash_h2 hs k)) c"
        "tbl_map (ne[pos := Some (k, v)]) = (tbl_map ne)(k \<mapsto> v)"
        "length (somes (ne[pos := Some (k, v)])) = length (somes ne) + 1"
        "num (\<lambda>b. b = TAG_DELETED) (SetMetaByte nm c pos (hash_h2 hs k)) c = 0"
      using Cons.prems(2) by (metis add_is_0)
    have fs: "fst ` set (somes (ne[pos := Some (k, v)])) = insert k (fst ` set (somes ne))"
      using p(3) unfolding tbl_map_def by (metis dom_fun_upd dom_map_of_conv_image_fst option.distinct(1))
    have "distinct (map fst (somes (ne[pos := Some (k, v)]) @ somes (map ((!) ents) is)))"
      using Cons.prems(4) p(2) fs kv by (auto simp: somes_Cons wf_tbl_def)
    note IH = Cons.IH[OF p(2,5) _ this, unfolded p(3,4)]
    have "\<forall>i \<in> set is. IsFull (m ! i) \<longleftrightarrow> ents ! i \<noteq> None"
      "length (somes ne) + 1 + length (somes (map ((!) ents) is)) < c"
      using Cons.prems(3,5) kv by (simp_all add: somes_Cons)
    from IH[OF this]
    obtain ne' nm' where r: "rehash_loop hs ents m is c (ne[pos := Some (k, v)]) (SetMetaByte nm c pos (hash_h2 hs k)) = Inr (ne', nm')"
      "wf_tbl hs ne' nm' c" "num (\<lambda>b. b = TAG_DELETED) nm' c = 0"
      "tbl_map ne' = (tbl_map ne)(k \<mapsto> v) ++ map_of (somes (map ((!) ents) is))"
      "length (somes ne') = length (somes ne) + 1 + length (somes (map ((!) ents) is))"
      by blast
    have "k \<notin> dom (map_of (somes (map ((!) ents) is)))"
      using Cons.prems(4) kv by (auto simp: somes_Cons dom_map_of_conv_image_fst)
    then have "(tbl_map ne)(k \<mapsto> v) ++ map_of (somes (map ((!) ents) is)) =
        tbl_map ne ++ map_of (somes (map ((!) ents) (i # is)))"
      by (simp add: somes_Cons kv map_add_upd_left)
    moreover have "rehash_loop hs ents m (i # is) c ne nm =
        rehash_loop hs ents m is c (ne[pos := Some (k, v)]) (SetMetaByte nm c pos (hash_h2 hs k))"
      using p(1) kv Cons.prems(3) by simp
    moreover have "length (somes (map ((!) ents) (i # is))) = Suc (length (somes (map ((!) ents) is)))"
      using kv by (simp add: somes_Cons)
    ultimately show ?thesis using r by simp
  qed
qed

end
