(* ===== verification/HashShardCompact.thy ===== *)
theory HashShardCompact
  imports HashShardProofs "HOL-Library.Multiset"
begin

text \<open>
  \<open>CompactInPlace\<close> keeps the entries and leaves a well-formed table without tombstones. In the second
  pass every step is a swap of two slots, so that the multiset of the entries never changes; a settled
  slot has only full groups before it on its probe path, and a full slot never becomes available again.
\<close>

section \<open>Full groups\<close>

definition full_group :: "u8 list \<Rightarrow> nat \<Rightarrow> bool" where
  "full_group m g \<longleftrightarrow> (\<forall>i < 8. \<not> bit (m ! (g * 8 + i)) 7)"

definition settled_reach :: "u8 list \<Rightarrow> nat \<Rightarrow> nat \<Rightarrow> nat \<Rightarrow> bool" where
  "settled_reach m cap h g \<longleftrightarrow> (\<exists>j < cap div 8. probe (cap div 8) h j = g \<and> (\<forall>j' < j. full_group m (probe (cap div 8) h j')))"

lemma settled_reach_imp_reach: "settled_reach m cap h g \<Longrightarrow> reach m cap h g"
  unfolding settled_reach_def reach_def full_group_def no_empty_def using tag_bits(1) by metis

lemma settled_reach_mono:
  assumes "settled_reach m cap h g" "shape m cap" "\<And>q. q < cap \<Longrightarrow> \<not> bit (m ! q) 7 \<Longrightarrow> \<not> bit (m' ! q) 7"
  shows "settled_reach m' cap h g"
proof -
  obtain j where j: "j < cap div 8" "probe (cap div 8) h j = g" "\<forall>j' < j. full_group m (probe (cap div 8) h j')"
    using assms(1) unfolding settled_reach_def by blast
  have "full_group m' (probe (cap div 8) h j')" if "j' < j" for j'
  proof -
    have "probe (cap div 8) h j' < cap div 8" by (rule probe_lt) (use j(1) in simp)
    then have "\<forall>i < 8. probe (cap div 8) h j' * 8 + i < cap" using group_base[OF assms(2)] by blast
    then show ?thesis using assms(3) j(3) that unfolding full_group_def by blast
  qed
  then show ?thesis using j unfolding settled_reach_def by blast
qed

lemma find_available_loop_ok:
  assumes sh: "shape m cap" and av: "p < cap" "bit (m ! p) 7" and G: "G = cap div 8"
  shows "n + j = G \<Longrightarrow> \<forall>j' < j. full_group m (probe G h j') \<Longrightarrow>
    \<exists>pos. find_available_loop m (G - 1) n (probe G h j) j = Inr pos \<and> pos < cap \<and> bit (m ! pos) 7 \<and>
      settled_reach m cap h (pos div 8)"
proof (induction n arbitrary: j)
  case 0
  obtain k where k: "cap div 8 = 2 ^ k" "cap = 8 * (cap div 8)" using shape_groups[OF sh] by blast
  have "p div 8 < 2 ^ k" using av(1) k by auto
  then obtain j' where "j' < 2 ^ k" "probe (2 ^ k) h j' = p div 8" using probe_surj by blast
  then have "full_group m (p div 8)" using "0.prems" G k(1) by (metis add_0)
  then have "\<not> bit (m ! (p div 8 * 8 + p mod 8)) 7" unfolding full_group_def by (elim allE[of _ "p mod 8"]) simp
  with av(2) show ?case by simp
next
  case (Suc n)
  obtain k where k: "G = 2 ^ k" using shape_groups[OF sh] unfolding G by blast
  let ?g = "probe G h j"
  have g: "?g < cap div 8" using probe_lt[of G h j] k G by simp
  show ?case
  proof (cases "first_avail (group_word m (?g * 8)) (?g * 8)")
    case None
    then have "full_group m ?g" using first_avail_None[OF sh g] by (simp add: full_group_def)
    then have "\<forall>j' < Suc j. full_group m (probe G h j')" using Suc.prems(2) by (auto simp: less_Suc_eq)
    moreover have "find_available_loop m (G - 1) (Suc n) ?g j = find_available_loop m (G - 1) n (probe G h (Suc j)) (Suc j)"
      using None by (simp add: GROUP_WIDTH_def flip: probe_Suc[OF k, of h j])
    ultimately show ?thesis using Suc.IH[of "Suc j"] Suc.prems(1) by simp
  next
    case (Some pos)
    note f = first_avail_Some[OF sh g Some]
    have "j < cap div 8" using Suc.prems(1) G by simp
    then have "settled_reach m cap h (pos div 8)"
      using f(1) Suc.prems(2) G unfolding settled_reach_def by auto
    then show ?thesis using f Some by (simp add: GROUP_WIDTH_def)
  qed
qed

lemma FindAvailableSlot_ok:
  assumes "shape m cap" "p < cap" "bit (m ! p) 7"
  obtains pos where "FindAvailableSlot hs m cap key = Inr pos" "pos < cap" "bit (m ! pos) 7"
    "settled_reach m cap (unat (WFXHash hs key)) (pos div 8)"
proof -
  let ?G = "cap div 8"
  obtain k where k: "?G = 2 ^ k" using shape_groups[OF assms(1)] by blast
  have "FindAvailableSlot hs m cap key = find_available_loop m (?G - 1) ?G (probe ?G (unat (WFXHash hs key)) 0) 0"
    unfolding FindAvailableSlot_def Let_def GROUP_WIDTH_def probe_0[OF k, symmetric] using k by simp
  with find_available_loop_ok[OF assms refl, of ?G 0 "unat (WFXHash hs key)"] that show thesis by auto
qed

section \<open>First pass\<close>

lemma compact_mark_all:
  assumes "shape m cap" "tags_ok m cap" "n \<le> cap"
  shows "shape (foldl (compact_mark cap) m [0..<n]) cap \<and>
    (\<forall>q < cap. foldl (compact_mark cap) m [0..<n] ! q =
       (if q < n then if IsFull (m ! q) then TAG_DELETED else TAG_EMPTY else m ! q))"
  using assms(3)
proof (induction n)
  case 0
  then show ?case using assms(1) by simp
next
  case (Suc n)
  let ?m = "foldl (compact_mark cap) m [0..<n]"
  have IH: "shape ?m cap" "\<forall>q < cap. ?m ! q = (if q < n then if IsFull (m ! q) then TAG_DELETED else TAG_EMPTY else m ! q)"
    using Suc by auto
  have n: "n < cap" "?m ! n = m ! n" using Suc.prems IH(2) by auto
  have t: "m ! n = TAG_EMPTY \<or> m ! n = TAG_DELETED \<or> IsFull (m ! n)" using assms(2) n(1) by (auto simp: tags_ok_def IsFull_bit)
  have f: "\<not> IsFull TAG_EMPTY" "\<not> IsFull TAG_DELETED" using tag_bits by (simp_all add: IsFull_bit)
  note sm = SetMetaByte_nth[OF IH(1) n(1)]
  have e: "foldl (compact_mark cap) m [0..<Suc n] = compact_mark cap ?m n" by simp
  have "shape (compact_mark cap ?m n) cap" using sm(1) IH(1) by (simp add: compact_mark_def)
  moreover have "compact_mark cap ?m n ! q =
      (if q < Suc n then if IsFull (m ! q) then TAG_DELETED else TAG_EMPTY else m ! q)" if q: "q < cap" for q
  proof (cases "q = n")
    case True
    then show ?thesis using n t f sm(2)[OF q] by (auto simp: compact_mark_def)
  next
    case False
    then have "compact_mark cap ?m n ! q = ?m ! q" using sm(2)[OF q] by (simp add: compact_mark_def)
    then show ?thesis using False IH(2) q by (simp add: less_Suc_eq)
  qed
  ultimately show ?case unfolding e by blast
qed

section \<open>Second pass\<close>

definition compacting :: "('k \<Rightarrow> u64) \<Rightarrow> nat \<Rightarrow> ('k, 'v) slots \<Rightarrow> u8 list \<Rightarrow> bool" where
  "compacting hs cap ents m \<longleftrightarrow> shape m cap \<and> length ents = cap
     \<and> (\<forall>i < cap. ents ! i = None \<longrightarrow> m ! i = TAG_EMPTY)
     \<and> (\<forall>i < cap. \<forall>k v. ents ! i = Some (k, v) \<longrightarrow>
          m ! i = TAG_DELETED \<or> m ! i = hash_h2 hs k \<and> settled_reach m cap (unat (WFXHash hs k)) (i div 8))"

text \<open>Any rewriting of two slots that settles the entry of \<open>i\<close> in \<open>pos\<close> keeps the invariant.\<close>

lemma compacting_move:
  assumes c: "compacting hs cap ents m" and i: "i < cap" "m ! i = TAG_DELETED" "ents ! i = Some (k, v)"
    and pos: "pos < cap" "bit (m ! pos) 7" "settled_reach m cap (unat (WFXHash hs k)) (pos div 8)"
    and m': "shape m' cap" "m' ! pos = hash_h2 hs k" "\<And>q. q < cap \<Longrightarrow> q \<noteq> pos \<Longrightarrow> q \<noteq> i \<Longrightarrow> m' ! q = m ! q"
    and e': "length ents' = cap" "ents' ! pos = ents ! i" "\<And>q. q < cap \<Longrightarrow> q \<noteq> pos \<Longrightarrow> q \<noteq> i \<Longrightarrow> ents' ! q = ents ! q"
    and ii: "i = pos \<or> (case ents' ! i of None \<Rightarrow> m' ! i = TAG_EMPTY | Some kv \<Rightarrow> m' ! i = TAG_DELETED)"
  shows "compacting hs cap ents' m'"
proof -
  have sh: "shape m cap" using c by (simp add: compacting_def)
  have mono: "settled_reach m' cap h g" if "settled_reach m cap h g" for h g
  proof (rule settled_reach_mono[OF that sh])
    fix q assume "q < cap" "\<not> bit (m ! q) 7"
    then show "\<not> bit (m' ! q) 7" using m'(2,3) pos(2) i(2) tag_bits(3) hash_h2_full by (metis)
  qed
  have "case ents' ! q of None \<Rightarrow> m' ! q = TAG_EMPTY
    | Some (k', v') \<Rightarrow> m' ! q = TAG_DELETED \<or> m' ! q = hash_h2 hs k' \<and> settled_reach m' cap (unat (WFXHash hs k')) (q div 8)"
    if q: "q < cap" for q
  proof (cases "q = pos")
    case True
    then show ?thesis using i(3) e'(2) m'(2) mono[OF pos(3)] by simp
  next
    case np: False
    show ?thesis
    proof (cases "q = i")
      case True
      then show ?thesis using ii np by (auto split: option.splits)
    next
      case False
      then have "ents' ! q = ents ! q" "m' ! q = m ! q" using np q e'(3) m'(3) by auto
      then show ?thesis using c q mono by (auto simp: compacting_def split: option.splits)
    qed
  qed
  then show ?thesis using m'(1) e'(1) unfolding compacting_def by fastforce
qed

lemma compact_cycle_ok:
  assumes "compacting hs cap ents m" "i < cap"
  shows "\<exists>ents' m'. compact_cycle hs cap i ents m = Inr (ents', m') \<and> compacting hs cap ents' m' \<and>
    mset ents' = mset ents \<and> m' ! i \<noteq> TAG_DELETED \<and> (\<forall>q < cap. m' ! q = TAG_DELETED \<longrightarrow> m ! q = TAG_DELETED)"
  using assms
proof (induction hs cap i ents m rule: compact_cycle.induct)
  case (1 hs cap i ents m)
  note c = "1.prems"(1) and i = "1.prems"(2)
  have sh: "shape m cap" "length ents = cap" using c by (auto simp: compacting_def)
  show ?case
  proof (cases "m ! i = TAG_DELETED")
    case False
    then show ?thesis using c by (simp add: compact_cycle.simps)
  next
    case True
    then have "ents ! i \<noteq> None" using c i tag_bits by (auto simp: compacting_def)
    then obtain k v where kv: "ents ! i = Some (k, v)" by auto
    from FindAvailableSlot_ok[OF sh(1) i, of hs k] True tag_bits(3) obtain pos where
      pos: "FindAvailableSlot hs m cap k = Inr pos" "pos < cap" "bit (m ! pos) 7"
        "settled_reach m cap (unat (WFXHash hs k)) (pos div 8)" by auto
    note mv = compacting_move[OF c i True kv pos(2-4)]
    note s1 = SetMetaByte_nth[OF sh(1) pos(2), where t = "hash_h2 hs k"]
    note sw = mset_swap[of pos ents i]
    consider (same) "pos = i" | (empty) "pos \<noteq> i" "m ! pos = TAG_EMPTY" | (other) "pos \<noteq> i" "m ! pos \<noteq> TAG_EMPTY" by blast
    then show ?thesis
    proof cases
      case same
      have "compacting hs cap ents (SetMetaByte m cap i (hash_h2 hs k))"
        by (rule mv) (use s1 sh i same in auto)
      then show ?thesis
        using True kv pos(1) same s1(2) i hash_tag[of hs k] by (auto simp: compact_cycle.simps[of _ _ _ _ m] split: if_splits)
    next
      case empty
      have n: "ents ! pos = None"
        using c pos(2) empty(2) hash_tag(1) tag_bits(5) by (cases "ents ! pos") (fastforce simp: compacting_def)+
      let ?m = "SetMetaByte (SetMetaByte m cap pos (hash_h2 hs k)) cap i TAG_EMPTY"
      let ?e = "ents[pos := Some (k, v), i := None]"
      note s2 = SetMetaByte_nth[OF s1(1) i, where t = TAG_EMPTY]
      have "compacting hs cap ?e ?m"
        by (rule mv) (use s1 s2 sh i pos(2) empty kv in auto)
      moreover have "mset ?e = mset ents" using sw pos(2) i sh(2) kv n by (simp add: list_update_swap empty(1))
      ultimately show ?thesis
        using True kv pos(1) empty s1(2) s2(2) i hash_tag[of hs k] tag_bits
        by (auto simp: compact_cycle.simps[of _ _ _ _ m])
    next
      case other
      have "m ! pos = TAG_DELETED"
        using c pos(2,3) other(2) hash_h2_full tag_bits by (cases "ents ! pos") (fastforce simp: compacting_def)+
      then have ep: "ents ! pos \<noteq> None" using c pos(2) other(2) by (auto simp: compacting_def)
      let ?e = "ents[i := ents ! pos, pos := ents ! i]" and ?m = "SetMetaByte m cap pos (hash_h2 hs k)"
      have "compacting hs cap ?e ?m"
        by (rule mv) (use s1 sh i pos(2) other kv ep True in \<open>auto split: option.splits\<close>)
      from "1.IH"[OF _ kv refl pos(1) other(1) _ this i] True other(2)
      obtain ents' m' where r: "compact_cycle hs cap i ?e ?m = Inr (ents', m')" "compacting hs cap ents' m'"
        "mset ents' = mset ?e" "m' ! i \<noteq> TAG_DELETED" "\<forall>q < cap. m' ! q = TAG_DELETED \<longrightarrow> ?m ! q = TAG_DELETED" by auto
      have "mset ?e = mset ents" using mset_swap[of pos ents i] mset_swap[of i ents pos] pos(2) i sh(2) by simp
      moreover have "\<forall>q < cap. m' ! q = TAG_DELETED \<longrightarrow> m ! q = TAG_DELETED"
        using r(5) s1(2) hash_tag(2) by (metis)
      moreover have "compact_cycle hs cap i ents m = compact_cycle hs cap i ?e ?m"
        using True kv pos(1) other by (simp add: compact_cycle.simps[of _ _ _ ents m])
      ultimately show ?thesis using r by auto
    qed
  qed
qed

lemma compact_loop_ok:
  assumes "compacting hs cap ents m" "set is \<subseteq> {..<cap}"
  shows "\<exists>ents' m'. compact_loop hs cap is ents m = Inr (ents', m') \<and> compacting hs cap ents' m' \<and>
    mset ents' = mset ents \<and> (\<forall>i \<in> set is. m' ! i \<noteq> TAG_DELETED) \<and>
    (\<forall>q < cap. m' ! q = TAG_DELETED \<longrightarrow> m ! q = TAG_DELETED)"
  using assms
proof (induction "is" arbitrary: ents m)
  case (Cons i "is")
  have i: "i < cap" "set is \<subseteq> {..<cap}" using Cons.prems(2) by auto
  from compact_cycle_ok[OF Cons.prems(1) i(1)] obtain e1 m1 where
    a: "compact_cycle hs cap i ents m = Inr (e1, m1)" "compacting hs cap e1 m1" "mset e1 = mset ents"
      "m1 ! i \<noteq> TAG_DELETED" "\<forall>q < cap. m1 ! q = TAG_DELETED \<longrightarrow> m ! q = TAG_DELETED" by blast
  from Cons.IH[OF a(2) i(2)] obtain e2 m2 where
    b: "compact_loop hs cap is e1 m1 = Inr (e2, m2)" "compacting hs cap e2 m2" "mset e2 = mset e1"
      "\<forall>i \<in> set is. m2 ! i \<noteq> TAG_DELETED" "\<forall>q < cap. m2 ! q = TAG_DELETED \<longrightarrow> m1 ! q = TAG_DELETED" by blast
  then show ?case using a i by auto
qed simp

section \<open>The compacted table\<close>

lemma somes_mset: "mset (somes ents) = image_mset the (filter_mset (\<lambda>e. e \<noteq> None) (mset ents))"
  by (simp add: somes_def map_filter_def)

lemma compact_table:
  assumes "wf_tbl hs ents m cap"
  shows "\<exists>ents' m'. compact_loop hs cap [0..<cap] ents (foldl (compact_mark cap) m [0..<cap]) = Inr (ents', m') \<and>
    wf_tbl hs ents' m' cap \<and> num (\<lambda>b. b = TAG_DELETED) m' cap = 0 \<and> tbl_map ents' = tbl_map ents \<and>
    length (somes ents') = length (somes ents)"
proof -
  let ?m1 = "foldl (compact_mark cap) m [0..<cap]"
  have sh: "shape m cap" "tags_ok m cap" "length ents = cap" "distinct (map fst (somes ents))" using assms by (auto simp: wf_tbl_def)
  note mk = compact_mark_all[OF sh(1,2) order.refl]
  have "compacting hs cap ents ?m1"
    using mk sh(3) full_slot[OF assms] unfolding compacting_def by auto
  then have "\<exists>ents' m'. compact_loop hs cap [0..<cap] ents ?m1 = Inr (ents', m') \<and> compacting hs cap ents' m' \<and>
      mset ents' = mset ents \<and> (\<forall>i \<in> set [0..<cap]. m' ! i \<noteq> TAG_DELETED) \<and>
      (\<forall>q < cap. m' ! q = TAG_DELETED \<longrightarrow> ?m1 ! q = TAG_DELETED)"
    by (rule compact_loop_ok) auto
  then obtain e2 m2 where
    r: "compact_loop hs cap [0..<cap] ents ?m1 = Inr (e2, m2)" "compacting hs cap e2 m2" "mset e2 = mset ents"
      "\<forall>i < cap. m2 ! i \<noteq> TAG_DELETED" by (auto simp del: foldl_Nil)
  have ms: "mset (somes e2) = mset (somes ents)" by (simp only: somes_mset r(3))
  then have d: "distinct (map fst (somes e2))"
    using sh(4) by (metis mset_eq_imp_distinct_iff mset_map)
  have "tags_ok m2 cap"
    unfolding tags_ok_def
  proof (intro allI impI)
    fix i assume i: "i < cap"
    then show "m2 ! i = TAG_EMPTY \<or> m2 ! i = TAG_DELETED \<or> \<not> bit (m2 ! i) 7"
      using r(2) hash_h2_full[of hs] by (cases "e2 ! i") (auto simp: compacting_def)
  qed
  then have "wf_tbl hs e2 m2 cap"
    using r(2,4) d settled_reach_imp_reach tag_bits(1) unfolding wf_tbl_def compacting_def by metis
  moreover have "num (\<lambda>b. b = TAG_DELETED) m2 cap = 0" using r(4) by (auto simp: num_def)
  moreover have "tbl_map e2 = tbl_map ents"
    using map_of_eqI[of "somes e2" "somes ents"] d sh(4) ms unfolding tbl_map_def
    by (metis (no_types, lifting) map_of_inject_set mset_eq_setD)
  moreover have "length (somes e2) = length (somes ents)" using ms by (metis size_mset)
  ultimately show ?thesis using r(1) by blast
qed

end
