(* ===== verification/HashShardMap.thy ===== *)
theory HashShardMap
  imports HashShardCompact
begin

text \<open>
  The hash table as a map. \<open>shard_ok\<close> is the representation invariant of a table in use, \<open>shard_map\<close> the map
  it stands for. Every operation keeps \<open>shard_ok\<close> and acts on the map as its name says, provided the
  allocator serves the growth that the load factor asks for (\<open>room\<close>).
\<close>

section \<open>Rounding\<close>

lemma bitlen_bounds: "0 < n \<Longrightarrow> 2 ^ (bitlen n - 1) \<le> n \<and> n < 2 ^ bitlen n \<and> 0 < bitlen n"
proof (induction n rule: bitlen.induct)
  case (1 n)
  show ?case
  proof (cases "n = 1")
    case True
    moreover have "bitlen 1 = 1" by (subst bitlen.simps, subst bitlen.simps) simp
    ultimately show ?thesis by simp
  next
    case False
    then have h: "0 < n div 2" using "1.prems" by (simp add: div_greater_zero_iff)
    note IH = "1.IH"[OF _ h]
    have b: "bitlen n = Suc (bitlen (n div 2))" using "1.prems" by (simp add: bitlen.simps[of n])
    obtain t where t: "bitlen (n div 2) = Suc t" using IH "1.prems" by (cases "bitlen (n div 2)") auto
    then have "2 ^ t \<le> n div 2" "n div 2 < 2 ^ Suc t" using IH "1.prems" by auto
    then have "2 ^ Suc t \<le> n" "n < 2 ^ Suc (Suc t)" by auto
    then show ?thesis using b t by simp
  qed
qed

lemma bitlen_unique: "2 ^ t \<le> n \<Longrightarrow> n < 2 ^ Suc t \<Longrightarrow> bitlen n = Suc t"
proof -
  assume a: "2 ^ t \<le> n" "n < 2 ^ Suc t"
  then have n: "0 < n" by (metis gr0I not_one_le_zero one_le_power one_le_numeral order_trans)
  note b = bitlen_bounds[OF n]
  have "2 ^ t < (2 :: nat) ^ bitlen n" "2 ^ (bitlen n - 1) < (2 :: nat) ^ Suc t"
    using a b by (meson order_le_less_trans)+
  then have "t < bitlen n" "bitlen n - 1 < Suc t" by (simp_all only: power_strict_increasing_iff one_less_numeral_iff semiring_norm)
  then show ?thesis by simp
qed

lemma bitlen_power [simp]: "bitlen (2 ^ a) = Suc a"
  by (rule bitlen_unique) simp_all

lemma round_sig_power [simp]: "0 < p \<Longrightarrow> round_sig p (2 ^ a) = 2 ^ a"
proof -
  assume p: "0 < p"
  show ?thesis
  proof (cases "Suc a \<le> p")
    case False
    then have e: "(2 :: nat) ^ a = 2 ^ (p - 1) * 2 ^ (Suc a - p)" using p by (simp flip: power_add)
    then have "2 ^ a div 2 ^ (Suc a - p) = (2 :: nat) ^ (p - 1)" "2 ^ a mod 2 ^ (Suc a - p) = (0 :: nat)" by simp_all
    then have "round_half_even (2 ^ a) (2 ^ (Suc a - p)) = 2 ^ (p - 1)" by (simp add: round_half_even_def)
    then have "round_sig p (2 ^ a) = 2 ^ (p - 1) * 2 ^ (Suc a - p)" unfolding round_sig_def Let_def bitlen_power using False by presburger
    then show ?thesis unfolding e[symmetric] .
  qed (simp add: round_sig_def)
qed

lemma round_sig_lower: "0 < n \<Longrightarrow> 7 * n < 8 * round_sig 24 n"
proof -
  assume n: "0 < n"
  show ?thesis
  proof (cases "bitlen n \<le> 24")
    case False
    then obtain d where d: "bitlen n = 24 + Suc d" by (metis add_Suc_right le_Suc_ex less_imp_Suc_add not_le)
    let ?D = "2 ^ Suc d :: nat"
    have "2 ^ (23 + Suc d) \<le> n" using bitlen_bounds[OF n] d by simp
    moreover have "8 * ?D < 2 ^ (23 + Suc d)" by (simp add: power_add)
    ultimately have "8 * ?D < n" by linarith
    moreover have "n - n mod ?D = n div ?D * ?D" by (simp add: minus_mod_eq_div_mult)
    moreover have "n mod ?D < ?D" by simp
    moreover have "n div ?D * ?D \<le> round_half_even n ?D * ?D"
      by (rule mult_right_mono) (simp_all add: round_half_even_def Let_def)
    ultimately have "7 * n < 8 * (round_half_even n ?D * ?D)" by linarith
    then show ?thesis using False d by (simp add: round_sig_def)
  qed (use n in \<open>simp add: round_sig_def\<close>)
qed

lemma load_factor_room:
  assumes "\<not> past_load_factor n (2 ^ a)" "0 < n"
  shows "n < 2 ^ a"
  using assms round_sig_lower[of n] by (simp add: past_load_factor_def)

lemma bit_ceil_power: "bit_ceil (2 ^ Suc a) = 2 ^ Suc a"
proof -
  have "bitlen (2 ^ Suc a - 1) = Suc a"
  proof (rule bitlen_unique)
    show "2 ^ a \<le> (2 :: nat) ^ Suc a - 1" using one_le_power[of "2 :: nat" a] by simp
  qed simp
  moreover have "\<not> (2 :: nat) ^ Suc a \<le> 1" using one_less_power[of "2 :: nat" "Suc a"] by linarith
  ultimately show ?thesis unfolding bit_ceil_def by simp
qed

lemma bit_ceil_ge8:
  assumes "8 \<le> n"
  obtains k where "bit_ceil n = 2 ^ (k + 3)" "n \<le> bit_ceil n"
proof -
  have n: "0 < n - 1" "n - 1 < 2 ^ bitlen (n - 1)" using assms bitlen_bounds[of "n - 1"] by auto
  have "\<not> bitlen (n - 1) \<le> 2"
  proof
    assume "bitlen (n - 1) \<le> 2"
    then have "(2 :: nat) ^ bitlen (n - 1) \<le> 2 ^ 2" by (rule power_increasing) simp
    then show False using n(2) assms by simp
  qed
  then obtain k where k: "bitlen (n - 1) = k + 3" by (metis add.commute le_Suc_ex not_less_eq_eq numeral_2_eq_2 numeral_3_eq_3)
  then show thesis using that[of k] n assms by (simp add: bit_ceil_def)
qed

section \<open>The representation invariant\<close>

definition shard_map :: "('k, 'v) shard \<Rightarrow> 'k \<Rightarrow> 'v option" where
  "shard_map s = (if ready s then tbl_map (entries s) else Map.empty)"

definition shard_ok :: "('k \<Rightarrow> u64) \<Rightarrow> nat \<Rightarrow> ('k, 'v) shard \<Rightarrow> bool" where
  "shard_ok hs esz s \<longleftrightarrow> ready s \<and> wf_tbl hs (entries s) (meta s) (capacity s) \<and>
     shard_size s = length (somes (entries s)) \<and> deletedCount s = num (\<lambda>b. b = TAG_DELETED) (meta s) (capacity s) \<and>
     shard_size s + deletedCount s < capacity s \<and> initialBucketCapacity s \<le> capacity s \<and>
     2 \<le> esz \<and> capacity s * esz < 2 ^ 64"

lemma wf_tblD:
  assumes "shard_ok hs esz s"
  shows "wf_tbl hs (entries s) (meta s) (capacity s)" "has_empty (meta s) (capacity s)" "ready s"
    "shape (meta s) (capacity s)" "tags_ok (meta s) (capacity s)" "length (entries s) = capacity s"
    "distinct (map fst (somes (entries s)))" "shard_map s = tbl_map (entries s)"
proof -
  show w: "wf_tbl hs (entries s) (meta s) (capacity s)" "ready s" using assms by (auto simp: shard_ok_def)
  then show t: "shape (meta s) (capacity s)" "tags_ok (meta s) (capacity s)" "length (entries s) = capacity s"
    "distinct (map fst (somes (entries s)))" by (auto simp: wf_tbl_def)
  show "has_empty (meta s) (capacity s)"
    unfolding has_empty_num[OF t(2)] num_full[OF w(1)] using assms by (simp add: shard_ok_def)
  show "shard_map s = tbl_map (entries s)" using w by (simp add: shard_map_def)
qed

lemma shard_size_card:
  assumes "shard_ok hs esz s"
  shows "shard_size s = card (dom (shard_map s))"
  using assms wf_tblD(7,8)[OF assms]
  by (simp add: tbl_map_def dom_map_of_conv_image_fst shard_ok_def distinct_card flip: set_map)

section \<open>Lookup and erasure\<close>

lemma Get_ok:
  assumes "shard_ok hs esz s"
  shows "Get hs key s = Inr None \<and> shard_map s key = None \<or>
    (\<exists>pos v. Get hs key s = Inr (Some pos) \<and> pos < capacity s \<and> entries s ! pos = Some (key, v) \<and> shard_map s key = Some v)"
proof (rule FindSlot_ok[OF wf_tblD(1,2)[OF assms], of key])
  note w = wf_tblD[OF assms]
  fix pos assume f: "FindSlot hs (entries s) (meta s) (capacity s) key = Inr (pos, True)" "pos < capacity s" "KeysEqual (entries s ! pos) key"
  then obtain v where "entries s ! pos = Some (key, v)" by (auto simp: KeysEqual_iff)
  then show ?thesis using f w tbl_map_nth[OF w(7)] by (auto simp: Get_def)
next
  note w = wf_tblD[OF assms]
  fix pos assume "FindSlot hs (entries s) (meta s) (capacity s) key = Inr (pos, False)"
    "\<forall>i < capacity s. \<not> KeysEqual (entries s ! i) key"
  then show ?thesis using w by (auto simp: Get_def tbl_map_None)
qed

lemma Erase_ok:
  assumes "shard_ok hs esz s"
  shows "\<exists>s'. Erase hs key s = Inr (shard_map s key \<noteq> None, s') \<and> shard_ok hs esz s' \<and>
    shard_map s' = (shard_map s)(key := None) \<and> capacity s' = capacity s \<and> initialBucketCapacity s' = initialBucketCapacity s"
proof (rule FindSlot_ok[OF wf_tblD(1,2)[OF assms], of key])
  note w = wf_tblD[OF assms]
  let ?m = "meta s" and ?c = "capacity s" and ?e = "entries s"
  fix pos assume f: "FindSlot hs ?e ?m ?c key = Inr (pos, True)" "pos < ?c" "KeysEqual (?e ! pos) key"
  then obtain v where v: "?e ! pos = Some (key, v)" by (auto simp: KeysEqual_iff)
  define tomb where "tomb \<longleftrightarrow> countl_zero (MatchEmpty (group_word ?m ((pos + ?c - GROUP_WIDTH) AND (?c - 1)))) div 8 +
    countr_zero (MatchEmpty (group_word ?m pos)) div 8 \<ge> GROUP_WIDTH"
  define t where "t = (if tomb then TAG_DELETED else TAG_EMPTY)"
  define s' where "s' = s\<lparr>entries := ?e[pos := None], meta := SetMetaByte ?m ?c pos t,
    deletedCount := (if tomb then deletedCount s + 1 else deletedCount s), shard_size := shard_size s - 1\<rparr>"
  have E: "Erase hs key s = Inr (True, s')"
    using f(1) w(3) by (simp add: Erase_def Let_def s'_def t_def tomb_def)
  have u: "distinct (map fst (somes (?e[pos := None])))" "tbl_map (?e[pos := None]) = (tbl_map ?e)(key := None)"
    using somes_update(3)[OF _ w(7) v] f(2) w(6) by auto
  have ne: "t = TAG_EMPTY \<Longrightarrow> \<not> no_empty ?m (pos div 8)"
    using erase_run[OF w(4,5) f(2)] tag_bits(6) by (auto simp: t_def tomb_def split: if_splits)
  have tb: "t = TAG_EMPTY \<or> t = TAG_DELETED" "bit t 7" "\<not> IsFull t" using tag_bits by (auto simp: t_def IsFull_bit)
  have wt: "wf_tbl hs (?e[pos := None]) (SetMetaByte ?m ?c pos t) ?c"
    by (rule wf_tbl_store[OF w(1) f(2) ne _ _ u(1)]) (use tb in auto)
  have full: "IsFull (?m ! pos)" using full_slot[OF w(1) f(2)] v by simp
  then have nd: "?m ! pos \<noteq> TAG_DELETED" using tag_bits by (auto simp: IsFull_bit)
  have c: "length (somes (?e[pos := None])) + 1 = length (somes ?e)"
    using num_SetMetaByte[OF w(4) f(2), of IsFull t] full tb(3) unfolding num_full[OF wt] num_full[OF w(1)] by simp
  have d: "num (\<lambda>b. b = TAG_DELETED) (SetMetaByte ?m ?c pos t) ?c = deletedCount s + (if tomb then 1 else 0)"
    using num_SetMetaByte[OF w(4) f(2), of "\<lambda>b. b = TAG_DELETED" t] nd assms tag_bits by (auto simp: t_def shard_ok_def)
  have "shard_size s' = length (somes (entries s'))" "deletedCount s' = num (\<lambda>b. b = TAG_DELETED) (meta s') (capacity s')"
    "shard_size s' + deletedCount s' < capacity s'"
    using c d assms by (auto simp: s'_def shard_ok_def)
  then have "shard_ok hs esz s'" using assms wt by (simp add: s'_def shard_ok_def)
  moreover have "shard_map s' = (shard_map s)(key := None)" using u(2) w(3) by (simp add: s'_def shard_map_def)
  moreover have "shard_map s key \<noteq> None" using tbl_map_nth[OF w(7) _ v] f(2) w(6,8) by simp
  ultimately show ?thesis using E by (simp add: s'_def)
next
  note w = wf_tblD[OF assms]
  fix pos assume "FindSlot hs (entries s) (meta s) (capacity s) key = Inr (pos, False)"
    "\<forall>i < capacity s. \<not> KeysEqual (entries s ! i) key"
  then show ?thesis using w assms by (auto simp: Erase_def tbl_map_None fun_upd_idem)
qed

section \<open>Making room\<close>

definition room :: "(nat \<Rightarrow> bool) \<Rightarrow> nat \<Rightarrow> ('k, 'v) shard \<Rightarrow> bool" where
  "room A esz s \<longleftrightarrow> \<not> past_load_factor (shard_size s + 1) (capacity s) \<or>
     2 * capacity s * esz < 2 ^ 64 \<and> A (2 * capacity s * esz) \<and> A (2 * capacity s + GROUP_WIDTH)"

lemma SafeByteSize_ok: "0 < e \<Longrightarrow> n * e < 2 ^ 64 \<Longrightarrow> SafeByteSize n e = Inr (n * e)"
  by (simp add: SafeByteSize_def not_less less_eq_div_iff_mult_less_eq)

lemma CompactInPlace_ok:
  assumes "shard_ok hs esz s"
  shows "\<exists>s'. CompactInPlace hs s = Inr s' \<and> shard_ok hs esz s' \<and> shard_map s' = shard_map s \<and>
    deletedCount s' = 0 \<and> shard_size s' = shard_size s \<and> capacity s' = capacity s"
proof -
  from compact_table[OF wf_tblD(1)[OF assms]] obtain e m where
    r: "compact_loop hs (capacity s) [0..<capacity s] (entries s) (foldl (compact_mark (capacity s)) (meta s) [0..<capacity s]) = Inr (e, m)"
      "wf_tbl hs e m (capacity s)" "num (\<lambda>b. b = TAG_DELETED) m (capacity s) = 0" "tbl_map e = tbl_map (entries s)"
      "length (somes e) = length (somes (entries s))" by blast
  define s' where "s' = s\<lparr>entries := e, meta := m, deletedCount := 0\<rparr>"
  have "CompactInPlace hs s = Inr s'" unfolding CompactInPlace_def Let_def r(1) by (simp add: s'_def)
  moreover have "shard_ok hs esz s'" using assms r by (simp add: shard_ok_def s'_def)
  moreover have "shard_map s' = shard_map s" using r(4) by (simp add: shard_map_def s'_def)
  ultimately show ?thesis by (auto simp: s'_def)
qed

lemma rehash_table:
  assumes wf: "wf_tbl hs ents m cap" and c: "c = 2 ^ (k + 3)" "length (somes ents) < c"
  shows "\<exists>ne nm. rehash_loop hs ents m [0..<cap] c (replicate c None) (replicate (c + GROUP_WIDTH) TAG_EMPTY) = Inr (ne, nm) \<and>
    wf_tbl hs ne nm c \<and> num (\<lambda>b. b = TAG_DELETED) nm c = 0 \<and> tbl_map ne = tbl_map ents \<and> length (somes ne) = length (somes ents)"
proof -
  have l: "length ents = cap" "distinct (map fst (somes ents))" using wf by (auto simp: wf_tbl_def)
  have m: "map ((!) ents) [0..<cap] = ents" using l(1) map_nth[of ents] by simp
  note f = fresh_table(1)[OF c(1), of hs] fresh_table(2,3)[OF c(1)]
  show ?thesis
    using rehash_loop_ok[OF f(1,2), of "[0..<cap]" m ents] full_slot[OF wf] l(2) c(2)
    unfolding m f(3) tbl_map_def GROUP_WIDTH_def by auto
qed

lemma Resize_ok:
  assumes wf: "shard_ok hs esz s" and b: "2 * capacity s * esz < 2 ^ 64" and A: "A (2 * capacity s * esz)" "A (2 * capacity s + GROUP_WIDTH)"
  shows "\<exists>s'. Resize A hs esz 0 s = Inr (True, s') \<and> shard_ok hs esz s' \<and> shard_map s' = shard_map s \<and>
    deletedCount s' = 0 \<and> shard_size s' = shard_size s \<and> capacity s' = 2 * capacity s"
proof -
  note w = wf_tblD[OF wf]
  obtain k where k: "capacity s = 2 ^ (k + 3)" using w(4) by (auto simp: shape_def)
  have e: "2 \<le> esz" "shard_size s < capacity s" "shard_size s = length (somes (entries s))" "initialBucketCapacity s \<le> capacity s"
    using wf by (auto simp: shard_ok_def)
  have "4 * capacity s \<le> 2 * capacity s * esz" using mult_le_mono2[OF e(1), of "2 * capacity s"] by simp
  then have cb: "4 * capacity s < 2 ^ 64" using b by linarith
  then have lt: "capacity s * 2 mod 2 ^ 64 = 2 * capacity s" "\<not> capacity s > 2 ^ 63" by auto
  have c: "2 * capacity s = 2 ^ ((k + 1) + 3)" "2 * capacity s = 2 ^ Suc (k + 3)" using k by (simp_all add: power_add)
  have bc: "bit_ceil (2 * capacity s) = 2 * capacity s" unfolding c(2) by (rule bit_ceil_power)
  have g: "8 \<le> capacity s" using shape_groups[OF w(4)] by blast
  have sb: "SafeByteSize (2 * capacity s) esz = Inr (2 * capacity s * esz)"
    "SafeByteSize (2 * capacity s + GROUP_WIDTH) 1 = Inr (2 * capacity s + GROUP_WIDTH)"
    using SafeByteSize_ok[of esz "2 * capacity s"] SafeByteSize_ok[of 1 "2 * capacity s + GROUP_WIDTH"] e(1) b cb g
    by (auto simp: GROUP_WIDTH_def)
  from rehash_table[OF w(1) c(1)] e(2,3) obtain ne nm where
    r: "rehash_loop hs (entries s) (meta s) [0..<capacity s] (2 * capacity s) (replicate (2 * capacity s) None)
         (replicate (2 * capacity s + GROUP_WIDTH) TAG_EMPTY) = Inr (ne, nm)"
      "wf_tbl hs ne nm (2 * capacity s)" "num (\<lambda>b. b = TAG_DELETED) nm (2 * capacity s) = 0"
      "tbl_map ne = tbl_map (entries s)" "length (somes ne) = length (somes (entries s))" by auto
  define s' where "s' = s\<lparr>entries := ne, meta := nm, capacity := 2 * capacity s, deletedCount := 0\<rparr>"
  have "\<not> 2 * capacity s < initialBucketCapacity s" "\<not> 2 * capacity s < capacity s" "\<not> 2 * capacity s < GROUP_WIDTH"
    using e(4) g by (auto simp: GROUP_WIDTH_def)
  then have "Resize A hs esz 0 s = Inr (True, s')"
    unfolding Resize_def Let_def lt(1) if_not_P[OF lt(2)] s'_def using w(3) lt(2) A by (simp add: bc sb[unfolded One_nat_def] r(1))
  moreover have "shard_ok hs esz s'" using wf r b e by (simp add: shard_ok_def s'_def)
  moreover have "shard_map s' = shard_map s" using r(4) by (simp add: shard_map_def s'_def)
  ultimately show ?thesis by (auto simp: s'_def)
qed

lemma make_room_ok:
  assumes wf: "shard_ok hs esz s" and rm: "room A esz s"
  shows "\<exists>s'. make_room A hs esz s = Inr s' \<and> shard_ok hs esz s' \<and> shard_map s' = shard_map s \<and>
    shard_size s' + deletedCount s' + 1 < capacity s' \<and> shard_size s' = shard_size s \<and> capacity s \<le> capacity s'"
proof -
  note w = wf_tblD[OF wf]
  obtain k where k: "capacity s = 2 ^ (k + 3)" using w(4) by (auto simp: shape_def)
  note lf = load_factor_room[of _ "k + 3", folded k]
  have cl: "shard_size s < capacity s" "1 \<le> capacity s" using wf by (auto simp: shard_ok_def)
  consider (plenty) "\<not> past_load_factor (shard_size s + deletedCount s + 1) (capacity s)"
    | (compact) "past_load_factor (shard_size s + deletedCount s + 1) (capacity s)" "\<not> past_load_factor (shard_size s + 1) (capacity s)"
    | (grow) "past_load_factor (shard_size s + deletedCount s + 1) (capacity s)" "past_load_factor (shard_size s + 1) (capacity s)" by blast
  then show ?thesis
  proof cases
    case plenty
    then show ?thesis using lf[OF plenty] wf by (simp add: make_room_def)
  next
    case compact
    then show ?thesis using lf[OF compact(2)] CompactInPlace_ok[OF wf] by (auto simp: make_room_def)
  next
    case grow
    then obtain s' where "Resize A hs esz 0 s = Inr (True, s')" "shard_ok hs esz s'" "shard_map s' = shard_map s"
      "deletedCount s' = 0" "shard_size s' = shard_size s" "capacity s' = 2 * capacity s"
      using Resize_ok[OF wf] rm by (auto simp: room_def)
    then show ?thesis using grow cl by (auto simp: make_room_def)
  qed
qed

section \<open>Insertion\<close>

text \<open>Writing through the position of a live entry.\<close>

lemma overwrite_ok:
  assumes ok: "shard_ok hs esz s" and pos: "pos < capacity s" and u: "entries s ! pos = Some (key, u)"
  shows "shard_ok hs esz (s\<lparr>entries := (entries s)[pos := Some (key, val)]\<rparr>)"
    and "shard_map (s\<lparr>entries := (entries s)[pos := Some (key, val)]\<rparr>) = (shard_map s)(key \<mapsto> val)"
proof -
  note w = wf_tblD[OF ok]
  note up = somes_update(2)[OF _ w(7) u, of val]
  have t: "wf_tbl hs ((entries s)[pos := Some (key, val)]) (meta s) (capacity s)"
    using w(1) up pos u unfolding wf_tbl_def by (auto simp: nth_list_update)
  moreover have "length (somes ((entries s)[pos := Some (key, val)])) = length (somes (entries s))"
    using num_full[OF t] num_full[OF w(1)] by simp
  ultimately show "shard_ok hs esz (s\<lparr>entries := (entries s)[pos := Some (key, val)]\<rparr>)" using ok by (simp add: shard_ok_def)
  show "shard_map (s\<lparr>entries := (entries s)[pos := Some (key, val)]\<rparr>) = (shard_map s)(key \<mapsto> val)"
    using up pos w by (simp add: shard_map_def)
qed

lemma store_at_ok:
  assumes "shard_ok hs esz s" "pos < capacity s" "entries s ! pos = Some (key, u)"
  shows "shard_ok hs esz (store_at s pos val) \<and> shard_map (store_at s pos val) = (shard_map s)(key \<mapsto> val) \<and>
    capacity (store_at s pos val) = capacity s \<and> shard_size (store_at s pos val) = shard_size s"
  using overwrite_ok[OF assms] assms(3) by (simp add: store_at_def)

lemma InsertOrGet_ok:
  assumes wf: "shard_ok hs esz s" and rm: "room A esz s"
  shows "\<exists>pos s'. InsertOrGet A hs esz key val ow s = Inr (Some pos, s') \<and> shard_ok hs esz s' \<and>
    shard_map s' = (if ow \<or> shard_map s key = None then (shard_map s)(key \<mapsto> val) else shard_map s) \<and>
    pos < capacity s' \<and> (\<exists>v. entries s' ! pos = Some (key, v) \<and> shard_map s' key = Some v) \<and> capacity s \<le> capacity s'"
proof -
  obtain s1 where m: "make_room A hs esz s = Inr s1" "shard_ok hs esz s1" "shard_map s1 = shard_map s"
    "shard_size s1 + deletedCount s1 + 1 < capacity s1" "capacity s \<le> capacity s1" using make_room_ok[OF wf rm] by blast
  note w = wf_tblD[OF m(2)] and r = wf_tblD(3)[OF wf]
  show ?thesis
  proof (cases "shard_map s key")
    case None
    then have "tbl_map (entries s1) key = None" using m(3) w(8) by simp
    from insert_at[OF w(1,2) this, of val] obtain pos where p: "FindSlot hs (entries s1) (meta s1) (capacity s1) key = Inr (pos, False)"
      "pos < capacity s1" "wf_tbl hs ((entries s1)[pos := Some (key, val)]) (SetMetaByte (meta s1) (capacity s1) pos (hash_h2 hs key)) (capacity s1)"
      "tbl_map ((entries s1)[pos := Some (key, val)]) = (tbl_map (entries s1))(key \<mapsto> val)"
      "length (somes ((entries s1)[pos := Some (key, val)])) = length (somes (entries s1)) + 1"
      "num (\<lambda>b. b = TAG_DELETED) (SetMetaByte (meta s1) (capacity s1) pos (hash_h2 hs key)) (capacity s1) +
       (if meta s1 ! pos = TAG_DELETED then 1 else 0) = num (\<lambda>b. b = TAG_DELETED) (meta s1) (capacity s1)" .
    define s' where "s' = s1\<lparr>entries := (entries s1)[pos := Some (key, val)],
      meta := SetMetaByte (meta s1) (capacity s1) pos (hash_h2 hs key), shard_size := shard_size s1 + 1,
      deletedCount := (if meta s1 ! pos = TAG_DELETED then deletedCount s1 - 1 else deletedCount s1)\<rparr>"
    have "InsertOrGet A hs esz key val ow s = Inr (Some pos, s')"
      using r m(1) p(1) by (simp add: InsertOrGet_def s'_def)
    moreover have "deletedCount s' = num (\<lambda>b. b = TAG_DELETED) (meta s') (capacity s')"
      "deletedCount s' \<le> deletedCount s1" using p(6) m(2) by (auto simp: s'_def shard_ok_def split: if_splits)
    then have "shard_ok hs esz s'" using m(2,4) p(3,5) by (simp add: shard_ok_def s'_def)
    moreover have "shard_map s' = (shard_map s)(key \<mapsto> val)" using p(4) w(3,8) m(3) by (simp add: shard_map_def s'_def)
    moreover have "entries s' ! pos = Some (key, val)" using p(2) w(6) by (simp add: s'_def)
    ultimately show ?thesis using None p(2) m(5) by (auto simp: s'_def)
  next
    case (Some v)
    then obtain pos where p: "FindSlot hs (entries s1) (meta s1) (capacity s1) key = Inr (pos, True)" "pos < capacity s1"
      "KeysEqual (entries s1 ! pos) key"
      using FindSlot_ok[OF w(1,2), of key] m(3) w(6,8) tbl_map_None[of "entries s1" key] by (metis option.distinct(1))
    then obtain u where u: "entries s1 ! pos = Some (key, u)" by (auto simp: KeysEqual_iff)
    then have v: "u = v" using tbl_map_nth[OF w(7) _ u] p(2) w(6,8) Some m(3) by simp
    define s' where "s' = (if ow then s1\<lparr>entries := (entries s1)[pos := Some (key, val)]\<rparr> else s1)"
    have I: "InsertOrGet A hs esz key val ow s = Inr (Some pos, s')"
      using r m(1) p(1) by (simp add: InsertOrGet_def s'_def)
    have "shard_ok hs esz s' \<and> shard_map s' = (if ow then (shard_map s)(key \<mapsto> val) else shard_map s)"
      using overwrite_ok[OF m(2) p(2) u, of val] m(2,3) by (simp add: s'_def)
    moreover have "entries s' ! pos = Some (key, if ow then val else v)"
      using u v p(2) w(6) by (auto simp: s'_def)
    ultimately show ?thesis using I Some p(2) m(5) by (auto simp: s'_def)
  qed
qed

section \<open>Initialisation\<close>

definition init_capacity :: "nat \<Rightarrow> bool \<Rightarrow> nat" where
  "init_capacity cap0 live =
     bit_ceil (max GROUP_WIDTH (if live then double_div_trunc cap0 (2 ^ 24) 11744051 + 1 else cap0))"

lemma Init_ok:
  fixes hs :: "'k \<Rightarrow> u64"
  assumes "2 \<le> esz" "init_capacity cap0 live * esz < 2 ^ 64"
    and "A (init_capacity cap0 live * esz)" "A (init_capacity cap0 live + GROUP_WIDTH)"
  shows "\<exists>s :: ('k, 'v) shard. Init A esz cap0 live new_shard = Inr s \<and> shard_ok hs esz s \<and> shard_map s = Map.empty \<and> capacity s = init_capacity cap0 live"
proof -
  let ?c = "init_capacity cap0 live"
  have mx: "max GROUP_WIDTH x = (if x < GROUP_WIDTH then GROUP_WIDTH else x)" for x by simp
  obtain k where k: "?c = 2 ^ (k + 3)" unfolding init_capacity_def
    by (rule bit_ceil_ge8[of "max GROUP_WIDTH (if live then double_div_trunc cap0 (2 ^ 24) 11744051 + 1 else cap0)"])
      (auto simp: GROUP_WIDTH_def)
  have "?c * 2 \<le> ?c * esz" using assms(1) by (rule mult_le_mono2)
  then have cb: "?c * 2 < 2 ^ 64" using assms(2) by linarith
  have c8: "8 \<le> ?c" using k by (simp add: power_add)
  then have sb: "SafeByteSize ?c esz = Inr (?c * esz)" "SafeByteSize (?c + GROUP_WIDTH) 1 = Inr (?c + GROUP_WIDTH)"
    using SafeByteSize_ok[of esz ?c] SafeByteSize_ok[of 1 "?c + GROUP_WIDTH"] assms(1,2) cb by (auto simp: GROUP_WIDTH_def)
  define s :: "('k, 'v) shard" where "s = new_shard\<lparr>ready := True, entries := replicate ?c None,
    meta := replicate (?c + GROUP_WIDTH) TAG_EMPTY, capacity := ?c, initialBucketCapacity := ?c\<rparr>"
  have "Init A esz cap0 live new_shard = Inr s"
    unfolding Init_def Let_def mx[symmetric] init_capacity_def[symmetric] sb s_def
    using assms(3,4) by (simp add: new_shard_def)
  moreover have "shard_ok hs esz s"
    using fresh_table(1)[OF k, of hs] fresh_table(2,3)[OF k] assms(1,2) c8
    by (simp add: shard_ok_def s_def GROUP_WIDTH_def new_shard_def)
  moreover have "shard_map s = Map.empty"
    using fresh_table(3)[OF k] by (simp add: shard_map_def s_def tbl_map_def)
  ultimately show ?thesis by (auto simp: s_def)
qed

lemma Init_returns:
  assumes "Init A esz cap0 live new_shard = Inr (s :: ('k, 'v) shard)" "2 \<le> esz"
  shows "shard_ok hs esz s \<and> shard_map s = Map.empty \<and> capacity s = init_capacity cap0 live"
proof -
  let ?c = "init_capacity cap0 live"
  have mx: "max GROUP_WIDTH x = (if x < GROUP_WIDTH then GROUP_WIDTH else x)" for x by simp
  have c: "\<not> ?c > (2 ^ 64 - 1) div esz" "A (?c * esz)" "A (?c + GROUP_WIDTH)"
    using assms(1) unfolding Init_def Let_def mx[symmetric] init_capacity_def[symmetric]
    by (auto simp: SafeByteSize_def split: sum.splits if_splits)
  have "?c * esz \<le> 2 ^ 64 - 1" using c(1) assms(2) by (simp add: not_less less_eq_div_iff_mult_less_eq)
  then have "?c * esz < 2 ^ 64" by simp
  from Init_ok[OF assms(2) this c(2,3), of hs] obtain s' :: "('k, 'v) shard" where
    "Init A esz cap0 live new_shard = Inr s'" "shard_ok hs esz s'" "shard_map s' = Map.empty" "capacity s' = ?c" by blast
  with assms(1) show ?thesis by simp
qed

section \<open>The map interface\<close>

text \<open>What the clients of the table rely on: a partial map with lookup through a position, insertion
  when there is room, and erasure.\<close>

locale keyed_store =
  fixes inv :: "'s \<Rightarrow> bool" and abst :: "'s \<Rightarrow> 'k \<Rightarrow> 'v option" and roomy :: "'s \<Rightarrow> bool"
    and find :: "'k \<Rightarrow> 's \<Rightarrow> fatal + 'p option" and read :: "'s \<Rightarrow> 'p \<Rightarrow> 'v option"
    and put :: "'k \<Rightarrow> 'v \<Rightarrow> 's \<Rightarrow> fatal + (bool \<times> 's)" and del :: "'k \<Rightarrow> 's \<Rightarrow> fatal + (bool \<times> 's)"
  assumes find_ok: "inv s \<Longrightarrow> find k s = Inr None \<and> abst s k = None \<or>
      (\<exists>p v. find k s = Inr (Some p) \<and> read s p = Some v \<and> abst s k = Some v)"
    and put_ok: "inv s \<Longrightarrow> roomy s \<Longrightarrow> \<exists>s'. put k v s = Inr (True, s') \<and> inv s' \<and> abst s' = (abst s)(k \<mapsto> v)"
    and del_ok: "inv s \<Longrightarrow> \<exists>s'. del k s = Inr (abst s k \<noteq> None, s') \<and> inv s' \<and> abst s' = (abst s)(k := None)"
begin

definition lookup :: "'k \<Rightarrow> 's \<Rightarrow> fatal + 'v option" where
  "lookup k s = map_sum id (\<lambda>p. Option.bind p (read s)) (find k s)"

lemma lookup_ok: "inv s \<Longrightarrow> lookup k s = Inr (abst s k)"
  using find_ok[of s k] by (auto simp: lookup_def)

lemma lookup_put:
  assumes "inv s" "roomy s"
  shows "\<exists>s'. put k v s = Inr (True, s') \<and> inv s' \<and> (\<forall>k'. lookup k' s' = (if k' = k then Inr (Some v) else lookup k' s))"
  using put_ok[OF assms, of k v] lookup_ok assms(1) by (auto simp: fun_upd_def)

lemma lookup_del:
  assumes "inv s"
  shows "\<exists>s'. del k s = Inr (lookup k s \<noteq> Inr None, s') \<and> inv s' \<and> (\<forall>k'. lookup k' s' = (if k' = k then Inr None else lookup k' s))"
  using del_ok[OF assms, of k] lookup_ok assms by (auto simp: fun_upd_def)

end

lemma Insert_ok:
  assumes "shard_ok hs esz s" "room A esz s"
  shows "\<exists>s'. Insert A hs esz key val s = Inr (True, s') \<and> shard_ok hs esz s' \<and> shard_map s' = (shard_map s)(key \<mapsto> val) \<and>
    capacity s \<le> capacity s'"
  using InsertOrGet_ok[OF assms, of key val True] by (auto simp: Insert_def)

interpretation hsm: keyed_store "shard_ok hs esz" shard_map "room A esz" "Get hs" value_at "Insert A hs esz" "Erase hs"
  for hs :: "'k \<Rightarrow> u64" and esz A
proof (unfold_locales, goal_cases)
  case (1 s k)
  then show ?case using Get_ok[OF 1, of k] by (auto simp: value_at_def)
next
  case (2 s k v)
  then show ?case using Insert_ok[OF 2, of k v] by blast
next
  case (3 s k)
  then show ?case using Erase_ok[OF 3, of k] by blast
qed

section \<open>Properties\<close>

text \<open>C8. Insertion into a well-formed table for which the allocator serves the growth the load factor
  asks for (the table may be compacted in place or rehashed into a table of twice the capacity on the
  way) succeeds, keeps the table well-formed, and afterwards \<open>Get\<close> finds the new value under the key and
  the former value, or none, under every other key.\<close>

theorem hash_insert_lookup:
  assumes "shard_ok hs esz s" "room A esz s"
  shows "\<exists>s'. Insert A hs esz key val s = Inr (True, s') \<and> shard_ok hs esz s' \<and>
    (\<forall>k. map_sum id (\<lambda>p. Option.bind p (value_at s')) (Get hs k s') =
         (if k = key then Inr (Some val) else map_sum id (\<lambda>p. Option.bind p (value_at s)) (Get hs k s)))"
  using hsm.lookup_put[OF assms, of key val] unfolding hsm.lookup_def .

text \<open>C20. Erasure in a well-formed table reports whether the key was present, keeps the table
  well-formed although it leaves an empty control byte and not a tombstone where the runs around the
  slot allow it, and afterwards \<open>Get\<close> no longer finds the key while every other lookup is unchanged.\<close>

theorem hash_erase_lookup:
  assumes "shard_ok hs esz s"
  shows "\<exists>s'. Erase hs key s = Inr (Get hs key s \<noteq> Inr None, s') \<and> shard_ok hs esz s' \<and>
    (\<forall>k. map_sum id (\<lambda>p. Option.bind p (value_at s')) (Get hs k s') =
         (if k = key then Inr None else map_sum id (\<lambda>p. Option.bind p (value_at s)) (Get hs k s)))"
proof -
  have "hsm.lookup hs key s \<noteq> Inr None \<longleftrightarrow> Get hs key s \<noteq> Inr None"
    using Get_ok[OF assms, of key] by (auto simp: hsm.lookup_def value_at_def)
  then show ?thesis using hsm.lookup_del[OF assms, of key] unfolding hsm.lookup_def by simp
qed

text \<open>C21. In-place compaction of a well-formed table always finishes: no probe walk of its second pass
  exhausts the groups and no raw storage is read. It purges every tombstone and keeps the map.\<close>

theorem hash_compact_keeps_map:
  assumes "shard_ok hs esz s"
  shows "\<exists>s'. CompactInPlace hs s = Inr s' \<and> shard_ok hs esz s' \<and> deletedCount s' = 0 \<and> shard_map s' = shard_map s"
  using CompactInPlace_ok[OF assms] by blast

section \<open>Concrete tables\<close>

definition demo_hash :: "nat \<Rightarrow> u64" where "demo_hash n = of_nat n"

definition demo_shard :: "(nat, nat) shard" where
  "demo_shard = (case Init (\<lambda>_. True) 16 8 False new_shard of Inr s \<Rightarrow> s | Inl _ \<Rightarrow> new_shard)"

lemma demo_shard_ok: "shard_ok demo_hash 16 demo_shard" "capacity demo_shard = 8" "room (\<lambda>_. True) 16 demo_shard"
proof -
  have c: "init_capacity 8 False = 8"
    by (simp add: init_capacity_def GROUP_WIDTH_def bit_ceil_def bitlen.simps)
  from Init_ok[of 16 8 False "\<lambda>_. True" demo_hash] obtain s :: "(nat, nat) shard" where
    "Init (\<lambda>_. True) 16 8 False new_shard = Inr s" "shard_ok demo_hash 16 s" "capacity s = 8" unfolding c by auto
  then show "shard_ok demo_hash 16 demo_shard" "capacity demo_shard = 8" by (auto simp: demo_shard_def)
  then show "room (\<lambda>_. True) 16 demo_shard" by (simp add: room_def)
qed

theorem hash_insert_lookup_witness:
  "\<exists>s'. Insert (\<lambda>_. True) demo_hash 16 3 4 demo_shard = Inr (True, s') \<and>
     map_sum id (\<lambda>p. Option.bind p (value_at s')) (Get demo_hash 3 s') = Inr (Some 4)"
  using hash_insert_lookup[OF demo_shard_ok(1,3), of 3 4] by auto

theorem hash_erase_lookup_witness:
  "\<exists>s'. Erase demo_hash 3 demo_shard = Inr (Get demo_hash 3 demo_shard \<noteq> Inr None, s') \<and> shard_ok demo_hash 16 s'"
  using hash_erase_lookup[OF demo_shard_ok(1), of 3] by auto

theorem hash_compact_keeps_map_witness:
  "\<exists>s'. CompactInPlace demo_hash demo_shard = Inr s' \<and> deletedCount s' = 0 \<and> shard_map s' = shard_map demo_shard"
  using hash_compact_keeps_map[OF demo_shard_ok(1)] by auto

end
