(* ===== verification/SipHash.thy ===== *)
theory SipHash
  imports WFX_Prelude
begin

text \<open>
  Model of \<open>Hasher::SipHash24\<close> (\<open>src/utils/crypto/hash.cpp\<close>): the keyed hash of the address tables.
  \<open>memcpy\<close> of eight bytes into a word is little endian, \<open>std::rotl\<close> is \<^const>\<open>word_rotl\<close>.
\<close>

unbundle bit_operations_syntax

definition le64 :: "u8 list \<Rightarrow> u64" where
  "le64 bs = foldr (\<lambda>b w. ucast b OR push_bit 8 w) (take 8 bs) 0"

type_synonym sip_state = "u64 \<times> u64 \<times> u64 \<times> u64"

definition rotl64 :: "nat \<Rightarrow> u64 \<Rightarrow> u64" where
  "rotl64 n w = push_bit n w OR drop_bit (64 - n) w"

definition sip_round :: "sip_state \<Rightarrow> sip_state" where
  "sip_round v = (case v of (v0, v1, v2, v3) \<Rightarrow>
     let v0 = v0 + v1; v1 = rotl64 13 v1; v1 = v1 XOR v0; v0 = rotl64 32 v0;
         v2 = v2 + v3; v3 = rotl64 16 v3; v3 = v3 XOR v2;
         v0 = v0 + v3; v3 = rotl64 21 v3; v3 = v3 XOR v0;
         v2 = v2 + v1; v1 = rotl64 17 v1; v1 = v1 XOR v2; v2 = rotl64 32 v2
     in (v0, v1, v2, v3))"

definition sip_absorb :: "u64 \<Rightarrow> sip_state \<Rightarrow> sip_state" where
  "sip_absorb m v = (case v of (v0, v1, v2, v3) \<Rightarrow>
     case sip_round (sip_round (v0, v1, v2, v3 XOR m)) of (v0, v1, v2, v3) \<Rightarrow> (v0 XOR m, v1, v2, v3))"

text \<open>The loop over the whole words: \<open>n\<close> of them are left, from \<open>ptr\<close> on.\<close>

fun sip_words :: "nat \<Rightarrow> u8 list \<Rightarrow> sip_state \<Rightarrow> u8 list \<times> sip_state" where
  "sip_words 0 ptr v = (ptr, v)"
| "sip_words (Suc n) ptr v = sip_words n (drop 8 ptr) (sip_absorb (le64 ptr) v)"

definition sip_last :: "u8 list \<Rightarrow> u64 \<Rightarrow> u64" where
  "sip_last ptr len =
     foldl (\<lambda>last i. last OR push_bit (i * 8) (ucast (ptr ! i))) (push_bit 56 len) [0..<unat (len AND 7)]"

definition SipHash24 :: "u8 list \<Rightarrow> u8 list \<Rightarrow> u64" where
  "SipHash24 data key =
     (let len = of_nat (length data);
          k0 = le64 key; k1 = le64 (drop 8 key);
          v = (0x736f6d6570736575 XOR k0, 0x646f72616e646f6d XOR k1, 0x6c7967656e657261 XOR k0, 0x7465646279746573 XOR k1)
      in case sip_words (length data div 8) data v of (ptr, v) \<Rightarrow>
         case sip_absorb (sip_last ptr len) v of (v0, v1, v2, v3) \<Rightarrow>
         case sip_round (sip_round (sip_round (sip_round (v0, v1, v2 XOR 0xff, v3)))) of (v0, v1, v2, v3) \<Rightarrow>
           v0 XOR v1 XOR v2 XOR v3)"




section \<open>The reference vector\<close>

lemma reference_ranges: "[0..<16] = [0,1,2,3,4,5,6,7,8,9,10,11,12,13,14,15::nat]" "[0..<15] = [0,1,2,3,4,5,6,7,8,9,10,11,12,13,14::nat]"
  "[0..<7] = [0,1,2,3,4,5,6::nat]"
  by (simp_all add: upt_rec)

lemma reference_rounds:
  shows
    "sip_round (0x7469686173716475, 0x6b617f6d656e6665, 0x6b7f62616d677361, 0x7c6d6c6a717c6d7b) =
       (0x64668a929363847f, 0x4ed232083d9aa8dc, 0xf2f74892d8141a2e, 0x9290f9810552f4a8)"
    "sip_round (0x64668a929363847f, 0x4ed232083d9aa8dc, 0xf2f74892d8141a2e, 0x9290f9810552f4a8) =
       (0x4d07749cdd0858e0, 0xd52f6f62a4f59a4, 0x634cb3577b01fd3d, 0xa5224d6f55c7d9c8)"
    "sip_round (0x4a017198de0a59e0, 0xd52f6f62a4f59a4, 0x634cb3577b01fd3d, 0xaa2c40635ecdd0c0) =
       (0x557560fb6063d060, 0x4c8e675bd961133e, 0xbd3d002b1703a181, 0xfb9441179a4a7315)"
    "sip_round (0x557560fb6063d060, 0x4c8e675bd961133e, 0xbd3d002b1703a181, 0xfb9441179a4a7315) =
       (0x338bbea7645fb759, 0x414fc3fb98efe374, 0xccf13ea527b9f4bd, 0x5293f5da84008f82)"
    "sip_round (0x3c85b3ab6f55be51, 0x414fc3fb98efe374, 0xccf13ea527b9f442, 0x5293f5da84008f82) =
       (0xf2a55244a20e48fe, 0xac5ad16ccc3ca6e4, 0x9fe5adb0a52f393a, 0xfd41d55e88f30308)"
    "sip_round (0xf2a55244a20e48fe, 0xac5ad16ccc3ca6e4, 0x9fe5adb0a52f393a, 0xfd41d55e88f30308) =
       (0xb6c3fbdecc2ae4b4, 0x1638c86adc6b3cf0, 0x28b8b6ab62553d46, 0xc9465e86ec43eb95)"
    "sip_round (0xb6c3fbdecc2ae4b4, 0x1638c86adc6b3cf0, 0x28b8b6ab62553d46, 0xc9465e86ec43eb95) =
       (0x58101b167209a5e6, 0xf8792ae75b66e7dd, 0x1da14c3ec7f0b4f7, 0x7624ba8a41bc4ad9)"
    "sip_round (0x58101b167209a5e6, 0xf8792ae75b66e7dd, 0x1da14c3ec7f0b4f7, 0x7624ba8a41bc4ad9) =
       (0xf6bcd53893fecff1, 0x54b9964c7ea0d937, 0x1b38329c099bb55a, 0x1814bb89ad7be679)"
  by (simp_all add: sip_round_def rotl64_def Let_def)

lemma reference_words: "le64 (map of_nat [0..<16]) = 0x0706050403020100" "le64 (drop 8 (map of_nat [0..<16])) = 0x0f0e0d0c0b0a0908"
  "le64 (map of_nat [0..<15]) = 0x0706050403020100"
  by (simp_all add: le64_def reference_ranges)

lemma reference_last: "sip_last (drop 8 (map of_nat [0..<15])) 15 = 0x0f0e0d0c0b0a0908"
  by (simp add: sip_last_def reference_ranges)
lemma reference_absorbs:
  "sip_absorb 0x0706050403020100 (0x7469686173716475, 0x6b617f6d656e6665, 0x6b7f62616d677361, 0x7b6b696e727e6c7b) = (0x4a017198de0a59e0, 0xd52f6f62a4f59a4, 0x634cb3577b01fd3d, 0xa5224d6f55c7d9c8)"
  "sip_absorb 0x0f0e0d0c0b0a0908 (0x4a017198de0a59e0, 0xd52f6f62a4f59a4, 0x634cb3577b01fd3d, 0xa5224d6f55c7d9c8) = (0x3c85b3ab6f55be51, 0x414fc3fb98efe374, 0xccf13ea527b9f4bd, 0x5293f5da84008f82)"
  by (simp_all add: sip_absorb_def reference_rounds)

lemma reference_xors:
  "0x736f6d6570736575 XOR 0x0706050403020100 = (0x7469686173716475 :: u64)" "0x646f72616e646f6d XOR 0x0f0e0d0c0b0a0908 = (0x6b617f6d656e6665 :: u64)"
  "0x6c7967656e657261 XOR 0x0706050403020100 = (0x6b7f62616d677361 :: u64)" "0x7465646279746573 XOR 0x0f0e0d0c0b0a0908 = (0x7b6b696e727e6c7b :: u64)"
  "0xccf13ea527b9f4bd XOR 0xff = (0xccf13ea527b9f442 :: u64)"
  "0xf6bcd53893fecff1 XOR 0x54b9964c7ea0d937 XOR 0x1b38329c099bb55a XOR 0x1814bb89ad7be679 = (0xa129ca6149be45e5 :: u64)"
  by simp_all

text \<open>The reference vector of the SipHash authors: under the key \<open>00 .. 0f\<close> the fifteen bytes
  \<open>00 .. 0e\<close> hash to \<open>a129ca6149be45e5\<close>. The computation takes one whole word, a tail of seven bytes with
  the length and the finalisation.\<close>

theorem SipHash24_reference_vector:
  "SipHash24 (map of_nat [0..<15]) (map of_nat [0..<16]) = 0xa129ca6149be45e5"
proof -
  have 1: "sip_words (length (map of_nat [0..<15] :: u8 list) div 8) (map of_nat [0..<15]) v =
    (drop 8 (map of_nat [0..<15]), sip_absorb 0x0706050403020100 v)" for v
  proof -
    have "length (map of_nat [0..<15] :: u8 list) div 8 = Suc 0" by simp
    then show ?thesis by (simp only: sip_words.simps reference_words)
  qed
  have 2: "of_nat (length (map of_nat [0..<15] :: u8 list)) = (15 :: u64)" by simp
  show ?thesis
    by (simp only: SipHash24_def Let_def reference_words 1 2 prod.case reference_last reference_absorbs reference_rounds reference_xors)
qed
end
