(* ===== verification/IpUtils.thy ===== *)
theory IpUtils
  imports SipHash HttpHeaders
begin

text \<open>
  Model of \<open>src/http/limits/ip_utils.cpp\<close>, of \<open>WFXIpAddress\<close> (\<open>src/http/connection/http_connection.hpp\<close>,
  \<open>.cpp\<close>) and of its hash. The sixteen bytes of the address union are a list. The operating system's
  \<open>inet_pton\<close> is an argument, one function per family; \<open>stack\<close> is what an address that is not
  initialised holds.
\<close>

section \<open>Addresses\<close>

definition AF_INET :: u8 where "AF_INET = 2"
definition AF_INET6 :: u8 where "AF_INET6 = 10"

record WFXIpAddress =
  raw :: "u8 list"
  port :: u16
  ip_type :: u8

text \<open>\<open>operator=\<close> on two distinct objects: the bytes the family uses, or sixteen zeros.\<close>

definition ip_assign :: "WFXIpAddress \<Rightarrow> WFXIpAddress \<Rightarrow> WFXIpAddress" where
  "ip_assign dst other =
     \<lparr>raw = (if ip_type other = AF_INET then take 4 (raw other) @ drop 4 (raw dst)
             else if ip_type other = AF_INET6 then raw other else replicate 16 0),
      port = port other, ip_type = ip_type other\<rparr>"

definition ip_eq :: "WFXIpAddress \<Rightarrow> WFXIpAddress \<Rightarrow> bool" where
  "ip_eq a b \<longleftrightarrow>
     (let len = (if ip_type a = AF_INET then 4 else 16)
      in port a = port b \<and> ip_type a = ip_type b \<and> take len (raw a) = take len (raw b))"

definition ip_hash :: "u8 list \<Rightarrow> WFXIpAddress \<Rightarrow> u64" where
  "ip_hash GlobalSipKey addr = SipHash24 (take (if ip_type addr = AF_INET then 4 else 16) (raw addr)) GlobalSipKey"

text \<open>The part of an address that \<open>operator==\<close> and the hash read. Tables keyed by addresses under this
  equality are tables keyed by this part.\<close>

type_synonym ip_key = "u8 \<times> u16 \<times> u8 list"

definition ip_key :: "WFXIpAddress \<Rightarrow> ip_key" where
  "ip_key a = (ip_type a, port a, take (if ip_type a = AF_INET then 4 else 16) (raw a))"

definition ip_key_hash :: "u8 list \<Rightarrow> ip_key \<Rightarrow> u64" where
  "ip_key_hash GlobalSipKey k = SipHash24 (snd (snd k)) GlobalSipKey"

lemma ip_eq_key: "ip_eq a b \<longleftrightarrow> ip_key a = ip_key b"
  by (auto simp: ip_eq_def ip_key_def Let_def)

lemma ip_hash_key: "ip_hash k a = ip_key_hash k (ip_key a)"
  by (simp add: ip_hash_def ip_key_hash_def ip_key_def)

lemma ip_key_assign: "length (raw other) = 16 \<Longrightarrow> ip_type other = AF_INET \<or> ip_type other = AF_INET6 \<Longrightarrow>
    ip_key (ip_assign dst other) = ip_key other"
  by (auto simp: ip_key_def ip_assign_def AF_INET_def AF_INET6_def)

section \<open>Parsing\<close>

record inet =
  pton4 :: "string \<Rightarrow> u8 list option"
  pton6 :: "string \<Rightarrow> u8 list option"
  stack :: WFXIpAddress

definition INET6_ADDRSTRLEN :: nat where "INET6_ADDRSTRLEN = 46"

definition is_v4mapped :: "u8 list \<Rightarrow> bool" where
  "is_v4mapped bs \<longleftrightarrow> take 12 bs = replicate 10 0 @ [0xFF, 0xFF]"

text \<open>What the C functions read of the zero-filled copy of a text.\<close>

definition c_str :: "string \<Rightarrow> string" where
  "c_str text = takeWhile (\<lambda>c. c \<noteq> CHR 0x00) text"

definition ParseIpAddress :: "inet \<Rightarrow> string \<Rightarrow> WFXIpAddress \<Rightarrow> WFXIpAddress option" where
  "ParseIpAddress net text out =
     (if text = [] \<or> length text \<ge> INET6_ADDRSTRLEN then None
      else
        let parsed = (stack net)\<lparr>port := 0, ip_type := 0\<rparr> in
        case pton4 net (c_str text) of
          Some v4 \<Rightarrow> Some (ip_assign out (parsed\<lparr>raw := v4 @ drop 4 (raw parsed), ip_type := AF_INET\<rparr>))
        | None \<Rightarrow>
            (case pton6 net (c_str text) of
               None \<Rightarrow> None
             | Some v6 \<Rightarrow>
                 if is_v4mapped v6 then
                   Some (ip_assign out (parsed\<lparr>raw := drop 12 v6 @ drop 4 v6, ip_type := AF_INET\<rparr>))
                 else Some (ip_assign out (parsed\<lparr>raw := v6, ip_type := AF_INET6\<rparr>))))"

record CidrBlock =
  base :: WFXIpAddress
  prefixLen :: u8

definition ParseCidr :: "inet \<Rightarrow> string \<Rightarrow> CidrBlock \<Rightarrow> CidrBlock option" where
  "ParseCidr net text out =
     (case sv_find CHR ''/'' text of
        None \<Rightarrow> None
      | Some slash \<Rightarrow>
          let addrPart = take slash text; prefixPart = drop (slash + 1) text in
          case ParseIpAddress net addrPart ((stack net)\<lparr>port := 0, ip_type := 0\<rparr>) of
            None \<Rightarrow> None
          | Some b \<Rightarrow>
              let maxPrefix = (if ip_type b = AF_INET then 32 else 128) in
              (case from_chars_unsigned (2 ^ 32 - 1) prefixPart of
                 FcOk v n \<Rightarrow>
                   if n \<noteq> length prefixPart \<or> v > maxPrefix then None
                   else Some \<lparr>base = ip_assign (base out) b, prefixLen = of_int v\<rparr>
               | _ \<Rightarrow> None))"

section \<open>Matching and normalising\<close>

definition CidrMatches :: "WFXIpAddress \<Rightarrow> CidrBlock \<Rightarrow> bool" where
  "CidrMatches ip block =
     (if ip_type ip \<noteq> ip_type (base block) then False
      else
        let fullBytes = unat (prefixLen block div 8); remBits = unat (prefixLen block mod 8) in
        if fullBytes > 0 \<and> take fullBytes (raw ip) \<noteq> take fullBytes (raw (base block)) then False
        else if remBits > 0 then
          let mask = (push_bit (8 - remBits) 0xFF :: u8)
          in raw ip ! fullBytes AND mask = raw (base block) ! fullBytes AND mask
        else True)"

definition NormalizeIp :: "WFXIpAddress \<Rightarrow> WFXIpAddress" where
  "NormalizeIp ip =
     (let out = ip\<lparr>port := 0\<rparr>
      in if ip_type ip = AF_INET then out\<lparr>raw := (raw out)[3 := 0]\<rparr>
         else out\<lparr>raw := take 8 (raw out) @ replicate 8 0\<rparr>)"

section \<open>The client's address\<close>

record IPConfig =
  maxConnectionsPerIp :: u32
  maxRequestBurstSize :: u32
  maxTokensPerSecond :: u32
  maxTrackedIdentities :: u32
  realIpRecursive :: bool
  realIpHeader :: string
  trustedProxies :: "string list"

definition IsTrustedProxy :: "inet \<Rightarrow> WFXIpAddress \<Rightarrow> IPConfig \<Rightarrow> bool" where
  "IsTrustedProxy net ip cfg \<longleftrightarrow>
     list_ex (\<lambda>cidrText. case ParseCidr net cidrText \<lparr>base = (stack net)\<lparr>port := 0, ip_type := 0\<rparr>, prefixLen = 0\<rparr> of
                           None \<Rightarrow> False | Some block \<Rightarrow> CidrMatches ip block) (trustedProxies cfg)"

text \<open>The address an uninitialised local variable holds.\<close>

abbreviation fresh_ip :: "inet \<Rightarrow> WFXIpAddress" where
  "fresh_ip net \<equiv> (stack net)\<lparr>port := 0, ip_type := 0\<rparr>"

definition trusted_hop :: "inet \<Rightarrow> IPConfig \<Rightarrow> string \<Rightarrow> bool" where
  "trusted_hop net cfg hop =
     (case ParseIpAddress net hop (fresh_ip net) of None \<Rightarrow> False | Some hopIp \<Rightarrow> IsTrustedProxy net hopIp cfg)"

function walk_hops :: "inet \<Rightarrow> IPConfig \<Rightarrow> string \<Rightarrow> string" where
  "walk_hops net cfg candidate =
     (let comma = sv_rfind CHR '','' candidate;
          hop = TrimView (case comma of None \<Rightarrow> candidate | Some c \<Rightarrow> drop (c + 1) candidate)
      in if \<not> trusted_hop net cfg hop then hop
         else (case comma of None \<Rightarrow> hop | Some c \<Rightarrow> walk_hops net cfg (take c candidate)))"
  by pat_completeness auto
termination
  by (relation "measure (\<lambda>(net, cfg, candidate). length candidate)") (auto dest: sv_rfind_lt[OF sym])

declare walk_hops.simps [simp del]

definition ResolveClientIp :: "inet \<Rightarrow> WFXIpAddress \<Rightarrow> (string, string) headers \<Rightarrow> IPConfig \<Rightarrow> WFXIpAddress" where
  "ResolveClientIp net peerIp hdrs cfg =
     (if realIpHeader cfg = [] \<or> \<not> IsTrustedProxy net peerIp cfg then peerIp
      else
        let headerValue = GetHeader id [] (realIpHeader cfg) hdrs in
        if headerValue = [] then peerIp
        else
          let candidate = (if realIpRecursive cfg then walk_hops net cfg headerValue else TrimView headerValue) in
          case ParseIpAddress net candidate (fresh_ip net) of None \<Rightarrow> peerIp | Some resolved \<Rightarrow> resolved)"

section \<open>Prefix matching\<close>

definition addr_bit :: "WFXIpAddress \<Rightarrow> nat \<Rightarrow> bool" where
  "addr_bit ip i \<longleftrightarrow> bit (raw ip ! (i div 8)) (7 - i mod 8)"

lemma bytes_eq_bits:
  assumes "n \<le> length a" "n \<le> length b"
  shows "take n a = take n b \<longleftrightarrow> (\<forall>i < 8 * n. bit (a ! (i div 8) :: u8) (7 - i mod 8) \<longleftrightarrow> bit (b ! (i div 8)) (7 - i mod 8))"
proof
  assume r: "\<forall>i < 8 * n. bit (a ! (i div 8)) (7 - i mod 8) \<longleftrightarrow> bit (b ! (i div 8)) (7 - i mod 8)"
  have "a ! q = b ! q" if q: "q < n" for q
  proof (rule bit_word_eqI)
    fix k assume k: "k < LENGTH(8)"
    then obtain j where j: "7 = k + j" using le_Suc_ex[of k 7] by auto
    then have "j < 8" "7 - j = k" by auto
    moreover from this(1) have "8 * q + j < 8 * n" "(8 * q + j) div 8 = q" "(8 * q + j) mod 8 = j" using q by auto
    ultimately show "bit (a ! q) k = bit (b ! q) k" using r by metis
  qed
  then show "take n a = take n b" using assms by (intro nth_equalityI) auto
next
  assume "take n a = take n b"
  then have "a ! q = b ! q" if "q < n" for q using that by (metis nth_take)
  then show "\<forall>i < 8 * n. bit (a ! (i div 8)) (7 - i mod 8) \<longleftrightarrow> bit (b ! (i div 8)) (7 - i mod 8)" by auto
qed

lemma masked_eq_bits:
  assumes "0 < r" "r < 8"
  shows "(x AND push_bit (8 - r) 0xFF) = (y AND push_bit (8 - r) 0xFF) \<longleftrightarrow> (\<forall>j < r. bit (x :: u8) (7 - j) \<longleftrightarrow> bit y (7 - j))"
proof -
  have m: "bit (push_bit (8 - r) 0xFF :: u8) k \<longleftrightarrow> 8 - r \<le> k \<and> k < 8" for k
  proof -
    have e: "(0xFF :: u8) = mask 8" by (simp add: mask_eq_exp_minus_1)
    show ?thesis unfolding e bit_push_bit_iff bit_mask_iff using assms by auto
  qed
  have "(x AND push_bit (8 - r) 0xFF) = (y AND push_bit (8 - r) 0xFF) \<longleftrightarrow> (\<forall>k < 8. 8 - r \<le> k \<longrightarrow> bit x k = bit y k)"
    unfolding bit_eq_iff bit_and_iff m by (auto simp: m)
  also have "\<dots> \<longleftrightarrow> (\<forall>j < r. bit x (7 - j) \<longleftrightarrow> bit y (7 - j))"
  proof (rule iffI; intro allI impI)
    fix k assume "\<forall>j < r. bit x (7 - j) \<longleftrightarrow> bit y (7 - j)" "k < 8" "8 - r \<le> k"
    moreover from this have "7 - k < r" "7 - (7 - k) = k" using assms by auto
    ultimately show "bit x k = bit y k" by metis
  qed (use assms in auto)
  finally show ?thesis .
qed

text \<open>\<open>CidrMatches\<close> is equality of the family and of the first \<open>prefixLen\<close> bits, the most significant
  bit of each byte first, whatever the split into whole bytes and a masked rest.\<close>

theorem CidrMatches_prefix:
  assumes "length (raw ip) = 16" "length (raw (base block)) = 16" "unat (prefixLen block) \<le> 128"
  shows "CidrMatches ip block \<longleftrightarrow> ip_type ip = ip_type (base block) \<and>
    (\<forall>i < unat (prefixLen block). addr_bit ip i = addr_bit (base block) i)"
proof -
  define p f r where "p = unat (prefixLen block)" and "f = p div 8" and "r = p mod 8"
  have fr: "unat (prefixLen block div 8) = f" "unat (prefixLen block mod 8) = r"
    by (simp_all add: p_def f_def r_def unat_div unat_mod)
  have p: "p = 8 * f + r" "r < 8" by (simp_all add: f_def r_def)
  have f16: "f \<le> 16" using assms(3) by (simp add: f_def p_def)
  note whole = bytes_eq_bits[of f "raw ip" "raw (base block)"]
  have rest: "(\<forall>i. 8 * f \<le> i \<and> i < p \<longrightarrow> addr_bit ip i = addr_bit (base block) i) \<longleftrightarrow>
      (\<forall>j < r. bit (raw ip ! f) (7 - j) = bit (raw (base block) ! f) (7 - j))"
  proof (rule iffI; intro allI impI)
    fix j assume a: "\<forall>i. 8 * f \<le> i \<and> i < p \<longrightarrow> addr_bit ip i = addr_bit (base block) i" "j < r"
    then have "8 * f + j < p" "(8 * f + j) div 8 = f" "(8 * f + j) mod 8 = j" using p by auto
    then show "bit (raw ip ! f) (7 - j) = bit (raw (base block) ! f) (7 - j)"
      using a(1) by (metis addr_bit_def le_add1)
  next
    fix i assume a: "\<forall>j < r. bit (raw ip ! f) (7 - j) = bit (raw (base block) ! f) (7 - j)" "8 * f \<le> i \<and> i < p"
    then obtain j where "i = 8 * f + j" "j < r" using p by (metis add_less_cancel_left le_Suc_ex)
    then show "addr_bit ip i = addr_bit (base block) i" using a(1) p by (simp add: addr_bit_def)
  qed
  have "(\<forall>i < p. addr_bit ip i = addr_bit (base block) i) \<longleftrightarrow>
      (\<forall>i < 8 * f. addr_bit ip i = addr_bit (base block) i) \<and> (\<forall>i. 8 * f \<le> i \<and> i < p \<longrightarrow> addr_bit ip i = addr_bit (base block) i)"
    using p by (metis le_add1 less_le_trans not_less)
  also have "\<dots> \<longleftrightarrow> take f (raw ip) = take f (raw (base block)) \<and>
      (r > 0 \<longrightarrow> (raw ip ! f AND push_bit (8 - r) 0xFF) = (raw (base block) ! f AND push_bit (8 - r) 0xFF))"
    using whole f16 assms masked_eq_bits[of r "raw ip ! f"] p(2) unfolding rest by (auto simp: addr_bit_def)
  finally show ?thesis unfolding CidrMatches_def Let_def fr p_def[symmetric] by auto
qed

theorem CidrMatches_prefix_witness:
  "CidrMatches \<lparr>raw = [10, 0, 255] @ replicate 13 0, port = 0, ip_type = 2\<rparr>
       \<lparr>base = \<lparr>raw = [10] @ replicate 15 0, port = 0, ip_type = 2\<rparr>, prefixLen = 12\<rparr> \<longleftrightarrow>
     (\<forall>i < 12. addr_bit \<lparr>raw = [10, 0, 255] @ replicate 13 0, port = 0, ip_type = 2\<rparr> i =
              addr_bit \<lparr>raw = [10] @ replicate 15 0, port = 0, ip_type = 2\<rparr> i)"
  using CidrMatches_prefix[of "\<lparr>raw = [10, 0, 255] @ replicate 13 0, port = 0, ip_type = 2\<rparr>"
     "\<lparr>base = \<lparr>raw = [10] @ replicate 15 0, port = 0, ip_type = 2\<rparr>, prefixLen = 12\<rparr>"] by simp

text \<open>C36. The identity the limiters count under is the subnet: the normalised addresses of two peers are
  equal under \<open>operator==\<close> exactly when one of them lies in the /24 (IPv4) or /64 (any other family) block
  of the other.\<close>

theorem limiter_key_is_subnet:
  assumes "length (raw a) = 16" "length (raw b) = 16"
  shows "ip_eq (NormalizeIp a) (NormalizeIp b) \<longleftrightarrow>
    CidrMatches a \<lparr>base = b, prefixLen = (if ip_type b = AF_INET then 24 else 64)\<rparr>"
proof (cases "ip_type b = AF_INET")
  case True
  have t: "take 4 (xs[3 := 0]) = take 3 xs @ [0]" if "length xs = 16" for xs :: "u8 list"
    using that upd_conv_take_nth_drop[of 3 xs 0] by simp
  show ?thesis
    using True assms by (auto simp: ip_eq_def NormalizeIp_def CidrMatches_def Let_def t)
next
  case False
  then show ?thesis
    using assms by (auto simp: ip_eq_def NormalizeIp_def CidrMatches_def Let_def min_def)
qed

theorem limiter_key_is_subnet_witness:
  "ip_eq (NormalizeIp \<lparr>raw = [10, 0, 0, 1] @ replicate 12 7, port = 80, ip_type = 2\<rparr>)
     (NormalizeIp \<lparr>raw = [10, 0, 0, 2] @ replicate 12 9, port = 81, ip_type = 2\<rparr>) \<longleftrightarrow>
   CidrMatches \<lparr>raw = [10, 0, 0, 1] @ replicate 12 7, port = 80, ip_type = 2\<rparr>
     \<lparr>base = \<lparr>raw = [10, 0, 0, 2] @ replicate 12 9, port = 81, ip_type = 2\<rparr>, prefixLen = 24\<rparr>"
  using limiter_key_is_subnet[of "\<lparr>raw = [10, 0, 0, 1] @ replicate 12 7, port = 80, ip_type = 2\<rparr>"
     "\<lparr>raw = [10, 0, 0, 2] @ replicate 12 9, port = 81, ip_type = 2\<rparr>"] by (simp add: AF_INET_def)

section \<open>Forwarding chains\<close>

definition pick_hop :: "inet \<Rightarrow> IPConfig \<Rightarrow> string list \<Rightarrow> string" where
  "pick_hop net cfg hops = (case List.find (\<lambda>h. \<not> trusted_hop net cfg h) hops of Some h \<Rightarrow> h | None \<Rightarrow> last hops)"

lemma sv_rfind_Some:
  assumes "sv_rfind c xs = Some n"
  shows "xs = take n xs @ c # drop (n + 1) xs \<and> c \<notin> set (drop (n + 1) xs)"
proof -
  obtain m where m: "sv_find c (rev xs) = Some m" "n = length xs - 1 - m" using assms by (auto simp: sv_rfind_def)
  then have f: "m < length xs" "rev xs ! m = c" "c \<notin> set (take m (rev xs))"
    using sv_find_Some[of c "rev xs" m] by (auto simp: in_set_conv_nth)
  then have "n < length xs" "xs ! n = c" using m(2) by (auto simp: rev_nth)
  moreover have "take m (rev xs) = rev (drop (n + 1) xs)" using m(2) f(1) by (simp add: take_rev Suc_diff_Suc)
  ultimately show ?thesis using f(3) id_take_nth_drop[of n xs] by simp
qed

lemma segments_snoc: "c \<notin> set ys \<Longrightarrow> segments c (xs @ c # ys) = segments c xs @ [ys]"
proof (induction xs)
  case (Cons x xs)
  then show ?case by (cases "segments c xs") auto
qed (simp add: segments_no_sep)

text \<open>C35. With \<open>realIpRecursive\<close> the walk over a forwarding chain stops at the rightmost hop that is not
  itself a trusted proxy, and takes the leftmost hop when all of them are trusted. Hops are the trimmed
  pieces between the commas.\<close>

theorem walk_hops_rightmost_untrusted:
  "walk_hops net cfg candidate = pick_hop net cfg (rev (map TrimView (segments CHR '','' candidate)))"
proof (induction net cfg candidate rule: walk_hops.induct)
  case (1 net cfg candidate)
  show ?case
  proof (cases "sv_rfind CHR '','' candidate")
    case None
    then have "segments CHR '','' candidate = [candidate]" by (simp add: segments_no_sep sv_rfind_None)
    then show ?thesis using None by (simp add: walk_hops.simps[of _ _ candidate] pick_hop_def)
  next
    case (Some n)
    then have s: "segments CHR '','' candidate = segments CHR '','' (take n candidate) @ [drop (n + 1) candidate]"
      using sv_rfind_Some segments_snoc by metis
    have "last (h # rev (map TrimView (segments CHR '','' t))) = last (rev (map TrimView (segments CHR '','' t)))" for h t
      by (rule last_ConsR) simp
    then show ?thesis
      using Some 1[OF refl refl _ Some] by (simp del: last.simps last_rev add: walk_hops.simps[of _ _ candidate] s pick_hop_def split: option.split)
  qed
qed

lemma segments_append: "segments c (xs @ c # ys) = segments c xs @ segments c ys"
proof (induction xs)
  case (Cons x xs)
  then show ?case by (cases "segments c xs") auto
qed simp

text \<open>C23. A client cannot choose its own identity. Whatever it writes into the forwarding header, once
  the proxies have appended the address \<open>hop\<close> they saw, which no trusted block covers, and trusted hops
  behind it, the resolved address is that of \<open>hop\<close>, or the peer's when \<open>hop\<close> is no address.\<close>

theorem forged_hops_are_ignored:
  assumes "realIpRecursive cfg" "realIpHeader cfg \<noteq> []" "IsTrustedProxy net peer cfg"
    and "GetHeader id [] (realIpHeader cfg) hdrs = forged @ CHR '','' # chain"
    and "segments CHR '','' chain = hop # proxies"
    and "\<not> trusted_hop net cfg (TrimView hop)" "\<forall>p \<in> set proxies. trusted_hop net cfg (TrimView p)"
  shows "ResolveClientIp net peer hdrs cfg =
    (case ParseIpAddress net (TrimView hop) (fresh_ip net) of None \<Rightarrow> peer | Some ip \<Rightarrow> ip)"
proof -
  have "List.find (\<lambda>h. \<not> trusted_hop net cfg h) (rev (map TrimView proxies)) = None"
    using assms(7) by (auto simp: find_None_iff)
  moreover have "List.find P (xs @ ys) = (case List.find P xs of Some x \<Rightarrow> Some x | None \<Rightarrow> List.find P ys)"
    for P :: "string \<Rightarrow> bool" and xs ys by (induction xs) auto
  ultimately have "walk_hops net cfg (forged @ CHR '','' # chain) = TrimView hop"
    using assms(5,6) unfolding walk_hops_rightmost_untrusted segments_append by (simp add: pick_hop_def)
  then show ?thesis using assms(1-4) by (simp add: ResolveClientIp_def)
qed

definition demo_inet :: inet where
  "demo_inet = \<lparr>pton4 = (\<lambda>t. if t = ''10.0.0.0'' then Some [10, 0, 0, 0] else if t = ''10.0.0.1'' then Some [10, 0, 0, 1]
                             else if t = ''8.8.8.8'' then Some [8, 8, 8, 8] else None),
                pton6 = (\<lambda>t. None), stack = \<lparr>raw = replicate 16 0, port = 0, ip_type = 0\<rparr>\<rparr>"

definition demo_ip_config :: IPConfig where
  "demo_ip_config = \<lparr>maxConnectionsPerIp = 20, maxRequestBurstSize = 10, maxTokensPerSecond = 5,
     maxTrackedIdentities = 64, realIpRecursive = True, realIpHeader = ''X-Real'', trustedProxies = [''10.0.0.0/8'']\<rparr>"

definition demo_proxy :: WFXIpAddress where
  "demo_proxy = \<lparr>raw = [10, 0, 0, 1] @ replicate 12 0, port = 0, ip_type = 2\<rparr>"

lemma demo_fields:
  "stack demo_inet = \<lparr>raw = replicate 16 0, port = 0, ip_type = 0\<rparr>" "trustedProxies demo_ip_config = [''10.0.0.0/8'']"
  by (simp_all add: demo_inet_def demo_ip_config_def)

lemma demo_parse:
  "ParseIpAddress demo_inet ''10.0.0.0'' ip = Some (ip_assign ip \<lparr>raw = [10, 0, 0, 0] @ replicate 12 0, port = 0, ip_type = 2\<rparr>)"
  "ParseIpAddress demo_inet ''10.0.0.1'' ip = Some (ip_assign ip demo_proxy)"
  "ParseIpAddress demo_inet ''8.8.8.8'' ip = Some (ip_assign ip \<lparr>raw = [8, 8, 8, 8] @ replicate 12 0, port = 0, ip_type = 2\<rparr>)"
  by (simp_all add: ParseIpAddress_def demo_inet_def c_str_def INET6_ADDRSTRLEN_def AF_INET_def demo_proxy_def numeral_eq_Suc)

lemma demo_cidr: "ParseCidr demo_inet ''10.0.0.0/8'' b =
    Some \<lparr>base = ip_assign (base b) (ip_assign (fresh_ip demo_inet) \<lparr>raw = [10, 0, 0, 0] @ replicate 12 0, port = 0, ip_type = 2\<rparr>), prefixLen = 8\<rparr>"
proof -
  have "sv_find CHR ''/'' ''10.0.0.0/8'' = Some 8" by simp
  moreover have "from_chars_unsigned (2 ^ 32 - 1) ''8'' = FcOk 8 1"
    by (simp add: from_chars_unsigned_def is_digit_def digits_val_def digit_val_def less_eq_char_def)
  ultimately show ?thesis by (simp add: ParseCidr_def demo_parse ip_assign_def)
qed

theorem forged_hops_are_ignored_witness:
  "ResolveClientIp demo_inet demo_proxy [(''x-real'', ''6.6.6.6, 8.8.8.8, 10.0.0.1'')] demo_ip_config =
    \<lparr>raw = [8, 8, 8, 8] @ replicate 12 0, port = 0, ip_type = 2\<rparr>"
proof -
  have trim: "TrimView '' 8.8.8.8'' = ''8.8.8.8''" "TrimView '' 10.0.0.1'' = ''10.0.0.1''" by code_simp+
  have t: "trusted_hop demo_inet demo_ip_config ''10.0.0.1''" "\<not> trusted_hop demo_inet demo_ip_config ''8.8.8.8''"
    "IsTrustedProxy demo_inet demo_proxy demo_ip_config"
    by (simp_all add: trusted_hop_def demo_parse IsTrustedProxy_def demo_fields demo_cidr CidrMatches_def Let_def
        ip_assign_def demo_proxy_def AF_INET_def)
  have h: "GetHeader id [] ''X-Real'' [(''x-real'', ''6.6.6.6, 8.8.8.8, 10.0.0.1'')] = ''6.6.6.6'' @ CHR '','' # '' 8.8.8.8, 10.0.0.1''"
    "segments CHR '','' '' 8.8.8.8, 10.0.0.1'' = '' 8.8.8.8'' # ['' 10.0.0.1'']" by code_simp+
  have "ResolveClientIp demo_inet demo_proxy [(''x-real'', ''6.6.6.6, 8.8.8.8, 10.0.0.1'')] demo_ip_config =
    (case ParseIpAddress demo_inet (TrimView '' 8.8.8.8'') (fresh_ip demo_inet) of None \<Rightarrow> demo_proxy | Some ip \<Rightarrow> ip)"
    by (rule forged_hops_are_ignored[where forged = "''6.6.6.6''" and chain = "'' 8.8.8.8, 10.0.0.1''"
          and proxies = "['' 10.0.0.1'']"]) (use t h trim in \<open>simp_all add: demo_ip_config_def\<close>)
  then show ?thesis by (simp add: trim demo_parse ip_assign_def AF_INET_def AF_INET6_def demo_fields)
qed

end
