(* ===== verification/ConnectionLimiter.thy ===== *)
theory ConnectionLimiter
  imports HashShardMap IpUtils
begin

text \<open>
  Model of \<open>src/http/limits/connection_limiter.cpp\<close>: a hash table from the subnet of the peer to its
  number of open connections. \<open>hk\<close> is the process-wide SipHash key, \<open>A\<close> the allocator and \<open>esz\<close> the size
  of a table entry, as for the table itself.
\<close>

section \<open>Operations\<close>

type_synonym limiter = "(ip_key, u32) shard"

abbreviation subnet_key :: "WFXIpAddress \<Rightarrow> ip_key" where
  "subnet_key ip \<equiv> ip_key (NormalizeIp ip)"

definition ConnectionLimiter_new :: "(nat \<Rightarrow> bool) \<Rightarrow> nat \<Rightarrow> fatal + limiter" where
  "ConnectionLimiter_new A esz = Init A esz 512 False new_shard"

definition AllowConnection ::
  "(nat \<Rightarrow> bool) \<Rightarrow> u8 list \<Rightarrow> nat \<Rightarrow> IPConfig \<Rightarrow> WFXIpAddress \<Rightarrow> limiter \<Rightarrow> fatal + (bool \<times> limiter)" where
  "AllowConnection A hk esz cfg ip s =
     (case GetOrInsert A (ip_key_hash hk) esz (subnet_key ip) 0 s of
        Inl e \<Rightarrow> Inl e
      | Inr (None, s1) \<Rightarrow> Inr (False, s1)
      | Inr (Some entry, s1) \<Rightarrow>
          (case value_at s1 entry of
             None \<Rightarrow> Inl (Fatal ''read of raw storage'')
           | Some connectionCount \<Rightarrow>
               if connectionCount \<ge> maxConnectionsPerIp cfg then Inr (False, s1)
               else Inr (True, store_at s1 entry (connectionCount + 1))))"

definition ReleaseConnection :: "u8 list \<Rightarrow> WFXIpAddress \<Rightarrow> limiter \<Rightarrow> fatal + limiter" where
  "ReleaseConnection hk ip s =
     (let key = subnet_key ip in
      case Get (ip_key_hash hk) key s of
        Inl e \<Rightarrow> Inl e
      | Inr None \<Rightarrow> Inr s
      | Inr (Some entry) \<Rightarrow>
          (case value_at s entry of
             None \<Rightarrow> Inl (Fatal ''read of raw storage'')
           | Some c \<Rightarrow>
               let c' = c - (if c > 0 then 1 else 0); s1 = store_at s entry c' in
               if c' = 0 then map_sum id snd (Erase (ip_key_hash hk) key s1) else Inr s1))"

section \<open>Counting connections\<close>

definition conns :: "limiter \<Rightarrow> ip_key \<Rightarrow> nat" where
  "conns s k = (case shard_map s k of None \<Rightarrow> 0 | Some c \<Rightarrow> unat c)"

lemma AllowConnection_ok:
  assumes ok: "shard_ok (ip_key_hash hk) esz s" and rm: "room A esz s"
  shows "\<exists>s'. AllowConnection A hk esz cfg ip s = Inr (conns s (subnet_key ip) < unat (maxConnectionsPerIp cfg), s') \<and>
    shard_ok (ip_key_hash hk) esz s' \<and>
    conns s' = (conns s)(subnet_key ip :=
       conns s (subnet_key ip) + (if conns s (subnet_key ip) < unat (maxConnectionsPerIp cfg) then 1 else 0))"
proof -
  let ?k = "subnet_key ip" and ?max = "maxConnectionsPerIp cfg"
  obtain p s1 v where g: "GetOrInsert A (ip_key_hash hk) esz ?k 0 s = Inr (Some p, s1)" "shard_ok (ip_key_hash hk) esz s1"
    "shard_map s1 = (if shard_map s ?k = None then (shard_map s)(?k \<mapsto> 0) else shard_map s)" "p < capacity s1"
    "entries s1 ! p = Some (?k, v)" "shard_map s1 ?k = Some v"
    using InsertOrGet_ok[OF ok rm, of ?k 0 False] unfolding GetOrInsert_def by auto
  have v: "unat v = conns s ?k" using g(3,6) by (auto simp: conns_def split: if_splits option.splits)
  have va: "value_at s1 p = Some v" using g(5) by (simp add: value_at_def)
  have c1: "conns s1 = conns s" using g(3) by (auto simp: conns_def fun_eq_iff split: option.splits)
  show ?thesis
  proof (cases "v \<ge> ?max")
    case True
    then have "AllowConnection A hk esz cfg ip s = Inr (False, s1)" using g(1) va by (simp add: AllowConnection_def)
    moreover have "\<not> conns s ?k < unat ?max" using True v by (simp add: word_le_nat_alt)
    ultimately show ?thesis using g(2) c1 by simp
  next
    case False
    then have "AllowConnection A hk esz cfg ip s = Inr (True, store_at s1 p (v + 1))" using g(1) va by (simp add: AllowConnection_def)
    moreover have lt: "conns s ?k < unat ?max" using False v by (simp add: word_le_nat_alt)
    moreover have "unat (v + 1) = unat v + 1"
    proof -
      have "unat v + 1 < 2 ^ 32" using lt v unat_u32_lt[of ?max] by simp
      then show ?thesis by (simp add: unat_word_ariths)
    qed
    moreover note store_at_ok[OF g(2,4,5), of "v + 1"]
    ultimately show ?thesis using c1 v by (auto simp: conns_def fun_eq_iff)
  qed
qed

lemma ReleaseConnection_ok:
  assumes ok: "shard_ok (ip_key_hash hk) esz s"
  shows "\<exists>s'. ReleaseConnection hk ip s = Inr s' \<and> shard_ok (ip_key_hash hk) esz s' \<and>
    conns s' = (conns s)(subnet_key ip := conns s (subnet_key ip) - 1) \<and>
    (shard_map s' (subnet_key ip) \<noteq> None \<longleftrightarrow> conns s (subnet_key ip) > 1) \<and>
    (\<forall>k. k \<noteq> subnet_key ip \<longrightarrow> shard_map s' k = shard_map s k)"
proof -
  let ?k = "subnet_key ip"
  consider (none) "Get (ip_key_hash hk) ?k s = Inr None" "shard_map s ?k = None"
    | (some) p v where "Get (ip_key_hash hk) ?k s = Inr (Some p)" "p < capacity s" "entries s ! p = Some (?k, v)" "shard_map s ?k = Some v"
    using Get_ok[OF ok, of ?k] by auto
  then show ?thesis
  proof cases
    case none
    then show ?thesis using ok by (auto simp: ReleaseConnection_def conns_def fun_eq_iff)
  next
    case (some p v)
    define v' where "v' = v - (if v > 0 then 1 else 0)"
    have v': "unat v' = unat v - 1"
      unfolding v'_def by (cases "v = 0") (auto simp: unat_sub word_le_nat_alt word_neq_0_conv unat_gt_0 Suc_le_eq)
    have va: "value_at s p = Some v" using some(3) by (simp add: value_at_def)
    let ?s1 = "store_at s p v'"
    note st = store_at_ok[OF ok some(2,3), of v']
    obtain s2 where er: "Erase (ip_key_hash hk) ?k ?s1 = Inr (True, s2)" "shard_ok (ip_key_hash hk) esz s2"
      "shard_map s2 = (shard_map ?s1)(?k := None)"
      using Erase_ok[of "ip_key_hash hk" esz ?s1 ?k] st by auto
    define s' where "s' = (if v' = 0 then s2 else ?s1)"
    have "map_sum id snd (Erase (ip_key_hash hk) ?k ?s1) = Inr s2" using er(1) by simp
    then have "ReleaseConnection hk ip s = Inr s'"
      unfolding ReleaseConnection_def Let_def some(1) s'_def by (simp only: sum.case option.case va v'_def[symmetric] if_distrib[of Inr])
    moreover have "shard_ok (ip_key_hash hk) esz s'" using er(2) st by (simp add: s'_def)
    moreover have "conns s' = (conns s)(?k := conns s ?k - 1)"
      using st er(3) v' some(4) by (auto simp: s'_def conns_def fun_eq_iff split: option.splits)
    moreover have "shard_map s' ?k \<noteq> None \<longleftrightarrow> conns s ?k > 1"
      using st er(3) v' some(4) by (auto simp: s'_def conns_def unat_eq_0[symmetric] simp del: unat_eq_zero)
    moreover have "\<forall>k. k \<noteq> ?k \<longrightarrow> shard_map s' k = shard_map s k" using st er(3) by (simp add: s'_def)
    ultimately show ?thesis by blast
  qed
qed

section \<open>Histories\<close>

text \<open>A run of the server's accept loop. The ghost component counts the connections that were admitted
  and are not closed; a connection closes once, and only after it was admitted.\<close>

inductive limiter_run :: "(nat \<Rightarrow> bool) \<Rightarrow> u8 list \<Rightarrow> nat \<Rightarrow> IPConfig \<Rightarrow> limiter \<Rightarrow> (ip_key \<Rightarrow> nat) \<Rightarrow> bool"
  for A hk esz cfg where
  start: "ConnectionLimiter_new A esz = Inr s \<Longrightarrow> limiter_run A hk esz cfg s (\<lambda>_. 0)"
| connect: "limiter_run A hk esz cfg s opened \<Longrightarrow> room A esz s \<Longrightarrow> AllowConnection A hk esz cfg ip s = Inr (admitted, s') \<Longrightarrow>
    limiter_run A hk esz cfg s' (if admitted then opened(subnet_key ip := opened (subnet_key ip) + 1) else opened)"
| close: "limiter_run A hk esz cfg s opened \<Longrightarrow> 0 < opened (subnet_key ip) \<Longrightarrow> ReleaseConnection hk ip s = Inr s' \<Longrightarrow>
    limiter_run A hk esz cfg s' (opened(subnet_key ip := opened (subnet_key ip) - 1))"

lemma limiter_run_counts:
  "limiter_run A hk esz cfg s opened \<Longrightarrow> 2 \<le> esz \<Longrightarrow>
    shard_ok (ip_key_hash hk) esz s \<and> conns s = opened \<and> (\<forall>k. opened k \<le> unat (maxConnectionsPerIp cfg))"
proof (induction rule: limiter_run.induct)
  case (start s)
  then show ?case
    using Init_returns[of A esz 512 False s "ip_key_hash hk"] by (simp add: ConnectionLimiter_new_def conns_def fun_eq_iff)
next
  case (connect s opened ip admitted s')
  then show ?case using AllowConnection_ok[of hk esz s A cfg ip] by (auto split: if_splits)
next
  case (close s opened ip s')
  then have "conns s (subnet_key ip) - 1 \<le> unat (maxConnectionsPerIp cfg)" by (metis diff_le_self le_trans)
  then show ?case using close ReleaseConnection_ok[of hk esz s ip] by auto
qed

text \<open>C13. The limit holds and is exact. In every history of admissions and closings, as long as the
  allocator serves the table's growth, no subnet ever has more open connections than
  \<open>maxConnectionsPerIp\<close>, and the next attempt from a peer is answered, and admitted exactly when its
  subnet is below the limit.\<close>

theorem connection_limit_is_exact:
  assumes "2 \<le> esz" "limiter_run A hk esz cfg s opened" "room A esz s"
  shows "(\<forall>k. opened k \<le> unat (maxConnectionsPerIp cfg)) \<and>
    (\<exists>s'. AllowConnection A hk esz cfg ip s = Inr (opened (subnet_key ip) < unat (maxConnectionsPerIp cfg), s'))"
  using limiter_run_counts[OF assms(2,1)] AllowConnection_ok[of hk esz s A cfg ip] assms(3) by auto

lemma demo_limiter: "\<exists>s. limiter_run (\<lambda>_. True) [] 24 demo_ip_config s (\<lambda>_. 0) \<and> room (\<lambda>_. True) 24 s"
proof -
  have c: "init_capacity 512 False = 512"
    by (simp add: init_capacity_def GROUP_WIDTH_def bit_ceil_def bitlen.simps)
  from Init_ok[of 24 512 False "\<lambda>_. True" "ip_key_hash []"] obtain s :: limiter where
    s: "Init (\<lambda>_. True) 24 512 False new_shard = Inr s" "shard_ok (ip_key_hash []) 24 s" "shard_map s = Map.empty"
      "capacity s = 512" unfolding c by auto
  then have "limiter_run (\<lambda>_. True) [] 24 demo_ip_config s (\<lambda>_. 0)"
    by (intro limiter_run.start) (simp add: ConnectionLimiter_new_def)
  then show ?thesis using s(4) by (auto simp: room_def)
qed

theorem connection_limit_is_exact_witness:
  "\<exists>s s'. limiter_run (\<lambda>_. True) [] 24 demo_ip_config s (\<lambda>_. 0) \<and>
     AllowConnection (\<lambda>_. True) [] 24 demo_ip_config demo_proxy s = Inr (True, s')"
proof -
  obtain s where s: "limiter_run (\<lambda>_. True) [] 24 demo_ip_config s (\<lambda>_. 0)" "room (\<lambda>_. True) 24 s" using demo_limiter by blast
  from connection_limit_is_exact[OF _ s, of demo_proxy] s(1) show ?thesis by (auto simp: demo_ip_config_def)
qed

end
