(* ===== verification/RateLimiter.thy ===== *)
theory RateLimiter
  imports HashShardMap IpUtils BitmapPool
begin

text \<open>
  Model of \<open>src/http/limits/request_rate_limiter.cpp\<close>: token buckets per resolved subnet. The buckets
  live in the slots of a bitmap pool and form a doubly linked list in the order of their last use; a
  hash table maps a subnet to its slot. The steady clock, in nanoseconds, is an argument.
\<close>

section \<open>State\<close>

record lru_node =
  node_key :: WFXIpAddress
  refCount :: u32
  tokens :: u64
  lastRefill :: int
  lru_prev :: u32
  lru_next :: u32

record rate_limiter =
  rl_pool :: pool
  nodes :: "lru_node list"
  rl_index :: "(ip_key, u32) shard"
  lru_head :: u32
  lru_tail :: u32

definition K_NO_LIMITER_NODE :: u32 where "K_NO_LIMITER_NODE = 0xFFFFFFFF"

definition RequestRateLimiter_new ::
  "(nat \<Rightarrow> bool) \<Rightarrow> nat \<Rightarrow> IPConfig \<Rightarrow> lru_node \<Rightarrow> fatal + rate_limiter" where
  "RequestRateLimiter_new A esz cfg node0 =
     (case BitmapPool_new True (maxTrackedIdentities cfg) False of
        Inl e \<Rightarrow> Inl e
      | Inr p \<Rightarrow> map_sum id (\<lambda>ix. \<lparr>rl_pool = p, nodes = replicate (unat (slots p)) node0, rl_index = ix,
                                   lru_head = K_NO_LIMITER_NODE, lru_tail = K_NO_LIMITER_NODE\<rparr>)
                   (Init A esz (unat (maxTrackedIdentities cfg)) True new_shard))"

section \<open>The list of recent use\<close>

definition GetPtr :: "u32 \<Rightarrow> rate_limiter \<Rightarrow> lru_node" where
  "GetPtr idx s = nodes s ! unat idx"

definition upd_node :: "u32 \<Rightarrow> (lru_node \<Rightarrow> lru_node) \<Rightarrow> rate_limiter \<Rightarrow> rate_limiter" where
  "upd_node idx f s = s\<lparr>nodes := (nodes s)[unat idx := f (nodes s ! unat idx)]\<rparr>"

definition Unlink :: "u32 \<Rightarrow> rate_limiter \<Rightarrow> rate_limiter" where
  "Unlink idx s =
     (let s1 = (if lru_prev (GetPtr idx s) \<noteq> K_NO_LIMITER_NODE
                then upd_node (lru_prev (GetPtr idx s)) (lru_next_update (\<lambda>_. lru_next (GetPtr idx s))) s
                else s\<lparr>lru_head := lru_next (GetPtr idx s)\<rparr>);
          s2 = (if lru_next (GetPtr idx s1) \<noteq> K_NO_LIMITER_NODE
                then upd_node (lru_next (GetPtr idx s1)) (lru_prev_update (\<lambda>_. lru_prev (GetPtr idx s1))) s1
                else s1\<lparr>lru_tail := lru_prev (GetPtr idx s1)\<rparr>)
      in upd_node idx (\<lambda>n. n\<lparr>lru_prev := K_NO_LIMITER_NODE, lru_next := K_NO_LIMITER_NODE\<rparr>) s2)"

definition LinkFront :: "u32 \<Rightarrow> rate_limiter \<Rightarrow> rate_limiter" where
  "LinkFront idx s =
     (let s1 = upd_node idx (\<lambda>n. n\<lparr>lru_prev := K_NO_LIMITER_NODE, lru_next := lru_head s\<rparr>) s;
          s2 = (if lru_head s1 \<noteq> K_NO_LIMITER_NODE then upd_node (lru_head s1) (lru_prev_update (\<lambda>_. idx)) s1 else s1);
          s3 = s2\<lparr>lru_head := idx\<rparr>
      in if lru_tail s3 = K_NO_LIMITER_NODE then s3\<lparr>lru_tail := idx\<rparr> else s3)"

definition Touch :: "u32 \<Rightarrow> rate_limiter \<Rightarrow> rate_limiter" where
  "Touch idx s = (if idx = lru_head s then s else LinkFront idx (Unlink idx s))"

text \<open>The eviction walk from the tail towards the head; \<^const>\<open>None\<close> is a walk that the fuel, one round
  more than there are nodes, does not finish.\<close>

fun find_victim :: "nat \<Rightarrow> lru_node list \<Rightarrow> u32 \<Rightarrow> u32 option" where
  "find_victim 0 ns victim = None"
| "find_victim (Suc n) ns victim =
     (if victim \<noteq> K_NO_LIMITER_NODE \<and> refCount (ns ! unat victim) > 0
      then find_victim n ns (lru_prev (ns ! unat victim)) else Some victim)"

section \<open>Operations\<close>

definition track ::
  "(nat \<Rightarrow> bool) \<Rightarrow> u8 list \<Rightarrow> nat \<Rightarrow> int \<Rightarrow> WFXIpAddress \<Rightarrow> u32 \<Rightarrow> rate_limiter \<Rightarrow>
     fatal + (u32 option \<times> bool \<times> rate_limiter)" where
  "track A hk esz now key idx s =
     (case Insert A (ip_key_hash hk) esz (ip_key key) idx (rl_index s) of
        Inl e \<Rightarrow> Inl e
      | Inr (False, ix) \<Rightarrow> Inr (None, False, s\<lparr>rl_index := ix\<rparr>)
      | Inr (True, ix) \<Rightarrow>
          Inr (Some idx, True,
            LinkFront idx (upd_node idx (\<lambda>n. n\<lparr>node_key := ip_assign (node_key n) key,
                                              refCount := 0, tokens := 0, lastRefill := now\<rparr>)
                             (s\<lparr>rl_index := ix\<rparr>))))"

definition FindOrCreate ::
  "(nat \<Rightarrow> bool) \<Rightarrow> u8 list \<Rightarrow> nat \<Rightarrow> int \<Rightarrow> WFXIpAddress \<Rightarrow> rate_limiter \<Rightarrow>
     fatal + (u32 option \<times> bool \<times> rate_limiter)" where
  "FindOrCreate A hk esz now ip s =
     (let key = NormalizeIp ip in
      case Get (ip_key_hash hk) (ip_key key) (rl_index s) of
        Inl e \<Rightarrow> Inl e
      | Inr (Some p) \<Rightarrow>
          (case value_at (rl_index s) p of
             None \<Rightarrow> Inl (Fatal ''read of raw storage'')
           | Some idx \<Rightarrow> Inr (Some idx, False, Touch idx s))
      | Inr None \<Rightarrow>
          (case AllocSlot (rl_pool s) of
             (Some i, p') \<Rightarrow> track A hk esz now key (of_nat i) (s\<lparr>rl_pool := p'\<rparr>)
           | (None, p') \<Rightarrow>
               (case find_victim (Suc (length (nodes s))) (nodes s) (lru_tail s) of
                  None \<Rightarrow> Inl (Fatal ''eviction walk does not end'')
                | Some victim \<Rightarrow>
                    if victim = K_NO_LIMITER_NODE then Inr (None, False, s)
                    else
                      let s1 = Unlink victim s in
                      case Erase (ip_key_hash hk) (ip_key (node_key (GetPtr victim s1))) (rl_index s1) of
                        Inl e \<Rightarrow> Inl e
                      | Inr (_, ix) \<Rightarrow> track A hk esz now key victim (s1\<lparr>rl_index := ix\<rparr>))))"

definition Acquire ::
  "(nat \<Rightarrow> bool) \<Rightarrow> u8 list \<Rightarrow> nat \<Rightarrow> IPConfig \<Rightarrow> int \<Rightarrow> WFXIpAddress \<Rightarrow> rate_limiter \<Rightarrow> fatal + (bool \<times> rate_limiter)" where
  "Acquire A hk esz cfg now ip s =
     (case FindOrCreate A hk esz now ip s of
        Inl e \<Rightarrow> Inl e
      | Inr (None, _, s1) \<Rightarrow> Inr (False, s1)
      | Inr (Some idx, wasCreated, s1) \<Rightarrow>
          Inr (True, upd_node idx (\<lambda>n. let n1 = (if wasCreated then n\<lparr>tokens := ucast (maxRequestBurstSize cfg)\<rparr> else n)
                                      in n1\<lparr>refCount := refCount n1 + 1\<rparr>) s1))"

text \<open>One request against a bucket: refill for the time since the last refill, then take a token. The
  64-bit product, the truncation of the refill to 32 bits and the 32-bit minimum are the code's.\<close>

definition bucket_refill :: "IPConfig \<Rightarrow> int \<Rightarrow> int \<Rightarrow> u64" where
  "bucket_refill cfg now since =
     (let elapsedMs = max 0 ((now - since) div 1000000)
      in (of_int elapsedMs * ucast (maxTokensPerSecond cfg)) div 1000)"

definition take_token :: "IPConfig \<Rightarrow> int \<Rightarrow> lru_node \<Rightarrow> bool \<times> lru_node" where
  "take_token cfg now n =
     (let refill = bucket_refill cfg now (lastRefill n);
          n1 = (if refill > 0
                then n\<lparr>lastRefill := now,
                       tokens := ucast (min (maxRequestBurstSize cfg) (ucast (tokens n + ucast (ucast refill :: u32)) :: u32))\<rparr>
                else n)
      in if tokens n1 > 0 then (True, n1\<lparr>tokens := tokens n1 - 1\<rparr>) else (False, n1))"

definition AllowRequest :: "u8 list \<Rightarrow> IPConfig \<Rightarrow> int \<Rightarrow> WFXIpAddress \<Rightarrow> rate_limiter \<Rightarrow> fatal + (bool \<times> rate_limiter)" where
  "AllowRequest hk cfg now ip s =
     (case Get (ip_key_hash hk) (ip_key (NormalizeIp ip)) (rl_index s) of
        Inl e \<Rightarrow> Inl e
      | Inr None \<Rightarrow> Inr (False, s)
      | Inr (Some p) \<Rightarrow>
          (case value_at (rl_index s) p of
             None \<Rightarrow> Inl (Fatal ''read of raw storage'')
           | Some idx \<Rightarrow>
               let s1 = Touch idx s; r = take_token cfg now (GetPtr idx s1)
               in Inr (fst r, upd_node idx (\<lambda>_. snd r) s1)))"

definition Release :: "u8 list \<Rightarrow> WFXIpAddress \<Rightarrow> rate_limiter \<Rightarrow> fatal + rate_limiter" where
  "Release hk ip s =
     (case Get (ip_key_hash hk) (ip_key (NormalizeIp ip)) (rl_index s) of
        Inl e \<Rightarrow> Inl e
      | Inr None \<Rightarrow> Inr s
      | Inr (Some p) \<Rightarrow>
          (case value_at (rl_index s) p of
             None \<Rightarrow> Inl (Fatal ''read of raw storage'')
           | Some idx \<Rightarrow> Inr (upd_node idx (\<lambda>n. n\<lparr>refCount := refCount n - (if refCount n > 0 then 1 else 0)\<rparr>) s)))"

section \<open>The rate bound\<close>

fun requests :: "IPConfig \<Rightarrow> int list \<Rightarrow> lru_node \<Rightarrow> nat \<times> lru_node" where
  "requests cfg [] n = (0, n)"
| "requests cfg (t # ts) n =
     (case take_token cfg t n of (ok, n1) \<Rightarrow>
      case requests cfg ts n1 of (k, n2) \<Rightarrow> ((if ok then k + 1 else k), n2))"

lemma unat_min32: "unat (min a b :: u32) = min (unat a) (unat b)"
  by (auto simp: min_def word_le_nat_alt)

lemma uint_mult64: "uint (x * y :: u64) = (uint x * uint y) mod 2 ^ 64"
  by (simp add: uint_word_ariths)

lemma uint_of_int64: "uint (of_int x :: u64) = x mod 2 ^ 64"
  by (simp add: uint_word_of_int)

lemma bucket_refill_le:
  assumes "since \<le> now"
  shows "1000000000 * int (unat (bucket_refill cfg now since)) \<le> (now - since) * int (unat (maxTokensPerSecond cfg))"
proof -
  let ?e = "(now - since) div 1000000" and ?r = "int (unat (maxTokensPerSecond cfg))"
  have e: "0 \<le> ?e" "1000000 * ?e \<le> now - since" using assms by auto
  have "int (unat (bucket_refill cfg now since)) = uint (of_int ?e * ucast (maxTokensPerSecond cfg) :: u64) div 1000"
    using e(1) by (simp add: bucket_refill_def Let_def uint_div flip: uint_nat)
  also have "uint (of_int ?e * ucast (maxTokensPerSecond cfg) :: u64) \<le> ?e * ?r"
  proof -
    define b where "b = uint (ucast (maxTokensPerSecond cfg) :: u64)"
    define a where "a = uint (of_int ?e :: u64)"
    have b: "b = ?r" unfolding b_def by (simp only: uint_nat unat_ucast_32_64)
    have a: "a = ?e mod 2 ^ 64" unfolding a_def by (rule uint_of_int64)
    have "uint (of_int ?e * ucast (maxTokensPerSecond cfg) :: u64) = (a * b) mod 2 ^ 64"
      unfolding a_def b_def by (rule uint_mult64)
    also have "\<dots> \<le> a * b" by (rule zmod_le_nonneg_dividend) (simp add: a_def b_def)
    also have "\<dots> \<le> ?e * ?r"
      unfolding b using e(1) by (intro mult_right_mono) (simp_all add: a zmod_le_nonneg_dividend)
    finally show ?thesis .
  qed
  then have "uint (of_int ?e * ucast (maxTokensPerSecond cfg) :: u64) div 1000 \<le> (?e * ?r) div 1000" by (rule zdiv_mono1) simp
  finally have "1000 * int (unat (bucket_refill cfg now since)) \<le> ?e * ?r" by linarith
  then have "1000000 * (1000 * int (unat (bucket_refill cfg now since))) \<le> 1000000 * (?e * ?r)" by (rule mult_left_mono) simp
  also have "1000000 * (?e * ?r) = 1000000 * ?e * ?r" by (rule mult.assoc[symmetric])
  also have "\<dots> \<le> (now - since) * ?r" using e(2) by (intro mult_right_mono) auto
  finally show ?thesis by simp
qed

lemma take_token_bound:
  assumes "lastRefill n \<le> now" "take_token cfg now n = (ok, n')"
  shows "1000000000 * (int (unat (tokens n')) + (if ok then 1 else 0)) \<le>
      1000000000 * int (unat (tokens n)) + (lastRefill n' - lastRefill n) * int (unat (maxTokensPerSecond cfg))"
    and "lastRefill n \<le> lastRefill n'" "lastRefill n' \<le> now"
    and "tokens n \<le> ucast (maxRequestBurstSize cfg) \<Longrightarrow> tokens n' \<le> ucast (maxRequestBurstSize cfg)"
proof -
  let ?r = "bucket_refill cfg now (lastRefill n)" and ?burst = "maxRequestBurstSize cfg"
  define n1 where "n1 = (if ?r > 0
     then n\<lparr>lastRefill := now, tokens := ucast (min ?burst (ucast (tokens n + ucast (ucast ?r :: u32)) :: u32))\<rparr> else n)"
  have n': "ok = (tokens n1 > 0)" "n' = (if tokens n1 > 0 then n1\<lparr>tokens := tokens n1 - 1\<rparr> else n1)"
    using assms(2) unfolding take_token_def Let_def n1_def[symmetric] by (auto split: if_splits)
  have low: "unat (ucast (w :: u64) :: u32) \<le> unat w" for w
    by (simp add: unat_ucast_64_32)
  have "unat (ucast (tokens n + ucast (ucast ?r :: u32)) :: u32) \<le> unat (tokens n + ucast (ucast ?r :: u32))" by (rule low)
  also have "\<dots> \<le> unat (tokens n) + unat (ucast (ucast ?r :: u32) :: u64)" by (simp add: unat_word_ariths)
  also have "\<dots> \<le> unat (tokens n) + unat ?r" using low[of ?r] by (simp add: unat_ucast_32_64)
  finally have sum: "unat (ucast (tokens n + ucast (ucast ?r :: u32)) :: u32) \<le> unat (tokens n) + unat ?r" .
  have "unat (tokens n1) \<le> unat (tokens n) + unat ?r"
    using sum by (auto simp: n1_def unat_ucast_32_64 unat_min32)
  then have t1: "int (unat (tokens n1)) \<le> int (unat (tokens n)) + int (unat ?r)" by (metis of_nat_add of_nat_le_iff)
  have f: "1000000000 * int (unat ?r) \<le> (now - lastRefill n) * int (unat (maxTokensPerSecond cfg))"
    by (rule bucket_refill_le[OF assms(1)])
  have l1: "lastRefill n1 = (if ?r > 0 then now else lastRefill n)" by (simp add: n1_def)
  have "1000000000 * int (unat (tokens n1)) \<le>
      1000000000 * int (unat (tokens n)) + (lastRefill n1 - lastRefill n) * int (unat (maxTokensPerSecond cfg))"
  proof (cases "?r > 0")
    case True
    then show ?thesis using t1 f unfolding l1 by auto
  next
    case False
    then show ?thesis by (simp add: n1_def)
  qed
  moreover have "int (unat (tokens n')) + (if ok then 1 else 0) = int (unat (tokens n1))"
  proof (cases "tokens n1 = 0")
    case False
    then have "unat (tokens n1 - 1) + 1 = unat (tokens n1)" using unat_minus_one[of "tokens n1"] by (simp add: unat_gt_0)
    then have "int (unat (tokens n1 - 1)) + 1 = int (unat (tokens n1))" by (metis of_nat_1 of_nat_add)
    moreover have "tokens n' = tokens n1 - 1" "ok" using False by (simp_all add: n' word_gt_0)
    ultimately show ?thesis by (simp only: if_True)
  qed (simp add: n')
  moreover have "lastRefill n' = lastRefill n1" by (simp add: n')
  ultimately show "1000000000 * (int (unat (tokens n')) + (if ok then 1 else 0)) \<le>
      1000000000 * int (unat (tokens n)) + (lastRefill n' - lastRefill n) * int (unat (maxTokensPerSecond cfg))"
    "lastRefill n \<le> lastRefill n'" "lastRefill n' \<le> now"
    using assms(1) l1 by simp_all
  assume "tokens n \<le> ucast ?burst"
  then have "unat (tokens n1) \<le> unat ?burst"
    by (auto simp: n1_def unat_ucast_32_64 unat_min32 word_le_nat_alt)
  moreover have "unat (tokens n') \<le> unat (tokens n1)" unfolding n' by (auto simp: unat_minus_one word_gt_0)
  ultimately show "tokens n' \<le> ucast ?burst" by (simp add: word_le_nat_alt unat_ucast_32_64)
qed

lemma requests_bound:
  assumes "sorted (lastRefill n # ts)" "requests cfg ts n = (k, n')"
  shows "1000000000 * (int k + int (unat (tokens n'))) \<le>
      1000000000 * int (unat (tokens n)) + (lastRefill n' - lastRefill n) * int (unat (maxTokensPerSecond cfg))
    \<and> lastRefill n' \<le> last (lastRefill n # ts)"
  using assms
proof (induction ts arbitrary: n k)
  case Nil
  then show ?case by simp
next
  case (Cons t ts)
  obtain ok n1 where tk: "take_token cfg t n = (ok, n1)" by fastforce
  obtain k1 where rq: "requests cfg ts n1 = (k1, n')" "k = (if ok then k1 + 1 else k1)"
    using Cons.prems(2) tk by (cases "requests cfg ts n1") auto
  have le: "lastRefill n \<le> t" using Cons.prems(1) by simp
  note b = take_token_bound[OF le tk]
  have so: "sorted (lastRefill n1 # ts)" using Cons.prems(1) b(3) by auto
  note IH = Cons.IH[OF so rq(1)]
  have "(lastRefill n' - lastRefill n1) * int (unat (maxTokensPerSecond cfg)) +
      (lastRefill n1 - lastRefill n) * int (unat (maxTokensPerSecond cfg)) =
      (lastRefill n' - lastRefill n) * int (unat (maxTokensPerSecond cfg))"
    by (simp add: algebra_simps)
  moreover have "last (lastRefill n1 # ts) \<le> last (lastRefill n # t # ts)" using b(3) by simp
  ultimately show ?case using IH b(1) rq(2) by (auto split: if_splits)
qed

text \<open>C22. A bucket enforces the rate. However requests arrive, at times that never go back, the number
  allowed is at most the tokens the bucket held plus \<open>maxTokensPerSecond\<close> for each second between its
  last refill and the last request. The 64-bit product and the 32-bit truncations of the code can only
  lose tokens.\<close>

theorem token_bucket_rate:
  assumes "sorted (lastRefill n # ts)" "requests cfg ts n = (k, n')"
  shows "1000000000 * int k \<le>
    1000000000 * int (unat (tokens n)) + (last (lastRefill n # ts) - lastRefill n) * int (unat (maxTokensPerSecond cfg))"
proof -
  note b = requests_bound[OF assms]
  have "(lastRefill n' - lastRefill n) * int (unat (maxTokensPerSecond cfg)) \<le>
      (last (lastRefill n # ts) - lastRefill n) * int (unat (maxTokensPerSecond cfg))"
    using b by (intro mult_right_mono) auto
  moreover have "1000000000 * int k \<le> 1000000000 * (int k + int (unat (tokens n')))" by simp
  ultimately show ?thesis using conjunct1[OF b] by linarith
qed

definition demo_node :: lru_node where
  "demo_node = \<lparr>node_key = demo_proxy, refCount = 1, tokens = 2, lastRefill = 0,
     lru_prev = K_NO_LIMITER_NODE, lru_next = K_NO_LIMITER_NODE\<rparr>"

theorem token_bucket_rate_witness:
  "fst (requests demo_ip_config [0, 1, 2] demo_node) \<le> 2"
proof -
  obtain k n' where r: "requests demo_ip_config [0, 1, 2] demo_node = (k, n')" by fastforce
  have "1000000000 * int k \<le> 1000000000 * int (unat (tokens demo_node)) +
      (last (lastRefill demo_node # [0, 1, 2]) - lastRefill demo_node) * int (unat (maxTokensPerSecond demo_ip_config))"
    by (rule token_bucket_rate[OF _ r]) (simp add: demo_node_def)
  then show ?thesis using r by (simp add: demo_node_def demo_ip_config_def)
qed

end
