(* ===== verification/TimerHeap.thy ===== *)
theory TimerHeap
  imports HashShardMap "HOL-Library.Multiset"
begin

text \<open>
  Model of \<open>src/utils/timer/timer_heap.cpp\<close>: a binary min-heap of expiration times in a vector, with a
  hash table from the data of a timer to its position in the vector. \<open>std::hash\<close> of an integer is the
  identity. Positions are natural numbers.
\<close>

section \<open>State and operations\<close>

record timer_node =
  tdata :: u64
  delay :: u64
  heapIdx :: nat

record timer_heap =
  heap :: "timer_node list"
  idMap :: "(u64, nat) shard"

definition TimerHeap_new :: "(nat \<Rightarrow> bool) \<Rightarrow> nat \<Rightarrow> fatal + timer_heap" where
  "TimerHeap_new A esz = map_sum id (\<lambda>im. \<lparr>heap = [], idMap = im\<rparr>) (Init A esz 64 False new_shard)"

definition RoundToBucket :: "u64 \<Rightarrow> u64 \<Rightarrow> u64" where
  "RoundToBucket expire delta =
     (if delta = 0 then expire else let half = drop_bit 1 delta in (expire + half) div delta * delta)"

text \<open>\<open>if(auto* p = idMap_.Get(data)) *p = idx;\<close>\<close>

definition set_pos :: "u64 \<Rightarrow> nat \<Rightarrow> (u64, nat) shard \<Rightarrow> fatal + (u64, nat) shard" where
  "set_pos d idx im =
     map_sum id (\<lambda>r. case r of None \<Rightarrow> im | Some p \<Rightarrow> store_at im p idx) (Get id d im)"

definition SwapNodes :: "nat \<Rightarrow> nat \<Rightarrow> timer_heap \<Rightarrow> fatal + timer_heap" where
  "SwapNodes l r th =
     (let h1 = (heap th)[l := heap th ! r, r := heap th ! l];
          h2 = h1[l := (h1 ! l)\<lparr>heapIdx := l\<rparr>];
          h3 = h2[r := (h2 ! r)\<lparr>heapIdx := r\<rparr>]
      in case set_pos (tdata (h3 ! l)) (heapIdx (h3 ! l)) (idMap th) of
           Inl e \<Rightarrow> Inl e
         | Inr im1 \<Rightarrow>
             (case set_pos (tdata (h3 ! r)) (heapIdx (h3 ! r)) im1 of
                Inl e \<Rightarrow> Inl e
              | Inr im2 \<Rightarrow> Inr \<lparr>heap = h3, idMap = im2\<rparr>))"

function sift_up :: "nat \<Rightarrow> timer_heap \<Rightarrow> fatal + (nat \<times> timer_heap)" where
  "sift_up idx th =
     (if idx > 0 then
        let parent = (idx - 1) div 2 in
        if delay (heap th ! idx) \<ge> delay (heap th ! parent) then Inr (idx, th)
        else (case SwapNodes idx parent th of Inl e \<Rightarrow> Inl e | Inr th' \<Rightarrow> sift_up parent th')
      else Inr (idx, th))"
  by pat_completeness auto
termination by (relation "measure fst") auto

declare sift_up.simps [simp del]

definition smallest_child :: "nat \<Rightarrow> nat \<Rightarrow> timer_node list \<Rightarrow> nat" where
  "smallest_child n idx h =
     (let l = 2 * idx + 1; r = 2 * idx + 2;
          s1 = (if l < n \<and> delay (h ! l) < delay (h ! idx) then l else idx)
      in if r < n \<and> delay (h ! r) < delay (h ! s1) then r else s1)"

lemma smallest_child_cases:
  "smallest_child n idx h = idx \<or> smallest_child n idx h = 2 * idx + 1 \<and> 2 * idx + 1 < n \<or>
   smallest_child n idx h = 2 * idx + 2 \<and> 2 * idx + 2 < n"
  by (simp add: smallest_child_def Let_def)

function sift_down :: "nat \<Rightarrow> nat \<Rightarrow> timer_heap \<Rightarrow> fatal + timer_heap" where
  "sift_down n idx th =
     (let smallest = smallest_child n idx (heap th) in
      if smallest = idx then Inr th
      else (case SwapNodes idx smallest th of Inl e \<Rightarrow> Inl e | Inr th' \<Rightarrow> sift_down n smallest th'))"
  by pat_completeness auto
termination
proof (relation "measure (\<lambda>(n, idx, th). n - idx)", goal_cases)
  case (2 n idx th x th')
  then show ?case using smallest_child_cases[of n idx "heap th"] by auto
qed simp

declare sift_down.simps [simp del]

definition FixHeap :: "nat \<Rightarrow> timer_heap \<Rightarrow> fatal + timer_heap" where
  "FixHeap idx th =
     (case sift_up idx th of Inl e \<Rightarrow> Inl e | Inr (idx', th') \<Rightarrow> sift_down (length (heap th')) idx' th')"

definition TimerInsert ::
  "(nat \<Rightarrow> bool) \<Rightarrow> nat \<Rightarrow> u64 \<Rightarrow> u64 \<Rightarrow> u64 \<Rightarrow> timer_heap \<Rightarrow> fatal + (bool \<times> timer_heap)" where
  "TimerInsert A esz d dl delta th =
     (case Get id d (idMap th) of
        Inl e \<Rightarrow> Inl e
      | Inr (Some _) \<Rightarrow> Inr (False, th)
      | Inr None \<Rightarrow>
          let dl' = RoundToBucket dl delta; idx = length (heap th);
              h1 = heap th @ [\<lparr>tdata = d, delay = dl', heapIdx = idx\<rparr>]
          in case Insert A id esz d idx (idMap th) of
               Inl e \<Rightarrow> Inl e
             | Inr (False, _) \<Rightarrow> Inl (Fatal ''[TimerHeap]: idMap_ insert unexpectedly failed for a key just confirmed absent'')
             | Inr (True, im1) \<Rightarrow> map_sum id (Pair True) (FixHeap idx \<lparr>heap = h1, idMap = im1\<rparr>))"

definition Remove :: "u64 \<Rightarrow> timer_heap \<Rightarrow> fatal + (bool \<times> timer_heap)" where
  "Remove d th =
     (case Get id d (idMap th) of
        Inl e \<Rightarrow> Inl e
      | Inr None \<Rightarrow> Inr (False, th)
      | Inr (Some p) \<Rightarrow>
          (case value_at (idMap th) p of
             None \<Rightarrow> Inl (Fatal ''read of raw storage'')
           | Some idx \<Rightarrow>
               let lastIdx = length (heap th) - 1 in
               case Erase id d (idMap th) of
                 Inl e \<Rightarrow> Inl e
               | Inr (_, im1) \<Rightarrow>
                   let moved = (if idx \<noteq> lastIdx then
                                  let h1 = (heap th)[idx := (heap th ! lastIdx)\<lparr>heapIdx := idx\<rparr>]
                                  in map_sum id (\<lambda>im2. \<lparr>heap = h1, idMap = im2\<rparr>) (set_pos (tdata (h1 ! idx)) idx im1)
                                else Inr \<lparr>heap = heap th, idMap = im1\<rparr>)
                   in case moved of
                        Inl e \<Rightarrow> Inl e
                      | Inr th1 \<Rightarrow>
                          let th2 = th1\<lparr>heap := butlast (heap th1)\<rparr> in
                          if idx < length (heap th2) then map_sum id (Pair True) (FixHeap idx th2) else Inr (True, th2)))"

definition PopExpired :: "u64 \<Rightarrow> timer_heap \<Rightarrow> fatal + (u64 option \<times> timer_heap)" where
  "PopExpired now th =
     (if heap th = [] then Inr (None, th)
      else if delay (heap th ! 0) > now then Inr (None, th)
      else let d = tdata (heap th ! 0) in
        map_sum id (\<lambda>(ok, th'). (if ok then Some d else None, th')) (Remove d th))"

definition GetMin :: "timer_heap \<Rightarrow> timer_node option" where
  "GetMin th = (if heap th = [] then None else Some (hd (heap th)))"

definition Size :: "timer_heap \<Rightarrow> nat" where "Size th = length (heap th)"

end
