(* ===== verification/TimerHeapProofs.thy ===== *)
theory TimerHeapProofs
  imports TimerHeap
begin

text \<open>
  Correctness of the timer heap: the hash table always gives the position of each timer, the vector is
  heap ordered, and the operations act on the set of pending timers as their names say, so that
  \<open>PopExpired\<close> returns a timer with the least expiration time.
\<close>

section \<open>Heap order with one defect\<close>

definition par :: "nat \<Rightarrow> nat" where "par i = (i - 1) div 2"

definition heap_ord :: "u64 list \<Rightarrow> bool" where
  "heap_ord ds \<longleftrightarrow> (\<forall>i. 0 < i \<and> i < length ds \<longrightarrow> ds ! par i \<le> ds ! i)"

text \<open>Only the edges at \<open>idx\<close> may be out of order, and its children are not before its parent.\<close>

definition heap_but :: "u64 list \<Rightarrow> nat \<Rightarrow> bool" where
  "heap_but ds idx \<longleftrightarrow>
     (\<forall>i. 0 < i \<and> i < length ds \<and> i \<noteq> idx \<and> par i \<noteq> idx \<longrightarrow> ds ! par i \<le> ds ! i) \<and>
     (\<forall>c. 0 < c \<and> c < length ds \<and> par c = idx \<and> 0 < idx \<longrightarrow> ds ! par idx \<le> ds ! c)"

lemma par_lt: "0 < i \<Longrightarrow> par i < i"
  by (auto simp: par_def)

lemma par_children: "0 < c \<Longrightarrow> par c = i \<longleftrightarrow> c = 2 * i + 1 \<or> c = 2 * i + 2"
  by (auto simp: par_def)

abbreviation swapped :: "'a list \<Rightarrow> nat \<Rightarrow> nat \<Rightarrow> 'a list" where
  "swapped xs i j \<equiv> xs[i := xs ! j, j := xs ! i]"

lemma swapped_nth: "i < length xs \<Longrightarrow> j < length xs \<Longrightarrow> q < length xs \<Longrightarrow>
    swapped xs i j ! q = (if q = j then xs ! i else if q = i then xs ! j else xs ! q)"
  by (auto simp: nth_list_update)

lemma heap_but_up:
  assumes h: "heap_but ds idx" and i: "0 < idx" "idx < length ds" "ds ! idx < ds ! par idx"
  shows "heap_but (swapped ds idx (par idx)) (par idx)"
proof -
  let ?p = "par idx"
  have p: "?p < idx" using par_lt[OF i(1)] .
  have nth: "swapped ds idx ?p ! q = (if q = ?p then ds ! idx else if q = idx then ds ! ?p else ds ! q)" if "q < length ds" for q
    by (rule swapped_nth) (use i p that in auto)
  have ok: "ds ! par q \<le> ds ! q" if "0 < q" "q < length ds" "q \<noteq> idx" "par q \<noteq> idx" for q
    using h that by (simp add: heap_but_def)
  have kids: "ds ! ?p \<le> ds ! c" if "0 < c" "c < length ds" "par c = idx" for c
    using h that i(1) by (simp add: heap_but_def)
  show ?thesis
    unfolding heap_but_def length_list_update
  proof (intro conjI allI impI; elim conjE)
    fix q assume q: "0 < q" "q < length ds" "q \<noteq> ?p" "par q \<noteq> ?p"
    then have n: "swapped ds idx ?p ! q = ds ! q" "q \<noteq> idx" using nth[OF q(2)] by auto
    have pq: "par q < length ds" using par_lt[OF q(1)] q(2) by linarith
    show "swapped ds idx ?p ! par q \<le> swapped ds idx ?p ! q"
      using kids[OF q(1,2)] ok[OF q(1,2) n(2)] q(4) nth[OF pq] n(1) by (cases "par q = idx") auto
  next
    fix c assume c: "0 < c" "c < length ds" "par c = ?p" "0 < ?p"
    have pp: "par ?p < ?p" using par_lt[OF c(4)] .
    have top: "ds ! par ?p \<le> ds ! ?p" using ok[of ?p] c(4) p pp i(2) by simp
    have "ds ! ?p \<le> ds ! c" if "c \<noteq> idx" using ok[OF c(1,2) that] c(3) p by simp
    then have "ds ! par ?p \<le> swapped ds idx ?p ! c"
      using top nth[OF c(2)] par_lt[OF c(1)] c(3) by (cases "c = idx") auto
    then show "swapped ds idx ?p ! par ?p \<le> swapped ds idx ?p ! c"
      using nth[of "par ?p"] pp p i(2) by simp
  qed
qed

lemma heap_but_down:
  assumes h: "heap_but ds idx" and i: "idx < length ds" "0 < idx \<Longrightarrow> ds ! par idx \<le> ds ! idx"
    and s: "0 < s" "s < length ds" "par s = idx" "ds ! s < ds ! idx"
    and least: "\<And>c. 0 < c \<Longrightarrow> c < length ds \<Longrightarrow> par c = idx \<Longrightarrow> ds ! s \<le> ds ! c"
  shows "heap_but (swapped ds idx s) s \<and> swapped ds idx s ! par s \<le> swapped ds idx s ! s"
proof -
  have si: "idx < s" using par_lt[OF s(1)] s(3) by simp
  have nth: "swapped ds idx s ! q = (if q = s then ds ! idx else if q = idx then ds ! s else ds ! q)" if "q < length ds" for q
    by (rule swapped_nth) (use i s that in auto)
  have ok: "ds ! par q \<le> ds ! q" if "0 < q" "q < length ds" "q \<noteq> idx" "par q \<noteq> idx" for q
    using h that by (simp add: heap_but_def)
  have "heap_but (swapped ds idx s) s"
    unfolding heap_but_def length_list_update
  proof (intro conjI allI impI; elim conjE)
    fix q assume q: "0 < q" "q < length ds" "q \<noteq> s" "par q \<noteq> s"
    have pq: "par q < length ds" using par_lt[OF q(1)] q(2) by linarith
    consider (here) "q = idx" | (sib) "q \<noteq> idx" "par q = idx" | (far) "q \<noteq> idx" "par q \<noteq> idx" by blast
    then show "swapped ds idx s ! par q \<le> swapped ds idx s ! q"
    proof cases
      case here
      then have "ds ! par idx \<le> ds ! s" using h q(1) s by (simp add: heap_but_def)
      then show ?thesis using nth[OF q(2)] nth[OF pq] here q par_lt[OF q(1)] si by simp
    next
      case sib
      then show ?thesis using nth[OF q(2)] nth[OF pq] least[OF q(1,2)] q(3) si by simp
    next
      case far
      then show ?thesis using nth[OF q(2)] nth[OF pq] ok[OF q(1,2)] q(3,4) by simp
    qed
  next
    fix c assume c: "0 < c" "c < length ds" "par c = s" "0 < s"
    then have cs: "s < c" using par_lt[OF c(1)] by simp
    have "ds ! s \<le> ds ! c" using ok[OF c(1,2)] c(3) cs si by simp
    then show "swapped ds idx s ! par s \<le> swapped ds idx s ! c"
      using nth[OF c(2)] nth[OF i(1)] s(3) cs si by simp
  qed
  moreover have "swapped ds idx s ! par s \<le> swapped ds idx s ! s"
    using nth[OF i(1)] nth[OF s(2)] s(3,4) si by simp
  ultimately show ?thesis by blast
qed

lemma heap_but_done:
  assumes "heap_but ds idx" "0 < idx \<Longrightarrow> ds ! par idx \<le> ds ! idx"
    and "\<And>c. 0 < c \<Longrightarrow> c < length ds \<Longrightarrow> par c = idx \<Longrightarrow> ds ! idx \<le> ds ! c"
  shows "heap_ord ds"
  using assms unfolding heap_ord_def heap_but_def by metis

lemma heap_ord_butlast:
  assumes "heap_ord ds"
  shows "heap_ord (butlast ds)"
  unfolding heap_ord_def
proof (intro allI impI)
  fix i assume i: "0 < i \<and> i < length (butlast ds)"
  then have "par i < i" "ds ! par i \<le> ds ! i" using par_lt assms by (auto simp: heap_ord_def)
  then show "butlast ds ! par i \<le> butlast ds ! i" using i by (simp add: nth_butlast)
qed

lemma heap_min: "heap_ord ds \<Longrightarrow> i < length ds \<Longrightarrow> ds ! 0 \<le> ds ! i"
proof (induction i rule: less_induct)
  case (less i)
  show ?case
  proof (cases "i = 0")
    case False
    then have "par i < i" "ds ! par i \<le> ds ! i" using par_lt less.prems by (auto simp: heap_ord_def)
    then show ?thesis using less by (meson less_trans order_trans)
  qed simp
qed

section \<open>Positions\<close>

definition pairs :: "timer_heap \<Rightarrow> (u64 \<times> u64) list" where
  "pairs th = map (\<lambda>n. (tdata n, delay n)) (heap th)"

definition delays :: "timer_heap \<Rightarrow> u64 list" where
  "delays th = map delay (heap th)"

definition indexed :: "nat \<Rightarrow> timer_heap \<Rightarrow> bool" where
  "indexed esz th \<longleftrightarrow> shard_ok id esz (idMap th) \<and>
     (\<forall>i < length (heap th). shard_map (idMap th) (tdata (heap th ! i)) = Some i \<and> heapIdx (heap th ! i) = i) \<and>
     (\<forall>d v. shard_map (idMap th) d = Some v \<longrightarrow> v < length (heap th) \<and> tdata (heap th ! v) = d)"

lemma delays_pairs: "delays th = map snd (pairs th)"
  by (simp add: delays_def pairs_def)

lemma set_pos_ok:
  assumes "shard_ok id esz im" "shard_map im d = Some u"
  shows "\<exists>im'. set_pos d i im = Inr im' \<and> shard_ok id esz im' \<and> shard_map im' = (shard_map im)(d \<mapsto> i)"
proof -
  obtain p v where "Get id d im = Inr (Some p)" "p < capacity im" "entries im ! p = Some (d, v)"
    using Get_ok[OF assms(1), of d] assms(2) by auto
  with store_at_ok[OF assms(1), of p d v i] show ?thesis by (auto simp: set_pos_def)
qed

lemma SwapNodes_ok:
  assumes ix: "indexed esz th" and lr: "l < length (heap th)" "r < length (heap th)" "l \<noteq> r"
  shows "\<exists>th'. SwapNodes l r th = Inr th' \<and> indexed esz th' \<and> pairs th' = swapped (pairs th) l r"
proof -
  define h3 where "h3 = (let h1 = swapped (heap th) l r; h2 = h1[l := (h1 ! l)\<lparr>heapIdx := l\<rparr>] in h2[r := (h2 ! r)\<lparr>heapIdx := r\<rparr>])"
  have len: "length h3 = length (heap th)" by (simp add: h3_def Let_def)
  have nth: "h3 ! q = (if q = l then (heap th ! r)\<lparr>heapIdx := l\<rparr> else if q = r then (heap th ! l)\<lparr>heapIdx := r\<rparr> else heap th ! q)"
    if "q < length (heap th)" for q
    using that lr by (auto simp: h3_def Let_def nth_list_update)
  have w: "shard_ok id esz (idMap th)"
    "\<And>i. i < length (heap th) \<Longrightarrow> shard_map (idMap th) (tdata (heap th ! i)) = Some i \<and> heapIdx (heap th ! i) = i"
    "\<And>d v. shard_map (idMap th) d = Some v \<Longrightarrow> v < length (heap th) \<and> tdata (heap th ! v) = d"
    using ix by (auto simp: indexed_def)
  let ?dl = "tdata (heap th ! l)" and ?dr = "tdata (heap th ! r)"
  have ne: "?dl \<noteq> ?dr" using w(2)[OF lr(1)] w(2)[OF lr(2)] lr(3) by auto
  obtain im1 where i1: "set_pos ?dr l (idMap th) = Inr im1" "shard_ok id esz im1" "shard_map im1 = (shard_map (idMap th))(?dr \<mapsto> l)"
    using set_pos_ok[OF w(1), of ?dr r l] w(2)[OF lr(2)] by blast
  obtain im2 where i2: "set_pos ?dl r im1 = Inr im2" "shard_ok id esz im2" "shard_map im2 = (shard_map im1)(?dl \<mapsto> r)"
    using set_pos_ok[OF i1(2), of ?dl l r] i1(3) ne w(2)[OF lr(1)] by auto
  let ?th = "\<lparr>heap = h3, idMap = im2\<rparr>"
  have "SwapNodes l r th = Inr ?th"
    unfolding SwapNodes_def h3_def[unfolded Let_def, symmetric] Let_def
    using nth[OF lr(1)] nth[OF lr(2)] lr(3) i1(1) i2(1) by simp
  moreover have "indexed esz ?th"
    unfolding indexed_def timer_heap.simps len
  proof (intro conjI allI impI)
    fix q assume q: "q < length (heap th)"
    have "q \<noteq> l \<Longrightarrow> tdata (heap th ! q) \<noteq> ?dl" "q \<noteq> r \<Longrightarrow> tdata (heap th ! q) \<noteq> ?dr"
      using w(2)[OF q] w(2)[OF lr(1)] w(2)[OF lr(2)] by auto
    then show "shard_map im2 (tdata (h3 ! q)) = Some q" "heapIdx (h3 ! q) = q"
      using nth[OF q] i1(3) i2(3) ne lr(3) w(2)[OF q] by auto
  next
    fix d v assume m: "shard_map im2 d = Some v"
    have "v < length (heap th) \<and> tdata (h3 ! v) = d"
    proof (cases "d = ?dl")
      case True
      then have "v = r" using m i2(3) by simp
      then show ?thesis using True nth[OF lr(2)] lr by simp
    next
      case dl: False
      then have m1: "shard_map im1 d = Some v" using m i2(3) by simp
      show ?thesis
      proof (cases "d = ?dr")
        case True
        then have "v = l" using m1 i1(3) by simp
        then show ?thesis using True nth[OF lr(1)] lr by simp
      next
        case False
        then have "shard_map (idMap th) d = Some v" using m1 i1(3) by simp
        from w(3)[OF this] have v: "v < length (heap th)" "tdata (heap th ! v) = d" by auto
        then have "v \<noteq> l" "v \<noteq> r" using dl False by auto
        then show ?thesis using v nth[OF v(1)] by simp
      qed
    qed
    then show "v < length (heap th)" "tdata (h3 ! v) = d" by auto
  qed (rule i2(2))
  moreover have "pairs ?th = swapped (pairs th) l r"
    using lr by (intro nth_equalityI) (auto simp: pairs_def len nth nth_list_update)
  ultimately show ?thesis by blast
qed

section \<open>Sifting\<close>

lemma sift_up_ok:
  assumes "indexed esz th" "idx < length (heap th)" "heap_but (delays th) idx"
  shows "\<exists>idx' th'. sift_up idx th = Inr (idx', th') \<and> indexed esz th' \<and> idx' < length (heap th') \<and>
    heap_but (delays th') idx' \<and> (0 < idx' \<longrightarrow> delays th' ! par idx' \<le> delays th' ! idx') \<and>
    length (heap th') = length (heap th) \<and> set (pairs th') = set (pairs th)"
  using assms
proof (induction idx arbitrary: th rule: less_induct)
  case (less idx)
  note p = less.prems
  show ?case
  proof (cases "0 < idx \<and> delay (heap th ! idx) < delay (heap th ! par idx)")
    case False
    then show ?thesis using p par_lt[of idx] by (auto simp: sift_up.simps[of idx th] par_def delays_def not_less)
  next
    case True
    then have lt: "par idx < idx" using par_lt by blast
    obtain th1 where s: "SwapNodes idx (par idx) th = Inr th1" "indexed esz th1" "pairs th1 = swapped (pairs th) idx (par idx)"
      using SwapNodes_ok[OF p(1,2), of "par idx"] lt p(2) by auto
    have len: "length (heap th1) = length (heap th)" using arg_cong[OF s(3), of length] by (simp add: pairs_def)
    have d: "delays th1 = swapped (delays th) idx (par idx)"
      unfolding delays_pairs s(3) using p(2) lt by (simp add: map_update pairs_def)
    have hb: "heap_but (delays th1) (par idx)"
      unfolding d using p(2) True lt by (intro heap_but_up[OF p(3)]) (auto simp: delays_def)
    have pl: "par idx < length (heap th1)" using lt p(2) len by simp
    obtain idx' th' where r: "sift_up (par idx) th1 = Inr (idx', th')"
      "indexed esz th'" "idx' < length (heap th')" "heap_but (delays th') idx'"
      "0 < idx' \<longrightarrow> delays th' ! par idx' \<le> delays th' ! idx'" "length (heap th') = length (heap th1)"
      "set (pairs th') = set (pairs th1)" 
      using less.IH[OF lt s(2) pl hb] by (elim exE conjE) (rule that)
    have "set (pairs th1) = set (pairs th)"
      unfolding s(3) using p(2) lt by (intro set_swap) (auto simp: pairs_def)
    moreover have "\<not> delay (heap th ! idx) \<ge> delay (heap th ! par idx)" using True leD by blast
    then have "sift_up idx th = sift_up (par idx) th1"
      using True s(1) by (simp only: sift_up.simps[of idx th] par_def[symmetric] Let_def if_True if_False sum.case)
    ultimately show ?thesis using r len by auto
  qed
qed

lemma smallest_child_least:
  assumes "smallest_child (length (heap th)) idx (heap th) = s" "idx < length (heap th)"
  shows "\<And>c. 0 < c \<Longrightarrow> c < length (delays th) \<Longrightarrow> par c = idx \<Longrightarrow> delays th ! s \<le> delays th ! c"
    and "s \<noteq> idx \<Longrightarrow> 0 < s \<and> s < length (delays th) \<and> par s = idx \<and> delays th ! s < delays th ! idx"
proof -
  have nth: "delays th ! q = delay (heap th ! q)" if "q < length (heap th)" for q using that by (simp add: delays_def)
  have len: "length (delays th) = length (heap th)" by (simp add: delays_def)
  fix c assume c: "0 < c" "c < length (delays th)" "par c = idx"
  then have k: "c = 2 * idx + 1 \<or> c = 2 * idx + 2" "c < length (heap th)" using par_children by (auto simp: delays_def)
  have "delay (heap th ! s) \<le> delay (heap th ! c)"
    using assms(1) k unfolding smallest_child_def Let_def by (elim disjE) (auto split: if_splits)
  moreover have "s < length (heap th)" using smallest_child_cases[of "length (heap th)" idx "heap th"] assms by auto
  ultimately show "delays th ! s \<le> delays th ! c" using nth k(2) by simp
next
  assume ne: "s \<noteq> idx"
  then have c: "s = 2 * idx + 1 \<or> s = 2 * idx + 2" "s < length (heap th)"
    using smallest_child_cases[of "length (heap th)" idx "heap th"] assms by auto
  moreover have "delay (heap th ! s) < delay (heap th ! idx)"
    using assms(1) ne unfolding smallest_child_def Let_def by (auto split: if_splits)
  ultimately show "0 < s \<and> s < length (delays th) \<and> par s = idx \<and> delays th ! s < delays th ! idx"
    using assms(2) by (auto simp: delays_def par_def)
qed

lemma sift_down_ok:
  assumes "indexed esz th" "idx < length (heap th)" "heap_but (delays th) idx"
    and "0 < idx \<longrightarrow> delays th ! par idx \<le> delays th ! idx"
  shows "\<exists>th'. sift_down (length (heap th)) idx th = Inr th' \<and> indexed esz th' \<and> heap_ord (delays th') \<and>
    length (heap th') = length (heap th) \<and> set (pairs th') = set (pairs th)"
  using assms
proof (induction "length (heap th) - idx" arbitrary: idx th rule: less_induct)
  case less
  note p = less.prems
  let ?s = "smallest_child (length (heap th)) idx (heap th)"
  note sc = smallest_child_least[OF refl p(2)]
  show ?case
  proof (cases "?s = idx")
    case True
    have "heap_ord (delays th)" using heap_but_done[OF p(3)] p(4) sc(1) True by simp
    then show ?thesis using p True by (simp add: sift_down.simps[of _ idx th])
  next
    case False
    then have s: "0 < ?s" "?s < length (delays th)" "par ?s = idx" "delays th ! ?s < delays th ! idx" using sc(2) by auto
    have gt: "idx < ?s" using par_lt[OF s(1)] s(3) by simp
    have sl: "?s < length (heap th)" using s(2) by (simp add: delays_def)
    obtain th1 where w: "SwapNodes idx ?s th = Inr th1" "indexed esz th1" "pairs th1 = swapped (pairs th) idx ?s"
      using SwapNodes_ok[OF p(1,2) sl] False by auto
    have len: "length (heap th1) = length (heap th)" using arg_cong[OF w(3), of length] by (simp add: pairs_def)
    have d: "delays th1 = swapped (delays th) idx ?s"
      unfolding delays_pairs w(3) using p(2) sl by (simp add: map_update pairs_def)
    have il: "idx < length (delays th)" using p(2) by (simp add: delays_def)
    have "heap_but (delays th1) ?s \<and> delays th1 ! par ?s \<le> delays th1 ! ?s"
      unfolding d by (rule heap_but_down[OF p(3) il _ s]) (fact mp[OF p(4)], fact sc(1))
    then have hb: "heap_but (delays th1) ?s" "delays th1 ! par ?s \<le> delays th1 ! ?s" by blast+
    have sm: "length (heap th1) - ?s < length (heap th) - idx" "?s < length (heap th1)" using gt sl p(2) len by auto
    have hb2: "0 < ?s \<longrightarrow> delays th1 ! par ?s \<le> delays th1 ! ?s" using hb(2) by simp
    obtain th' where r:
      "sift_down (length (heap th1)) ?s th1 = Inr th'" "indexed esz th'" "heap_ord (delays th')"
      "length (heap th') = length (heap th1)" "set (pairs th') = set (pairs th1)"
      using less.hyps[OF sm(1) w(2) sm(2) hb(1) hb2] by (elim exE conjE) (rule that)
    have "set (pairs th1) = set (pairs th)"
      unfolding w(3) using p(2) sl by (intro set_swap) (auto simp: pairs_def)
    then show ?thesis using r w(1) len False by (simp add: sift_down.simps[of _ idx th])
  qed
qed

lemma FixHeap_ok:
  assumes "indexed esz th" "idx < length (heap th)" "heap_but (delays th) idx"
  shows "\<exists>th'. FixHeap idx th = Inr th' \<and> indexed esz th' \<and> heap_ord (delays th') \<and> set (pairs th') = set (pairs th)"
proof -
  obtain idx' th1 where u: "sift_up idx th = Inr (idx', th1)" "indexed esz th1" "idx' < length (heap th1)"
    "heap_but (delays th1) idx'" "0 < idx' \<longrightarrow> delays th1 ! par idx' \<le> delays th1 ! idx'" "set (pairs th1) = set (pairs th)"
    using sift_up_ok[OF assms] by auto
  from sift_down_ok[OF u(2-5)] u(1,6) show ?thesis by (auto simp: FixHeap_def)
qed

section \<open>The operations on pending timers\<close>

definition timer_ok :: "nat \<Rightarrow> timer_heap \<Rightarrow> bool" where
  "timer_ok esz th \<longleftrightarrow> indexed esz th \<and> heap_ord (delays th)"

definition pending :: "timer_heap \<Rightarrow> (u64 \<times> u64) set" where
  "pending th = set (pairs th)"

definition entry :: "timer_heap \<Rightarrow> nat \<Rightarrow> u64 \<times> u64" where
  "entry th i = (tdata (heap th ! i), delay (heap th ! i))"

lemma pending_nth: "pending th = entry th ` {..<length (heap th)}"
proof -
  have "pairs th = map (entry th) [0..<length (heap th)]"
    by (rule nth_equalityI) (simp_all add: pairs_def entry_def)
  then show ?thesis by (simp add: pending_def atLeast0LessThan)
qed

lemma indexed_data:
  assumes "indexed esz th" "i < length (heap th)"
  shows "shard_map (idMap th) (tdata (heap th ! i)) = Some i"
  using assms by (simp add: indexed_def)

lemma data_present: "indexed esz th \<Longrightarrow> d \<in> fst ` pending th \<longleftrightarrow> shard_map (idMap th) d \<noteq> None"
  unfolding pending_nth indexed_def entry_def by force

lemma TimerInsert_ok:
  assumes ok: "timer_ok esz th" and rm: "room A esz (idMap th)"
  shows "\<exists>th'. TimerInsert A esz d dl delta th = Inr (d \<notin> fst ` pending th, th') \<and> timer_ok esz th' \<and>
    pending th' = (if d \<in> fst ` pending th then pending th else insert (d, RoundToBucket dl delta) (pending th))"
proof -
  have ix: "indexed esz th" and ord: "heap_ord (delays th)" using ok by (auto simp: timer_ok_def)
  have w: "shard_ok id esz (idMap th)"
    "\<And>i. i < length (heap th) \<Longrightarrow> shard_map (idMap th) (tdata (heap th ! i)) = Some i \<and> heapIdx (heap th ! i) = i"
    "\<And>d v. shard_map (idMap th) d = Some v \<Longrightarrow> v < length (heap th) \<and> tdata (heap th ! v) = d"
    using ix by (auto simp: indexed_def)
  show ?thesis
  proof (cases "shard_map (idMap th) d")
    case (Some v)
    then have "d \<in> fst ` pending th" using data_present[OF ix] by simp
    moreover obtain p where "Get id d (idMap th) = Inr (Some p)" using Get_ok[OF w(1), of d] Some by auto
    ultimately show ?thesis using ok by (simp add: TimerInsert_def)
  next
    case None
    let ?n = "length (heap th)" and ?dl = "RoundToBucket dl delta"
    have nd: "d \<notin> fst ` pending th" using data_present[OF ix] None by simp
    have g: "Get id d (idMap th) = Inr None" using Get_ok[OF w(1), of d] None by auto
    obtain im1 where i1: "Insert A id esz d ?n (idMap th) = Inr (True, im1)" "shard_ok id esz im1"
      "shard_map im1 = (shard_map (idMap th))(d \<mapsto> ?n)" using Insert_ok[OF w(1) rm, of d ?n] by blast
    define th1 where "th1 = \<lparr>heap = heap th @ [\<lparr>tdata = d, delay = ?dl, heapIdx = ?n\<rparr>], idMap = im1\<rparr>"
    have ix1: "indexed esz th1"
      unfolding indexed_def
    proof (intro conjI allI impI)
      fix i assume "i < length (heap th1)"
      then show "shard_map (idMap th1) (tdata (heap th1 ! i)) = Some i" "heapIdx (heap th1 ! i) = i"
        using w(2)[of i] None i1(3) by (auto simp: th1_def nth_append less_Suc_eq)
    next
      fix d' v assume "shard_map (idMap th1) d' = Some v"
      then show "v < length (heap th1)" "tdata (heap th1 ! v) = d'"
        using w(3)[of d' v] i1(3) by (auto simp: th1_def nth_append split: if_splits)
    qed (simp add: th1_def i1(2))
    have ds: "delays th1 = delays th @ [?dl]" by (simp add: delays_def th1_def)
    have n: "length (delays th) = ?n" by (simp add: delays_def)
    have "heap_but (delays th1) ?n"
      unfolding heap_but_def ds
    proof (intro conjI allI impI; elim conjE)
      fix i assume i: "0 < i" "i < length (delays th @ [?dl])" "i \<noteq> ?n"
      then have "i < length (delays th)" "par i < length (delays th)" using par_lt[OF i(1)] n by auto
      then show "(delays th @ [?dl]) ! par i \<le> (delays th @ [?dl]) ! i"
        using ord i(1) by (simp add: nth_append heap_ord_def)
    next
      fix c assume "0 < c" "c < length (delays th @ [?dl])" "par c = ?n"
      then show "(delays th @ [?dl]) ! par ?n \<le> (delays th @ [?dl]) ! c" using par_lt[of c] n by simp
    qed
    from FixHeap_ok[OF ix1 _ this] obtain th' where f: "FixHeap ?n th1 = Inr th'" "indexed esz th'" "heap_ord (delays th')"
      "set (pairs th') = set (pairs th1)" by (auto simp: th1_def)
    have "pending th' = insert (d, ?dl) (pending th)" using f(4) by (simp add: pending_def pairs_def th1_def)
    moreover have "TimerInsert A esz d dl delta th = Inr (True, th')"
      using g i1(1) f(1) by (simp add: TimerInsert_def Let_def th1_def)
    ultimately show ?thesis using nd f by (simp add: timer_ok_def)
  qed
qed

lemma Remove_absent:
  assumes "timer_ok esz th" "d \<notin> fst ` pending th"
  shows "Remove d th = Inr (False, th)"
proof -
  have ix: "indexed esz th" using assms by (simp add: timer_ok_def)
  then have "shard_map (idMap th) d = None" using data_present assms(2) by simp
  then have "Get id d (idMap th) = Inr None" using Get_ok[of id esz "idMap th" d] ix by (auto simp: indexed_def)
  then show ?thesis by (simp add: Remove_def)
qed

text \<open>Putting the last timer into the place of the removed one.\<close>

lemma indexed_moved:
  assumes ix: "indexed esz th" and i: "i < length (heap th) - 1"
    and im: "shard_ok id esz im" "shard_map im = (shard_map (idMap th))(tdata (heap th ! i) := None, tdata (last (heap th)) \<mapsto> i)"
  shows "indexed esz \<lparr>heap = butlast ((heap th)[i := (last (heap th))\<lparr>heapIdx := i\<rparr>]), idMap = im\<rparr>"
proof -
  let ?l = "length (heap th) - 1" and ?h = "butlast ((heap th)[i := (last (heap th))\<lparr>heapIdx := i\<rparr>])"
  have ne: "heap th \<noteq> []" using i by auto
  have la: "last (heap th) = heap th ! ?l" using ne by (simp add: last_conv_nth)
  have nth: "?h ! q = (if q = i then (heap th ! ?l)\<lparr>heapIdx := i\<rparr> else heap th ! q)" if "q < ?l" for q
    using that i la by (simp add: nth_butlast nth_list_update)
  note w = indexed_data[OF ix]
  have inj: "a = b" if "a < length (heap th)" "b < length (heap th)" "tdata (heap th ! a) = tdata (heap th ! b)" for a b
    using w[OF that(1)] w[OF that(2)] unfolding that(3) by simp
  show ?thesis
    unfolding indexed_def timer_heap.simps
  proof (intro conjI allI impI)
    fix q assume "q < length ?h"
    then have q: "q < ?l" by simp
    then have ql: "q < length (heap th)" "i < length (heap th)" "?l < length (heap th)" "q \<noteq> ?l" using i by linarith+
    have far: "q \<noteq> i \<Longrightarrow> tdata (heap th ! q) \<noteq> tdata (heap th ! i)" using inj[OF ql(1,2)] by blast
    have "tdata (heap th ! q) \<noteq> tdata (heap th ! ?l)" using inj[OF ql(1,3)] ql(4) by blast
    then show "shard_map im (tdata (?h ! q)) = Some q" using nth[OF q] im(2) w[OF ql(1)] la far by (cases "q = i") simp_all
    show "heapIdx (?h ! q) = q" using nth[OF q] ix ql(1) by (simp add: indexed_def)
  next
    fix d v assume m: "shard_map im d = Some v"
    have "v < ?l \<and> tdata (?h ! v) = d"
    proof (cases "d = tdata (heap th ! ?l)")
      case True
      then have "v = i" using m im(2) la by simp
      then show ?thesis using nth[OF i] i True by simp
    next
      case False
      then have "shard_map (idMap th) d = Some v" "d \<noteq> tdata (heap th ! i)" using m im(2) la by (auto split: if_splits)
      then have v: "v < length (heap th)" "tdata (heap th ! v) = d" "v \<noteq> i" using ix by (auto simp: indexed_def)
      moreover from this False have "v \<noteq> ?l" by auto
      ultimately have "v < ?l" by linarith
      then show ?thesis using nth v by simp
    qed
    then show "v < length ?h" "tdata (?h ! v) = d" by auto
  qed (rule im(1))
qed

lemma heap_but_moved:
  assumes ord: "heap_ord ds" and i: "i < length ds - 1"
  shows "heap_but (butlast (ds[i := x])) i"
  unfolding heap_but_def
proof (intro conjI allI impI; elim conjE)
  have nth: "butlast (ds[i := x]) ! q = (if q = i then x else ds ! q)" if "q < length ds - 1" for q
    using that i by (simp add: nth_butlast nth_list_update)
  have ok: "ds ! par q \<le> ds ! q" if "0 < q" "q < length ds" for q using ord that by (simp add: heap_ord_def)
  {
    fix q assume q: "0 < q" "q < length (butlast (ds[i := x]))" "q \<noteq> i" "par q \<noteq> i"
    then show "butlast (ds[i := x]) ! par q \<le> butlast (ds[i := x]) ! q"
      using nth[of q] nth[of "par q"] ok[of q] par_lt[of q] by simp
  next
    fix c assume c: "0 < c" "c < length (butlast (ds[i := x]))" "par c = i" "0 < i"
    then have "ds ! par i \<le> ds ! i" "ds ! i \<le> ds ! c" using ok[of i] ok[of c] i by auto
    then show "butlast (ds[i := x]) ! par i \<le> butlast (ds[i := x]) ! c"
      using nth[of c] nth[of "par i"] c par_lt[of i] par_lt[of c] i by auto
  }
qed

lemma Remove_present:
  assumes ok: "timer_ok esz th" and d: "d \<in> fst ` pending th"
  shows "\<exists>th'. Remove d th = Inr (True, th') \<and> timer_ok esz th' \<and> pending th' = {x \<in> pending th. fst x \<noteq> d}"
proof -
  have ix: "indexed esz th" and ord: "heap_ord (delays th)" using ok by (auto simp: timer_ok_def)
  have so: "shard_ok id esz (idMap th)" using ix by (simp add: indexed_def)
  obtain i where "shard_map (idMap th) d = Some i" using data_present[OF ix] d by auto
  then have i: "shard_map (idMap th) d = Some i" "i < length (heap th)" "tdata (heap th ! i) = d" using ix by (auto simp: indexed_def)
  obtain p where g: "Get id d (idMap th) = Inr (Some p)" "value_at (idMap th) p = Some i"
    using Get_ok[OF so, of d] i(1) by (auto simp: value_at_def)
  obtain im1 where e: "Erase id d (idMap th) = Inr (True, im1)" "shard_ok id esz im1" "shard_map im1 = (shard_map (idMap th))(d := None)"
    using Erase_ok[OF so, of d] i(1) by auto
  let ?l = "length (heap th) - 1"
  have other: "q = i" if "q < length (heap th)" "tdata (heap th ! q) = d" for q
    using indexed_data[OF ix that(1)] i(1) unfolding that(2) by simp
  have ne: "heap th \<noteq> []" using i(2) by auto
  have rest: "{x \<in> pending th. fst x \<noteq> d} = entry th ` ({..<length (heap th)} - {i})"
    unfolding pending_nth using other i(3) by (auto simp: entry_def)
  show ?thesis
  proof (cases "i = ?l")
    case True
    define th2 where "th2 = \<lparr>heap = butlast (heap th), idMap = im1\<rparr>"
    have nth: "heap th2 ! q = heap th ! q" if "q < ?l" for q using that by (simp add: th2_def nth_butlast)
    have "Remove d th = Inr (True, th2)" using g e(1) True by (simp add: Remove_def Let_def th2_def)
    moreover have "indexed esz th2"
      unfolding indexed_def
    proof (intro conjI allI impI)
      fix q assume "q < length (heap th2)"
      then have q: "q < ?l" by (simp add: th2_def)
      then have "q < length (heap th)" "q \<noteq> i" using True by linarith+
      then have "tdata (heap th ! q) \<noteq> d" using other[of q] by blast
      then show "shard_map (idMap th2) (tdata (heap th2 ! q)) = Some q" "heapIdx (heap th2 ! q) = q"
        using nth[OF q] ix q e(3) by (auto simp: indexed_def th2_def)
    next
      fix d' v assume "shard_map (idMap th2) d' = Some v"
      then have "d' \<noteq> d" "shard_map (idMap th) d' = Some v" using e(3) by (auto simp: th2_def split: if_splits)
      then have v: "v < length (heap th)" "tdata (heap th ! v) = d'" "v \<noteq> ?l" using ix i(3) True by (auto simp: indexed_def)
      then have "v < ?l" by linarith
      then show "v < length (heap th2)" "tdata (heap th2 ! v) = d'" using nth v by (auto simp: th2_def)
    qed (simp add: th2_def e(2))
    moreover have "delays th2 = butlast (delays th)" by (simp add: delays_def th2_def map_butlast)
    then have "heap_ord (delays th2)" using heap_ord_butlast[OF ord] by simp
    moreover have "pending th2 = {x \<in> pending th. fst x \<noteq> d}"
    proof -
      have "pending th2 = entry th2 ` {..<?l}" unfolding pending_nth by (simp add: th2_def)
      also have "\<dots> = entry th ` {..<?l}" by (rule image_cong) (simp_all add: nth entry_def)
      also have "{..<?l} = {..<length (heap th)} - {i}" using True ne by auto
      finally show ?thesis unfolding rest .
    qed
    ultimately show ?thesis by (auto simp: timer_ok_def)
  next
    case False
    then have il: "i < ?l" using i(2) by linarith
    have la: "last (heap th) = heap th ! ?l" using ne by (simp add: last_conv_nth)
    have dl: "tdata (heap th ! ?l) \<noteq> d" using other[of ?l] ne False by auto
    obtain im2 where s: "set_pos (tdata (heap th ! ?l)) i im1 = Inr im2" "shard_ok id esz im2"
      "shard_map im2 = (shard_map im1)(tdata (heap th ! ?l) \<mapsto> i)"
      using set_pos_ok[OF e(2), of "tdata (heap th ! ?l)" ?l i] e(3) dl indexed_data[OF ix, of ?l] ne by auto
    define th2 where "th2 = \<lparr>heap = butlast ((heap th)[i := (last (heap th))\<lparr>heapIdx := i\<rparr>]), idMap = im2\<rparr>"
    have len: "length (heap th2) = ?l" by (simp add: th2_def)
    have ix2: "indexed esz th2"
      unfolding th2_def using indexed_moved[OF ix il s(2)] s(3) e(3) i(3) la by simp
    have "delays th2 = butlast ((delays th)[i := delays th ! ?l])"
      using la i(2) ne by (simp add: delays_def th2_def map_butlast map_update)
    then have "heap_but (delays th2) i" using heap_but_moved[OF ord] il by (simp add: delays_def)
    from FixHeap_ok[OF ix2 _ this] il len obtain th' where f: "FixHeap i th2 = Inr th'" "indexed esz th'" "heap_ord (delays th')"
      "set (pairs th') = set (pairs th2)" by auto
    have "Remove d th = Inr (True, th')"
      using g e(1) False s(1) f(1) il la i(2) unfolding Remove_def Let_def
      by (simp add: th2_def)
    moreover have "pending th' = {x \<in> pending th. fst x \<noteq> d}"
    proof -
      have nth: "heap th2 ! q = (if q = i then (heap th ! ?l)\<lparr>heapIdx := i\<rparr> else heap th ! q)" if "q < ?l" for q
        using that il la by (simp add: th2_def nth_butlast nth_list_update)
      have "pending th' = entry th2 ` {..<?l}" using f(4) pending_nth[of th2] unfolding len by (simp add: pending_def)
      also have "\<dots> = (\<lambda>q. entry th (if q = i then ?l else q)) ` {..<?l}"
        by (rule image_cong) (simp_all add: nth entry_def)
      also have "\<dots> = entry th ` (\<lambda>q. if q = i then ?l else q) ` {..<?l}" by (simp only: image_image)
      also have "(\<lambda>q. if q = i then ?l else q) ` {..<?l} = {..<length (heap th)} - {i}"
      proof (intro equalityI subsetI)
        fix q assume "q \<in> {..<length (heap th)} - {i}"
        then show "q \<in> (\<lambda>q. if q = i then ?l else q) ` {..<?l}"
          using il by (cases "q = ?l") (auto intro!: image_eqI[of _ _ i] image_eqI[of _ _ q])
      qed (use il ne False in \<open>auto split: if_splits\<close>)
      finally show ?thesis unfolding rest .
    qed
    ultimately show ?thesis using f by (auto simp: timer_ok_def)
  qed
qed

section \<open>Properties\<close>

text \<open>C37. \<open>Insert\<close> into a well-formed timer heap refuses a timer whose data is pending and otherwise adds
  the timer at its rounded expiration time; the vector stays heap ordered and the hash table keeps
  pointing at every timer's position.\<close>

theorem timer_insert:
  assumes "timer_ok esz th" "room A esz (idMap th)"
  shows "\<exists>th'. TimerInsert A esz d dl delta th = Inr (d \<notin> fst ` pending th, th') \<and> timer_ok esz th' \<and>
    pending th' = (if d \<in> fst ` pending th then pending th else insert (d, RoundToBucket dl delta) (pending th))"
  by (rule TimerInsert_ok[OF assms])

text \<open>C38. \<open>Remove\<close> takes exactly the timer of its argument out of a well-formed heap, wherever it stands
  in the vector, and tells whether there was one.\<close>

theorem timer_remove:
  assumes "timer_ok esz th"
  shows "\<exists>th'. Remove d th = Inr (d \<in> fst ` pending th, th') \<and> timer_ok esz th' \<and>
    pending th' = {x \<in> pending th. fst x \<noteq> d}"
proof (cases "d \<in> fst ` pending th")
  case True
  then show ?thesis using Remove_present[OF assms] by simp
next
  case False
  then have "pending th = {x \<in> pending th. fst x \<noteq> d}" by force
  then show ?thesis using Remove_absent[OF assms False] assms False by auto
qed

text \<open>C24. \<open>PopExpired\<close> returns nothing exactly when no pending timer is due, and otherwise removes and
  returns a due timer before which none expires.\<close>

theorem timer_pop_is_earliest:
  assumes "timer_ok esz th"
  shows "(\<forall>x \<in> pending th. now < snd x) \<and> PopExpired now th = Inr (None, th) \<or>
    (\<exists>d dl th'. (d, dl) \<in> pending th \<and> dl \<le> now \<and> (\<forall>x \<in> pending th. dl \<le> snd x) \<and>
       PopExpired now th = Inr (Some d, th') \<and> timer_ok esz th' \<and> pending th' = {x \<in> pending th. fst x \<noteq> d})"
proof (cases "heap th = []")
  case True
  then show ?thesis by (simp add: PopExpired_def pending_def pairs_def)
next
  case False
  let ?d = "tdata (heap th ! 0)" and ?dl = "delay (heap th ! 0)"
  have "heap_ord (delays th)" using assms by (simp add: timer_ok_def)
  then have least: "?dl \<le> snd x" if "x \<in> pending th" for x
    using that heap_min[of "delays th"] False unfolding pending_nth by (auto simp: delays_def entry_def)
  have mem: "(?d, ?dl) \<in> pending th" using False unfolding pending_nth by (auto simp: entry_def intro!: image_eqI[of _ _ 0])
  show ?thesis
  proof (cases "?dl > now")
    case True
    then show ?thesis using least False by (auto simp: PopExpired_def intro: less_le_trans)
  next
    case due: False
    have "?d \<in> fst ` pending th" using mem by force
    from Remove_present[OF assms this] obtain th' where "Remove ?d th = Inr (True, th')" "timer_ok esz th'"
      "pending th' = {x \<in> pending th. fst x \<noteq> ?d}" by blast
    moreover from this(1) have "PopExpired now th = Inr (Some ?d, th')" using False due by (simp add: PopExpired_def)
    ultimately show ?thesis using mem least due not_less by blast
  qed
qed

lemma demo_timers: "\<exists>th. TimerHeap_new (\<lambda>_. True) 16 = Inr th \<and> timer_ok 16 th \<and> pending th = {} \<and> room (\<lambda>_. True) 16 (idMap th)"
proof -
  have c: "init_capacity 64 False = 64"
    by (simp add: init_capacity_def GROUP_WIDTH_def bit_ceil_def bitlen.simps)
  from Init_ok[of 16 64 False "\<lambda>_. True" id] obtain im :: "(u64, nat) shard" where
    im: "Init (\<lambda>_. True) 16 64 False new_shard = Inr im" "shard_ok id 16 im" "shard_map im = Map.empty" "capacity im = 64"
    unfolding c by auto
  then have "timer_ok 16 \<lparr>heap = [], idMap = im\<rparr>"
    by (simp add: timer_ok_def indexed_def delays_def heap_ord_def)
  then show ?thesis using im by (auto simp: TimerHeap_new_def pending_def pairs_def room_def)
qed

theorem timer_insert_witness:
  "\<exists>th th'. TimerHeap_new (\<lambda>_. True) 16 = Inr th \<and> TimerInsert (\<lambda>_. True) 16 7 1004 10 th = Inr (True, th') \<and>
     pending th' = {(7, 1000)}"
proof -
  obtain th where th: "TimerHeap_new (\<lambda>_. True) 16 = Inr th" "timer_ok 16 th" "pending th = {}" "room (\<lambda>_. True) 16 (idMap th)"
    using demo_timers by blast
  have "RoundToBucket 1004 10 = 1000" by (simp add: RoundToBucket_def Let_def drop_bit_eq_div)
  then show ?thesis using timer_insert[OF th(2,4), of 7 1004 10] th(1,3) by auto
qed

theorem timer_remove_witness:
  "\<exists>th. TimerHeap_new (\<lambda>_. True) 16 = Inr th \<and> (\<exists>th'. Remove 7 th = Inr (False, th') \<and> timer_ok 16 th')"
proof -
  obtain th where th: "TimerHeap_new (\<lambda>_. True) 16 = Inr th" "timer_ok 16 th" "pending th = {}" using demo_timers by blast
  then show ?thesis using timer_remove[OF th(2), of 7] by auto
qed

theorem timer_pop_is_earliest_witness:
  "\<exists>th. timer_ok 16 th \<and> pending th = {(7, 1000)} \<and> (\<exists>th'. PopExpired 1000 th = Inr (Some 7, th') \<and> pending th' = {})"
proof -
  obtain th0 where th0: "timer_ok 16 th0" "pending th0 = {}" "room (\<lambda>_. True) 16 (idMap th0)" using demo_timers by blast
  from TimerInsert_ok[OF th0(1,3), of 7 1000 0] obtain th where th: "timer_ok 16 th" "pending th = {(7, 1000)}"
    using th0(2) by (auto simp: RoundToBucket_def)
  show ?thesis using timer_pop_is_earliest[OF th(1), of 1000] th by auto
qed

end
