(* ===== verification/Dll.thy ===== *)
theory Dll
  imports Main
begin

text \<open>
  Intrusive doubly linked lists: nodes carry the successor and the predecessor, a head and sometimes a
  tail stand outside. \<open>dseg nx pv q p xs e\<close> says that the nodes \<open>xs\<close> are linked in both directions from
  \<open>p\<close>, whose predecessor is \<open>q\<close>, to the node \<open>e\<close> behind the last one. Shared by the timer wheel and the
  rate limiter.
\<close>

fun dseg :: "('a \<Rightarrow> 'a) \<Rightarrow> ('a \<Rightarrow> 'a) \<Rightarrow> 'a \<Rightarrow> 'a \<Rightarrow> 'a list \<Rightarrow> 'a \<Rightarrow> bool" where
  "dseg nx pv q p [] e \<longleftrightarrow> p = e"
| "dseg nx pv q p (x # xs) e \<longleftrightarrow> p = x \<and> pv x = q \<and> dseg nx pv x (nx x) xs e"

lemma dseg_append:
  "dseg nx pv q p (xs @ ys) e \<longleftrightarrow>
     (\<exists>m. dseg nx pv q p xs m \<and> dseg nx pv (last (q # xs)) m ys e)"
  by (induction xs arbitrary: q p) auto

lemma dseg_cong:
  "(\<And>x. x \<in> set xs \<Longrightarrow> nx x = nx' x \<and> pv x = pv' x) \<Longrightarrow> dseg nx pv q p xs e = dseg nx' pv' q p xs e"
  by (induction xs arbitrary: q p) auto

text \<open>A whole list, with its invisible end \<open>nil\<close>.\<close>

definition dlist :: "('a \<Rightarrow> 'a) \<Rightarrow> ('a \<Rightarrow> 'a) \<Rightarrow> 'a \<Rightarrow> 'a \<Rightarrow> 'a list \<Rightarrow> bool" where
  "dlist nx pv nil h xs \<longleftrightarrow> dseg nx pv nil h xs nil \<and> distinct xs \<and> nil \<notin> set xs"

lemma dlist_cong:
  "(\<And>x. x \<in> set xs \<Longrightarrow> nx x = nx' x \<and> pv x = pv' x) \<Longrightarrow> dlist nx pv nil h xs = dlist nx' pv' nil h xs"
  using dseg_cong[of xs nx nx' pv pv'] by (simp add: dlist_def)

lemma dlist_head: "dlist nx pv nil h xs \<Longrightarrow> h = (case xs of [] \<Rightarrow> nil | x # _ \<Rightarrow> x)"
  by (cases xs) (auto simp: dlist_def)

lemma dlist_push:
  assumes "dlist nx pv nil h xs" "x \<notin> set xs" "x \<noteq> nil"
    and "nx' x = h" "pv' x = nil" "h \<noteq> nil \<Longrightarrow> pv' h = x"
    and "\<And>y. y \<in> set xs \<Longrightarrow> nx' y = nx y" "\<And>y. y \<in> set xs \<Longrightarrow> y \<noteq> h \<Longrightarrow> pv' y = pv y"
  shows "dlist nx' pv' nil x (x # xs)"
proof (cases xs)
  case Nil
  then show ?thesis using assms by (auto simp: dlist_def)
next
  case (Cons y ys)
  then have "h = y" "y \<noteq> nil" using assms(1) by (auto simp: dlist_def)
  moreover have "dseg nx' pv' y (nx y) ys nil = dseg nx pv y (nx y) ys nil"
    using assms(1,7,8) Cons \<open>h = y\<close> by (intro dseg_cong) (auto simp: dlist_def)
  ultimately show ?thesis using assms Cons by (auto simp: dlist_def)
qed

text \<open>The neighbours of a node, and its removal.\<close>

lemma dlist_split:
  assumes "dlist nx pv nil h (xs @ x # ys)"
  shows "pv x = last (nil # xs)" "nx x = (case ys of [] \<Rightarrow> nil | y # _ \<Rightarrow> y)"
    "h = (case xs of [] \<Rightarrow> x | y # _ \<Rightarrow> y)" "xs \<noteq> [] \<Longrightarrow> nx (last xs) = x" "ys \<noteq> [] \<Longrightarrow> pv (hd ys) = x"
proof -
  obtain m where s: "dseg nx pv nil h xs m" "dseg nx pv (last (nil # xs)) m (x # ys) nil"
    using assms by (auto simp: dlist_def dseg_append)
  then show "pv x = last (nil # xs)" "nx x = (case ys of [] \<Rightarrow> nil | y # _ \<Rightarrow> y)" "ys \<noteq> [] \<Longrightarrow> pv (hd ys) = x"
    by (cases ys; simp)+
  show "h = (case xs of [] \<Rightarrow> x | y # _ \<Rightarrow> y)" using s by (cases xs) auto
  show "nx (last xs) = x" if "xs \<noteq> []"
  proof -
    have "xs = butlast xs @ [last xs]" using that by simp
    with s(1) obtain m' where "dseg nx pv (last (nil # butlast xs)) m' [last xs] m" by (metis dseg_append)
    then show ?thesis using s(2) by auto
  qed
qed

lemma dlist_remove:
  assumes d: "dlist nx pv nil h (xs @ x # ys)"
    and nx': "\<And>y. y \<in> set xs \<union> set ys \<Longrightarrow> nx' y = (if pv x \<noteq> nil \<and> y = pv x then nx x else nx y)"
    and pv': "\<And>y. y \<in> set xs \<union> set ys \<Longrightarrow> pv' y = (if nx x \<noteq> nil \<and> y = nx x then pv x else pv y)"
  shows "dlist nx' pv' nil (if pv x \<noteq> nil then h else nx x) (xs @ ys)"
proof -
  have dis: "distinct (xs @ x # ys)" "nil \<notin> set (xs @ x # ys)" using d by (auto simp: dlist_def)
  obtain m where s: "dseg nx pv nil h xs m" "dseg nx pv (last (nil # xs)) m (x # ys) nil"
    using d by (auto simp: dlist_def dseg_append)
  note sp = dlist_split[OF d]
  have tail: "dseg nx' pv' (last (nil # xs)) (nx x) ys nil"
  proof (cases ys)
    case Nil
    then show ?thesis using s(2) by simp
  next
    case (Cons y zs)
    have y: "nx x = y" "y \<noteq> nil" using s(2) Cons dis(2) by auto
    have z: "dseg nx pv y (nx y) zs nil" using s(2) Cons by simp
    have "pv x \<notin> set ys" using sp(1) dis by (cases xs rule: rev_cases) auto
    then have nxy: "nx' w = nx w" if "w \<in> set ys" for w using nx'[of w] that by auto
    have "dseg nx' pv' y (nx y) zs nil"
      using z nxy pv' dis Cons y(1) by (subst dseg_cong[of zs _ nx _ pv]) auto
    then show ?thesis using Cons y pv'[of y] sp(1) nxy[of y] by simp
  qed
  have pvx: "pv' w = pv w" if "w \<in> set xs" for w
  proof -
    have "nx x \<notin> set xs" using sp(2) dis by (cases ys) auto
    then show ?thesis using pv'[of w] that by auto
  qed
  show ?thesis
  proof (cases xs rule: rev_cases)
    case Nil
    then show ?thesis using tail dis sp(1) by (simp add: dlist_def)
  next
    case (snoc zs z)
    have px: "pv x = z" "z \<noteq> nil" using sp(1) snoc dis(2) by auto
    obtain k where k: "dseg nx pv nil h zs k" "dseg nx pv (last (nil # zs)) k [z] m"
      using s(1) snoc by (auto simp: dseg_append)
    have "dseg nx' pv' nil h zs k"
      using k(1) nx' pvx dis snoc px by (subst dseg_cong[of zs _ nx _ pv]) auto
    moreover have "dseg nx' pv' (last (nil # zs)) k [z] (nx x)"
      using k(2) nx'[of z] pvx[of z] snoc px by simp
    ultimately have "dseg nx' pv' nil h xs (nx x)" unfolding snoc by (auto simp: dseg_append)
    then show ?thesis using tail dis px by (auto simp: dlist_def dseg_append)
  qed
qed

end
