(* ===== verification/TimerWheel.thy ===== *)
theory TimerWheel
  imports WFX_Prelude Dll
begin

text \<open>
  Model of \<open>src/utils/timer/timer_wheel.cpp\<close>: a hashed timer wheel over intrusive lists. Slots of the
  metadata vector are addressed by 32-bit numbers, \<open>NIL\<close> is the empty link. The expiry callback is an
  argument: what matters to the wheel is the list of \<open>Schedule\<close> and \<open>Cancel\<close> calls it makes on it.
\<close>

section \<open>State\<close>

definition NIL :: u32 where "NIL = 0xFFFFFFFF"

datatype TimeUnit = SECONDS | MILLISECONDS | MICROSECONDS

record slot_meta =
  w_next :: u32
  w_prev :: u32
  w_extra :: u32
  w_bucket :: u16
  w_rounds :: u8

definition SlotMeta0 :: slot_meta where
  "SlotMeta0 = \<lparr>w_next = NIL, w_prev = NIL, w_extra = 0, w_bucket = 0xFFFF, w_rounds = 0\<rparr>"

record timer_wheel =
  wcap :: u32
  wmask :: u32
  wslots :: u16
  wshift :: nat
  tickVal :: u16
  nowTick :: u64
  wunit :: TimeUnit
  wmeta :: "slot_meta list"
  wheelHeads :: "u32 list"

definition new_wheel :: timer_wheel where
  "new_wheel = \<lparr>wcap = 0, wmask = 0, wslots = 0, wshift = 0, tickVal = 1, nowTick = 0, wunit = MILLISECONDS,
                wmeta = [], wheelHeads = []\<rparr>"

section \<open>Set up\<close>

function shift_loop :: "nat \<Rightarrow> u16 \<Rightarrow> nat" where
  "shift_loop sh sl = (if 2 ^ sh < unat sl then shift_loop (Suc sh) sl else sh)"
  by pat_completeness auto
termination
proof (relation "measure (\<lambda>(sh, sl). unat sl - sh)", goal_cases)
  case (2 sh sl)
  have "sh < 2 ^ sh" by simp
  with 2 have "sh < unat sl" using less_trans by blast
  then show ?case by auto
qed simp

declare shift_loop.simps [simp del]

definition tick_val :: "u32 \<Rightarrow> u16" where
  "tick_val v = ucast (if v \<noteq> 0 then v else 1)"

definition Wheel_Init :: "u32 \<Rightarrow> u16 \<Rightarrow> u32 \<Rightarrow> TimeUnit \<Rightarrow> bool \<Rightarrow> timer_wheel \<Rightarrow> fatal + timer_wheel" where
  "Wheel_Init capacity wheelSlots tickValue unt hasCallback w =
     (if \<not> hasCallback then Inl (Fatal ''[TimerWheel]: 'onExpire' function was nullptr'')
      else if (ucast wheelSlots :: u32) AND (ucast wheelSlots - 1) \<noteq> 0 then
        Inl (Fatal ''[TimerWheel]: 'wheelSlots' must be a power of two'')
      else Inr \<lparr>wcap = capacity, wmask = ucast wheelSlots - 1, wslots = wheelSlots, wshift = shift_loop 0 wheelSlots,
                tickVal = tick_val tickValue, nowTick = 0, wunit = unt,
                wmeta = replicate (unat capacity) SlotMeta0, wheelHeads = replicate (unat wheelSlots) NIL\<rparr>)"

definition Reinit :: "u32 \<Rightarrow> timer_wheel \<Rightarrow> timer_wheel" where
  "Reinit capacity w = w\<lparr>wcap := capacity, wmeta := replicate (unat capacity) SlotMeta0\<rparr>"

text \<open>\<open>vector::resize\<close> to the new capacity, which may have wrapped.\<close>

definition Expand :: "u32 \<Rightarrow> timer_wheel \<Rightarrow> timer_wheel" where
  "Expand extraCapacity w =
     (if extraCapacity = 0 then w
      else let c = wcap w + extraCapacity in
        w\<lparr>wcap := c, wmeta := take (unat c) (wmeta w) @ replicate (unat c - length (wmeta w)) SlotMeta0\<rparr>)"

definition SetTick :: "u32 \<Rightarrow> TimeUnit \<Rightarrow> timer_wheel \<Rightarrow> timer_wheel" where
  "SetTick val unt w = w\<lparr>tickVal := tick_val val, wunit := unt\<rparr>"

definition GetTick :: "timer_wheel \<Rightarrow> u64" where "GetTick w = nowTick w"

section \<open>Linking\<close>

abbreviation meta_at :: "timer_wheel \<Rightarrow> u32 \<Rightarrow> slot_meta" where
  "meta_at w pos \<equiv> wmeta w ! unat pos"

definition upd_meta :: "u32 \<Rightarrow> (slot_meta \<Rightarrow> slot_meta) \<Rightarrow> timer_wheel \<Rightarrow> timer_wheel" where
  "upd_meta pos f w = w\<lparr>wmeta := (wmeta w)[unat pos := f (meta_at w pos)]\<rparr>"

definition set_head :: "nat \<Rightarrow> u32 \<Rightarrow> timer_wheel \<Rightarrow> timer_wheel" where
  "set_head b v w = w\<lparr>wheelHeads := (wheelHeads w)[b := v]\<rparr>"

definition Wheel_Unlink :: "u32 \<Rightarrow> timer_wheel \<Rightarrow> fatal + timer_wheel" where
  "Wheel_Unlink pos w =
     (if pos \<ge> wcap w then Inl (Fatal ''[TimerWheel]: 'Unlink' expected 'pos' to be less than wheel capacity'')
      else if w_bucket (meta_at w pos) \<ge> wslots w then Inr w
      else
        let w1 = (if w_prev (meta_at w pos) \<noteq> NIL
                  then upd_meta (w_prev (meta_at w pos)) (w_next_update (\<lambda>_. w_next (meta_at w pos))) w
                  else if wheelHeads w ! unat (w_bucket (meta_at w pos)) = pos
                  then set_head (unat (w_bucket (meta_at w pos))) (w_next (meta_at w pos)) w else w);
            w2 = (if w_next (meta_at w1 pos) \<noteq> NIL
                  then upd_meta (w_next (meta_at w1 pos)) (w_prev_update (\<lambda>_. w_prev (meta_at w1 pos))) w1 else w1)
        in Inr (upd_meta pos (\<lambda>m. m\<lparr>w_next := NIL, w_prev := NIL, w_bucket := wslots w2, w_rounds := 0\<rparr>) w2))"

definition ClearSlot :: "u32 \<Rightarrow> timer_wheel \<Rightarrow> timer_wheel" where
  "ClearSlot pos w = upd_meta pos (\<lambda>_. SlotMeta0) w"

definition countr_zero16 :: "u16 \<Rightarrow> nat" where
  "countr_zero16 w = length (takeWhile (\<lambda>n. \<not> bit w n) [0..<16])"

definition ticks_of :: "u16 \<Rightarrow> u64 \<Rightarrow> u64" where
  "ticks_of tv timeout =
     (if tv > 1 then
        if (ucast tv :: u32) AND (ucast tv - 1) = 0 then drop_bit (countr_zero16 tv) timeout
        else timeout div ucast tv
      else timeout)"

definition Schedule :: "u32 \<Rightarrow> u32 \<Rightarrow> u64 \<Rightarrow> timer_wheel \<Rightarrow> fatal + timer_wheel" where
  "Schedule pos extra timeout w =
     (if pos \<ge> wcap w then Inl (Fatal ''[TimerWheel]: 'Schedule' expected 'pos' to be less than wheel capacity'')
      else (case Wheel_Unlink pos w of
              Inl e \<Rightarrow> Inl e
            | Inr w0 \<Rightarrow>
                let expireTick = nowTick w0 + ticks_of (tickVal w0) timeout;
                    bucket = (ucast (expireTick AND ucast (wmask w0)) :: u32);
                    rounds = (ucast (drop_bit (wshift w0) expireTick - drop_bit (wshift w0) (nowTick w0)) :: u8);
                    w1 = upd_meta pos (\<lambda>m. m\<lparr>w_bucket := ucast bucket, w_rounds := rounds, w_extra := extra,
                                            w_next := wheelHeads w0 ! unat bucket, w_prev := NIL\<rparr>) w0;
                    w2 = (if w_next (meta_at w1 pos) \<noteq> NIL
                          then upd_meta (w_next (meta_at w1 pos)) (w_prev_update (\<lambda>_. pos)) w1 else w1)
                in Inr (set_head (unat bucket) pos w2)))"

definition Wheel_Cancel :: "u32 \<Rightarrow> timer_wheel \<Rightarrow> fatal + timer_wheel" where
  "Wheel_Cancel pos w =
     (if pos \<ge> wcap w then Inl (Fatal ''[TimerWheel]: 'Cancel' expected 'pos' to be less than wheel capacity'')
      else map_sum id (ClearSlot pos) (Wheel_Unlink pos w))"

section \<open>Ticking\<close>

datatype wheel_call = CallSchedule u32 u32 u64 | CallCancel u32

fun run_call :: "wheel_call \<Rightarrow> timer_wheel \<Rightarrow> fatal + timer_wheel" where
  "run_call (CallSchedule pos extra timeout) w = Schedule pos extra timeout w"
| "run_call (CallCancel pos) w = Wheel_Cancel pos w"

fun run_calls :: "wheel_call list \<Rightarrow> timer_wheel \<Rightarrow> fatal + timer_wheel" where
  "run_calls [] w = Inr w"
| "run_calls (c # cs) w = (case run_call c w of Inl e \<Rightarrow> Inl e | Inr w' \<Rightarrow> run_calls cs w')"

text \<open>The walk over one bucket, with the list of expiries reported so far. The fuel is one more than the
  number of slots; a walk that does not reach the end of its list is an error of the model.\<close>

fun walk_bucket ::
  "(u32 \<Rightarrow> u32 \<Rightarrow> wheel_call list) \<Rightarrow> nat \<Rightarrow> u32 \<Rightarrow> (u32 \<times> u32) list \<Rightarrow> timer_wheel \<Rightarrow>
     fatal + ((u32 \<times> u32) list \<times> timer_wheel)" where
  "walk_bucket cb 0 cur fired w = Inl (Fatal ''bucket walk does not end'')"
| "walk_bucket cb (Suc n) cur fired w =
     (if cur = NIL then Inr (fired, w)
      else
        let extra = w_extra (meta_at w cur); nxt = w_next (meta_at w cur) in
        if w_rounds (meta_at w cur) = 0 then
          (case run_calls (cb cur extra) w of
             Inl e \<Rightarrow> Inl e
           | Inr w1 \<Rightarrow>
               (case Wheel_Unlink cur w1 of
                  Inl e \<Rightarrow> Inl e
                | Inr w2 \<Rightarrow> walk_bucket cb n nxt (fired @ [(cur, extra)]) w2))
        else walk_bucket cb n nxt fired (upd_meta cur (\<lambda>m. m\<lparr>w_rounds := w_rounds m - 1\<rparr>) w))"

definition tick_once ::
  "(u32 \<Rightarrow> u32 \<Rightarrow> wheel_call list) \<Rightarrow> timer_wheel \<Rightarrow> fatal + ((u32 \<times> u32) list \<times> timer_wheel)" where
  "tick_once cb w =
     (let bucket = (ucast (nowTick w AND ucast (wmask w)) :: u32)
      in map_sum id (\<lambda>(fired, w'). (fired, w'\<lparr>nowTick := nowTick w' + 1\<rparr>))
           (walk_bucket cb (Suc (length (wmeta w))) (wheelHeads w ! unat bucket) [] w))"

text \<open>\<open>Tick\<close>: as many rounds as there are ticks to catch up with.\<close>

fun tick_loop ::
  "(u32 \<Rightarrow> u32 \<Rightarrow> wheel_call list) \<Rightarrow> nat \<Rightarrow> (u32 \<times> u32) list \<Rightarrow> timer_wheel \<Rightarrow> fatal + ((u32 \<times> u32) list \<times> timer_wheel)" where
  "tick_loop cb 0 fired w = Inr (fired, w)"
| "tick_loop cb (Suc n) fired w =
     (case tick_once cb w of Inl e \<Rightarrow> Inl e | Inr (f, w') \<Rightarrow> tick_loop cb n (fired @ f) w')"

definition Tick ::
  "(u32 \<Rightarrow> u32 \<Rightarrow> wheel_call list) \<Rightarrow> u64 \<Rightarrow> timer_wheel \<Rightarrow> fatal + ((u32 \<times> u32) list \<times> timer_wheel)" where
  "Tick cb now w = tick_loop cb (unat now - unat (nowTick w)) [] w"

end
