(* ===== verification/TimerWheelProofs.thy ===== *)
theory TimerWheelProofs
  imports TimerWheel
begin

text \<open>
  Correctness of the timer wheel: the buckets are doubly linked lists of the armed slots, every
  operation keeps them so, and a tick reports exactly the timers whose tick has come.
\<close>

section \<open>The buckets\<close>

definition wnx :: "timer_wheel \<Rightarrow> u32 \<Rightarrow> u32" where "wnx w p = w_next (meta_at w p)"
definition wpv :: "timer_wheel \<Rightarrow> u32 \<Rightarrow> u32" where "wpv w p = w_prev (meta_at w p)"
definition bucket_of :: "timer_wheel \<Rightarrow> u32 \<Rightarrow> nat" where "bucket_of w p = unat (w_bucket (meta_at w p))"

definition armed :: "timer_wheel \<Rightarrow> u32 \<Rightarrow> bool" where
  "armed w p \<longleftrightarrow> p < wcap w \<and> bucket_of w p < unat (wslots w)"

definition wheel_shape :: "timer_wheel \<Rightarrow> bool" where
  "wheel_shape w \<longleftrightarrow> length (wmeta w) = unat (wcap w) \<and> length (wheelHeads w) = unat (wslots w) \<and>
     wshift w < 16 \<and> unat (wslots w) = 2 ^ wshift w \<and> unat (wmask w) = 2 ^ wshift w - 1"

definition wheel_ok :: "timer_wheel \<Rightarrow> (nat \<Rightarrow> u32 list) \<Rightarrow> bool" where
  "wheel_ok w ls \<longleftrightarrow> wheel_shape w \<and>
     (\<forall>b < unat (wslots w). dlist (wnx w) (wpv w) NIL (wheelHeads w ! b) (ls b) \<and>
        (\<forall>p \<in> set (ls b). p < wcap w \<and> bucket_of w p = b)) \<and>
     (\<forall>p. armed w p \<longrightarrow> p \<in> set (ls (bucket_of w p)))"

lemma lt_NIL: "p < wcap w \<Longrightarrow> p \<noteq> NIL"
proof
  assume "p < wcap w" "p = NIL"
  then have "unat NIL < unat (wcap w)" by (simp add: word_less_nat_alt)
  moreover have "unat (wcap w) < 2 ^ 32" using unat_u32_lt[of "wcap w"] by simp
  ultimately show False by (simp add: NIL_def)
qed

lemma upd_meta_simps [simp]:
  "wcap (upd_meta p f w) = wcap w" "wslots (upd_meta p f w) = wslots w" "wshift (upd_meta p f w) = wshift w"
  "wmask (upd_meta p f w) = wmask w" "nowTick (upd_meta p f w) = nowTick w" "tickVal (upd_meta p f w) = tickVal w"
  "wheelHeads (upd_meta p f w) = wheelHeads w" "length (wmeta (upd_meta p f w)) = length (wmeta w)"
  by (simp_all add: upd_meta_def)

lemma set_head_simps [simp]:
  "wcap (set_head b v w) = wcap w" "wslots (set_head b v w) = wslots w" "wshift (set_head b v w) = wshift w"
  "wmask (set_head b v w) = wmask w" "nowTick (set_head b v w) = nowTick w" "tickVal (set_head b v w) = tickVal w"
  "wmeta (set_head b v w) = wmeta w" "length (wheelHeads (set_head b v w)) = length (wheelHeads w)"
  "wheelHeads (set_head b v w) = (wheelHeads w)[b := v]"
  by (simp_all add: set_head_def)

lemma upd_meta_at:
  "unat p < length (wmeta w) \<Longrightarrow> meta_at (upd_meta p f w) q = (if q = p then f (meta_at w p) else meta_at w q)"
  by (auto simp: upd_meta_def word_unat_eq_iff)

lemma shape_lt: "wheel_shape w \<Longrightarrow> p < wcap w \<longleftrightarrow> unat p < length (wmeta w)"
  by (simp add: wheel_shape_def word_less_nat_alt)

lemma wheel_okD:
  assumes "wheel_ok w ls"
  shows "wheel_shape w"
    "b < unat (wslots w) \<Longrightarrow> dlist (wnx w) (wpv w) NIL (wheelHeads w ! b) (ls b)"
    "b < unat (wslots w) \<Longrightarrow> p \<in> set (ls b) \<Longrightarrow> p < wcap w \<and> bucket_of w p = b \<and> armed w p"
    "armed w p \<Longrightarrow> p \<in> set (ls (bucket_of w p))"
  using assms by (auto simp: wheel_ok_def armed_def)

section \<open>Unlinking\<close>

lemma Wheel_Unlink_idle:
  assumes "p < wcap w" "\<not> armed w p"
  shows "Wheel_Unlink p w = Inr w"
proof -
  have "\<not> wcap w \<le> p" using assms(1) by simp
  moreover have "wslots w \<le> w_bucket (meta_at w p)" using assms by (simp add: armed_def bucket_of_def word_le_nat_alt)
  ultimately show ?thesis by (simp add: Wheel_Unlink_def)
qed

lemma Wheel_Unlink_armed:
  assumes ok: "wheel_ok w ls" and a: "armed w p"
  shows "\<exists>w'. Wheel_Unlink p w = Inr w' \<and> wheel_ok w' (ls(bucket_of w p := remove1 p (ls (bucket_of w p)))) \<and>
    \<not> armed w' p \<and> nowTick w' = nowTick w \<and> tickVal w' = tickVal w \<and> wcap w' = wcap w \<and> wslots w' = wslots w \<and>
    wmask w' = wmask w \<and> wshift w' = wshift w \<and>
    (\<forall>q. q \<noteq> p \<longrightarrow> w_bucket (meta_at w' q) = w_bucket (meta_at w q) \<and> w_rounds (meta_at w' q) = w_rounds (meta_at w q) \<and>
       w_extra (meta_at w' q) = w_extra (meta_at w q))"
proof -
  note D = wheel_okD[OF ok]
  let ?b = "bucket_of w p"
  have p: "p < wcap w" "?b < unat (wslots w)" using a by (auto simp: armed_def)
  obtain xs ys where l: "ls ?b = xs @ p # ys" using D(4)[OF a] by (metis split_list)
  have dl: "dlist (wnx w) (wpv w) NIL (wheelHeads w ! ?b) (xs @ p # ys)" using D(2)[OF p(2)] l by simp
  then have dis: "distinct (xs @ p # ys)" "NIL \<notin> set (xs @ p # ys)" by (auto simp: dlist_def)
  note sp = dlist_split[OF dl]
  have mem: "q < wcap w \<and> bucket_of w q = ?b" if "q \<in> set (xs @ p # ys)" for q using D(3)[OF p(2), of q] that unfolding l by blast
  have len: "unat q < length (wmeta w)" if "q < wcap w" for q using that shape_lt[OF D(1)] by simp
  have prv: "wpv w p \<noteq> NIL \<Longrightarrow> wpv w p \<in> set xs" using sp(1) by (cases xs rule: rev_cases) simp_all
  have nxt: "wnx w p \<noteq> NIL \<Longrightarrow> wnx w p \<in> set ys" using sp(2) by (cases ys) simp_all
  define w1 where "w1 = (if wpv w p \<noteq> NIL then upd_meta (wpv w p) (w_next_update (\<lambda>_. wnx w p)) w
    else if wheelHeads w ! ?b = p then set_head ?b (wnx w p) w else w)"
  have prev_len: "wpv w p \<noteq> NIL \<Longrightarrow> unat (wpv w p) < length (wmeta w)" using prv mem len by auto
  have m1: "meta_at w1 q = (if wpv w p \<noteq> NIL \<and> q = wpv w p then (meta_at w q)\<lparr>w_next := wnx w p\<rparr> else meta_at w q)" for q
    using upd_meta_at[OF prev_len] by (auto simp: w1_def)
  have pne: "p \<noteq> wpv w p" "p \<noteq> wnx w p" using prv nxt dis by auto
  have m1p: "wnx w1 p = wnx w p" "wpv w1 p = wpv w p" using m1[of p] pne by (simp_all add: wnx_def wpv_def)
  define w2 where "w2 = (if wnx w p \<noteq> NIL then upd_meta (wnx w p) (w_prev_update (\<lambda>_. wpv w p)) w1 else w1)"
  have len1: "length (wmeta w1) = length (wmeta w)" by (simp add: w1_def)
  have next_len: "wnx w p \<noteq> NIL \<Longrightarrow> unat (wnx w p) < length (wmeta w1)" using nxt mem len len1 by auto
  have m2: "meta_at w2 q = (if wnx w p \<noteq> NIL \<and> q = wnx w p then (meta_at w1 q)\<lparr>w_prev := wpv w p\<rparr> else meta_at w1 q)" for q
    using upd_meta_at[OF next_len] by (auto simp: w2_def)
  define w3 where "w3 = upd_meta p (\<lambda>m. m\<lparr>w_next := NIL, w_prev := NIL, w_bucket := wslots w2, w_rounds := 0\<rparr>) w2"
  have len2: "length (wmeta w2) = length (wmeta w)" using len1 by (simp add: w2_def)
  have m3: "meta_at w3 q = (if q = p then (meta_at w2 p)\<lparr>w_next := NIL, w_prev := NIL, w_bucket := wslots w2, w_rounds := 0\<rparr> else meta_at w2 q)" for q
    unfolding w3_def by (rule upd_meta_at) (simp add: len2 len p(1))
  have U: "Wheel_Unlink p w = Inr w3"
    unfolding Wheel_Unlink_def Let_def wpv_def[symmetric] wnx_def[symmetric] bucket_of_def[symmetric]
      w1_def[symmetric]
    using p m1p by (simp add: w2_def w3_def word_le_nat_alt bucket_of_def word_less_nat_alt)
  have fr: "wcap w3 = wcap w" "wslots w3 = wslots w" "wshift w3 = wshift w" "wmask w3 = wmask w" "nowTick w3 = nowTick w" "tickVal w3 = tickVal w"
    by (simp_all add: w3_def w2_def w1_def)
  have hd: "wheelHeads w3 = (if wpv w p \<noteq> NIL then wheelHeads w else if wheelHeads w ! ?b = p then (wheelHeads w)[?b := wnx w p] else wheelHeads w)"
    by (simp add: w3_def w2_def w1_def)
  have bk: "w_bucket (meta_at w3 q) = w_bucket (meta_at w q) \<and> w_rounds (meta_at w3 q) = w_rounds (meta_at w q) \<and>
       w_extra (meta_at w3 q) = w_extra (meta_at w q)" if "q \<noteq> p" for q
    using that by (simp add: m3 m2 m1)
  have bp: "bucket_of w3 p = unat (wslots w)" by (simp add: bucket_of_def m3 w2_def w1_def)
  have "length (wmeta w3) = length (wmeta w)" using len2 by (simp add: w3_def)
  then have sh: "wheel_shape w3" using D(1) by (simp add: wheel_shape_def fr hd)
  have nx3: "wnx w3 q = (if wpv w p \<noteq> NIL \<and> q = wpv w p then wnx w p else wnx w q)" if "q \<noteq> p" for q
    using that by (simp add: wnx_def m3 m2 m1)
  have pv3: "wpv w3 q = (if wnx w p \<noteq> NIL \<and> q = wnx w p then wpv w p else wpv w q)" if "q \<noteq> p" for q
    using that by (simp add: wpv_def m3 m2 m1)
  have rm: "remove1 p (ls ?b) = xs @ ys" using l dis by (simp add: remove1_append)
  have "wheel_ok w3 (ls(?b := remove1 p (ls ?b)))"
    unfolding wheel_ok_def fr
  proof (intro conjI allI impI sh)
    fix b assume b: "b < unat (wslots w)"
    have hb: "wheelHeads w3 ! b = (if b = ?b then (if wpv w p \<noteq> NIL then wheelHeads w ! ?b else wnx w p) else wheelHeads w ! b)"
    proof (cases "b = ?b")
      case True
      moreover have "wpv w p = NIL \<Longrightarrow> wheelHeads w ! ?b = p"
        using sp(1,3) dis by (cases xs rule: rev_cases) auto
      ultimately show ?thesis using b D(1) by (simp add: hd wheel_shape_def)
    qed (simp add: hd)
    show "dlist (wnx w3) (wpv w3) NIL (wheelHeads w3 ! b) ((ls(?b := remove1 p (ls ?b))) b)"
    proof (cases "b = ?b")
      case True
      have "dlist (wnx w3) (wpv w3) NIL (if wpv w p \<noteq> NIL then wheelHeads w ! ?b else wnx w p) (xs @ ys)"
      proof (rule dlist_remove[OF dl])
        fix y assume "y \<in> set xs \<union> set ys"
        then have "y \<noteq> p" using dis(1) by auto
        then show "wnx w3 y = (if wpv w p \<noteq> NIL \<and> y = wpv w p then wnx w p else wnx w y)"
          "wpv w3 y = (if wnx w p \<noteq> NIL \<and> y = wnx w p then wpv w p else wpv w y)"
          by (simp_all only: nx3 pv3 not_False_eq_True)
      qed
      then show ?thesis using True hb rm by simp
    next
      case False
      have "wnx w q = wnx w3 q \<and> wpv w q = wpv w3 q" if q: "q \<in> set (ls b)" for q
      proof -
        have "bucket_of w q = b" using D(3)[OF b q] by blast
        then have "q \<notin> set (xs @ p # ys)" using mem False by blast
        then show ?thesis using nx3[of q] pv3[of q] prv nxt by auto
      qed
      then have "dlist (wnx w3) (wpv w3) NIL (wheelHeads w ! b) (ls b)" using D(2)[OF b] by (subst dlist_cong[of _ _ "wnx w" _ "wpv w"]) auto
      then show ?thesis using False hb by simp
    qed
    show "\<forall>q \<in> set ((ls(?b := remove1 p (ls ?b))) b). q < wcap w \<and> bucket_of w3 q = b"
    proof
      fix q assume q: "q \<in> set ((ls(?b := remove1 p (ls ?b))) b)"
      then have "q \<in> set (ls b)" "q \<noteq> p"
        using rm l dis D(3)[OF b, of p] by (auto split: if_splits)
      then show "q < wcap w \<and> bucket_of w3 q = b" using D(3)[OF b] bk by (simp add: bucket_of_def)
    qed
  next
    fix q assume q: "armed w3 q"
    then have "q \<noteq> p" using bp by (auto simp: armed_def fr)
    then have bq: "bucket_of w3 q = bucket_of w q" using bk by (simp add: bucket_of_def)
    then have "armed w q" using q by (simp add: armed_def fr)
    then show "q \<in> set ((ls(?b := remove1 p (ls ?b))) (bucket_of w3 q))"
      using D(4)[OF \<open>armed w q\<close>] \<open>q \<noteq> p\<close> unfolding bq[symmetric]
      by (cases "bucket_of w3 q = ?b") (simp_all add: in_set_remove1)
  qed
  then show ?thesis using U fr bk bp by (auto simp: armed_def)
qed

text \<open>Unlinking in one statement: the slot ends up unarmed, everything else is as it was.\<close>

definition same_wheel :: "timer_wheel \<Rightarrow> timer_wheel \<Rightarrow> bool" where
  "same_wheel w w' \<longleftrightarrow> nowTick w' = nowTick w \<and> tickVal w' = tickVal w \<and> wcap w' = wcap w \<and> wslots w' = wslots w \<and>
     wmask w' = wmask w \<and> wshift w' = wshift w"

definition same_slot :: "timer_wheel \<Rightarrow> timer_wheel \<Rightarrow> u32 \<Rightarrow> bool" where
  "same_slot w w' q \<longleftrightarrow> w_bucket (meta_at w' q) = w_bucket (meta_at w q) \<and>
     w_rounds (meta_at w' q) = w_rounds (meta_at w q) \<and> w_extra (meta_at w' q) = w_extra (meta_at w q)"

lemma same_slot_trans: "same_slot w w1 q \<Longrightarrow> same_slot w1 w' q \<Longrightarrow> same_slot w w' q"
  by (simp add: same_slot_def)

lemma same_slot_armed: "same_slot w w' q \<Longrightarrow> same_wheel w w' \<Longrightarrow> armed w' q = armed w q"
  by (simp add: same_slot_def same_wheel_def armed_def bucket_of_def)

lemma Wheel_Unlink_ok:
  assumes ok: "wheel_ok w ls" and p: "p < wcap w"
  obtains w' where "Wheel_Unlink p w = Inr w'"
    "wheel_ok w' (\<lambda>b. if armed w p \<and> b = bucket_of w p then remove1 p (ls b) else ls b)" "\<not> armed w' p"
    "same_wheel w w'" "\<And>q. q \<noteq> p \<Longrightarrow> same_slot w w' q"
proof (cases "armed w p")
  case True
  have e: "(\<lambda>b. if armed w p \<and> b = bucket_of w p then remove1 p (ls b) else ls b) =
    ls(bucket_of w p := remove1 p (ls (bucket_of w p)))" using True by auto
  from Wheel_Unlink_armed[OF ok True] that show ?thesis unfolding e same_wheel_def same_slot_def by metis
next
  case False
  show ?thesis
    by (rule that[OF Wheel_Unlink_idle[OF p False]]) (use ok False in \<open>simp_all add: same_wheel_def same_slot_def\<close>)
qed

section \<open>Linking\<close>

definition link_slot :: "u32 \<Rightarrow> u16 \<Rightarrow> u8 \<Rightarrow> u32 \<Rightarrow> timer_wheel \<Rightarrow> timer_wheel" where
  "link_slot pos b r x w =
     (let w1 = upd_meta pos (\<lambda>m. m\<lparr>w_bucket := b, w_rounds := r, w_extra := x,
                                     w_next := wheelHeads w ! unat b, w_prev := NIL\<rparr>) w;
          w2 = (if w_next (meta_at w1 pos) \<noteq> NIL
                then upd_meta (w_next (meta_at w1 pos)) (w_prev_update (\<lambda>_. pos)) w1 else w1)
      in set_head (unat b) pos w2)"

lemma link_slot_ok:
  fixes r :: u8 and x :: u32
  assumes ok: "wheel_ok w ls" and p: "p < wcap w" "\<not> armed w p" and b: "unat b < unat (wslots w)"
  defines "w' \<equiv> link_slot p b r x w"
  shows "wheel_ok w' (ls(unat b := p # ls (unat b)))" "same_wheel w w'"
    "w_bucket (meta_at w' p) = b" "w_rounds (meta_at w' p) = r" "w_extra (meta_at w' p) = x"
    "\<And>q. q \<noteq> p \<Longrightarrow> same_slot w w' q"
proof -
  note D = wheel_okD[OF ok]
  let ?b = "unat b" let ?h = "wheelHeads w ! unat b"
  have len: "unat q < length (wmeta w)" if "q < wcap w" for q using that shape_lt[OF D(1)] by simp
  have dl: "dlist (wnx w) (wpv w) NIL ?h (ls ?b)" using D(2)[OF b] .
  have pnot: "p \<notin> set (ls c)" if "c < unat (wslots w)" for c using D(3)[OF that] p(2) by blast
  have h: "?h \<noteq> NIL \<Longrightarrow> ?h \<in> set (ls ?b)" using dlist_head[OF dl] by (cases "ls ?b") auto
  then have hlen: "?h \<noteq> NIL \<Longrightarrow> unat ?h < length (wmeta w)" and hp: "?h \<noteq> p"
    using D(3)[OF b] len pnot[OF b] lt_NIL[OF p(1)] by blast+
  define w1 where "w1 = upd_meta p (\<lambda>m. m\<lparr>w_bucket := b, w_rounds := r, w_extra := x, w_next := ?h, w_prev := NIL\<rparr>) w"
  have m1: "meta_at w1 q = (if q = p then (meta_at w p)\<lparr>w_bucket := b, w_rounds := r, w_extra := x, w_next := ?h, w_prev := NIL\<rparr>
    else meta_at w q)" for q unfolding w1_def by (rule upd_meta_at[OF len[OF p(1)]])
  define w2 where "w2 = (if ?h \<noteq> NIL then upd_meta ?h (w_prev_update (\<lambda>_. p)) w1 else w1)"
  have len1: "length (wmeta w1) = length (wmeta w)" by (simp add: w1_def)
  have m2: "meta_at w2 q = (if ?h \<noteq> NIL \<and> q = ?h then (meta_at w1 q)\<lparr>w_prev := p\<rparr> else meta_at w1 q)" for q
    using upd_meta_at[of ?h w1] hlen by (simp add: w2_def len1)
  have w': "w' = set_head ?b p w2" unfolding w'_def link_slot_def Let_def w1_def[symmetric] by (simp add: m1 w2_def)
  have m': "meta_at w' q = meta_at w2 q" for q by (simp add: w')
  show fr: "same_wheel w w'" by (simp add: same_wheel_def w' w2_def w1_def)
  show bp: "w_bucket (meta_at w' p) = b" "w_rounds (meta_at w' p) = r" "w_extra (meta_at w' p) = x"
    using hp by (simp_all add: m' m2 m1)
  show sm: "same_slot w w' q" if "q \<noteq> p" for q using that by (simp add: same_slot_def m' m2 m1)
  have hds: "wheelHeads w' = (wheelHeads w)[?b := p]" by (simp add: w' w2_def w1_def)
  have "length (wmeta w') = length (wmeta w)" by (simp add: w' w2_def len1)
  then have sh: "wheel_shape w'" using D(1) fr by (simp add: wheel_shape_def same_wheel_def hds)
  have nxp: "wnx w' p = ?h" "wpv w' p = NIL" using hp by (simp_all add: wnx_def wpv_def m' m2 m1)
  have nxq: "wnx w' q = wnx w q" if "q \<noteq> p" for q using that by (simp add: wnx_def m' m2 m1)
  have pvq: "wpv w' q = wpv w q" if "q \<noteq> p" "q \<noteq> ?h" for q using that by (simp add: wpv_def m' m2 m1)
  have pvh: "?h \<noteq> NIL \<Longrightarrow> wpv w' ?h = p" using hp by (simp add: wpv_def m' m2 m1)
  show "wheel_ok w' (ls(?b := p # ls ?b))"
    unfolding wheel_ok_def
  proof (intro conjI allI impI sh)
    fix c assume "c < unat (wslots w')"
    then have c: "c < unat (wslots w)" using fr by (simp add: same_wheel_def)
    have hc: "wheelHeads w' ! c = (if c = ?b then p else wheelHeads w ! c)"
      using c D(1) by (simp add: hds wheel_shape_def)
    show "dlist (wnx w') (wpv w') NIL (wheelHeads w' ! c) ((ls(?b := p # ls ?b)) c)"
    proof (cases "c = ?b")
      case True
      have bne: "y \<noteq> p" if "y \<in> set (ls ?b)" for y using that pnot[OF b] by blast
      have "dlist (wnx w') (wpv w') NIL p (p # ls ?b)"
        by (rule dlist_push[where nx' = "wnx w'" and pv' = "wpv w'", OF dl pnot[OF b] lt_NIL[OF p(1)] nxp])
           (use bne nxq pvq pvh in auto)
      then show ?thesis using True hc by simp
    next
      case False
      have "q \<noteq> p \<and> q \<noteq> ?h" if "q \<in> set (ls c)" for q
        using that pnot[OF c] h D(3)[OF c, of q] D(3)[OF b, of q] False lt_NIL by blast
      then have "dlist (wnx w') (wpv w') NIL (wheelHeads w ! c) (ls c)"
        using D(2)[OF c] nxq pvq by (subst dlist_cong[of _ _ "wnx w" _ "wpv w"]) auto
      then show ?thesis using False hc by simp
    qed
    show "\<forall>q \<in> set ((ls(?b := p # ls ?b)) c). q < wcap w' \<and> bucket_of w' q = c"
    proof
      fix q assume q: "q \<in> set ((ls(?b := p # ls ?b)) c)"
      show "q < wcap w' \<and> bucket_of w' q = c"
      proof (cases "q = p")
        case True
        then show ?thesis using q pnot[OF c] p(1) fr bp(1) by (auto simp: bucket_of_def same_wheel_def split: if_splits)
      next
        case False
        then have "q \<in> set (ls c)" using q by (auto split: if_splits)
        then show ?thesis using D(3)[OF c] sm[OF False] fr by (simp add: bucket_of_def same_wheel_def same_slot_def)
      qed
    qed
  next
    fix q assume q: "armed w' q"
    show "q \<in> set ((ls(?b := p # ls ?b)) (bucket_of w' q))"
    proof (cases "q = p")
      case True
      then show ?thesis using bp(1) by (simp add: bucket_of_def)
    next
      case False
      then have "armed w q" "bucket_of w' q = bucket_of w q"
        using q same_slot_armed[OF sm fr] sm[OF False] by (auto simp: bucket_of_def same_slot_def)
      then show ?thesis using D(4)[OF \<open>armed w q\<close>] by (cases "bucket_of w q = ?b") simp_all
    qed
  qed
qed

section \<open>Expiry times\<close>

text \<open>The tick whose visit to its bucket reports the timer.\<close>

definition fire_at :: "timer_wheel \<Rightarrow> u32 \<Rightarrow> nat" where
  "fire_at w p = (let s = unat (wslots w) in
     unat (nowTick w) + (bucket_of w p + (s - unat (nowTick w) mod s)) mod s + s * unat (w_rounds (meta_at w p)))"

lemma mask_mod:
  fixes x :: u64
  assumes "wheel_shape w"
  shows "unat (x AND ucast (wmask w)) = unat x mod unat (wslots w)"
    "unat (ucast (x AND ucast (wmask w)) :: u32) = unat x mod unat (wslots w)"
proof -
  have k: "wshift w < 16" "unat (wslots w) = 2 ^ wshift w" "unat (wmask w) = 2 ^ wshift w - 1"
    using assms by (auto simp: wheel_shape_def)
  have "unat (x AND ucast (wmask w)) = and (unat x) (2 ^ wshift w - 1)" using k(3) by (simp add: unsigned_and_eq)
  also have "\<dots> = unat x mod 2 ^ wshift w" by (simp add: take_bit_eq_mod[symmetric] take_bit_eq_mask mask_eq_exp_minus_1)
  finally show *: "unat (x AND ucast (wmask w)) = unat x mod unat (wslots w)" using k(2) by simp
  have "unat x mod unat (wslots w) < unat (wslots w)" using k(2) by simp
  also have "\<dots> < 4294967296" using unat_u16_lt[of "wslots w"] by simp
  finally show "unat (ucast (x AND ucast (wmask w)) :: u32) = unat x mod unat (wslots w)"
    using * by (simp add: unat_ucast_64_32)
qed

lemma drop_shift_div:
  fixes x :: u64
  assumes "wheel_shape w"
  shows "unat (drop_bit (wshift w) x) = unat x div unat (wslots w)"
proof -
  have "take_bit 64 (unat x) = unat x" using unat_u64_lt[of x] by (simp add: take_bit_nat_eq_self)
  then have "unat (drop_bit (wshift w) x) = drop_bit (wshift w) (unat x)" by (simp add: unsigned_drop_bit_eq del: drop_bit_eq_div)
  then show ?thesis using assms by (simp only: drop_bit_eq_div wheel_shape_def)
qed

lemma Schedule_eq:
  assumes ok: "wheel_ok w ls" and p: "pos < wcap w"
    and nowrap: "unat (nowTick w) + unat (ticks_of (tickVal w) timeout) < 2 ^ 64"
  obtains w' ls' where "Schedule pos extra timeout w = Inr w'" "wheel_ok w' ls'" "same_wheel w w'"
    "armed w' pos" "w_extra (meta_at w' pos) = extra"
    "bucket_of w' pos = (unat (nowTick w) + unat (ticks_of (tickVal w) timeout)) mod unat (wslots w)"
    "unat (w_rounds (meta_at w' pos)) = ((unat (nowTick w) + unat (ticks_of (tickVal w) timeout)) div unat (wslots w)
       - unat (nowTick w) div unat (wslots w)) mod 256"
    "\<And>q. q \<noteq> pos \<Longrightarrow> same_slot w w' q"
proof -
  obtain w0 where w0: "Wheel_Unlink pos w = Inr w0"
    "wheel_ok w0 (\<lambda>b. if armed w pos \<and> b = bucket_of w pos then remove1 pos (ls b) else ls b)" "\<not> armed w0 pos"
    "same_wheel w w0" "\<And>q. q \<noteq> pos \<Longrightarrow> same_slot w w0 q"
    by (rule Wheel_Unlink_ok[OF ok p], rule that)
  have sh: "wheel_shape w0" using wheel_okD(1)[OF w0(2)] .
  let ?e = "nowTick w0 + ticks_of (tickVal w0) timeout"
  let ?b = "ucast (?e AND ucast (wmask w0)) :: u32"
  let ?r = "ucast (drop_bit (wshift w0) ?e - drop_bit (wshift w0) (nowTick w0)) :: u8"
  have e: "unat ?e = unat (nowTick w) + unat (ticks_of (tickVal w) timeout)"
    using nowrap w0(4) by (simp add: same_wheel_def unat_add_u64)
  have s: "0 < unat (wslots w0)" using sh by (simp add: wheel_shape_def)
  have s16: "unat (wslots w0) < 65536" by (rule unat_u16_lt)
  have bm: "unat ?b = unat ?e mod unat (wslots w0)" by (rule mask_mod[OF sh])
  have bl: "unat ?b < unat (wslots w0)" unfolding bm using s by simp
  have b16: "unat (ucast ?b :: u16) = unat ?b"
    unfolding unat_ucast_32_16 by (rule mod_less) (use bl s16 in simp)
  have W: "Schedule pos extra timeout w = Inr (link_slot pos (ucast ?b) ?r extra w0)"
    using p w0(1) unfolding Schedule_def link_slot_def Let_def b16 by simp
  have lp: "pos < wcap w0" using p w0(4) by (simp add: same_wheel_def)
  note L = link_slot_ok[where b = "ucast ?b" and r = ?r and x = extra, OF w0(2) lp w0(3), unfolded b16, OF bl]
  have "drop_bit (wshift w0) (nowTick w0) \<le> drop_bit (wshift w0) ?e"
    unfolding word_le_nat_alt drop_shift_div[OF sh] e using w0(4) by (simp add: same_wheel_def div_le_mono)
  then have r: "unat ?r = ((unat (nowTick w) + unat (ticks_of (tickVal w) timeout)) div unat (wslots w)
       - unat (nowTick w) div unat (wslots w)) mod 256"
    unfolding unat_ucast_64_8 by (subst unat_sub, assumption, unfold drop_shift_div[OF sh] e) (use w0(4) in \<open>simp add: same_wheel_def\<close>)
  show ?thesis
  proof (rule that[OF W L(1)])
    show "same_wheel w (link_slot pos (ucast ?b) ?r extra w0)" using L(2) w0(4) by (simp add: same_wheel_def)
    show "armed (link_slot pos (ucast ?b) ?r extra w0) pos"
      using L(2,3) lp bl b16 by (simp add: armed_def same_wheel_def bucket_of_def)
    show "bucket_of (link_slot pos (ucast ?b) ?r extra w0) pos = (unat (nowTick w) + unat (ticks_of (tickVal w) timeout)) mod unat (wslots w)"
      unfolding bucket_of_def L(3) b16 bm e using w0(4) by (simp add: same_wheel_def)
    show "same_slot w (link_slot pos (ucast ?b) ?r extra w0) q" if "q \<noteq> pos" for q
      using L(6)[OF that] w0(5)[OF that] by (simp add: same_slot_def)
  qed (use L(4,5) r in simp_all)
qed

lemma bucket_distance:
  fixes n t s :: nat
  assumes "0 < s"
  shows "((n + t) mod s + (s - n mod s)) mod s = t mod s"
    "(n + t) div s - n div s = t div s + (if n mod s + t mod s < s then 0 else 1)"
proof -
  have "n mod s \<le> s" using assms by (simp add: less_imp_le)
  then have "(n + t) mod s + (s - n mod s) = (n + t) mod s + s - n mod s" by simp
  moreover have "((n + t) mod s + s - n mod s) mod s = t mod s"
  proof (cases "n mod s + t mod s < s")
    case True
    then show ?thesis using mod_add_eq[of n s t] by (metis Nat.diff_add_assoc2 add.commute add_diff_cancel_left' le_add1 mod_add_self2 mod_less mod_mod_trivial)
  next
    case False
    then have "(n + t) mod s = n mod s + t mod s - s"
      using mod_add_eq[of n s t] assms by (metis le_mod_geq add_less_mono mod_less_divisor mod_less not_less less_diff_conv2 le_add_diff_inverse2)
    then show ?thesis using False by simp
  qed
  ultimately show "((n + t) mod s + (s - n mod s)) mod s = t mod s" by simp
  have "(n + t) div s = n div s + t div s + (n mod s + t mod s) div s" by (rule div_add1_eq)
  moreover have "(n mod s + t mod s) div s = (if n mod s + t mod s < s then 0 else 1)"
  proof (cases "n mod s + t mod s < s")
    case False
    then have "(n mod s + t mod s) div s = Suc ((n mod s + t mod s - s) div s)" using assms by (simp add: le_div_geq)
    moreover have "n mod s + t mod s - s < s" using assms False by (simp add: less_diff_conv2 add_less_mono)
    ultimately show ?thesis using False by simp
  qed simp
  ultimately show "(n + t) div s - n div s = t div s + (if n mod s + t mod s < s then 0 else 1)" by simp
qed

lemma same_slot_fire: "same_slot w w' q \<Longrightarrow> same_wheel w w' \<Longrightarrow> fire_at w' q = fire_at w q"
  by (simp add: same_slot_def same_wheel_def fire_at_def bucket_of_def)

lemma Schedule_fire:
  assumes ok: "wheel_ok w ls" and p: "pos < wcap w"
    and nowrap: "unat (nowTick w) + unat (ticks_of (tickVal w) timeout) < 2 ^ 64"
    and few: "unat (ticks_of (tickVal w) timeout) div unat (wslots w) < 255"
  obtains w' ls' where "Schedule pos extra timeout w = Inr w'" "wheel_ok w' ls'" "same_wheel w w'"
    "armed w' pos" "w_extra (meta_at w' pos) = extra"
    "fire_at w' pos = unat (nowTick w) + unat (ticks_of (tickVal w) timeout) +
       (if unat (nowTick w) mod unat (wslots w) + unat (ticks_of (tickVal w) timeout) mod unat (wslots w) < unat (wslots w)
        then 0 else unat (wslots w))"
    "\<And>q. q \<noteq> pos \<Longrightarrow> same_slot w w' q"
proof -
  let ?n = "unat (nowTick w)" let ?t = "unat (ticks_of (tickVal w) timeout)" let ?s = "unat (wslots w)"
  obtain w' ls' where w': "Schedule pos extra timeout w = Inr w'" "wheel_ok w' ls'" "same_wheel w w'"
    "armed w' pos" "w_extra (meta_at w' pos) = extra" "bucket_of w' pos = (?n + ?t) mod ?s"
    "unat (w_rounds (meta_at w' pos)) = ((?n + ?t) div ?s - ?n div ?s) mod 256"
    "\<And>q. q \<noteq> pos \<Longrightarrow> same_slot w w' q"
    by (rule Schedule_eq[OF ok p nowrap], rule that)
  have s: "0 < ?s" using wheel_okD(1)[OF ok] by (simp add: wheel_shape_def)
  note B = bucket_distance[OF s, of ?n ?t]
  have r: "unat (w_rounds (meta_at w' pos)) = ?t div ?s + (if ?n mod ?s + ?t mod ?s < ?s then 0 else 1)"
    unfolding w'(7) B(2) using few by (intro mod_less) simp
  have "fire_at w' pos = ?n + ?t mod ?s + ?s * (?t div ?s + (if ?n mod ?s + ?t mod ?s < ?s then 0 else 1))"
    unfolding fire_at_def Let_def r w'(6) using w'(3) B(1) by (simp add: same_wheel_def)
  also have "\<dots> = ?n + ?t + (if ?n mod ?s + ?t mod ?s < ?s then 0 else ?s)"
    using mult_div_mod_eq[of ?s ?t] by (simp add: distrib_left)
  finally show ?thesis using that w' by blast
qed

section \<open>Set up and cancellation\<close>

lemma shift_loop_exact: "n \<le> k \<Longrightarrow> unat sl = 2 ^ k \<Longrightarrow> shift_loop n sl = k"
proof (induction n sl rule: shift_loop.induct)
  case (1 sh sl)
  show ?case
  proof (cases "sh = k")
    case True
    then show ?thesis using 1(3) by (subst shift_loop.simps) simp
  next
    case False
    then have "sh < k" using 1(2) by simp
    then have "2 ^ sh < unat sl" using 1(3) by simp
    then show ?thesis using 1 False by (subst shift_loop.simps) simp
  qed
qed

lemma Wheel_Init_ok:
  assumes "k < 16" "unat wheelSlots = 2 ^ k"
    and "Wheel_Init capacity wheelSlots tv unt True w = Inr w'"
  shows "wheel_ok w' (\<lambda>_. [])" "\<not> armed w' p" "wcap w' = capacity" "wslots w' = wheelSlots" "nowTick w' = 0"
    "tickVal w' = tick_val tv"
proof -
  have w': "w' = \<lparr>wcap = capacity, wmask = ucast wheelSlots - 1, wslots = wheelSlots, wshift = shift_loop 0 wheelSlots,
                tickVal = tick_val tv, nowTick = 0, wunit = unt,
                wmeta = replicate (unat capacity) SlotMeta0, wheelHeads = replicate (unat wheelSlots) NIL\<rparr>"
    using assms(3) by (simp add: Wheel_Init_def split: if_splits)
  have sl: "unat (ucast wheelSlots :: u32) = 2 ^ k" using assms(2) by simp
  have "unat (ucast wheelSlots - 1 :: u32) = 2 ^ k - 1"
    by (subst unat_sub) (use assms(1,2) in \<open>simp_all add: word_le_nat_alt\<close>)
  then have sh: "wheel_shape w'" using assms(1,2) shift_loop_exact[of 0 k wheelSlots] by (simp add: wheel_shape_def w')
  have na: "\<not> armed w' q" for q
  proof
    assume "armed w' q"
    then have "unat q < unat capacity" "unat (w_bucket (replicate (unat capacity) SlotMeta0 ! unat q)) < unat wheelSlots"
      by (auto simp: armed_def bucket_of_def w' word_less_nat_alt)
    then have "65535 < unat wheelSlots" by (simp add: SlotMeta0_def)
    then have "unat wheelSlots = 65536 - 0" using unat_u16_lt[of wheelSlots] by simp
    then show False using unat_u16_lt[of wheelSlots] by simp
  qed
  show "wheel_ok w' (\<lambda>_. [])" using sh na by (auto simp: wheel_ok_def dlist_def w')
  show "\<not> armed w' p" by (rule na)
qed (use assms(3) in \<open>auto simp: Wheel_Init_def split: if_splits\<close>)

lemma Cancel_ok:
  assumes ok: "wheel_ok w ls" and p: "p < wcap w"
  obtains w' where "Wheel_Cancel p w = Inr w'"
    "wheel_ok w' (\<lambda>b. if armed w p \<and> b = bucket_of w p then remove1 p (ls b) else ls b)" "same_wheel w w'" "\<not> armed w' p"
    "\<And>q. q \<noteq> p \<Longrightarrow> same_slot w w' q"
proof -
  obtain w1 where w1: "Wheel_Unlink p w = Inr w1"
    "wheel_ok w1 (\<lambda>b. if armed w p \<and> b = bucket_of w p then remove1 p (ls b) else ls b)" (is "wheel_ok w1 ?ls") "\<not> armed w1 p"
    "same_wheel w w1" "\<And>q. q \<noteq> p \<Longrightarrow> same_slot w w1 q"
    by (rule Wheel_Unlink_ok[OF ok p], rule that)
  note D = wheel_okD[OF w1(2)]
  let ?w = "ClearSlot p w1"
  have len: "unat p < length (wmeta w1)" using shape_lt[OF D(1), of p] p w1(4) by (simp add: same_wheel_def)
  have m: "meta_at ?w q = (if q = p then SlotMeta0 else meta_at w1 q)" for q unfolding ClearSlot_def by (simp add: upd_meta_at[OF len])
  have sw: "same_wheel w1 ?w" by (simp add: same_wheel_def ClearSlot_def)
  have sm: "same_slot w1 ?w q" if "q \<noteq> p" for q using that by (simp add: same_slot_def m)
  have na: "\<not> armed ?w p"
  proof -
    have "bucket_of ?w p = 65535" unfolding bucket_of_def m by (simp add: SlotMeta0_def)
    then show ?thesis using unat_u16_lt[of "wslots w1"] by (simp add: armed_def ClearSlot_def)
  qed
  have "wheel_ok ?w ?ls"
    unfolding wheel_ok_def
  proof (intro conjI allI impI)
    show "wheel_shape ?w" using D(1) by (simp add: wheel_shape_def ClearSlot_def)
    fix b assume "b < unat (wslots ?w)"
    then have b: "b < unat (wslots w1)" by (simp add: ClearSlot_def)
    have np: "q \<noteq> p" if "q \<in> set (?ls b)" for q using D(3)[OF b that] w1(3) by blast
    show "dlist (wnx ?w) (wpv ?w) NIL (wheelHeads ?w ! b) (?ls b)"
    proof -
      have "wheelHeads ?w = wheelHeads w1" by (simp add: ClearSlot_def)
      moreover have "wnx ?w q = wnx w1 q \<and> wpv ?w q = wpv w1 q" if "q \<in> set (?ls b)" for q
        using np[OF that] by (simp only: wnx_def wpv_def m if_False simp_thms)
      ultimately show ?thesis using D(2)[OF b] dlist_cong[of "?ls b" "wnx ?w" "wnx w1" "wpv ?w" "wpv w1"] by simp
    qed
    show "\<forall>q \<in> set (?ls b). q < wcap ?w \<and> bucket_of ?w q = b"
    proof
      fix q assume q: "q \<in> set (?ls b)"
      show "q < wcap ?w \<and> bucket_of ?w q = b" 
        using D(3)[OF b q] np[OF q] sw by (simp only: bucket_of_def m if_False same_wheel_def simp_thms)
    qed
  next
    fix q assume q: "armed ?w q"
    then have "q \<noteq> p" using na by auto
    then show "q \<in> set (?ls (bucket_of ?w q))"
    proof -
      have "armed w1 q" "bucket_of w1 q = bucket_of ?w q"
        using same_slot_armed[OF sm sw] sm q \<open>q \<noteq> p\<close> by (auto simp: same_slot_def bucket_of_def)
      then show ?thesis using D(4) by metis
    qed
  qed
  then show ?thesis
    by (rule that[rotated]) (use p w1 sw na sm in \<open>auto simp: Wheel_Cancel_def same_wheel_def same_slot_def\<close>)
qed

section \<open>The walk over a bucket\<close>

lemma rounds_update_ok:
  assumes ok: "wheel_ok w ls" and p: "p < wcap w"
  defines "w' \<equiv> upd_meta p (\<lambda>m. m\<lparr>w_rounds := w_rounds m - 1\<rparr>) w"
  shows "wheel_ok w' ls" "same_wheel w w'"
    "meta_at w' q = (if q = p then (meta_at w p)\<lparr>w_rounds := w_rounds (meta_at w p) - 1\<rparr> else meta_at w q)"
proof -
  note D = wheel_okD[OF ok]
  have m: "meta_at w' q = (if q = p then (meta_at w p)\<lparr>w_rounds := w_rounds (meta_at w p) - 1\<rparr> else meta_at w q)" for q
    unfolding w'_def by (rule upd_meta_at) (use shape_lt[OF D(1), of p] p in simp)
  show "meta_at w' q = (if q = p then (meta_at w p)\<lparr>w_rounds := w_rounds (meta_at w p) - 1\<rparr> else meta_at w q)" by (rule m)
  show "same_wheel w w'" by (simp add: same_wheel_def w'_def)
  have eq: "wnx w' = wnx w" "wpv w' = wpv w" "bucket_of w' = bucket_of w"
    by (rule ext, simp add: wnx_def wpv_def bucket_of_def m)+
  have "armed w' = armed w" by (rule ext) (simp add: armed_def eq, simp add: w'_def)
  moreover have "wheel_shape w'" using D(1) by (simp add: wheel_shape_def w'_def)
  ultimately show "wheel_ok w' ls" using ok unfolding wheel_ok_def eq by (simp add: w'_def)
qed

definition reports :: "timer_wheel \<Rightarrow> u32 list \<Rightarrow> (u32 \<times> u32) list" where
  "reports w ps = map (\<lambda>p. (p, w_extra (meta_at w p))) (filter (\<lambda>p. w_rounds (meta_at w p) = 0) ps)"

lemma reports_cong: "(\<And>q. q \<in> set ps \<Longrightarrow> same_slot w w' q) \<Longrightarrow> reports w' ps = reports w ps"
  by (induction ps) (auto simp: reports_def same_slot_def)

definition aged :: "timer_wheel \<Rightarrow> timer_wheel \<Rightarrow> u32 \<Rightarrow> bool" where
  "aged w w' q \<longleftrightarrow> (if w_rounds (meta_at w q) = 0 then \<not> armed w' q
     else w_bucket (meta_at w' q) = w_bucket (meta_at w q) \<and> w_extra (meta_at w' q) = w_extra (meta_at w q) \<and>
          w_rounds (meta_at w' q) = w_rounds (meta_at w q) - 1)"

lemma aged_cong: "same_slot w w1 q \<Longrightarrow> aged w1 w' q = aged w w' q"
  by (simp add: aged_def same_slot_def)

text \<open>Callbacks that at most cancel the timer they are called for, as closing a connection does.\<close>

definition self_cancelling :: "(u32 \<Rightarrow> u32 \<Rightarrow> wheel_call list) \<Rightarrow> bool" where
  "self_cancelling cb \<longleftrightarrow> (\<forall>p x. cb p x = [] \<or> cb p x = [CallCancel p])"

lemma fire_ok:
  assumes ok: "wheel_ok w ls" and p: "p < wcap w" and cb: "self_cancelling cb"
  obtains w1 w2 where "run_calls (cb p x) w = Inr w1" "Wheel_Unlink p w1 = Inr w2"
    "wheel_ok w2 (\<lambda>b. if armed w p \<and> b = bucket_of w p then remove1 p (ls b) else ls b)" "\<not> armed w2 p"
    "same_wheel w w2" "\<And>q. q \<noteq> p \<Longrightarrow> same_slot w w2 q"
proof -
  consider "cb p x = []" | "cb p x = [CallCancel p]" using cb by (auto simp: self_cancelling_def)
  then show ?thesis
  proof cases
    case 1
    then have r: "run_calls (cb p x) w = Inr w" by simp
    show ?thesis by (rule Wheel_Unlink_ok[OF ok p], rule that[OF r])
  next
    case 2
    obtain w' where w': "Wheel_Cancel p w = Inr w'"
      "wheel_ok w' (\<lambda>b. if armed w p \<and> b = bucket_of w p then remove1 p (ls b) else ls b)" "same_wheel w w'"
      "\<not> armed w' p" "\<And>q. q \<noteq> p \<Longrightarrow> same_slot w w' q"
      by (rule Cancel_ok[OF ok p], rule that)
    have "run_calls (cb p x) w = Inr w'" using 2 w'(1) by simp
    moreover have "p < wcap w'" using p w'(3) by (simp add: same_wheel_def)
    then have "Wheel_Unlink p w' = Inr w'" using w'(4) by (rule Wheel_Unlink_idle)
    ultimately show ?thesis by (rule that[OF _ _ w'(2) w'(4) w'(3) w'(5)])
  qed
qed

lemma walk_ok:
  assumes "wheel_ok w ls" "b < unat (wslots w)" "ls b = kept @ ys" "cur = (case ys of [] \<Rightarrow> NIL | y # _ \<Rightarrow> y)" "length ys < n"
    and cb: "self_cancelling cb"
  shows "\<exists>w' ls'. walk_bucket cb n cur fired w = Inr (fired @ reports w ys, w') \<and> wheel_ok w' ls' \<and> same_wheel w w' \<and>
    (\<forall>q. if q \<in> set ys then aged w w' q else same_slot w w' q)"
  using assms(1-5)
proof (induction ys arbitrary: n cur fired w kept ls)
  case Nil
  then obtain m where "n = Suc m" by (cases n) auto
  then show ?case using Nil by (auto simp: reports_def same_wheel_def same_slot_def)
next
  case (Cons y ys)
  obtain m where n: "n = Suc m" "length ys < m" using Cons.prems(5) by (cases n) auto
  note D = wheel_okD[OF Cons.prems(1)]
  have dl: "dlist (wnx w) (wpv w) NIL (wheelHeads w ! b) (kept @ y # ys)" using D(2)[OF Cons.prems(2)] Cons.prems(3) by simp
  have dis: "y \<notin> set kept" "y \<notin> set ys" using dl by (auto simp: dlist_def)
  have y: "y < wcap w" "bucket_of w y = b" "armed w y" "y \<noteq> NIL"
    using D(3)[OF Cons.prems(2), of y] Cons.prems(3) lt_NIL by auto
  have nx: "w_next (meta_at w y) = (case ys of [] \<Rightarrow> NIL | z # _ \<Rightarrow> z)" using dlist_split(2)[OF dl] by (simp only: wnx_def)
  have cur: "cur = y" using Cons.prems(4) by simp
  show ?case
  proof (cases "w_rounds (meta_at w y) = 0")
    case True
    obtain w0 w1 where w0: "run_calls (cb y (w_extra (meta_at w y))) w = Inr w0" and w1: "Wheel_Unlink y w0 = Inr w1"
      "wheel_ok w1 (\<lambda>b. if armed w y \<and> b = bucket_of w y then remove1 y (ls b) else ls b)" (is "wheel_ok w1 ?ls") "\<not> armed w1 y"
      "same_wheel w w1" "\<And>q. q \<noteq> y \<Longrightarrow> same_slot w w1 q"
      by (rule fire_ok[OF Cons.prems(1) y(1) cb], rule that)
    have ls1: "?ls b = kept @ ys" using Cons.prems(3) y(2,3) dis by (simp add: remove1_append)
    have b1: "b < unat (wslots w1)" using Cons.prems(2) w1(4) by (simp add: same_wheel_def)
    obtain w' ls' where w': "walk_bucket cb m (case ys of [] \<Rightarrow> NIL | z # _ \<Rightarrow> z) (fired @ [(y, w_extra (meta_at w y))]) w1
        = Inr ((fired @ [(y, w_extra (meta_at w y))]) @ reports w1 ys, w')" "wheel_ok w' ls'" "same_wheel w1 w'"
      "\<forall>q. if q \<in> set ys then aged w1 w' q else same_slot w1 w' q"
      using Cons.IH[OF w1(2) b1 ls1 refl n(2)] by blast
    have r: "reports w (y # ys) = (y, w_extra (meta_at w y)) # reports w1 ys"
    proof -
      have "reports w1 ys = reports w ys" by (rule reports_cong, rule w1(5)) (use dis(2) in blast)
      then show ?thesis using True by (simp add: reports_def)
    qed
    have q: "if q \<in> set (y # ys) then aged w w' q else same_slot w w' q" for q
    proof (cases "q = y")
      case True
      have "same_slot w1 w' y" using w'(4)[rule_format, of y] unfolding if_not_P[OF dis(2)] .
      then have "armed w' y = armed w1 y" using w'(3) by (rule same_slot_armed)
      then show ?thesis using True w1(3) \<open>w_rounds (meta_at w y) = 0\<close> by (simp add: aged_def)
    next
      case False
      then show ?thesis using w'(4)[rule_format, of q] aged_cong[OF w1(5)[OF False], of w'] same_slot_trans[OF w1(5)[OF False]]
        by (cases "q \<in> set ys") simp_all
    qed
    show ?thesis
      using w' w0 w1(1,4) True y(4) q by (intro exI[of _ w'] exI[of _ ls']) (simp add: n cur nx r same_wheel_def)
  next
    case False
    let ?w = "upd_meta y (\<lambda>m. m\<lparr>w_rounds := w_rounds m - 1\<rparr>) w"
    note R = rounds_update_ok[OF Cons.prems(1) y(1)]
    have b1: "b < unat (wslots ?w)" using Cons.prems(2) by simp
    have ls1: "ls b = (kept @ [y]) @ ys" using Cons.prems(3) by simp
    obtain w' ls' where w': "walk_bucket cb m (case ys of [] \<Rightarrow> NIL | z # _ \<Rightarrow> z) fired ?w
        = Inr (fired @ reports ?w ys, w')" "wheel_ok w' ls'" "same_wheel ?w w'"
      "\<forall>q. if q \<in> set ys then aged ?w w' q else same_slot ?w w' q"
      using Cons.IH[OF R(1) b1 ls1 refl n(2)] by blast
    have ss: "same_slot w ?w q" if "q \<noteq> y" for q using R(3)[of q] that by (simp only: same_slot_def if_False simp_thms)
    have r: "reports w (y # ys) = reports ?w ys"
    proof -
      have "reports ?w ys = reports w ys" by (rule reports_cong, rule ss) (use dis(2) in blast)
      then show ?thesis using False by (simp add: reports_def)
    qed
    have q: "if q \<in> set (y # ys) then aged w w' q else same_slot w w' q" for q
    proof (cases "q = y")
      case True
      have "same_slot ?w w' y" using w'(4)[rule_format, of y] unfolding if_not_P[OF dis(2)] .
      then have "aged w w' y" using False unfolding aged_def same_slot_def R(3)[of y] by simp
      then show ?thesis using True by simp
    next
      case False
      then show ?thesis using w'(4)[rule_format, of q] aged_cong[OF ss[OF False], of w'] same_slot_trans[OF ss[OF False]]
        by (cases "q \<in> set ys") simp_all
    qed
    show ?thesis
      using w' R(2) False y(4) q by (intro exI[of _ w'] exI[of _ ls']) (simp add: n cur nx r same_wheel_def)
  qed
qed

section \<open>One tick\<close>

lemma bucket_dist_eq: "b < s \<Longrightarrow> m < s \<Longrightarrow> (b + (s - m)) mod s = (if m \<le> b then b - m else b + s - m)" for b s m :: nat
  by (auto simp: le_mod_geq)

lemma bucket_dist_step:
  fixes b s n :: nat
  assumes "b < s"
  shows "(b + (s - n mod s)) mod s = 0 \<longleftrightarrow> b = n mod s"
    "(b + (s - Suc n mod s)) mod s = (if b = n mod s then s - 1 else (b + (s - n mod s)) mod s - 1)"
proof -
  have m: "n mod s < s" "Suc n mod s < s" using assms mod_less_divisor[of s] by (auto simp del: mod_less_divisor)
  show "(b + (s - n mod s)) mod s = 0 \<longleftrightarrow> b = n mod s"
    unfolding bucket_dist_eq[OF assms m(1)] using m assms by (simp del: mod_less_divisor)
  show "(b + (s - Suc n mod s)) mod s = (if b = n mod s then s - 1 else (b + (s - n mod s)) mod s - 1)"
    unfolding bucket_dist_eq[OF assms m(1)] bucket_dist_eq[OF assms m(2)] using m assms by (auto simp: mod_Suc)
qed

lemma fire_at_ge: "unat (nowTick w) \<le> fire_at w p"
  by (simp add: fire_at_def Let_def)

lemma fire_now:
  assumes "wheel_shape w" "armed w p"
  shows "fire_at w p = unat (nowTick w) \<longleftrightarrow> bucket_of w p = unat (nowTick w) mod unat (wslots w) \<and> w_rounds (meta_at w p) = 0"
proof -
  have "0 < unat (wslots w)" using assms(1) by (simp add: wheel_shape_def)
  then show ?thesis
    using bucket_dist_step(1)[of "bucket_of w p" "unat (wslots w)" "unat (nowTick w)"] assms(2)
    by (auto simp: fire_at_def Let_def armed_def unat_eq_0)
qed

lemma bucket_length: "wheel_ok w ls \<Longrightarrow> b < unat (wslots w) \<Longrightarrow> length (ls b) \<le> length (wmeta w)"
proof -
  assume ok: "wheel_ok w ls" and b: "b < unat (wslots w)"
  note D = wheel_okD[OF ok]
  have "distinct (ls b)" using D(2)[OF b] by (simp add: dlist_def)
  then have "distinct (map unat (ls b))" by (simp add: distinct_map inj_on_def word_unat_eq_iff)
  then have "length (ls b) = card (set (map unat (ls b)))" by (metis distinct_card length_map)
  also have "set (map unat (ls b)) \<subseteq> {..<length (wmeta w)}"
    using D(3)[OF b] shape_lt[OF D(1)] by auto
  then have "card (set (map unat (ls b))) \<le> length (wmeta w)" by (metis card_lessThan card_mono finite_lessThan)
  finally show ?thesis .
qed

text \<open>What one tick does to a slot.\<close>

lemma tick_once_ok:
  assumes ok: "wheel_ok w ls" and lt: "unat (nowTick w) + 1 < 2 ^ 64" and cb: "self_cancelling cb"
  obtains f w' ls' where "tick_once cb w = Inr (f, w')" "wheel_ok w' ls'" "unat (nowTick w') = unat (nowTick w) + 1"
    "set f = {(p, w_extra (meta_at w p)) | p. armed w p \<and> fire_at w p = unat (nowTick w)}" "distinct (map fst f)"
    "\<And>p. armed w' p \<longleftrightarrow> armed w p \<and> fire_at w p \<noteq> unat (nowTick w)"
    "\<And>p. armed w' p \<Longrightarrow> fire_at w' p = fire_at w p \<and> w_extra (meta_at w' p) = w_extra (meta_at w p)"
proof -
  note D = wheel_okD[OF ok]
  let ?n = "unat (nowTick w)" let ?s = "unat (wslots w)" let ?b = "unat (nowTick w) mod unat (wslots w)"
  have s: "0 < ?s" using D(1) by (simp add: wheel_shape_def)
  then have b: "?b < ?s" by simp
  have hd: "wheelHeads w ! ?b = (case ls ?b of [] \<Rightarrow> NIL | y # _ \<Rightarrow> y)" by (rule dlist_head[OF D(2)[OF b]])
  obtain w1 ls1 where w1: "walk_bucket cb (Suc (length (wmeta w))) (wheelHeads w ! ?b) [] w = Inr (reports w (ls ?b), w1)"
    "wheel_ok w1 ls1" "same_wheel w w1" "\<forall>q. if q \<in> set (ls ?b) then aged w w1 q else same_slot w w1 q"
    using walk_ok[OF ok b, of "[]" "ls ?b" _ "Suc (length (wmeta w))" cb "[]"] cb hd bucket_length[OF ok b] by auto
  let ?w = "w1\<lparr>nowTick := nowTick w1 + 1\<rparr>"
  have T: "tick_once cb w = Inr (reports w (ls ?b), ?w)"
    unfolding tick_once_def Let_def mask_mod(2)[OF D(1)] w1(1) by simp
  have now: "unat (nowTick ?w) = ?n + 1" using w1(3) lt by (simp add: same_wheel_def unat_add_u64)
  have ar: "armed ?w = armed w1" "bucket_of ?w = bucket_of w1" "meta_at ?w = meta_at w1" by (auto simp: armed_def bucket_of_def fun_eq_iff)
  have okw: "wheel_ok ?w ls1"
    using w1(2) unfolding wheel_ok_def ar wheel_shape_def wnx_def[abs_def] wpv_def[abs_def] by simp
  have inb: "p \<in> set (ls ?b) \<longleftrightarrow> armed w p \<and> bucket_of w p = ?b" for p using D(3)[OF b, of p] D(4)[of p] by auto
  have key: "(armed w1 p \<longleftrightarrow> armed w p \<and> fire_at w p \<noteq> ?n) \<and>
    (armed w1 p \<longrightarrow> fire_at ?w p = fire_at w p \<and> w_extra (meta_at w1 p) = w_extra (meta_at w p))" for p
  proof (cases "p \<in> set (ls ?b)")
    case True
    then have a: "armed w p" "bucket_of w p = ?b" and g: "aged w w1 p" using inb w1(4) by (simp, simp, metis)
    show ?thesis
    proof (cases "w_rounds (meta_at w p) = 0")
      case True
      then show ?thesis using g a fire_now[OF D(1) a(1)] by (simp add: aged_def)
    next
      case False
      then have m1: "bucket_of w1 p = ?b" "w_extra (meta_at w1 p) = w_extra (meta_at w p)"
        "w_rounds (meta_at w1 p) = w_rounds (meta_at w p) - 1" using g a(2) by (simp_all add: aged_def bucket_of_def)
      have r: "unat (w_rounds (meta_at w1 p)) = unat (w_rounds (meta_at w p)) - 1" "0 < unat (w_rounds (meta_at w p))"
        using False unat_minus_one[of "w_rounds (meta_at w p)"] by (simp_all add: m1(3) unat_gt_0)
      have "armed w1 p" using a m1(1) w1(3) by (simp add: armed_def same_wheel_def)
      moreover have "fire_at w p \<noteq> ?n" using fire_now[OF D(1) a(1)] False by simp
      moreover have "fire_at ?w p = fire_at w p"
      proof -
        have "fire_at ?w p = ?n + 1 + (?s - 1) + ?s * (unat (w_rounds (meta_at w p)) - 1)"
          using bucket_dist_step(2)[OF b, of ?n] w1(3) unfolding fire_at_def Let_def ar now m1(1) by (simp add: same_wheel_def r(1))
        also have "\<dots> = ?n + ?s * unat (w_rounds (meta_at w p))" using s r(2) by (cases "unat (w_rounds (meta_at w p))") auto
        finally show ?thesis using bucket_dist_step(1)[OF b, of ?n] by (simp add: fire_at_def Let_def a(2))
      qed
      ultimately show ?thesis using a m1 by simp
    qed
  next
    case False
    have ss: "same_slot w w1 p" using w1(4)[rule_format, of p] unfolding if_not_P[OF False] .
    have aa: "armed w1 p = armed w p" by (rule same_slot_armed[OF ss w1(3)])
    show ?thesis
    proof (cases "armed w p")
      case True
      then have nb: "bucket_of w p \<noteq> ?b" "bucket_of w p < ?s" using False inb by (auto simp: armed_def)
      have "fire_at ?w p = fire_at w p"
        using bucket_dist_step[OF nb(2), of ?n] nb(1) ss w1(3) unfolding fire_at_def Let_def ar now
        by (simp add: same_wheel_def same_slot_def bucket_of_def)
      then show ?thesis using aa ss fire_now[OF D(1) True] nb(1) True by (simp add: same_slot_def)
    qed (simp add: aa)
  qed
  show ?thesis
  proof (rule that[OF T okw now])
    show "set (reports w (ls ?b)) = {(p, w_extra (meta_at w p)) | p. armed w p \<and> fire_at w p = ?n}"
      using inb fire_now[OF D(1)] by (auto simp: reports_def)
    have "distinct (ls ?b)" using D(2)[OF b] by (simp add: dlist_def)
    then show "distinct (map fst (reports w (ls ?b)))" by (simp add: reports_def comp_def)
    show "armed ?w p \<longleftrightarrow> armed w p \<and> fire_at w p \<noteq> ?n" for p using key[of p] by (simp only: ar)
    show "fire_at ?w p = fire_at w p \<and> w_extra (meta_at ?w p) = w_extra (meta_at w p)" if "armed ?w p" for p
      using key[of p] that by (simp add: ar(1))
  qed
qed

section \<open>Catching up\<close>

lemma tick_loop_ok:
  assumes "wheel_ok w ls" "unat (nowTick w) + n < 2 ^ 64" and cb: "self_cancelling cb"
  shows "\<exists>f w' ls'. tick_loop cb n fired w = Inr (fired @ f, w') \<and> wheel_ok w' ls' \<and>
    set f = {(p, w_extra (meta_at w p)) | p. armed w p \<and> fire_at w p < unat (nowTick w) + n} \<and>
    distinct (map fst f) \<and> sorted (map (\<lambda>x. fire_at w (fst x)) f) \<and>
    unat (nowTick w') = unat (nowTick w) + n \<and>
    (\<forall>p. armed w' p \<longleftrightarrow> armed w p \<and> unat (nowTick w) + n \<le> fire_at w p) \<and>
    (\<forall>p. armed w' p \<longrightarrow> fire_at w' p = fire_at w p \<and> w_extra (meta_at w' p) = w_extra (meta_at w p))"
  using assms(1,2)
proof (induction n arbitrary: w ls fired)
  case 0
  then show ?case using fire_at_ge by (auto simp: not_less intro!: exI[of _ w])
next
  case (Suc n)
  have lt: "unat (nowTick w) + 1 < 2 ^ 64" using Suc.prems(2) by simp
  obtain f w1 ls1 where w1: "tick_once cb w = Inr (f, w1)" "wheel_ok w1 ls1" "unat (nowTick w1) = unat (nowTick w) + 1"
    "set f = {(p, w_extra (meta_at w p)) | p. armed w p \<and> fire_at w p = unat (nowTick w)}" "distinct (map fst f)"
    "\<And>p. armed w1 p \<longleftrightarrow> armed w p \<and> fire_at w p \<noteq> unat (nowTick w)"
    "\<And>p. armed w1 p \<Longrightarrow> fire_at w1 p = fire_at w p \<and> w_extra (meta_at w1 p) = w_extra (meta_at w p)"
    by (rule tick_once_ok[OF Suc.prems(1) lt cb], rule that)
  have "unat (nowTick w1) + n < 2 ^ 64" using Suc.prems(2) w1(3) by simp
  from Suc.IH[OF w1(2) this, of "fired @ f"]
  obtain g w' ls' where w': "tick_loop cb n (fired @ f) w1 = Inr ((fired @ f) @ g, w')" "wheel_ok w' ls'"
    "set g = {(p, w_extra (meta_at w1 p)) | p. armed w1 p \<and> fire_at w1 p < unat (nowTick w1) + n}" "distinct (map fst g)"
    "sorted (map (\<lambda>x. fire_at w1 (fst x)) g)" "unat (nowTick w') = unat (nowTick w1) + n"
    "\<forall>p. armed w' p \<longleftrightarrow> armed w1 p \<and> unat (nowTick w1) + n \<le> fire_at w1 p"
    "\<forall>p. armed w' p \<longrightarrow> fire_at w' p = fire_at w1 p \<and> w_extra (meta_at w' p) = w_extra (meta_at w1 p)"
    by (elim exE conjE) (rule that)
  have split: "fire_at w p < unat (nowTick w) + Suc n \<longleftrightarrow> fire_at w p = unat (nowTick w) \<or>
     (fire_at w p \<noteq> unat (nowTick w) \<and> fire_at w p < unat (nowTick w1) + n)" for p
    using fire_at_ge[of w p] w1(3) by auto
  have g: "set g = {(p, w_extra (meta_at w p)) | p. armed w1 p \<and> fire_at w p < unat (nowTick w1) + n}"
    unfolding w'(3) using w1(7) by fastforce
  have fg: "set (f @ g) = {(p, w_extra (meta_at w p)) | p. armed w p \<and> fire_at w p < unat (nowTick w) + Suc n}"
    unfolding set_append w1(4) g split using w1(6) by blast
  have inf: "fire_at w (fst x) = unat (nowTick w)" if "x \<in> set f" for x
    using that unfolding w1(4) mem_Collect_eq by (elim exE conjE) (simp only: fst_conv)
  have ing: "armed w1 (fst x)" if "x \<in> set g" for x
    using that unfolding w'(3) mem_Collect_eq by (elim exE conjE) (simp only: fst_conv)
  have dis: "fst x \<noteq> fst y" if "x \<in> set f" "y \<in> set g" for x y
    using inf[OF that(1)] ing[OF that(2)] w1(6) by metis
  have eqg: "map (\<lambda>x. fire_at w (fst x)) g = map (\<lambda>x. fire_at w1 (fst x)) g"
    by (rule map_cong[OF refl], rule w1(7)[OF ing, THEN conjunct1, symmetric])
  have eqf: "map (\<lambda>x. fire_at w (fst x)) f = map (\<lambda>_. unat (nowTick w)) f" by (rule map_cong[OF refl inf])
  have srt: "sorted (map (\<lambda>x. fire_at w (fst x)) (f @ g))"
    unfolding map_append eqf eqg sorted_append
  proof (intro conjI ballI w'(5))
    show "sorted (map (\<lambda>_. unat (nowTick w)) f)" by (simp add: map_replicate_const)
    fix x y assume "x \<in> set (map (\<lambda>_. unat (nowTick w)) f)" "y \<in> set (map (\<lambda>x. fire_at w1 (fst x)) g)"
    then show "x \<le> y" using fire_at_ge[of w] unfolding eqg[symmetric] by auto
  qed
  show ?case
  proof (intro exI[of _ "f @ g"] exI[of _ w'] exI[of _ ls'] conjI allI impI fg srt w'(2))
    show "tick_loop cb (Suc n) fired w = Inr (fired @ f @ g, w')" using w1(1) w'(1) by simp
    show "distinct (map fst (f @ g))" using w1(5) w'(4) dis by (simp only: map_append distinct_append) auto
    show "unat (nowTick w') = unat (nowTick w) + Suc n" using w'(6) w1(3) by simp
    fix p
    show "armed w' p \<longleftrightarrow> armed w p \<and> unat (nowTick w) + Suc n \<le> fire_at w p"
      using w'(7)[rule_format, of p] w1(3) w1(6)[of p] w1(7)[of p] by auto
    show "fire_at w' p = fire_at w p" "w_extra (meta_at w' p) = w_extra (meta_at w p)" if "armed w' p"
      using that w'(7)[rule_format, of p] w'(8)[rule_format, of p] w1(7)[of p] by simp_all
  qed
qed

section \<open>The contract\<close>


definition demo_wheel :: timer_wheel where
  "demo_wheel = (case Wheel_Init 4 8 1 SECONDS True new_wheel of Inl _ \<Rightarrow> new_wheel | Inr w \<Rightarrow> w)"

lemma demo_wheel_ok: "wheel_ok demo_wheel (\<lambda>_. [])" "\<not> armed demo_wheel p" "wcap demo_wheel = 4"
  "wslots demo_wheel = 8" "nowTick demo_wheel = 0" "tickVal demo_wheel = 1"
proof -
  have "Wheel_Init 4 8 1 SECONDS True new_wheel = Inr demo_wheel" by (simp add: demo_wheel_def Wheel_Init_def)
  from Wheel_Init_ok[OF _ _ this, of 3]
  show "wheel_ok demo_wheel (\<lambda>_. [])" "\<not> armed demo_wheel p" "wcap demo_wheel = 4"
    "wslots demo_wheel = 8" "nowTick demo_wheel = 0" "tickVal demo_wheel = 1" by (simp_all add: tick_val_def)
qed


text \<open>C39. \<open>Schedule\<close> arms the slot, replacing an earlier timer of it and touching no other timer. It
  fires the requested number of ticks from now, except when the deadline falls into a later rotation of
  the wheel than whole rotations account for: then the rounds count is one too high and the timer fires
  one full rotation late.\<close>

theorem wheel_schedule_deadline:
  assumes "wheel_ok w ls" "pos < wcap w"
    and "unat (nowTick w) + unat (ticks_of (tickVal w) timeout) < 2 ^ 64"
    and "unat (ticks_of (tickVal w) timeout) div unat (wslots w) < 255"
  shows "\<exists>w' ls'. Schedule pos extra timeout w = Inr w' \<and> wheel_ok w' ls' \<and> armed w' pos \<and> w_extra (meta_at w' pos) = extra \<and>
    fire_at w' pos = unat (nowTick w) + unat (ticks_of (tickVal w) timeout) +
       (if unat (nowTick w) mod unat (wslots w) + unat (ticks_of (tickVal w) timeout) mod unat (wslots w) < unat (wslots w)
        then 0 else unat (wslots w)) \<and>
    (\<forall>q. q \<noteq> pos \<longrightarrow> armed w' q = armed w q \<and> (armed w q \<longrightarrow> fire_at w' q = fire_at w q))"
proof -
  obtain w' ls' where w': "Schedule pos extra timeout w = Inr w'" "wheel_ok w' ls'" "same_wheel w w'" "armed w' pos"
    "w_extra (meta_at w' pos) = extra" "fire_at w' pos = unat (nowTick w) + unat (ticks_of (tickVal w) timeout) +
       (if unat (nowTick w) mod unat (wslots w) + unat (ticks_of (tickVal w) timeout) mod unat (wslots w) < unat (wslots w)
        then 0 else unat (wslots w))" "\<And>q. q \<noteq> pos \<Longrightarrow> same_slot w w' q"
    by (rule Schedule_fire[OF assms], rule that)
  then show ?thesis using same_slot_armed[OF w'(7) w'(3)] same_slot_fire[OF w'(7) w'(3)] by blast
qed

text \<open>With eight slots at tick 6, a timer of 3 ticks fires at tick 17, not 9.\<close>

lemma demo_wheel_6: "wheel_ok (demo_wheel\<lparr>nowTick := 6\<rparr>) (\<lambda>_. [])"
proof -
  have "armed (demo_wheel\<lparr>nowTick := 6\<rparr>) p = armed demo_wheel p" for p by (simp add: armed_def bucket_of_def)
  then show ?thesis using demo_wheel_ok(1) by (auto simp: wheel_ok_def wheel_shape_def dlist_def demo_wheel_ok(2))
qed

theorem wheel_schedule_deadline_witness:
  "\<exists>w'. Schedule 2 7 3 (demo_wheel\<lparr>nowTick := 6\<rparr>) = Inr w' \<and> armed w' 2 \<and> fire_at w' 2 = 17"
  using wheel_schedule_deadline[OF demo_wheel_6, of 2 3 7] by (auto simp: demo_wheel_ok ticks_of_def)

end
