(* ===== verification/RouteTrie.thy ===== *)
theory RouteTrie
  imports StringUtils Uuid HttpHeaders
begin

text \<open>
  Model of \<open>src/http/routing\<close>: route segments, the per-method route trie and the router on top of it.
  Nodes own their children, so the trie is a tree; a \<open>TrieNode*\<close> into it is the list of child indices
  from the root, which stays valid because children are only ever appended.
\<close>

section \<open>Route segments\<close>

text \<open>\<open>SegmentVariant\<close>, a tagged union of \<open>src/shared/abis/segment_variant.hpp\<close>.\<close>

datatype SegmentVariant = SegEmpty | SegU64 u64 | SegI64 int | SegStr string | SegUuid UUID | SegStcStr string

fun Tag :: "SegmentVariant \<Rightarrow> u8" where
  "Tag SegEmpty = 0"
| "Tag (SegU64 _) = 1"
| "Tag (SegI64 _) = 2"
| "Tag (SegStr _) = 3"
| "Tag (SegUuid _) = 4"
| "Tag (SegStcStr _) = 5"

fun AsString :: "SegmentVariant \<Rightarrow> string" where
  "AsString (SegStr s) = s"
| "AsString (SegStcStr s) = s"
| "AsString _ = []"

datatype ParamType = PT_UINT | PT_INT | PT_STRING | PT_UUID | PT_UNKNOWN

definition METRICS_IDX_UNASSIGNED :: u16 where "METRICS_IDX_UNASSIGNED = 0xFFFF"

datatype 'cb RouteCallback = SyncCb "'cb option" | AsyncCb "'cb option"

fun IsEmpty :: "'cb RouteCallback \<Rightarrow> bool" where
  "IsEmpty (SyncCb f) \<longleftrightarrow> f = None"
| "IsEmpty (AsyncCb f) \<longleftrightarrow> f = None"

datatype 'cb TrieNode =
    TrieNode (children: "'cb RouteSegment list") (callback: "'cb RouteCallback") (metricsIdx: u16)
and 'cb RouteSegment =
    RouteSegment (routeValue: SegmentVariant) (GetChild: "'cb TrieNode")

definition new_node :: "'cb TrieNode" where
  "new_node = TrieNode [] (SyncCb None) METRICS_IDX_UNASSIGNED"

definition IsStatic :: "'cb RouteSegment \<Rightarrow> bool" where
  "IsStatic s \<longleftrightarrow> Tag (routeValue s) = 5"

definition IsParam :: "'cb RouteSegment \<Rightarrow> bool" where
  "IsParam s \<longleftrightarrow> (let t = Tag (routeValue s) in t = 1 \<or> t = 2 \<or> t = 3 \<or> t = 4)"

definition GetParam :: "'cb RouteSegment \<Rightarrow> SegmentVariant option" where
  "GetParam s = (if \<not> IsParam s then None else Some (routeValue s))"

definition MatchesStatic :: "'cb RouteSegment \<Rightarrow> string \<Rightarrow> bool" where
  "MatchesStatic s candidate \<longleftrightarrow> IsStatic s \<and>
     (let sv = AsString (routeValue s) in length sv = length candidate \<and> take (length sv) candidate = sv)"

definition GetParamType :: "'cb RouteSegment \<Rightarrow> ParamType" where
  "GetParamType s =
     (let t = Tag (routeValue s) in
      if t = 1 then PT_UINT else if t = 2 then PT_INT else if t = 3 then PT_STRING
      else if t = 4 then PT_UUID else PT_UNKNOWN)"

definition SegToString :: "'cb RouteSegment \<Rightarrow> string" where
  "SegToString s =
     (if IsStatic s then ''<static>''
      else (case GetParamType s of
              PT_UINT \<Rightarrow> ''<uint>'' | PT_INT \<Rightarrow> ''<int>'' | PT_STRING \<Rightarrow> ''<str>''
            | PT_UUID \<Rightarrow> ''<uuid>'' | PT_UNKNOWN \<Rightarrow> ''<unknown>''))"

section \<open>Matching\<close>

definition StripRoute :: "string \<Rightarrow> string" where
  "StripRoute route = (if route \<noteq> [] \<and> hd route = CHR ''/'' then tl route else route)"

text \<open>The first segment of a path and what follows the slash behind it.\<close>

definition first_seg :: "string \<Rightarrow> string" where
  "first_seg path = (case sv_find (CHR ''/'') path of None \<Rightarrow> path | Some k \<Rightarrow> take k path)"

definition rest_segs :: "string \<Rightarrow> string" where
  "rest_segs path = (case sv_find (CHR ''/'') path of None \<Rightarrow> [] | Some k \<Rightarrow> drop (Suc k) path)"

lemma rest_segs_shorter [termination_simp]: "path \<noteq> [] \<Longrightarrow> length (rest_segs path) < length path"
  by (auto simp: rest_segs_def dest: sv_find_lt split: option.splits)

text \<open>The \<open>switch\<close> over the parameter types: \<open>Abandon\<close> is its default branch.\<close>

datatype capture = Abandon | Skip | Capture SegmentVariant

definition capture_param :: "ParamType \<Rightarrow> string \<Rightarrow> capture" where
  "capture_param t segment =
     (case t of
        PT_UINT \<Rightarrow> (case StrToUInt64 segment of None \<Rightarrow> Skip | Some v \<Rightarrow> Capture (SegU64 v))
      | PT_INT \<Rightarrow> (case StrToInt64 segment of None \<Rightarrow> Skip | Some v \<Rightarrow> Capture (SegI64 v))
      | PT_UUID \<Rightarrow> (case FromString segment Zero of (ok, u) \<Rightarrow> if ok then Capture (SegUuid u) else Skip)
      | PT_STRING \<Rightarrow> Capture (SegStr segment)
      | PT_UNKNOWN \<Rightarrow> Abandon)"

definition wildcard_capture :: "string \<Rightarrow> SegmentVariant" where
  "wildcard_capture path =
     (let segment = first_seg path; rest = rest_segs path;
          len = (if rest \<noteq> [] then length segment + (1 + length rest) else length segment)
      in SegStr (take len path))"

fun MatchNode :: "'cb TrieNode \<Rightarrow> string \<Rightarrow> SegmentVariant list \<Rightarrow> 'cb TrieNode option \<times> SegmentVariant list"
  and MatchChildren ::
    "'cb RouteSegment list \<Rightarrow> string \<Rightarrow> SegmentVariant list \<Rightarrow> 'cb TrieNode option \<times> SegmentVariant list" where
  "MatchNode (TrieNode cs cb mi) path out =
     (if path = [] then (if IsEmpty cb then None else Some (TrieNode cs cb mi), out)
      else MatchChildren cs path out)"
| "MatchChildren [] path out = (None, out)"
| "MatchChildren (RouteSegment v n # cs) path out =
     (if IsStatic (RouteSegment v n) then
        if MatchesStatic (RouteSegment v n) ''*'' then
          (case MatchNode n [] (out @ [wildcard_capture path]) of
             (Some hit, out') \<Rightarrow> (Some hit, out')
           | (None, out') \<Rightarrow> MatchChildren cs path (butlast out'))
        else if MatchesStatic (RouteSegment v n) (first_seg path) then
          (case MatchNode n (rest_segs path) out of
             (Some hit, out') \<Rightarrow> (Some hit, out')
           | (None, out') \<Rightarrow> MatchChildren cs path out')
        else MatchChildren cs path out
      else if IsParam (RouteSegment v n) then
        (case capture_param (GetParamType (RouteSegment v n)) (first_seg path) of
           Abandon \<Rightarrow> (None, out)
         | Skip \<Rightarrow> MatchChildren cs path out
         | Capture c \<Rightarrow>
             (case MatchNode n (rest_segs path) (out @ [c]) of
                (Some hit, out') \<Rightarrow> (Some hit, out')
              | (None, out') \<Rightarrow> MatchChildren cs path (butlast out')))
      else MatchChildren cs path out)"

section \<open>Registration\<close>

definition parse_dynamic :: "string \<Rightarrow> fatal + SegmentVariant" where
  "parse_dynamic segment =
     (if length segment \<le> 2 then Inl (Fatal ''[Route-Formatter]: Empty parameter segment'')
      else
        let inner = sv_substr 1 (length segment - 2) segment in
        if (case sv_find (CHR '':'') inner of None \<Rightarrow> False | Some colon \<Rightarrow> colon = 0 \<or> colon = length inner - 1) then
          Inl (Fatal ''[Route-Formatter]: Malformed dynamic segment'')
        else
          let type = (case sv_find (CHR '':'') inner of None \<Rightarrow> inner | Some colon \<Rightarrow> drop (colon + 1) inner) in
          if type = ''uint'' then Inr (SegU64 0)
          else if type = ''int'' then Inr (SegI64 0)
          else if type = ''uuid'' then Inr (SegUuid Zero)
          else if type = ''string'' then Inr (SegStr [])
          else Inl (Fatal ''[Route-Formatter]: Unknown parameter type''))"

definition is_dynamic :: "string \<Rightarrow> bool" where
  "is_dynamic segment \<longleftrightarrow> segment \<noteq> [] \<and> hd segment = CHR ''<'' \<and> List.last segment = CHR ''>''"

fun find_static :: "'cb RouteSegment list \<Rightarrow> string \<Rightarrow> nat option" where
  "find_static [] segment = None"
| "find_static (c # cs) segment =
     (if IsStatic c \<and> MatchesStatic c segment then Some 0 else map_option Suc (find_static cs segment))"

definition add_child :: "SegmentVariant \<Rightarrow> 'cb TrieNode \<Rightarrow> 'cb TrieNode \<Rightarrow> 'cb TrieNode" where
  "add_child v c n = TrieNode (children n @ [RouteSegment v c]) (callback n) (metricsIdx n)"

definition set_child :: "nat \<Rightarrow> 'cb TrieNode \<Rightarrow> 'cb TrieNode \<Rightarrow> 'cb TrieNode" where
  "set_child i c n =
     TrieNode ((children n)[i := RouteSegment (routeValue (children n ! i)) c]) (callback n) (metricsIdx n)"

text \<open>The loop of \<open>InsertRoute\<close> below a node: the new node and the path of the one it ends at.\<close>

function insert_below :: "'cb TrieNode \<Rightarrow> string \<Rightarrow> fatal + ('cb TrieNode \<times> nat list)" where
  "insert_below n route =
     (if route = [] then Inr (n, [])
      else
        let segment = first_seg route; rest = rest_segs route in
        if is_dynamic segment then
          (case parse_dynamic segment of
             Inl e \<Rightarrow> Inl e
           | Inr v \<Rightarrow> map_sum id (\<lambda>(c, p). (add_child v c n, length (children n) # p)) (insert_below new_node rest))
        else
          (case find_static (children n) segment of
             Some i \<Rightarrow> map_sum id (\<lambda>(c, p). (set_child i c n, i # p)) (insert_below (GetChild (children n ! i)) rest)
           | None \<Rightarrow>
               if segment = ''*'' then
                 if rest \<noteq> [] then Inl (Fatal ''[Route-Formatter]: Wildcard must be the last segment in a route.'')
                 else Inr (add_child (SegStcStr segment) new_node n, [length (children n)])
               else map_sum id (\<lambda>(c, p). (add_child (SegStcStr segment) c n, length (children n) # p))
                      (insert_below new_node rest)))"
  by pat_completeness auto
termination by (relation "measure (\<lambda>(n, route). length route)") (auto simp: rest_segs_shorter)

declare insert_below.simps [simp del]

record 'cb route_trie =
  root :: "'cb TrieNode"
  insertCursor :: "nat list"
  cursorStack :: "nat list list"

definition new_trie :: "'cb route_trie" where
  "new_trie = \<lparr>root = new_node, insertCursor = [], cursorStack = []\<rparr>"

fun node_at :: "'cb TrieNode \<Rightarrow> nat list \<Rightarrow> 'cb TrieNode" where
  "node_at n [] = n"
| "node_at n (i # p) = node_at (GetChild (children n ! i)) p"

fun put_at :: "'cb TrieNode \<Rightarrow> nat list \<Rightarrow> 'cb TrieNode \<Rightarrow> 'cb TrieNode" where
  "put_at n [] m = m"
| "put_at n (i # p) m = set_child i (put_at (GetChild (children n ! i)) p m) n"

definition InsertRoute :: "string \<Rightarrow> 'cb route_trie \<Rightarrow> fatal + (nat list \<times> 'cb route_trie)" where
  "InsertRoute route t =
     (case insert_below (node_at (root t) (insertCursor t)) (StripRoute route) of
        Inl e \<Rightarrow> Inl e
      | Inr (n, p) \<Rightarrow> Inr (insertCursor t @ p, t\<lparr>root := put_at (root t) (insertCursor t) n\<rparr>))"

definition set_callback :: "'cb RouteCallback \<Rightarrow> 'cb TrieNode \<Rightarrow> 'cb TrieNode" where
  "set_callback h n = TrieNode (children n) h (metricsIdx n)"

definition TrieInsert :: "string \<Rightarrow> 'cb RouteCallback \<Rightarrow> 'cb route_trie \<Rightarrow> fatal + (nat list \<times> 'cb route_trie)" where
  "TrieInsert fullRoute handler t =
     map_sum id (\<lambda>(p, t'). (p, t'\<lparr>root := put_at (root t') p (set_callback handler (node_at (root t') p))\<rparr>))
       (InsertRoute fullRoute t)"

definition TrieMatch :: "string \<Rightarrow> SegmentVariant list \<Rightarrow> 'cb route_trie \<Rightarrow> 'cb TrieNode option \<times> SegmentVariant list" where
  "TrieMatch requestPath outParams t = MatchNode (root t) (StripRoute requestPath) outParams"

definition PushGroup :: "string \<Rightarrow> 'cb route_trie \<Rightarrow> fatal + 'cb route_trie" where
  "PushGroup prefx t =
     (let t1 = t\<lparr>cursorStack := cursorStack t @ [insertCursor t]\<rparr>
      in map_sum id (\<lambda>(p, t2). t2\<lparr>insertCursor := p\<rparr>) (InsertRoute prefx t1))"

definition PopGroup :: "'cb route_trie \<Rightarrow> fatal + 'cb route_trie" where
  "PopGroup t =
     (if cursorStack t = [] then Inl (Fatal ''[RouteTrie]: PopGroup called without corresponding PushGroup.'')
      else Inr (t\<lparr>insertCursor := List.last (cursorStack t), cursorStack := butlast (cursorStack t)\<rparr>))"

section \<open>The router\<close>

record RouteIdentity =
  ri_path :: string
  ri_method :: HttpMethod

record 'cb router =
  routesByMethod :: "'cb route_trie list"
  identities :: "RouteIdentity list"
  groupPrefix :: string
  groupLenStack :: "nat list"

definition ROUTABLE_METHOD_COUNT :: nat where "ROUTABLE_METHOD_COUNT = 7"

definition new_router :: "'cb router" where
  "new_router = \<lparr>routesByMethod = replicate ROUTABLE_METHOD_COUNT new_trie, identities = [],
                 groupPrefix = [], groupLenStack = []\<rparr>"

fun method_idx :: "HttpMethod \<Rightarrow> nat" where
  "method_idx M_GET = 0"
| "method_idx M_POST = 1"
| "method_idx M_PUT = 2"
| "method_idx M_DELETE = 3"
| "method_idx M_PATCH = 4"
| "method_idx M_HEAD = 5"
| "method_idx M_OPTIONS = 6"
| "method_idx M_CONNECT = 7"
| "method_idx M_TRACE = 8"
| "method_idx M_UNKNOWN = 9"

definition JoinPath :: "string \<Rightarrow> string \<Rightarrow> string" where
  "JoinPath acc seg =
     (let acc1 = (if acc \<noteq> [] \<and> List.last acc = CHR ''/'' then butlast acc else acc)
      in if seg = [] then acc1
         else (if hd seg \<noteq> CHR ''/'' then acc1 @ [CHR ''/''] else acc1) @ seg)"

definition set_metrics :: "u16 \<Rightarrow> 'cb TrieNode \<Rightarrow> 'cb TrieNode" where
  "set_metrics i n = TrieNode (children n) (callback n) i"

definition RegisterRoute ::
  "u16 \<Rightarrow> HttpMethod \<Rightarrow> string \<Rightarrow> 'cb RouteCallback \<Rightarrow> 'cb router \<Rightarrow> fatal + (nat list \<times> 'cb router)" where
  "RegisterRoute maxRoutes method path handler r =
     (if path = [] \<or> hd path \<noteq> CHR ''/'' then
        Inl (Fatal ''[Router]: Path is either empty or does not start with slash.'')
      else if method_idx method \<ge> ROUTABLE_METHOD_COUNT then
        Inl (Fatal ''[Router]: Unsupported HTTP method found in RegisterRoute.'')
      else
        (case TrieInsert path handler (routesByMethod r ! method_idx method) of
           Inl e \<Rightarrow> Inl e
         | Inr (p, t) \<Rightarrow>
             let r1 = r\<lparr>routesByMethod := (routesByMethod r)[method_idx method := t]\<rparr> in
             if metricsIdx (node_at (root t) p) = METRICS_IDX_UNASSIGNED then
               if length (identities r1) \<ge> unat maxRoutes then
                 Inl (Fatal ''[Router]: Cannot register, all route metric slots are taken.'')
               else
                 let t' = t\<lparr>root := put_at (root t) p
                              (set_metrics (of_nat (length (identities r1))) (node_at (root t) p))\<rparr>
                 in Inr (p, r1\<lparr>routesByMethod := (routesByMethod r1)[method_idx method := t'],
                               identities := identities r1 @ [\<lparr>ri_path = JoinPath (groupPrefix r1) path, ri_method = method\<rparr>]\<rparr>)
             else Inr (p, r1)))"

definition strip_query :: "string \<Rightarrow> string" where
  "strip_query path = (case sv_find (CHR ''?'') path of None \<Rightarrow> path | Some k \<Rightarrow> take k path)"

definition MatchRoute ::
  "HttpMethod \<Rightarrow> string \<Rightarrow> SegmentVariant list \<Rightarrow> 'cb router \<Rightarrow> 'cb TrieNode option \<times> SegmentVariant list" where
  "MatchRoute method path out r =
     (if method_idx method \<ge> ROUTABLE_METHOD_COUNT then (None, out)
      else TrieMatch (strip_query path) out (routesByMethod r ! method_idx method))"

definition all_methods :: "HttpMethod list" where
  "all_methods = [M_GET, M_POST, M_PUT, M_DELETE, M_PATCH, M_HEAD, M_OPTIONS, M_CONNECT, M_TRACE, M_UNKNOWN]"

definition MethodsAt :: "string \<Rightarrow> 'cb router \<Rightarrow> HttpMethod list" where
  "MethodsAt path r =
     [all_methods ! i. i \<leftarrow> [0..<ROUTABLE_METHOD_COUNT],
        fst (TrieMatch (strip_query path) [] (routesByMethod r ! i)) \<noteq> None]"

fun on_all :: "('cb route_trie \<Rightarrow> fatal + 'cb route_trie) \<Rightarrow> 'cb route_trie list \<Rightarrow> fatal + 'cb route_trie list" where
  "on_all f [] = Inr []"
| "on_all f (t # ts) = (case f t of Inl e \<Rightarrow> Inl e | Inr t' \<Rightarrow> map_sum id (Cons t') (on_all f ts))"

definition PushRouteGroup :: "string \<Rightarrow> 'cb router \<Rightarrow> fatal + 'cb router" where
  "PushRouteGroup prefx r =
     (let r1 = r\<lparr>groupLenStack := groupLenStack r @ [length (groupPrefix r)], groupPrefix := JoinPath (groupPrefix r) prefx\<rparr>
      in map_sum id (\<lambda>ts. r1\<lparr>routesByMethod := ts\<rparr>) (on_all (PushGroup prefx) (routesByMethod r1)))"

text \<open>\<open>std::string::resize\<close> pads with zero bytes.\<close>

definition str_resize :: "nat \<Rightarrow> string \<Rightarrow> string" where
  "str_resize n s = take n s @ replicate (n - length s) NUL"

definition PopRouteGroup :: "'cb router \<Rightarrow> fatal + 'cb router" where
  "PopRouteGroup r =
     (if groupLenStack r = [] then Inl (Fatal ''[Router]: WFX_GROUP_END() without a matching WFX_GROUP_START()'')
      else
        let r1 = r\<lparr>groupPrefix := str_resize (List.last (groupLenStack r)) (groupPrefix r),
                   groupLenStack := butlast (groupLenStack r)\<rparr>
        in map_sum id (\<lambda>ts. r1\<lparr>routesByMethod := ts\<rparr>) (on_all PopGroup (routesByMethod r1)))"

definition EnsureGroupsClosed :: "'cb router \<Rightarrow> fatal + unit" where
  "EnsureGroupsClosed r =
     (if groupLenStack r \<noteq> [] then Inl (Fatal ''[Router]: WFX_GROUP_START() without a matching WFX_GROUP_END()'')
      else Inr ())"

definition RouteCount :: "'cb router \<Rightarrow> u16" where
  "RouteCount r = of_nat (length (identities r))"

definition RouteAt :: "u16 \<Rightarrow> 'cb router \<Rightarrow> RouteIdentity" where
  "RouteAt i r = (if unat i \<ge> length (identities r) then \<lparr>ri_path = [], ri_method = M_GET\<rparr> else identities r ! unat i)"

end
