(* ===== verification/RouteProofs.thy ===== *)
theory RouteProofs
  imports RouteTrie "HOL-Library.Multiset"
begin

text \<open>
  Correctness of routing: matching finds the first registered route, in the order of the trie, whose
  pattern accepts the path; registration adds exactly one pattern; the metric indices stay dense.
\<close>

section \<open>Patterns\<close>

text \<open>A registered route is the list of segment values on the way to its node. \<open>accepts v path\<close> consumes
  one segment (all of them for the wildcard) and gives the captures and the rest of the path.\<close>

definition accepts :: "SegmentVariant \<Rightarrow> string \<Rightarrow> (SegmentVariant list \<times> string) option" where
  "accepts v path =
     (case v of
        SegStcStr s \<Rightarrow>
          if s = ''*'' then Some ([wildcard_capture path], [])
          else if s = first_seg path then Some ([], rest_segs path) else None
      | SegU64 _ \<Rightarrow> map_option (\<lambda>k. ([SegU64 k], rest_segs path)) (StrToUInt64 (first_seg path))
      | SegI64 _ \<Rightarrow> map_option (\<lambda>k. ([SegI64 k], rest_segs path)) (StrToInt64 (first_seg path))
      | SegStr _ \<Rightarrow> Some ([SegStr (first_seg path)], rest_segs path)
      | SegUuid _ \<Rightarrow> (case FromString (first_seg path) Zero of (ok, u) \<Rightarrow> if ok then Some ([SegUuid u], rest_segs path) else None)
      | SegEmpty \<Rightarrow> None)"

fun pat_match :: "SegmentVariant list \<Rightarrow> string \<Rightarrow> SegmentVariant list option" where
  "pat_match [] path = (if path = [] then Some [] else None)"
| "pat_match (v # vs) path =
     (if path = [] then None
      else case accepts v path of None \<Rightarrow> None | Some (cs, rest) \<Rightarrow> map_option ((@) cs) (pat_match vs rest))"

text \<open>The routes of a trie, depth first: a node before its children, children in the order of registration.\<close>

fun routes :: "'cb TrieNode \<Rightarrow> (SegmentVariant list \<times> 'cb TrieNode) list"
  and child_routes :: "'cb RouteSegment list \<Rightarrow> (SegmentVariant list \<times> 'cb TrieNode) list" where
  "routes (TrieNode cs cb mi) = (if IsEmpty cb then [] else [([], TrieNode cs cb mi)]) @ child_routes cs"
| "child_routes [] = []"
| "child_routes (RouteSegment v n # cs) = map (\<lambda>(p, m). (v # p, m)) (routes n) @ child_routes cs"

fun first_match :: "(SegmentVariant list \<times> 'n) list \<Rightarrow> string \<Rightarrow> (SegmentVariant list \<times> 'n) option" where
  "first_match [] path = None"
| "first_match ((p, m) # rs) path =
     (case pat_match p path of Some c \<Rightarrow> Some (c, m) | None \<Rightarrow> first_match rs path)"

lemma first_match_append:
  "first_match (rs @ ss) path = (case first_match rs path of None \<Rightarrow> first_match ss path | Some x \<Rightarrow> Some x)"
  by (induction rs path rule: first_match.induct) (auto split: option.splits)

lemma first_match_Cons:
  "first_match (map (\<lambda>(p, m). (v # p, m)) rs) path =
     (if path = [] then None
      else case accepts v path of None \<Rightarrow> None
           | Some (cs, rest) \<Rightarrow> map_option (\<lambda>(c, m). (cs @ c, m)) (first_match rs rest))"
  by (induction rs) (auto split: option.splits)

lemma first_match_empty: "first_match (child_routes cs) [] = None"
proof (induction cs)
  case (Cons c cs)
  then show ?case by (cases c) (simp add: first_match_append first_match_Cons)
qed simp

lemma first_match_iff: "(\<exists>x. first_match rs path = Some x) \<longleftrightarrow> (\<exists>(q, m) \<in> set rs. pat_match q path \<noteq> None)"
  by (induction rs path rule: first_match.induct) (auto split: option.splits)

section \<open>Matching finds the first route\<close>

lemma MatchesStatic_iff: "MatchesStatic s c \<longleftrightarrow> routeValue s = SegStcStr c"
proof (cases "routeValue s")
  case (SegStcStr x)
  then show ?thesis by (auto simp: MatchesStatic_def IsStatic_def Let_def)
qed (auto simp: MatchesStatic_def IsStatic_def)

definition answer :: "(SegmentVariant list \<times> 'n) option \<Rightarrow> SegmentVariant list \<Rightarrow> 'n option \<times> SegmentVariant list" where
  "answer r out = (case r of None \<Rightarrow> (None, out) | Some (c, m) \<Rightarrow> (Some m, out @ c))"

lemma answer_simps [simp]:
  "answer None out = (None, out)" "answer (Some (c, m)) out = (Some m, out @ c)"
  by (simp_all add: answer_def)

lemma MatchChildren_step:
  "MatchChildren (RouteSegment v n # cs) path out =
     (case accepts v path of
        None \<Rightarrow> MatchChildren cs path out
      | Some (ds, rest) \<Rightarrow>
          (case MatchNode n rest (out @ ds) of
             (Some hit, out') \<Rightarrow> (Some hit, out')
           | (None, out') \<Rightarrow> MatchChildren cs path (take (length out' - length ds) out')))"
  by (cases v) (auto simp: IsStatic_def IsParam_def GetParamType_def capture_param_def accepts_def MatchesStatic_iff butlast_conv_take
    split: option.splits prod.splits if_splits)

lemma MatchNode_answer:
  fixes n :: "'cb TrieNode" and cs :: "'cb RouteSegment list"
  shows "MatchNode n path out = answer (first_match (routes n) path) out"
    "path \<noteq> [] \<Longrightarrow> MatchChildren cs path out = answer (first_match (child_routes cs) path) out"
proof (induction n and cs arbitrary: path out and path out rule: routes_child_routes.induct)
  case (1 cs cb mi)
  show ?case
  proof (cases "path = []")
    case True
    then show ?thesis by (simp add: first_match_append first_match_empty answer_def)
  next
    case False
    then show ?thesis using 1[OF False] by (simp add: first_match_append)
  qed
next
  case 2
  then show ?case by simp
next
  case (3 v n cs)
  show ?case
    unfolding MatchChildren_step 3(1)
    using 3(2)[OF 3(3)] 3(3) by (auto simp: first_match_append first_match_Cons answer_def split: option.splits prod.splits)
qed

text \<open>C17. Matching a path against a trie gives the first route, in depth-first order of registration, whose
  pattern accepts the whole path, together with its captures appended to the given ones; if there is
  none, the captures are as before.\<close>

theorem match_is_first_route:
  "TrieMatch path out t =
     (case first_match (routes (root t)) (StripRoute path) of
        None \<Rightarrow> (None, out)
      | Some (captures, node) \<Rightarrow> (Some node, out @ captures))"
  by (simp add: TrieMatch_def MatchNode_answer(1) answer_def)

section \<open>Registration adds a pattern\<close>

definition seg_pattern :: "string \<Rightarrow> SegmentVariant" where
  "seg_pattern seg = (if is_dynamic seg then (case parse_dynamic seg of Inr v \<Rightarrow> v | Inl _ \<Rightarrow> SegEmpty) else SegStcStr seg)"

fun route_pattern :: "string \<Rightarrow> SegmentVariant list" where
  "route_pattern route = (if route = [] then [] else seg_pattern (first_seg route) # route_pattern (rest_segs route))"

declare route_pattern.simps [simp del]

text \<open>The patterns of a trie, and the pattern of a path of child indices.\<close>

definition pats :: "'cb TrieNode \<Rightarrow> SegmentVariant list set" where
  "pats n = fst ` set (routes n)"

lemma child_routes_set: "fst ` set (child_routes cs) = (\<Union>s \<in> set cs. (#) (routeValue s) ` pats (GetChild s))"
proof (induction cs)
  case (Cons c cs)
  then show ?case by (cases c) (auto simp: pats_def image_Un image_image split: prod.splits intro: rev_image_eqI)
qed simp

lemma pats_simps:
  "pats (TrieNode cs cb mi) = (if IsEmpty cb then {} else {[]}) \<union> (\<Union>s \<in> set cs. (#) (routeValue s) ` pats (GetChild s))"
  by (simp add: pats_def image_Un child_routes_set)

lemma pats_eq: "pats n = (if IsEmpty (callback n) then {} else {[]}) \<union> (\<Union>s \<in> set (children n). (#) (routeValue s) ` pats (GetChild s))"
  by (cases n) (simp add: pats_simps)

fun path_ok :: "'cb TrieNode \<Rightarrow> nat list \<Rightarrow> bool" where
  "path_ok n [] \<longleftrightarrow> True"
| "path_ok n (i # p) \<longleftrightarrow> i < length (children n) \<and> path_ok (GetChild (children n ! i)) p"

fun pattern_at :: "'cb TrieNode \<Rightarrow> nat list \<Rightarrow> SegmentVariant list" where
  "pattern_at n [] = []"
| "pattern_at n (i # p) = routeValue (children n ! i) # pattern_at (GetChild (children n ! i)) p"

definition extends :: "'cb TrieNode \<Rightarrow> 'cb TrieNode \<Rightarrow> bool" where
  "extends n n' \<longleftrightarrow> (\<forall>p. path_ok n p \<longrightarrow> path_ok n' p \<and> pattern_at n' p = pattern_at n p)"

lemma pats_new_node [simp]: "pats new_node = {}"
  by (simp add: new_node_def pats_simps)

lemma pats_add_child: "pats (add_child v c n) = pats n \<union> (#) v ` pats c"
  by (auto simp: add_child_def pats_simps pats_eq[of n])

lemma pats_set_child:
  assumes "i < length (children n)" "pats c = pats (GetChild (children n ! i)) \<union> S"
  shows "pats (set_child i c n) = pats n \<union> (#) (routeValue (children n ! i)) ` S"
proof -
  let ?f = "\<lambda>s. (#) (routeValue s) ` pats (GetChild s)"
  let ?new = "RouteSegment (routeValue (children n ! i)) c"
  let ?xs = "take i (children n)" let ?ys = "drop (Suc i) (children n)"
  have un: "(\<Union>s \<in> set (xs @ y # zs). ?f s) = (\<Union>s \<in> set xs. ?f s) \<union> ?f y \<union> (\<Union>s \<in> set zs. ?f s)" for xs y zs by auto
  have f: "?f ?new = ?f (children n ! i) \<union> (#) (routeValue (children n ! i)) ` S" using assms(2) by (simp add: image_Un)
  have "(\<Union>s \<in> set (children n). ?f s) = (\<Union>s \<in> set ?xs. ?f s) \<union> ?f (children n ! i) \<union> (\<Union>s \<in> set ?ys. ?f s)"
    unfolding un[symmetric] by (simp only: id_take_nth_drop[OF assms(1), symmetric])
  moreover have "(\<Union>s \<in> set ((children n)[i := ?new]). ?f s) = (\<Union>s \<in> set ?xs. ?f s) \<union> ?f ?new \<union> (\<Union>s \<in> set ?ys. ?f s)"
    unfolding list_update_take_drop[OF assms(1)] by (rule un)
  ultimately have "(\<Union>s \<in> set ((children n)[i := ?new]). ?f s) = (\<Union>s \<in> set (children n). ?f s) \<union> (#) (routeValue (children n ! i)) ` S"
    unfolding f by (simp only: Un_ac)
  then show ?thesis by (simp add: set_child_def pats_simps pats_eq[of n] Un_assoc)
qed

lemma set_child_simps [simp]:
  "length (children (set_child i c n)) = length (children n)"
  "i < length (children n) \<Longrightarrow> GetChild (children (set_child i c n) ! i) = c"
  "i < length (children n) \<Longrightarrow> routeValue (children (set_child i c n) ! j) = routeValue (children n ! j)"
  "j \<noteq> i \<Longrightarrow> children (set_child i c n) ! j = children n ! j"
  by (auto simp: set_child_def nth_list_update)

lemma extends_set_child:
  assumes "i < length (children n)" "extends (GetChild (children n ! i)) c"
  shows "extends n (set_child i c n)"
  unfolding extends_def
proof (intro allI impI)
  fix p assume p: "path_ok n p"
  show "path_ok (set_child i c n) p \<and> pattern_at (set_child i c n) p = pattern_at n p"
  proof (cases p)
    case (Cons j q)
    then show ?thesis using p assms by (cases "j = i") (auto simp: extends_def)
  qed simp
qed

lemma extends_add_child: "extends n (add_child v c n)"
  unfolding extends_def
proof (intro allI impI)
  fix p assume p: "path_ok n p"
  show "path_ok (add_child v c n) p \<and> pattern_at (add_child v c n) p = pattern_at n p"
    using p by (cases p) (auto simp: add_child_def nth_append)
qed

lemma add_child_simps [simp]:
  "length (children (add_child v c n)) = Suc (length (children n))"
  "children (add_child v c n) ! length (children n) = RouteSegment v c"
  by (simp_all add: add_child_def)

lemma put_at_ok:
  assumes "path_ok n p" "pats m = pats (node_at n p) \<union> S"
  shows "pats (put_at n p m) = pats n \<union> (@) (pattern_at n p) ` S"
  using assms
proof (induction n p m rule: put_at.induct)
  case (2 n i p m)
  then have "pats (put_at (GetChild (children n ! i)) p m) =
      pats (GetChild (children n ! i)) \<union> (@) (pattern_at (GetChild (children n ! i)) p) ` S" by simp
  from pats_set_child[OF _ this] show ?case using 2(2) by (simp add: image_image)
qed simp

lemma put_at_extends: "path_ok n p \<Longrightarrow> extends (node_at n p) m \<Longrightarrow> extends n (put_at n p m)"
  by (induction n p m rule: put_at.induct) (auto intro: extends_set_child)

lemma put_at_path:
  "path_ok n p \<Longrightarrow> path_ok (put_at n p m) (p @ q) = path_ok m q"
  "path_ok n p \<Longrightarrow> node_at (put_at n p m) (p @ q) = node_at m q"
  "path_ok n p \<Longrightarrow> pattern_at (put_at n p m) (p @ q) = pattern_at n p @ pattern_at m q"
  by (induction n p m rule: put_at.induct) auto

lemma extends_refl: "extends n n" and extends_trans: "extends a b \<Longrightarrow> extends b c \<Longrightarrow> extends a c"
  by (simp_all add: extends_def)

lemma find_static_Some:
  "find_static cs seg = Some i \<Longrightarrow> i < length cs \<and> routeValue (cs ! i) = SegStcStr seg"
  by (induction cs arbitrary: i) (auto simp: MatchesStatic_iff split: if_splits)

text \<open>An insertion that succeeds, step by step: it ends here, adds a child, or goes into an existing one.\<close>

lemma insert_below_induct [consumes 1, case_names here add into]:
  assumes "insert_below n route = Inr (n', p)"
    and here: "\<And>n. P n [] n []"
    and add: "\<And>n route c q. route \<noteq> [] \<Longrightarrow> P new_node (rest_segs route) c q \<Longrightarrow>
      P n route (add_child (seg_pattern (first_seg route)) c n) (length (children n) # q)"
    and into: "\<And>n route i c q. route \<noteq> [] \<Longrightarrow> i < length (children n) \<Longrightarrow>
      routeValue (children n ! i) = seg_pattern (first_seg route) \<Longrightarrow>
      P (GetChild (children n ! i)) (rest_segs route) c q \<Longrightarrow> P n route (set_child i c n) (i # q)"
  shows "P n route n' p"
  using assms(1)
proof (induction n route arbitrary: n' p rule: insert_below.induct)
  case (1 n route)
  let ?s = "first_seg route" let ?r = "rest_segs route"
  consider (nil) "route = []" "n' = n" "p = []"
    | (dyn) v c q where "route \<noteq> []" "is_dynamic ?s" "parse_dynamic ?s = Inr v" "insert_below new_node ?r = Inr (c, q)"
        "n' = add_child v c n" "p = length (children n) # q"
    | (found) i c q where "route \<noteq> []" "\<not> is_dynamic ?s" "find_static (children n) ?s = Some i"
        "insert_below (GetChild (children n ! i)) ?r = Inr (c, q)" "n' = set_child i c n" "p = i # q"
    | (wild) "route \<noteq> []" "\<not> is_dynamic ?s" "?r = []" "n' = add_child (SegStcStr ?s) new_node n" "p = [length (children n)]"
    | (fresh) c q where "route \<noteq> []" "\<not> is_dynamic ?s" "find_static (children n) ?s = None" "?s \<noteq> ''*''"
        "insert_below new_node ?r = Inr (c, q)" "n' = add_child (SegStcStr ?s) c n" "p = length (children n) # q"
    using 1(4)[unfolded insert_below.simps[of n route]] by (auto simp: Let_def map_sum_Inr split: if_splits option.splits sum.splits)
  then show ?case
  proof cases
    case nil
    then show ?thesis using here by simp
  next
    case (dyn v c q)
    from add[OF dyn(1) 1(1)[OF dyn(1) refl refl dyn(2,3,4)]] dyn show ?thesis by (simp add: seg_pattern_def)
  next
    case (found i c q)
    from into[OF found(1) _ _ 1(3)[OF found(1) refl refl found(2,3,4)]] find_static_Some[OF found(3)] found
    show ?thesis by (simp add: seg_pattern_def)
  next
    case wild
    from add[OF wild(1), of new_node "[]"] here[of new_node] wild show ?thesis by (simp add: seg_pattern_def)
  next
    case (fresh c q)
    from add[OF fresh(1) 1(2)[OF fresh(1) refl refl fresh(2,3,4,5)]] fresh show ?thesis by (simp add: seg_pattern_def)
  qed
qed

lemma insert_below_ok:
  assumes "insert_below n route = Inr (n', p)"
  shows "pats n' = pats n \<and> path_ok n' p \<and> pattern_at n' p = route_pattern route \<and> extends n n'"
  using assms
proof (induction rule: insert_below_induct)
  case (here n)
  then show ?case by (simp add: route_pattern.simps extends_refl)
next
  case (add n route c q)
  then show ?case by (simp add: pats_add_child extends_add_child route_pattern.simps[of route])
next
  case (into n route i c q)
  then show ?case
    using pats_set_child[of i n c "{}"] extends_set_child[of i n c] by (simp add: route_pattern.simps[of route])
qed

section \<open>The router\<close>

definition trie_ok :: "'cb route_trie \<Rightarrow> bool" where
  "trie_ok t \<longleftrightarrow> path_ok (root t) (insertCursor t) \<and> (\<forall>p \<in> set (cursorStack t). path_ok (root t) p)"

text \<open>The pattern a route gets under the open group of a trie.\<close>

definition full_pattern :: "'cb route_trie \<Rightarrow> string \<Rightarrow> SegmentVariant list" where
  "full_pattern t route = pattern_at (root t) (insertCursor t) @ route_pattern (StripRoute route)"

lemma InsertRoute_ok:
  assumes ok: "trie_ok t" and i: "InsertRoute route t = Inr (p, t')"
  shows "pats (root t') = pats (root t)" "path_ok (root t') p" "pattern_at (root t') p = full_pattern t route"
    "extends (root t) (root t')" "insertCursor t' = insertCursor t" "cursorStack t' = cursorStack t"
proof -
  obtain n q where n: "insert_below (node_at (root t) (insertCursor t)) (StripRoute route) = Inr (n, q)"
    "p = insertCursor t @ q" "t' = t\<lparr>root := put_at (root t) (insertCursor t) n\<rparr>"
    using i by (auto simp: InsertRoute_def split: sum.splits)
  note B = insert_below_ok[OF n(1)]
  have c: "path_ok (root t) (insertCursor t)" using ok by (simp add: trie_ok_def)
  show "pats (root t') = pats (root t)" using put_at_ok[OF c, of n "{}"] B by (simp add: n(3))
  show "path_ok (root t') p" "pattern_at (root t') p = full_pattern t route"
    using put_at_path[OF c] B by (simp_all add: n full_pattern_def)
  show "extends (root t) (root t')" using put_at_extends[OF c] B by (simp add: n(3))
qed (use i in \<open>auto simp: InsertRoute_def split: sum.splits\<close>)

lemma trie_ok_extends:
  "trie_ok t \<Longrightarrow> extends (root t) (root t') \<Longrightarrow> path_ok (root t') (insertCursor t') \<Longrightarrow>
     set (cursorStack t') \<subseteq> insert (insertCursor t) (set (cursorStack t)) \<Longrightarrow> trie_ok t'"
  by (auto simp: trie_ok_def extends_def)

lemma relabel_ok:
  assumes "path_ok n p" "children m = children (node_at n p)" "IsEmpty (callback (node_at n p)) \<or> \<not> IsEmpty (callback m)"
  shows "pats (put_at n p m) = pats n \<union> (if IsEmpty (callback m) then {} else {pattern_at n p})" "extends n (put_at n p m)"
proof -
  have "pats m = pats (node_at n p) \<union> (if IsEmpty (callback m) then {} else {[]})"
    using assms(2,3) by (auto simp: pats_eq[of m] pats_eq[of "node_at n p"])
  from put_at_ok[OF assms(1) this] show "pats (put_at n p m) = pats n \<union> (if IsEmpty (callback m) then {} else {pattern_at n p})" by auto
  have "path_ok m q = path_ok (node_at n p) q \<and> pattern_at m q = pattern_at (node_at n p) q" for q
    using assms(2) by (cases q) simp_all
  then have "extends (node_at n p) m" by (simp add: extends_def)
  then show "extends n (put_at n p m)" by (rule put_at_extends[OF assms(1)])
qed

lemma TrieInsert_ok:
  assumes ok: "trie_ok t" and h: "\<not> IsEmpty h" and i: "TrieInsert route h t = Inr (p, t')"
  shows "pats (root t') = insert (full_pattern t route) (pats (root t))" "path_ok (root t') p"
    "extends (root t) (root t')" "insertCursor t' = insertCursor t" "cursorStack t' = cursorStack t"
    "callback (node_at (root t') p) = h" "pattern_at (root t') p = full_pattern t route"
proof -
  obtain t1 where t1: "InsertRoute route t = Inr (p, t1)"
    "t' = t1\<lparr>root := put_at (root t1) p (set_callback h (node_at (root t1) p))\<rparr>"
    using i by (auto simp: TrieInsert_def map_sum_Inr)
  note I = InsertRoute_ok[OF ok t1(1)]
  have R: "pats (root t') = pats (root t1) \<union> {pattern_at (root t1) p}" "extends (root t1) (root t')"
    using relabel_ok[OF I(2), of "set_callback h (node_at (root t1) p)"] h by (simp_all add: t1(2) set_callback_def)
  show "pats (root t') = insert (full_pattern t route) (pats (root t))" using R(1) I(1,3) by simp
  show "path_ok (root t') p" "pattern_at (root t') p = full_pattern t route"
    using R(2) I(2,3) by (simp_all add: extends_def)
  show "extends (root t) (root t')" using I(4) R(2) by (rule extends_trans)
  show "callback (node_at (root t') p) = h" using put_at_path(2)[OF I(2), of _ "[]"] by (simp add: t1(2) set_callback_def)
  show "insertCursor t' = insertCursor t" "cursorStack t' = cursorStack t" using I(5,6) by (simp_all add: t1(2))
qed

section \<open>Joined paths\<close>

lemma first_rest_sep:
  "CHR ''/'' \<notin> set a \<Longrightarrow> first_seg (a @ CHR ''/'' # x) = a" "CHR ''/'' \<notin> set a \<Longrightarrow> rest_segs (a @ CHR ''/'' # x) = x"
  "CHR ''/'' \<notin> set a \<Longrightarrow> first_seg a = a" "CHR ''/'' \<notin> set a \<Longrightarrow> rest_segs a = []"
  by (simp_all add: first_seg_def rest_segs_def sv_find_append sv_find_None[THEN iffD2])

lemma route_pattern_append:
  "route_pattern (b @ CHR ''/'' # x) = map seg_pattern (segments (CHR ''/'') b) @ route_pattern x"
proof (induction "length b" arbitrary: b rule: less_induct)
  case less
  show ?case
  proof (cases "CHR ''/'' \<in> set b")
    case False
    then show ?thesis
      by (subst route_pattern.simps) (simp add: first_rest_sep segments_no_sep)
  next
    case True
    then obtain a c where b: "b = a @ CHR ''/'' # c" "CHR ''/'' \<notin> set a" by (metis split_list_first)
    then show ?thesis
      using less[of c] by (subst route_pattern.simps) (simp add: first_rest_sep segments_append_sep)
  qed
qed

lemma route_pattern_segments:
  "b \<noteq> [] \<Longrightarrow> List.last b \<noteq> CHR ''/'' \<Longrightarrow> route_pattern b = map seg_pattern (segments (CHR ''/'') b)"
proof (induction "length b" arbitrary: b rule: less_induct)
  case less
  show ?case
  proof (cases "CHR ''/'' \<in> set b")
    case False
    then show ?thesis
      using less.prems by (subst route_pattern.simps) (simp add: first_rest_sep segments_no_sep route_pattern.simps[of "[]"])
  next
    case True
    then obtain a c where b: "b = a @ CHR ''/'' # c" "CHR ''/'' \<notin> set a" by (metis split_list_first)
    have "c \<noteq> []" "List.last c \<noteq> CHR ''/''" using less.prems b by (auto split: if_splits)
    then show ?thesis
      using b less.hyps[of c] by (subst route_pattern.simps) (simp add: first_rest_sep segments_append_sep)
  qed
qed

definition rooted :: "string \<Rightarrow> bool" where
  "rooted acc \<longleftrightarrow> acc = [] \<or> hd acc = CHR ''/''"

lemma JoinPath_eq:
  "seg \<noteq> [] \<Longrightarrow> JoinPath acc seg =
     (if acc \<noteq> [] \<and> List.last acc = CHR ''/'' then butlast acc else acc) @ CHR ''/'' # StripRoute seg"
  by (cases seg) (auto simp: JoinPath_def StripRoute_def Let_def)

lemma JoinPath_prefix:
  assumes "seg \<noteq> []"
  shows "take (length acc) (JoinPath acc seg) = acc" "length acc \<le> length (JoinPath acc seg)"
    "rooted acc \<Longrightarrow> rooted (JoinPath acc seg)"
proof -
  note tl = JoinPath_eq[OF assms, of acc]
  have pre: "\<exists>zs. JoinPath acc seg = acc @ zs"
  proof (cases "acc \<noteq> [] \<and> List.last acc = CHR ''/''")
    case True
    then have "butlast acc @ [CHR ''/''] = acc" using append_butlast_last_id[of acc] by simp
    then have "butlast acc @ CHR ''/'' # StripRoute seg = acc @ StripRoute seg" by (metis append.assoc append_Cons append_Nil)
    then show ?thesis using True unfolding tl by (simp only: if_True simp_thms) blast
  next
    case False
    then show ?thesis unfolding tl by (simp only: if_False) blast
  qed
  then show "take (length acc) (JoinPath acc seg) = acc" "length acc \<le> length (JoinPath acc seg)" by auto
  show "rooted acc \<Longrightarrow> rooted (JoinPath acc seg)" 
  proof -
    assume r: "rooted acc"
    show ?thesis
    proof (cases "acc = []")
      case True
      then show ?thesis unfolding rooted_def tl by simp
    next
      case False
      then show ?thesis using pre r by (auto simp: rooted_def)
    qed
  qed
qed

lemma route_pattern_JoinPath:
  assumes "rooted acc" "seg \<noteq> []"
  shows "route_pattern (StripRoute (JoinPath acc seg)) = route_pattern (StripRoute acc) @ route_pattern (StripRoute seg)"
proof -
  let ?acc1 = "if acc \<noteq> [] \<and> List.last acc = CHR ''/'' then butlast acc else acc"
  have J: "JoinPath acc seg = ?acc1 @ CHR ''/'' # StripRoute seg"
    by (rule JoinPath_eq[OF assms(2)])
  have nil: "route_pattern [] = []" by (simp add: route_pattern.simps)
  show ?thesis
  proof (cases "?acc1 = []")
    case True
    then have "acc = [] \<or> acc = [CHR ''/'']" by (cases acc rule: rev_cases) (auto split: if_splits)
    then have "StripRoute acc = []" by (auto simp: StripRoute_def)
    then show ?thesis unfolding J True nil by (simp add: StripRoute_def[of "CHR ''/'' # _"] nil)
  next
    case False
    have "hd ?acc1 = CHR ''/''"
      using assms(1) False by (cases acc) (auto simp: rooted_def split: if_splits)
    then obtain body where b: "?acc1 = CHR ''/'' # body" using False by (cases ?acc1) auto
    have "route_pattern (StripRoute acc) = map seg_pattern (segments (CHR ''/'') body)"
    proof (cases "acc \<noteq> [] \<and> List.last acc = CHR ''/''")
      case True
      then have "acc = CHR ''/'' # body @ [CHR ''/'']" using b by (metis append_Cons append_butlast_last_id)
      then show ?thesis using route_pattern_append[of body "[]"] by (simp add: StripRoute_def nil)
    next
      case F: False
      then have "acc = CHR ''/'' # body" "body \<noteq> []" "List.last body \<noteq> CHR ''/''" using b by (auto split: if_splits)
      then show ?thesis using route_pattern_segments[of body] by (simp add: StripRoute_def)
    qed
    then show ?thesis unfolding J b by (simp add: StripRoute_def[of "CHR ''/'' # _"] route_pattern_append)
  qed
qed

section \<open>Counting nodes\<close>

text \<open>What a measure of the labels of a node gives, summed over a trie.\<close>

fun gather :: "('cb RouteCallback \<Rightarrow> u16 \<Rightarrow> 'x multiset) \<Rightarrow> 'cb TrieNode \<Rightarrow> 'x multiset"
  and gather_children :: "('cb RouteCallback \<Rightarrow> u16 \<Rightarrow> 'x multiset) \<Rightarrow> 'cb RouteSegment list \<Rightarrow> 'x multiset" where
  "gather g (TrieNode cs cb mi) = g cb mi + gather_children g cs"
| "gather_children g [] = {#}"
| "gather_children g (RouteSegment v n # cs) = gather g n + gather_children g cs"

abbreviation label :: "('cb RouteCallback \<Rightarrow> u16 \<Rightarrow> 'x multiset) \<Rightarrow> 'cb TrieNode \<Rightarrow> 'x multiset" where
  "label g n \<equiv> g (callback n) (metricsIdx n)"

lemma gather_children_append [simp]: "gather_children g (xs @ ys) = gather_children g xs + gather_children g ys"
proof (induction xs)
  case (Cons c cs)
  then show ?case by (cases c) simp
qed simp

lemma gather_eq: "gather g n = label g n + gather_children g (children n)"
  by (cases n) simp

lemma gather_add_child: "gather g (add_child v c n) = gather g n + gather g c"
  by (simp add: add_child_def gather_eq[of g n])

lemma gather_set_child:
  assumes "i < length (children n)"
  shows "gather g (set_child i c n) + gather g (GetChild (children n ! i)) = gather g n + gather g c"
proof -
  have "gather_children g (children n) = gather_children g (take i (children n)) + gather g (GetChild (children n ! i))
      + gather_children g (drop (Suc i) (children n))"
  proof -
    have "gather_children g (children n) = gather_children g (take i (children n) @ children n ! i # drop (Suc i) (children n))"
      by (simp only: id_take_nth_drop[OF assms, symmetric])
    then show ?thesis by (cases "children n ! i") (simp add: add.assoc)
  qed
  then show ?thesis
    by (simp add: set_child_def list_update_take_drop[OF assms] gather_eq[of g n] ac_simps)
qed

lemma exchange:
  fixes a b c d e x :: "'a multiset"
  assumes "a + b = c + d" "x + c = e + a"
  shows "x + b = e + d"
proof -
  have "x + b + c = (x + c) + b" by (simp only: ac_simps)
  also have "\<dots> = e + (a + b)" unfolding assms(2) by (simp only: ac_simps)
  also have "\<dots> = e + d + c" unfolding assms(1) by (simp only: ac_simps)
  finally show ?thesis by simp
qed

lemma gather_put_at: "path_ok n p \<Longrightarrow> gather g (put_at n p m) + gather g (node_at n p) = gather g n + gather g m"
proof (induction n p m rule: put_at.induct)
  case (2 n i p m)
  let ?o = "GetChild (children n ! i)"
  have "gather g (put_at ?o p m) + gather g (node_at ?o p) = gather g ?o + gather g m" using 2 by simp
  moreover have "gather g (set_child i (put_at ?o p m) n) + gather g ?o = gather g n + gather g (put_at ?o p m)"
    using gather_set_child[of i n g] 2(2) by simp
  ultimately show ?case by (simp only: put_at.simps node_at.simps) (rule exchange)
qed simp

lemma gather_relabel:
  assumes "path_ok n p" "children m = children (node_at n p)"
  shows "gather g (put_at n p m) + label g (node_at n p) = gather g n + label g m"
  using gather_put_at[OF assms(1), of g m] assms(2) by (simp add: gather_eq[of g m] gather_eq[of g "node_at n p"] ac_simps)

lemma insert_below_gather:
  assumes "insert_below n route = Inr (n', p)" "g (SyncCb None) METRICS_IDX_UNASSIGNED = {#}"
  shows "gather g n' = gather g n"
  using assms(1)
proof (induction rule: insert_below_induct)
  case (add n route c q)
  then show ?case using assms(2) by (simp add: gather_add_child new_node_def)
next
  case (into n route i c q)
  then show ?case using gather_set_child[of i n g c] by simp
qed simp

lemma InsertRoute_gather:
  assumes "trie_ok t" "InsertRoute route t = Inr (p, t')" "g (SyncCb None) METRICS_IDX_UNASSIGNED = {#}"
  shows "gather g (root t') = gather g (root t)"
proof -
  obtain n q where n: "insert_below (node_at (root t) (insertCursor t)) (StripRoute route) = Inr (n, q)"
    "t' = t\<lparr>root := put_at (root t) (insertCursor t) n\<rparr>"
    using assms(2) by (auto simp: InsertRoute_def split: sum.splits)
  have "path_ok (root t) (insertCursor t)" using assms(1) by (simp add: trie_ok_def)
  from gather_put_at[OF this, where g = g and m = n] insert_below_gather[where g = g, OF n(1) assms(3)] show ?thesis by (simp add: n(2))
qed

lemma label_in_gather:
  "(q, m) \<in> set (routes n) \<Longrightarrow> label g m \<subseteq># gather g n"
  "(q, m) \<in> set (child_routes cs) \<Longrightarrow> label g m \<subseteq># gather_children g cs"
proof (induction n and cs arbitrary: q and q rule: routes_child_routes.induct)
  case (3 v n cs)
  then show ?case by (auto intro: subset_mset.add_increasing subset_mset.add_increasing2)
qed (auto split: if_splits intro: subset_mset.add_increasing)

end
