(* ===== verification/RouterProofs.thy ===== *)
theory RouterProofs
  imports RouteProofs
begin

text \<open>
  The router over its seven tries: what a history of registrations and groups leaves behind. A route
  answers exactly under the pattern of its full path, and the metric indices number the registered nodes.
\<close>

section \<open>Registration histories\<close>

datatype 'cb router_op = OpRegister HttpMethod string "'cb RouteCallback" | OpPushGroup string | OpPopGroup

fun run_op :: "u16 \<Rightarrow> 'cb router_op \<Rightarrow> 'cb router \<Rightarrow> fatal + 'cb router" where
  "run_op mx (OpRegister m path h) r = map_sum id snd (RegisterRoute mx m path h r)"
| "run_op mx (OpPushGroup p) r = PushRouteGroup p r"
| "run_op mx OpPopGroup r = PopRouteGroup r"

fun run_ops :: "u16 \<Rightarrow> 'cb router_op list \<Rightarrow> 'cb router \<Rightarrow> fatal + 'cb router" where
  "run_ops mx [] r = Inr r"
| "run_ops mx (op # ops) r = (case run_op mx op r of Inl e \<Rightarrow> Inl e | Inr r' \<Rightarrow> run_ops mx ops r')"

fun named_group :: "'cb router_op \<Rightarrow> bool" where
  "named_group (OpPushGroup p) \<longleftrightarrow> p \<noteq> []"
| "named_group _ \<longleftrightarrow> True"

section \<open>The invariant\<close>

abbreviation ids_of :: "'cb TrieNode \<Rightarrow> u16 multiset" where
  "ids_of \<equiv> gather (\<lambda>_ mi. if mi = METRICS_IDX_UNASSIGNED then {#} else {#mi#})"

text \<open>Nodes that answer but have no index.\<close>

abbreviation unnumbered :: "'cb TrieNode \<Rightarrow> u16 multiset" where
  "unnumbered \<equiv> gather (\<lambda>cb mi. if \<not> IsEmpty cb \<and> mi = METRICS_IDX_UNASSIGNED then {#mi#} else {#})"

abbreviation path_pattern :: "string \<Rightarrow> SegmentVariant list" where
  "path_pattern s \<equiv> route_pattern (StripRoute s)"

text \<open>The open groups: the lengths on the stack cut the prefix back to those of the outer groups, and the
  cursors of the trie stand where those prefixes lead.\<close>

definition groups_ok :: "string \<Rightarrow> nat list \<Rightarrow> 'cb route_trie \<Rightarrow> bool" where
  "groups_ok gp lens t \<longleftrightarrow> rooted gp \<and> pattern_at (root t) (insertCursor t) = path_pattern gp \<and>
     sorted lens \<and> (\<forall>l \<in> set lens. l \<le> length gp) \<and> length (cursorStack t) = length lens \<and>
     (\<forall>k < length lens. pattern_at (root t) (cursorStack t ! k) = path_pattern (take (lens ! k) gp))"

definition router_ok :: "'cb router \<Rightarrow> bool" where
  "router_ok r \<longleftrightarrow> length (routesByMethod r) = 7 \<and> length (identities r) \<le> 65535 \<and>
     (\<forall>t \<in> set (routesByMethod r). trie_ok t \<and> unnumbered (root t) = {#}) \<and>
     (\<Sum>t \<leftarrow> routesByMethod r. ids_of (root t)) = mset (map of_nat [0..<length (identities r)]) \<and>
     (\<forall>i < 7. \<forall>k \<in># ids_of (root (routesByMethod r ! i)).
        unat k < length (identities r) \<and> method_idx (ri_method (identities r ! unat k)) = i)"

definition router_groups_ok :: "'cb router \<Rightarrow> bool" where
  "router_groups_ok r \<longleftrightarrow> (\<forall>t \<in> set (routesByMethod r). groups_ok (groupPrefix r) (groupLenStack r) t)"

lemma new_router_ok: "router_ok (new_router :: 'cb router)" "router_groups_ok (new_router :: 'cb router)"
proof -
  have r: "root (new_trie :: 'cb route_trie) = TrieNode [] (SyncCb None) METRICS_IDX_UNASSIGNED"
    "trie_ok (new_trie :: 'cb route_trie)" by (simp_all add: new_trie_def new_node_def trie_ok_def)
  have "(\<Sum>t \<leftarrow> replicate n (new_trie :: 'cb route_trie). ids_of (root t)) = {#}" for n by (induction n) (simp_all add: r)
  then show "router_ok (new_router :: 'cb router)"
    by (simp add: router_ok_def new_router_def ROUTABLE_METHOD_COUNT_def r)
  show "router_groups_ok (new_router :: 'cb router)"
    by (auto simp: router_groups_ok_def new_router_def new_trie_def groups_ok_def rooted_def StripRoute_def route_pattern.simps)
qed

text \<open>Operations on a trie keep the invariants that speak of one trie.\<close>

lemma groups_ok_extends:
  assumes "groups_ok gp lens t" "trie_ok t" "extends (root t) (root t')" "insertCursor t' = insertCursor t" "cursorStack t' = cursorStack t"
  shows "groups_ok gp lens t'"
proof -
  have "pattern_at (root t') p = pattern_at (root t) p" if "path_ok (root t) p" for p
    using assms(3) that by (simp add: extends_def)
  then show ?thesis using assms by (auto simp: groups_ok_def trie_ok_def)
qed

lemma PushGroup_ok:
  assumes t: "trie_ok t" and i: "PushGroup p t = Inr t'"
    and g: "g (SyncCb None) METRICS_IDX_UNASSIGNED = {#}"
  shows "trie_ok t'" "pats (root t') = pats (root t)" "gather g (root t') = gather g (root t)"
    "p \<noteq> [] \<Longrightarrow> groups_ok gp lens t \<Longrightarrow> groups_ok (JoinPath gp p) (lens @ [length gp]) t'"
proof -
  let ?t1 = "t\<lparr>cursorStack := cursorStack t @ [insertCursor t]\<rparr>"
  obtain q t2 where q: "InsertRoute p ?t1 = Inr (q, t2)" "t' = t2\<lparr>insertCursor := q\<rparr>"
    using i by (auto simp: PushGroup_def Let_def map_sum_Inr)
  have t1: "trie_ok ?t1" using t by (auto simp: trie_ok_def)
  note I = InsertRoute_ok[OF t1 q(1)]
  show "trie_ok t'" using t I(2,4,5,6) by (auto simp: trie_ok_def q(2) extends_def)
  show "pats (root t') = pats (root t)" using I(1) by (simp add: q(2))
  show "gather g (root t') = gather g (root t)" using InsertRoute_gather[where g = g, OF t1 q(1) g] by (simp add: q(2))
  have same: "pattern_at (root t2) c = pattern_at (root t) c" if "path_ok (root t) c" for c
    using I(4) that by (simp add: extends_def)
  assume p: "p \<noteq> []" and gs: "groups_ok gp lens t"
  note J = JoinPath_prefix[OF p, of gp]
  have G: "rooted gp" "sorted lens" "\<And>l. l \<in> set lens \<Longrightarrow> l \<le> length gp" "length (cursorStack t) = length lens"
    "pattern_at (root t) (insertCursor t) = path_pattern gp"
    "\<And>k. k < length lens \<Longrightarrow> pattern_at (root t) (cursorStack t ! k) = path_pattern (take (lens ! k) gp)"
    using gs by (auto simp: groups_ok_def)
  have tk: "take l (JoinPath gp p) = take l gp" if "l \<le> length gp" for l
    using J(1) that by (metis min.absorb1 take_take)
  show "groups_ok (JoinPath gp p) (lens @ [length gp]) t'"
    unfolding groups_ok_def
  proof (intro conjI ballI allI impI)
    show "rooted (JoinPath gp p)" using J(3) G(1) by simp
    show "pattern_at (root t') (insertCursor t') = path_pattern (JoinPath gp p)"
      using I(3) by (simp add: q(2) full_pattern_def G(5) route_pattern_JoinPath[OF G(1) p])
    show "sorted (lens @ [length gp])" using G(2,3) by (simp add: sorted_append)
    show "length (cursorStack t') = length (lens @ [length gp])" using I(6) G(4) by (simp add: q(2))
  next
    fix l assume "l \<in> set (lens @ [length gp])"
    then show "l \<le> length (JoinPath gp p)" using J(2) G(3)[of l] by auto
  next
    fix k assume k: "k < length (lens @ [length gp])"
    show "pattern_at (root t') (cursorStack t' ! k) = path_pattern (take ((lens @ [length gp]) ! k) (JoinPath gp p))"
    proof (cases "k < length lens")
      case True
      then have "path_ok (root t) (cursorStack t ! k)" using t G(4) by (simp add: trie_ok_def)
      then show ?thesis using True I(6) G(3,4,6) by (simp add: q(2) nth_append same tk)
    next
      case False
      then have "k = length lens" using k by simp
      then show ?thesis using I(6) G(4,5) t J(1) by (simp add: q(2) nth_append same trie_ok_def)
    qed
  qed
qed

lemma PopGroup_ok:
  assumes t: "trie_ok t" and i: "PopGroup t = Inr t'"
  shows "trie_ok t'" "root t' = root t"
    "lens \<noteq> [] \<Longrightarrow> groups_ok gp lens t \<Longrightarrow> groups_ok (str_resize (List.last lens) gp) (butlast lens) t'"
proof -
  have cs: "cursorStack t \<noteq> []" and t': "t' = t\<lparr>insertCursor := List.last (cursorStack t), cursorStack := butlast (cursorStack t)\<rparr>"
    using i by (auto simp: PopGroup_def split: if_splits)
  show "root t' = root t" by (simp add: t')
  show "trie_ok t'" using t cs by (auto simp: trie_ok_def t' dest: in_set_butlastD)
  assume l: "lens \<noteq> []" and gs: "groups_ok gp lens t"
  have G: "rooted gp" "sorted lens" "\<And>l. l \<in> set lens \<Longrightarrow> l \<le> length gp" "length (cursorStack t) = length lens"
    "\<And>k. k < length lens \<Longrightarrow> pattern_at (root t) (cursorStack t ! k) = path_pattern (take (lens ! k) gp)"
    using gs by (auto simp: groups_ok_def)
  have ll: "List.last lens \<le> length gp" using G(3) l by simp
  then have rs: "str_resize (List.last lens) gp = take (List.last lens) gp" by (simp add: str_resize_def)
  have le: "x \<le> List.last lens" if "x \<in> set (butlast lens)" for x
    using G(2) l that by (metis append_butlast_last_id list.set_intros(1) sorted_append)
  show "groups_ok (str_resize (List.last lens) gp) (butlast lens) t'"
    unfolding groups_ok_def rs
  proof (intro conjI ballI allI impI)
    show "rooted (take (List.last lens) gp)" using G(1) by (cases gp) (auto simp: rooted_def take_Cons split: nat.splits)
    show "pattern_at (root t') (insertCursor t') = path_pattern (take (List.last lens) gp)"
      using G(4) G(5)[of "length lens - 1"] l cs by (simp add: t' last_conv_nth)
    show "sorted (butlast lens)" using G(2) by (simp add: sorted_butlast)
    show "length (cursorStack t') = length (butlast lens)" using G(4) by (simp add: t')
  next
    fix x assume "x \<in> set (butlast lens)"
    then show "x \<le> length (take (List.last lens) gp)" using le ll by simp
  next
    fix k assume k: "k < length (butlast lens)"
    then have "butlast lens ! k \<le> List.last lens" by (intro le) simp
    then show "pattern_at (root t') (cursorStack t' ! k) = path_pattern (take (butlast lens ! k) (take (List.last lens) gp))"
      using k G(4) G(5)[of k] by (simp add: t' nth_butlast min_absorb1)
  qed
qed

section \<open>Registration\<close>

lemma label_at: "path_ok n p \<Longrightarrow> label g (node_at n p) \<subseteq># gather g n"
proof (induction n p rule: node_at.induct)
  case (1 n)
  then show ?case by (simp add: gather_eq[of g n])
next
  case (2 n i p)
  then have "label g (node_at (GetChild (children n ! i)) p) \<subseteq># gather g (GetChild (children n ! i))" by simp
  also have "\<dots> \<subseteq># gather_children g (children n)"
  proof -
    have i: "i < length (children n)" using 2(2) by simp
    have "gather_children g (children n) = gather_children g (take i (children n) @ children n ! i # drop (Suc i) (children n))"
      by (simp only: id_take_nth_drop[OF i, symmetric])
    then show ?thesis by (cases "children n ! i") (simp add: subset_mset.add_increasing)
  qed
  also have "\<dots> \<subseteq># gather g n" by (simp add: gather_eq[of g n])
  finally show ?case by simp
qed

lemma sum_list_update_mset:
  fixes f :: "'a \<Rightarrow> 'b multiset"
  assumes "i < length ts"
  shows "(\<Sum>t \<leftarrow> ts[i := t']. f t) + f (ts ! i) = (\<Sum>t \<leftarrow> ts. f t) + f t'"
proof -
  have "(\<Sum>t \<leftarrow> ts. f t) = (\<Sum>t \<leftarrow> take i ts @ ts ! i # drop (Suc i) ts. f t)" by (simp only: id_take_nth_drop[OF assms, symmetric])
  then show ?thesis by (simp add: list_update_take_drop[OF assms] ac_simps)
qed

lemma relabel_trie:
  assumes ok: "trie_ok t" and p: "path_ok (root t) p" and c: "children m = children (node_at (root t) p)"
  defines "t' \<equiv> t\<lparr>root := put_at (root t) p m\<rparr>"
  shows "trie_ok t'" "extends (root t) (root t')" "path_ok (root t') p" "node_at (root t') p = m"
    "gather g (root t') + label g (node_at (root t) p) = gather g (root t) + label g m"
proof -
  have "path_ok m q = path_ok (node_at (root t) p) q \<and> pattern_at m q = pattern_at (node_at (root t) p) q" for q
    using c by (cases q) simp_all
  then have "extends (node_at (root t) p) m" by (simp add: extends_def)
  then show e: "extends (root t) (root t')" unfolding t'_def by (simp add: put_at_extends[OF p])
  show "trie_ok t'" by (rule trie_ok_extends[OF ok e]) (use ok e in \<open>auto simp: t'_def trie_ok_def extends_def\<close>)
  show "path_ok (root t') p" using e p by (simp add: extends_def)
  show "node_at (root t') p = m" using put_at_path(2)[OF p, of m "[]"] by (simp add: t'_def)
  show "gather g (root t') + label g (node_at (root t) p) = gather g (root t) + label g m"
    unfolding t'_def by (simp add: gather_relabel[OF p c])
qed

lemma TrieInsert_numbers:
  assumes ok: "trie_ok t" and un: "unnumbered (root t) = {#}" and i: "TrieInsert route h t = Inr (p, t')"
  shows "trie_ok t'" "path_ok (root t') p" "extends (root t) (root t')" "insertCursor t' = insertCursor t"
    "cursorStack t' = cursorStack t" "ids_of (root t') = ids_of (root t)"
    "unnumbered (root t') = label (\<lambda>cb mi. if \<not> IsEmpty cb \<and> mi = METRICS_IDX_UNASSIGNED then {#mi#} else {#}) (node_at (root t') p)"
proof -
  obtain t1 where t1: "InsertRoute route t = Inr (p, t1)"
    "t' = t1\<lparr>root := put_at (root t1) p (set_callback h (node_at (root t1) p))\<rparr>"
    using i by (auto simp: TrieInsert_def map_sum_Inr)
  note I = InsertRoute_ok[OF ok t1(1)]
  have ok1: "trie_ok t1"
    by (rule trie_ok_extends[OF ok I(4)]) (use ok I in \<open>auto simp: trie_ok_def extends_def\<close>)
  note R = relabel_trie[OF ok1 I(2), of "set_callback h (node_at (root t1) p)", folded t1(2)]
  have c: "children (set_callback h (node_at (root t1) p)) = children (node_at (root t1) p)"
    "metricsIdx (set_callback h (node_at (root t1) p)) = metricsIdx (node_at (root t1) p)" by (simp_all add: set_callback_def)
  show "trie_ok t'" "path_ok (root t') p" using R(1,3)[OF c(1)] by simp_all
  show "extends (root t) (root t')" using I(4) R(2)[OF c(1)] by (rule extends_trans)
  show "insertCursor t' = insertCursor t" "cursorStack t' = cursorStack t" using I(5,6) by (simp_all add: t1(2))
  have "ids_of (root t1) = ids_of (root t)" by (rule InsertRoute_gather[OF ok t1(1)]) simp
  then show "ids_of (root t') = ids_of (root t)"
    using R(5)[OF c(1), of "\<lambda>_ mi. if mi = METRICS_IDX_UNASSIGNED then {#} else {#mi#}"]
    unfolding c(2) by simp
  let ?g = "\<lambda>cb mi. if \<not> IsEmpty cb \<and> mi = METRICS_IDX_UNASSIGNED then {#mi#} else {#}"
  have u1: "unnumbered (root t1) = {#}" using InsertRoute_gather[where g = ?g, OF ok t1(1)] un by simp
  have "label ?g (node_at (root t1) p) \<subseteq># unnumbered (root t1)" by (rule label_at[OF I(2)])
  then have "label ?g (node_at (root t1) p) = {#}" unfolding u1 by simp
  then show "unnumbered (root t') = label ?g (node_at (root t') p)"
    using R(5)[OF c(1), of ?g] R(4)[OF c(1)] u1 by simp
qed

lemma pats_in_node: "path_ok n p \<Longrightarrow> \<not> IsEmpty (callback (node_at n p)) \<Longrightarrow> pattern_at n p \<in> pats n"
proof (induction n p rule: node_at.induct)
  case (2 n i p)
  then have "pattern_at (GetChild (children n ! i)) p \<in> pats (GetChild (children n ! i))" "children n ! i \<in> set (children n)" by auto
  then show ?case by (subst pats_eq) auto
next
  case (1 n)
  then show ?case by (subst pats_eq) simp
qed

lemma unat_65535_u16: "unat (0xFFFF :: u16) = 65535"
  by simp

text \<open>What \<open>RegisterRoute\<close> does, with the trie it works on before and after.\<close>

lemma RegisterRoute_elim:
  assumes ok: "router_ok r" and i: "RegisterRoute mx m path h r = Inr (p, r')"
  obtains t t1 t' where "method_idx m < 7" "path \<noteq> []" "t = routesByMethod r ! method_idx m" "t \<in> set (routesByMethod r)"
    "TrieInsert path h t = Inr (p, t1)" "routesByMethod r' = (routesByMethod r)[method_idx m := t']"
    "groupPrefix r' = groupPrefix r" "groupLenStack r' = groupLenStack r" "insertCursor t' = insertCursor t" "cursorStack t' = cursorStack t"
    "trie_ok t'" "extends (root t) (root t')" "unnumbered (root t') = {#}" "extends (root t1) (root t')"
    "pats (root t') = pats (root t1)" "callback (node_at (root t') p) = callback (node_at (root t1) p)"
    "(identities r' = identities r \<and> ids_of (root t') = ids_of (root t)) \<or>
     (length (identities r) < unat mx \<and> ids_of (root t') = add_mset (of_nat (length (identities r))) (ids_of (root t)) \<and>
      identities r' = identities r @ [\<lparr>ri_path = JoinPath (groupPrefix r) path, ri_method = m\<rparr>])"
proof -
  have m: "method_idx m < 7" "path \<noteq> []" using i by (auto simp: RegisterRoute_def ROUTABLE_METHOD_COUNT_def split: if_splits)
  let ?t = "routesByMethod r ! method_idx m"
  have len: "length (routesByMethod r) = 7" using ok by (simp add: router_ok_def)
  then have tin: "?t \<in> set (routesByMethod r)" using m by simp
  then have t: "trie_ok ?t" "unnumbered (root ?t) = {#}" using ok by (auto simp: router_ok_def)
  obtain t1 where t1: "TrieInsert path h ?t = Inr (p, t1)"
    using i by (auto simp: RegisterRoute_def Let_def split: if_splits sum.splits)
  note N = TrieInsert_numbers[OF t t1]
  let ?n = "node_at (root t1) p"
  show ?thesis
  proof (cases "metricsIdx ?n = METRICS_IDX_UNASSIGNED")
    case False
    then have r': "r' = r\<lparr>routesByMethod := (routesByMethod r)[method_idx m := t1]\<rparr>"
      using i t1 m by (simp add: RegisterRoute_def Let_def ROUTABLE_METHOD_COUNT_def split: if_splits)
    show ?thesis
      by (rule that[OF m refl tin t1, of t1]) (use False N in \<open>simp_all add: r' extends_refl\<close>)
  next
    case True
    let ?m = "set_metrics (of_nat (length (identities r))) ?n"
    let ?t' = "t1\<lparr>root := put_at (root t1) p ?m\<rparr>"
    have lt: "length (identities r) < unat mx"
      and r': "r' = r\<lparr>routesByMethod := (routesByMethod r)[method_idx m := ?t'],
        identities := identities r @ [\<lparr>ri_path = JoinPath (groupPrefix r) path, ri_method = m\<rparr>]\<rparr>"
      using i t1 m True by (auto simp: RegisterRoute_def Let_def ROUTABLE_METHOD_COUNT_def split: if_splits)
    have c: "children ?m = children ?n" "callback ?m = callback ?n" by (simp_all add: set_metrics_def)
    note R = relabel_trie[OF N(1,2) c(1)]
    have "length (identities r) < 65535" using lt unat_u16_lt[of mx] by simp
    then have "unat (of_nat (length (identities r)) :: u16) = length (identities r)"
      by (simp add: unat_of_nat take_bit_nat_eq_self)
    then have num: "(of_nat (length (identities r)) :: u16) \<noteq> METRICS_IDX_UNASSIGNED"
      using \<open>length (identities r) < 65535\<close> unat_65535_u16 unfolding METRICS_IDX_UNASSIGNED_def by fastforce
    have mm: "metricsIdx ?m = of_nat (length (identities r))" by (simp add: set_metrics_def)
    show ?thesis
    proof (rule that[OF m refl tin t1, of ?t'])
      show "pats (root ?t') = pats (root t1)"
        using relabel_ok(1)[OF N(2), of ?m] c pats_in_node[OF N(2)] by auto
      show "callback (node_at (root ?t') p) = callback ?n" using R(4) c(2) by simp
      show "unnumbered (root ?t') = {#}"
        using R(5)[of "\<lambda>cb mi. if \<not> IsEmpty cb \<and> mi = METRICS_IDX_UNASSIGNED then {#mi#} else {#}"] N(7) num mm by simp
      show "(identities r' = identities r \<and> ids_of (root ?t') = ids_of (root ?t)) \<or>
       (length (identities r) < unat mx \<and> ids_of (root ?t') = add_mset (of_nat (length (identities r))) (ids_of (root ?t)) \<and>
        identities r' = identities r @ [\<lparr>ri_path = JoinPath (groupPrefix r) path, ri_method = m\<rparr>])"
        using R(5)[of "\<lambda>_ mi. if mi = METRICS_IDX_UNASSIGNED then {#} else {#mi#}"] N(6) num mm True lt by (simp add: r')
    qed (use N R in \<open>simp_all add: r' extends_trans[OF N(3)]\<close>)
  qed
qed

lemma method_idx_inj: "method_idx m = method_idx m' \<Longrightarrow> m = m'"
  by (cases m; cases m'; simp)

lemma RegisterRoute_ok:
  assumes ok: "router_ok r" and i: "RegisterRoute mx m path h r = Inr (p, r')"
  shows "router_ok r'" "router_groups_ok r \<Longrightarrow> router_groups_ok r'"
proof -
  obtain t t1 t' where R: "method_idx m < 7" "path \<noteq> []" "t = routesByMethod r ! method_idx m" "t \<in> set (routesByMethod r)"
    "TrieInsert path h t = Inr (p, t1)" "routesByMethod r' = (routesByMethod r)[method_idx m := t']"
    "groupPrefix r' = groupPrefix r" "groupLenStack r' = groupLenStack r" "insertCursor t' = insertCursor t" "cursorStack t' = cursorStack t"
    "trie_ok t'" "extends (root t) (root t')" "unnumbered (root t') = {#}" "extends (root t1) (root t')"
    "pats (root t') = pats (root t1)" "callback (node_at (root t') p) = callback (node_at (root t1) p)"
    "(identities r' = identities r \<and> ids_of (root t') = ids_of (root t)) \<or>
     (length (identities r) < unat mx \<and> ids_of (root t') = add_mset (of_nat (length (identities r))) (ids_of (root t)) \<and>
      identities r' = identities r @ [\<lparr>ri_path = JoinPath (groupPrefix r) path, ri_method = m\<rparr>])"
    by (rule RegisterRoute_elim[OF ok i], rule that)
  let ?i = "method_idx m"
  have O: "length (routesByMethod r) = 7" "length (identities r) \<le> 65535"
    "\<And>t. t \<in> set (routesByMethod r) \<Longrightarrow> trie_ok t \<and> unnumbered (root t) = {#}"
    "(\<Sum>t \<leftarrow> routesByMethod r. ids_of (root t)) = mset (map of_nat [0..<length (identities r)])"
    "\<And>i k. i < 7 \<Longrightarrow> k \<in># ids_of (root (routesByMethod r ! i)) \<Longrightarrow>
        unat k < length (identities r) \<and> method_idx (ri_method (identities r ! unat k)) = i"
    using ok by (auto simp: router_ok_def)
  have sub: "x \<in> set (routesByMethod r') \<Longrightarrow> x = t' \<or> x \<in> set (routesByMethod r)" for x
    using set_update_subset_insert[of "routesByMethod r" ?i t'] R(6) by auto
  have sum: "(\<Sum>t \<leftarrow> routesByMethod r'. ids_of (root t)) + ids_of (root t) = mset (map of_nat [0..<length (identities r)]) + ids_of (root t')"
    using sum_list_update_mset[of ?i "routesByMethod r" "\<lambda>t. ids_of (root t)" t'] O(1,4) R(1,3,6) by simp
  have at: "routesByMethod r' ! j = (if j = ?i then t' else routesByMethod r ! j)" if "j < 7" for j
    using that O(1) by (simp add: R(6))
  show "router_groups_ok r'" if "router_groups_ok r"
    unfolding router_groups_ok_def
  proof
    fix x assume "x \<in> set (routesByMethod r')"
    then consider "x = t'" | "x \<in> set (routesByMethod r)" using sub by blast
    then show "groups_ok (groupPrefix r') (groupLenStack r') x"
    proof cases
      case 1
      have "groups_ok (groupPrefix r) (groupLenStack r) t" using that R(4) by (simp add: router_groups_ok_def)
      from groups_ok_extends[OF this _ R(12,9,10)] O(3)[OF R(4)] show ?thesis by (simp add: 1 R(7,8))
    next
      case 2
      then show ?thesis using that by (simp add: router_groups_ok_def R(7,8))
    qed
  qed
  from R(17) show "router_ok r'"
  proof
    assume e: "identities r' = identities r \<and> ids_of (root t') = ids_of (root t)"
    then have "ids_of (root (routesByMethod r' ! j)) = ids_of (root (routesByMethod r ! j))" if "j < 7" for j
      using at[OF that] R(3) by simp
    moreover have "\<forall>t \<in> set (routesByMethod r'). trie_ok t \<and> unnumbered (root t) = {#}" using sub O(3) R(11,13) by blast
    moreover have "length (routesByMethod r') = 7" using O(1) by (simp add: R(6))
    moreover have "(\<Sum>t \<leftarrow> routesByMethod r'. ids_of (root t)) = mset (map of_nat [0..<length (identities r)])" using sum e by simp
    ultimately show ?thesis unfolding router_ok_def using e O(2,5) by simp
  next
    assume e: "length (identities r) < unat mx \<and> ids_of (root t') = add_mset (of_nat (length (identities r))) (ids_of (root t)) \<and>
      identities r' = identities r @ [\<lparr>ri_path = JoinPath (groupPrefix r) path, ri_method = m\<rparr>]"
    let ?n = "length (identities r)"
    have len: "length (identities r') = Suc ?n" using e by simp
    have lt: "?n < 65535" using e unat_u16_lt[of mx] by simp
    have ofn: "unat (of_nat ?n :: u16) = ?n" using lt by (simp add: unat_of_nat take_bit_nat_eq_self)
    have "(\<Sum>t \<leftarrow> routesByMethod r'. ids_of (root t)) + ids_of (root t) =
        mset (map of_nat [0..<Suc ?n]) + ids_of (root t)" using sum e by simp
    then have s: "(\<Sum>t \<leftarrow> routesByMethod r'. ids_of (root t)) = mset (map of_nat [0..<length (identities r')])"
      unfolding len by (rule add_right_imp_eq)
    have k: "unat k < length (identities r') \<and> method_idx (ri_method (identities r' ! unat k)) = j"
      if j: "j < 7" and k: "k \<in># ids_of (root (routesByMethod r' ! j))" for j k
    proof (cases "j = ?i \<and> k = of_nat ?n")
      case True
      then show ?thesis using e ofn by simp
    next
      case False
      then have "k \<in># ids_of (root (routesByMethod r ! j))" using k at[OF j] e R(3) by (auto split: if_splits)
      from O(5)[OF j this] show ?thesis using e by (simp add: nth_append)
    qed
    show ?thesis
      unfolding router_ok_def
    proof (intro conjI)
      show "length (routesByMethod r') = 7" using O(1) by (simp add: R(6))
      show "length (identities r') \<le> 65535" using len lt by simp
      show "\<forall>t \<in> set (routesByMethod r'). trie_ok t \<and> unnumbered (root t) = {#}" using sub O(3) R(11,13) by blast
    qed (use s k in blast)+
  qed
qed

lemma on_all_Inr: "on_all f ts = Inr ts' \<Longrightarrow> list_all2 (\<lambda>t t'. f t = Inr t') ts ts'"
  by (induction f ts arbitrary: ts' rule: on_all.induct) (auto simp: map_sum_Inr split: sum.splits)

lemma group_step_ok:
  assumes ok: "router_ok r" and l: "list_all2 (\<lambda>t t'. trie_ok t' \<and> unnumbered (root t') = unnumbered (root t) \<and> ids_of (root t') = ids_of (root t))
      (routesByMethod r) (routesByMethod r')" and e: "identities r' = identities r"
  shows "router_ok r'"
proof -
  have L: "length (routesByMethod r') = length (routesByMethod r)" using l by (simp add: list_all2_lengthD)
  have at: "trie_ok (routesByMethod r' ! i) \<and> unnumbered (root (routesByMethod r' ! i)) = unnumbered (root (routesByMethod r ! i)) \<and>
      ids_of (root (routesByMethod r' ! i)) = ids_of (root (routesByMethod r ! i))" if "i < length (routesByMethod r)" for i
    using list_all2_nthD[OF l that] .
  have "map (\<lambda>t. ids_of (root t)) (routesByMethod r') = map (\<lambda>t. ids_of (root t)) (routesByMethod r)"
    by (rule nth_equalityI) (use L at in simp_all)
  then show ?thesis using ok at L by (auto simp: router_ok_def e all_set_conv_all_nth)
qed

lemma PushGroup_step:
  assumes "trie_ok t" "PushGroup p t = Inr t'"
  shows "trie_ok t' \<and> unnumbered (root t') = unnumbered (root t) \<and> ids_of (root t') = ids_of (root t)"
    "p \<noteq> [] \<Longrightarrow> groups_ok gp lens t \<Longrightarrow> groups_ok (JoinPath gp p) (lens @ [length gp]) t'"
  using PushGroup_ok[OF assms, of "\<lambda>cb mi. if \<not> IsEmpty cb \<and> mi = METRICS_IDX_UNASSIGNED then {#mi#} else {#}"]
    PushGroup_ok[OF assms, of "\<lambda>_ mi. if mi = METRICS_IDX_UNASSIGNED then {#} else {#mi#}"] by auto

lemma list_all2_transfer:
  "list_all2 P xs ys \<Longrightarrow> (\<And>x y. x \<in> set xs \<Longrightarrow> P x y \<Longrightarrow> Q x y) \<Longrightarrow> list_all2 Q xs ys"
  by (auto simp: list_all2_conv_all_nth)

lemma list_all2_right:
  "list_all2 P xs ys \<Longrightarrow> (\<And>x y. x \<in> set xs \<Longrightarrow> P x y \<Longrightarrow> Q y) \<Longrightarrow> \<forall>y \<in> set ys. Q y"
  by (induction rule: list_all2_induct) auto

lemma run_op_ok:
  assumes ok: "router_ok r" and i: "run_op mx op r = Inr r'"
  shows "router_ok r'" "named_group op \<Longrightarrow> router_groups_ok r \<Longrightarrow> router_groups_ok r'"
proof -
  have T: "trie_ok t" if "t \<in> set (routesByMethod r)" for t using ok that by (simp add: router_ok_def)
  have "router_ok r' \<and> (named_group op \<longrightarrow> router_groups_ok r \<longrightarrow> router_groups_ok r')"
  proof (cases op)
    case (OpRegister m path h)
    then obtain p where "RegisterRoute mx m path h r = Inr (p, r')" using i by (auto simp: map_sum_Inr)
    then show ?thesis using RegisterRoute_ok[OF ok] by blast
  next
    case (OpPushGroup p)
    then obtain ts where ts: "on_all (PushGroup p) (routesByMethod r) = Inr ts"
      "r' = r\<lparr>groupLenStack := groupLenStack r @ [length (groupPrefix r)], groupPrefix := JoinPath (groupPrefix r) p, routesByMethod := ts\<rparr>"
      using i by (auto simp: PushRouteGroup_def Let_def map_sum_Inr)
    have l: "list_all2 (\<lambda>t t'. PushGroup p t = Inr t') (routesByMethod r) ts" by (rule on_all_Inr[OF ts(1)])
    have "router_ok r'"
      by (rule group_step_ok[OF ok]) (use list_all2_transfer[OF l PushGroup_step(1)[OF T]] in \<open>simp_all add: ts(2)\<close>)
    moreover have "router_groups_ok r'" if "p \<noteq> []" "router_groups_ok r"
      unfolding router_groups_ok_def ts(2)
    proof (simp, rule list_all2_right[OF l])
      fix t t' assume "t \<in> set (routesByMethod r)" "PushGroup p t = Inr t'"
      with PushGroup_step(2)[OF T _ that(1)] that(2)
      show "groups_ok (JoinPath (groupPrefix r) p) (groupLenStack r @ [length (groupPrefix r)]) t'"
        by (simp add: router_groups_ok_def)
    qed
    ultimately show ?thesis using OpPushGroup by simp
  next
    case OpPopGroup
    then obtain ts where ts: "on_all PopGroup (routesByMethod r) = Inr ts" "groupLenStack r \<noteq> []"
      "r' = r\<lparr>groupPrefix := str_resize (List.last (groupLenStack r)) (groupPrefix r), groupLenStack := butlast (groupLenStack r),
        routesByMethod := ts\<rparr>"
      using i by (auto simp: PopRouteGroup_def Let_def map_sum_Inr split: if_splits)
    have l: "list_all2 (\<lambda>t t'. PopGroup t = Inr t') (routesByMethod r) ts" by (rule on_all_Inr[OF ts(1)])
    have "router_ok r'"
    proof (rule group_step_ok[OF ok])
      show "list_all2 (\<lambda>t t'. trie_ok t' \<and> unnumbered (root t') = unnumbered (root t) \<and> ids_of (root t') = ids_of (root t))
          (routesByMethod r) (routesByMethod r')"
      proof (simp add: ts(3), rule list_all2_transfer[OF l])
        fix t t' :: "'a route_trie" assume a: "t \<in> set (routesByMethod r)" and b: "PopGroup t = Inr t'"
        show "trie_ok t' \<and> unnumbered (root t') = unnumbered (root t) \<and> ids_of (root t') = ids_of (root t)"
          using PopGroup_ok(1,2)[OF T[OF a] b] by simp
      qed
    qed (simp add: ts(3))
    moreover have "router_groups_ok r'" if "router_groups_ok r"
      unfolding router_groups_ok_def ts(3)
    proof (simp, rule list_all2_right[OF l])
      fix t t' assume "t \<in> set (routesByMethod r)" "PopGroup t = Inr t'"
      with PopGroup_ok(3)[OF T _ ts(2)] that
      show "groups_ok (str_resize (List.last (groupLenStack r)) (groupPrefix r)) (butlast (groupLenStack r)) t'"
        by (simp add: router_groups_ok_def)
    qed
    ultimately show ?thesis using OpPopGroup by simp
  qed
  then show "router_ok r'" "named_group op \<Longrightarrow> router_groups_ok r \<Longrightarrow> router_groups_ok r'" by auto
qed

lemma run_ops_ok:
  "run_ops mx ops r = Inr r' \<Longrightarrow> router_ok r \<Longrightarrow>
     router_ok r' \<and> (list_all named_group ops \<longrightarrow> router_groups_ok r \<longrightarrow> router_groups_ok r')"
proof (induction ops arbitrary: r)
  case (Cons op ops)
  then obtain r1 where "run_op mx op r = Inr r1" "run_ops mx ops r1 = Inr r'" by (auto split: sum.splits)
  then show ?case using Cons run_op_ok by fastforce
qed simp

section \<open>What the router answers\<close>

lemma first_match_in: "first_match rs path = Some (c, m) \<Longrightarrow> \<exists>q. (q, m) \<in> set rs"
  by (induction rs path rule: first_match.induct) (auto split: option.splits)

lemma routes_answer:
  "(q, m) \<in> set (routes n) \<Longrightarrow> \<not> IsEmpty (callback m)" "(q, m) \<in> set (child_routes cs) \<Longrightarrow> \<not> IsEmpty (callback m)"
  by (induction n and cs arbitrary: q and q rule: routes_child_routes.induct) (auto split: if_splits)

lemma MatchNode_iff: "fst (MatchNode n path out) \<noteq> None \<longleftrightarrow> (\<exists>q \<in> pats n. pat_match q path \<noteq> None)"
proof -
  have "fst (MatchNode n path out) \<noteq> None \<longleftrightarrow> (\<exists>x. first_match (routes n) path = Some x)"
    by (auto simp: MatchNode_answer(1) answer_def split: option.splits)
  then show ?thesis unfolding first_match_iff by (force simp: pats_def)
qed

lemma MatchRoute_iff:
  "fst (MatchRoute m req out r) \<noteq> None \<longleftrightarrow> method_idx m < 7 \<and>
     (\<exists>q \<in> pats (root (routesByMethod r ! method_idx m)). pat_match q (StripRoute (strip_query req)) \<noteq> None)"
  by (auto simp: MatchRoute_def ROUTABLE_METHOD_COUNT_def TrieMatch_def MatchNode_iff simp del: not_None_eq)

text \<open>C7. Registering a non-empty handler adds to the answered requests exactly those of its method that
  match the pattern of the full path, the joined prefixes of the open groups followed by the route, and
  takes none away. The node it returns carries the handler. Holds after any history of registrations
  and (named) groups.\<close>

theorem register_adds_full_path:
  assumes "run_ops mx ops new_router = Inr r" "list_all named_group ops" "\<not> IsEmpty h"
    and "RegisterRoute mx m path h r = Inr (p, r')"
  shows "(\<forall>m' req out. fst (MatchRoute m' req out r') \<noteq> None \<longleftrightarrow>
      fst (MatchRoute m' req out r) \<noteq> None \<or>
      m' = m \<and> pat_match (path_pattern (JoinPath (groupPrefix r) path)) (StripRoute (strip_query req)) \<noteq> None) \<and>
    callback (node_at (root (routesByMethod r' ! method_idx m)) p) = h"
proof -
  have ok: "router_ok r" "router_groups_ok r" using run_ops_ok[OF assms(1)] new_router_ok assms(2) by auto
  obtain t t1 t' where R: "method_idx m < 7" "path \<noteq> []" "t = routesByMethod r ! method_idx m" "t \<in> set (routesByMethod r)"
    "TrieInsert path h t = Inr (p, t1)" "routesByMethod r' = (routesByMethod r)[method_idx m := t']"
    "pats (root t') = pats (root t1)" "callback (node_at (root t') p) = callback (node_at (root t1) p)"
    by (rule RegisterRoute_elim[OF ok(1) assms(4)])
  have t: "trie_ok t" "groups_ok (groupPrefix r) (groupLenStack r) t" using ok R(4) by (auto simp: router_ok_def router_groups_ok_def)
  note I = TrieInsert_ok[OF t(1) assms(3) R(5)]
  have "full_pattern t path = path_pattern (JoinPath (groupPrefix r) path)"
    using t(2) R(2) by (simp add: full_pattern_def groups_ok_def route_pattern_JoinPath)
  then have P: "pats (root t') = insert (path_pattern (JoinPath (groupPrefix r) path)) (pats (root t))" using I(1) R(7) by simp
  have len: "length (routesByMethod r) = 7" using ok(1) by (simp add: router_ok_def)
  show ?thesis
  proof (intro conjI allI)
    fix m' req and out :: "SegmentVariant list"
    show "fst (MatchRoute m' req out r') \<noteq> None \<longleftrightarrow> fst (MatchRoute m' req out r) \<noteq> None \<or>
        m' = m \<and> pat_match (path_pattern (JoinPath (groupPrefix r) path)) (StripRoute (strip_query req)) \<noteq> None"
      unfolding MatchRoute_iff using R(1,3) P len method_idx_inj[of m m'] by (cases "m' = m") (auto simp: R(6) nth_list_update)
    show "callback (node_at (root (routesByMethod r' ! method_idx m)) p) = h"
      using R(1,6,8) I(6) len by simp
  qed
qed

definition demo_ops :: "nat router_op list" where
  "demo_ops = [OpPushGroup ''/api'', OpRegister M_GET ''/users'' (SyncCb (Some 1))]"

definition demo_router :: "nat router" where
  "demo_router = (case run_ops 4 demo_ops new_router of Inl _ \<Rightarrow> new_router | Inr r \<Rightarrow> r)"

lemma seven: "replicate 7 x = [x, x, x, x, x, x, x]"
  by (simp add: eval_nat_numeral)

lemmas router_eval = PushRouteGroup_def RegisterRoute_def new_router_def ROUTABLE_METHOD_COUNT_def seven
  PushGroup_def InsertRoute_def TrieInsert_def new_trie_def new_node_def insert_below.simps StripRoute_def first_seg_def
  rest_segs_def is_dynamic_def parse_dynamic_def sv_substr_def add_child_def set_child_def set_callback_def set_metrics_def
  MatchesStatic_iff IsStatic_def Let_def METRICS_IDX_UNASSIGNED_def JoinPath_def

lemma demo_router_eq:
  "\<exists>r. run_ops 4 demo_ops new_router = Inr r \<and> length (identities r) = 1 \<and> groupPrefix r = ''/api'' \<and>
     (\<exists>p r'. RegisterRoute 4 M_GET ''/<n:string>'' (SyncCb (Some 2)) r = Inr (p, r'))"
  by (simp add: demo_ops_def router_eval)

lemma demo_router_run:
  "run_ops 4 demo_ops new_router = Inr demo_router" "length (identities demo_router) = 1" "groupPrefix demo_router = ''/api''"
  "\<exists>p r'. RegisterRoute 4 M_GET ''/<n:string>'' (SyncCb (Some 2)) demo_router = Inr (p, r')"
  using demo_router_eq by (auto simp: demo_router_def)

theorem register_adds_full_path_witness:
  "\<exists>p r'. RegisterRoute 4 M_GET ''/<n:string>'' (SyncCb (Some 2)) demo_router = Inr (p, r') \<and>
     fst (MatchRoute M_GET ''/api/me?x=1'' [] r') \<noteq> None"
proof -
  obtain p r' where r': "RegisterRoute 4 M_GET ''/<n:string>'' (SyncCb (Some 2)) demo_router = Inr (p, r')"
    using demo_router_run(4) by blast
  have "pat_match (path_pattern (JoinPath (groupPrefix demo_router) ''/<n:string>'')) (StripRoute (strip_query ''/api/me?x=1'')) \<noteq> None"
    by (simp add: demo_router_run(3) JoinPath_def StripRoute_def strip_query_def route_pattern.simps first_seg_def rest_segs_def
        seg_pattern_def is_dynamic_def parse_dynamic_def sv_substr_def accepts_def)
  moreover have "list_all named_group demo_ops" "\<not> IsEmpty (SyncCb (Some 2 :: nat option))" by (simp_all add: demo_ops_def)
  ultimately have "fst (MatchRoute M_GET ''/api/me?x=1'' [] r') \<noteq> None"
    using register_adds_full_path[OF demo_router_run(1) _ _ r', THEN conjunct1] by blast
  then show ?thesis using r' by blast
qed

text \<open>C26. The metric indices of the registered nodes are the numbers below the route count, each once; a
  request that is answered is counted under an index whose recorded method is the method of the request.\<close>

theorem route_metrics_dense:
  assumes "run_ops mx ops new_router = Inr r"
  shows "(\<Sum>t \<leftarrow> routesByMethod r. ids_of (root t)) = mset (map of_nat [0..<unat (RouteCount r)]) \<and>
    (\<forall>m req out node out'. MatchRoute m req out r = (Some node, out') \<longrightarrow>
       metricsIdx node < RouteCount r \<and> ri_method (RouteAt (metricsIdx node) r) = m)"
proof -
  have ok: "router_ok r" using run_ops_ok[OF assms] new_router_ok by auto
  have c: "unat (RouteCount r) = length (identities r)"
    using ok by (simp add: router_ok_def RouteCount_def unat_of_nat take_bit_nat_eq_self)
  have "metricsIdx node < RouteCount r \<and> ri_method (RouteAt (metricsIdx node) r) = m"
    if hit: "MatchRoute m req out r = (Some node, out')" for m req out node out'
  proof -
    let ?t = "routesByMethod r ! method_idx m"
    have i: "method_idx m < 7" using hit by (simp add: MatchRoute_def ROUTABLE_METHOD_COUNT_def split: if_splits)
    then have "MatchNode (root ?t) (StripRoute (strip_query req)) out = (Some node, out')"
      using hit by (simp add: MatchRoute_def ROUTABLE_METHOD_COUNT_def TrieMatch_def)
    then obtain cs where "first_match (routes (root ?t)) (StripRoute (strip_query req)) = Some (cs, node)"
      by (auto simp: MatchNode_answer(1) answer_def split: option.splits)
    then obtain q where q: "(q, node) \<in> set (routes (root ?t))" by (blast dest: first_match_in)
    have "\<not> IsEmpty (callback node)" using q by (rule routes_answer)
    moreover have "label (\<lambda>cb mi. if \<not> IsEmpty cb \<and> mi = METRICS_IDX_UNASSIGNED then {#mi#} else {#}) node \<subseteq># unnumbered (root ?t)"
      by (rule label_in_gather(1)[OF q])
    moreover have "unnumbered (root ?t) = {#}" using ok i by (simp add: router_ok_def)
    ultimately have "metricsIdx node \<noteq> METRICS_IDX_UNASSIGNED" by auto
    then have "metricsIdx node \<in># ids_of (root ?t)"
      using label_in_gather(1)[OF q, of "\<lambda>_ mi. if mi = METRICS_IDX_UNASSIGNED then {#} else {#mi#}"] by (simp add: single_subset_iff)
    then have "unat (metricsIdx node) < length (identities r) \<and> method_idx (ri_method (identities r ! unat (metricsIdx node))) = method_idx m"
      using ok i by (auto simp: router_ok_def)
    then show ?thesis using c by (auto simp: word_less_nat_alt RouteAt_def dest: method_idx_inj)
  qed
  then show ?thesis using ok c by (auto simp: router_ok_def)
qed

theorem route_metrics_dense_witness:
  "RouteCount demo_router = 1 \<and> (\<Sum>t \<leftarrow> routesByMethod demo_router. ids_of (root t)) = {#0#}"
  using route_metrics_dense[OF demo_router_run(1)] demo_router_run(2) by (simp add: RouteCount_def)

end
