(* ===== verification/Json.thy ===== *)
theory Json
  imports StringUtils Uuid
begin

text \<open>
  Model of the JSON parser and writer of \<open>src/shared/json\<close>. The parser's position is kept as the rest of
  the input; an error carries the number of bytes left at the failure. The store of the parsed object is
  seen through its values: an array is the list of its elements, an object the list of its members in
  the order of their first insertion. Allocation succeeds. Conversions of doubles are arguments.
\<close>

section \<open>Values\<close>

datatype 'd json =
    EMPTY
  | BOOL bool
  | INT64 int
  | UINT64 u64
  | DOUBLE 'd
  | STR_VIEW string
  | STR_OWN string
  | ARRAY "'d json list"
  | OBJECT "(string \<times> 'd json) list"

datatype json_error = JsonError (err_msg: string) (err_left: nat)

type_synonym 'a parsed = "json_error + 'a"

abbreviation Fail :: "string \<Rightarrow> string \<Rightarrow> 'a parsed" where
  "Fail msg xs \<equiv> Inl (JsonError msg (length xs))"

text \<open>The messages that contain a backslash or quotes.\<close>

abbreviation truncated_hex :: string where
  "truncated_hex \<equiv> ''truncated '' @ CHR 0x5C # ''u escape''"

abbreviation bad_hex_digit :: string where
  "bad_hex_digit \<equiv> ''invalid hex digit in '' @ CHR 0x5C # ''u escape''"

abbreviation expected_comma_or :: "char \<Rightarrow> string" where
  "expected_comma_or c \<equiv> ''expected '' @ CHR 0x27 # CHR '','' # CHR 0x27 # '' or '' @ [CHR 0x27, c, CHR 0x27]"

section \<open>Primitives\<close>

definition is_ws :: "char \<Rightarrow> bool" where
  "is_ws c \<longleftrightarrow> c = CHR '' '' \<or> c = TAB \<or> c = LF \<or> c = CR"

definition SkipWS :: "string \<Rightarrow> string" where
  "SkipWS xs = dropWhile is_ws xs"

definition Peek :: "string \<Rightarrow> char" where
  "Peek xs = (case xs of [] \<Rightarrow> NUL | c # _ \<Rightarrow> c)"

definition Expect :: "char \<Rightarrow> string \<Rightarrow> string parsed" where
  "Expect c xs =
     (let ys = SkipWS xs in if Peek ys \<noteq> c then Fail ''unexpected token'' ys else Inr (tl ys))"

definition SkipDigits :: "string \<Rightarrow> string option" where
  "SkipDigits xs = (if xs = [] \<or> \<not> is_digit (hd xs) then None else Some (dropWhile is_digit xs))"

section \<open>Escapes\<close>

definition hex_digit :: "char \<Rightarrow> u32 option" where
  "hex_digit c =
     (if is_digit c then Some (of_char c - 48)
      else if CHR ''a'' \<le> c \<and> c \<le> CHR ''f'' then Some (of_char c - 97 + 10)
      else if CHR ''A'' \<le> c \<and> c \<le> CHR ''F'' then Some (of_char c - 65 + 10)
      else None)"

fun hex4_loop :: "nat \<Rightarrow> u32 \<Rightarrow> string \<Rightarrow> (u32 \<times> string) parsed" where
  "hex4_loop 0 cp xs = Inr (cp, xs)"
| "hex4_loop (Suc n) cp xs =
     (case hex_digit (hd xs) of
        None \<Rightarrow> Fail bad_hex_digit (tl xs)
      | Some d \<Rightarrow> hex4_loop n (push_bit 4 cp OR d) (tl xs))"

definition DecodeHex4 :: "string \<Rightarrow> (u32 \<times> string) parsed" where
  "DecodeHex4 xs = (if length xs < 4 then Fail truncated_hex xs else hex4_loop 4 0 xs)"

definition low_char :: "u32 \<Rightarrow> char" where
  "low_char w = char_of (unat w)"

definition EncodeUTF8 :: "u32 \<Rightarrow> string" where
  "EncodeUTF8 cp =
     (if cp < 0x80 then [low_char cp]
      else if cp < 0x800 then [low_char (0xC0 OR drop_bit 6 cp), low_char (0x80 OR (cp AND 0x3F))]
      else if cp < 0x10000 then
        [low_char (0xE0 OR drop_bit 12 cp), low_char (0x80 OR (drop_bit 6 cp AND 0x3F)), low_char (0x80 OR (cp AND 0x3F))]
      else [low_char (0xF0 OR drop_bit 18 cp), low_char (0x80 OR (drop_bit 12 cp AND 0x3F)),
            low_char (0x80 OR (drop_bit 6 cp AND 0x3F)), low_char (0x80 OR (cp AND 0x3F))])"

definition decode_u :: "string \<Rightarrow> (string \<times> string) parsed" where
  "decode_u xs =
     (case DecodeHex4 xs of
        Inl e \<Rightarrow> Inl e
      | Inr (cp, ys) \<Rightarrow>
          if 0xD800 \<le> cp \<and> cp \<le> 0xDBFF then
            if length ys < 2 \<or> ys ! 0 \<noteq> CHR 0x5C \<or> ys ! 1 \<noteq> CHR ''u'' then Fail ''missing low surrogate'' ys
            else (case DecodeHex4 (drop 2 ys) of
                    Inl e \<Rightarrow> Inl e
                  | Inr (low, zs) \<Rightarrow>
                      if low < 0xDC00 \<or> low > 0xDFFF then Fail ''invalid low surrogate'' zs
                      else Inr (EncodeUTF8 (0x10000 + push_bit 10 (cp - 0xD800) + (low - 0xDC00)), zs))
          else if 0xDC00 \<le> cp \<and> cp \<le> 0xDFFF then Fail ''unexpected low surrogate'' ys
          else Inr (EncodeUTF8 cp, ys))"

text \<open>The bytes of one escape sequence, its backslash consumed.\<close>

definition DecodeEscape :: "string \<Rightarrow> (string \<times> string) parsed" where
  "DecodeEscape xs =
     (case xs of
        [] \<Rightarrow> Fail ''truncated escape'' xs
      | esc # ys \<Rightarrow>
          if esc = CHR 0x22 then Inr ([CHR 0x22], ys)
          else if esc = CHR 0x5C then Inr ([CHR 0x5C], ys)
          else if esc = CHR ''/'' then Inr ([CHR ''/''], ys)
          else if esc = CHR ''b'' then Inr ([CHR 0x08], ys)
          else if esc = CHR ''f'' then Inr ([CHR 0x0C], ys)
          else if esc = CHR ''n'' then Inr ([LF], ys)
          else if esc = CHR ''r'' then Inr ([CR], ys)
          else if esc = CHR ''t'' then Inr ([TAB], ys)
          else if esc = CHR ''u'' then decode_u ys
          else Fail ''invalid escape sequence'' ys)"

lemma hex4_loop_length: "hex4_loop n cp xs = Inr (c, ys) \<Longrightarrow> length ys \<le> length xs"
proof (induction n cp xs rule: hex4_loop.induct)
  case (2 n cp xs)
  then have "length ys \<le> length (tl xs)" by (auto split: option.splits)
  then show ?case by simp
qed simp

lemma decode_u_length: "decode_u xs = Inr (s, ys) \<Longrightarrow> length ys \<le> length xs"
  by (auto simp: decode_u_def DecodeHex4_def Let_def split: if_splits sum.splits dest!: hex4_loop_length)

lemma DecodeEscape_length: "DecodeEscape xs = Inr (s, ys) \<Longrightarrow> length ys < length xs"
  by (cases xs) (auto simp: DecodeEscape_def dest: decode_u_length split: if_splits)

section \<open>Strings\<close>

text \<open>\<open>ScanString\<close>: the distance to the closing quote or to the first backslash, and which of them.\<close>

fun scan_string :: "string \<Rightarrow> string + (nat \<times> bool)" where
  "scan_string [] = Inl ''unterminated string''"
| "scan_string (c # cs) =
     (if byte_of c < 0x20 then Inl ''control character in string''
      else if c = CHR 0x5C then Inr (0, True)
      else if c = CHR 0x22 then Inr (0, False)
      else map_sum id (\<lambda>(n, e). (Suc n, e)) (scan_string cs))"

definition ScanString :: "string \<Rightarrow> (nat \<times> bool) parsed" where
  "ScanString xs = map_sum (\<lambda>m. JsonError m (length xs)) id (scan_string xs)"

function escaped_loop :: "string \<Rightarrow> string \<Rightarrow> (string \<times> string) parsed" where
  "escaped_loop out xs =
     (case xs of
        [] \<Rightarrow> Inr (out, [])
      | c # ys \<Rightarrow>
          if c = CHR 0x22 then Inr (out, ys)
          else if byte_of c < 0x20 then Fail ''control character in string'' xs
          else if c \<noteq> CHR 0x5C then escaped_loop (out @ [c]) ys
          else (case DecodeEscape ys of Inl e \<Rightarrow> Inl e | Inr (s, zs) \<Rightarrow> escaped_loop (out @ s) zs))"
  by pat_completeness auto
termination
  by (relation "measure (\<lambda>(out, xs). length xs)") (auto dest: DecodeEscape_length)

declare escaped_loop.simps [simp del]

definition ParseStringEscaped :: "string \<Rightarrow> (string \<times> string) parsed" where
  "ParseStringEscaped xs = escaped_loop [] xs"

definition ParseString :: "bool \<Rightarrow> string \<Rightarrow> ('d json \<times> string) parsed" where
  "ParseString isView xs =
     (case Expect (CHR 0x22) xs of
        Inl e \<Rightarrow> Inl e
      | Inr ys \<Rightarrow>
          (case ScanString ys of
             Inl e \<Rightarrow> Inl e
           | Inr (n, hasEscape) \<Rightarrow>
               if hasEscape then map_sum id (apfst STR_OWN) (ParseStringEscaped ys)
               else Inr ((if isView then STR_VIEW else STR_OWN) (take n ys), drop (n + 1) ys)))"

section \<open>Numbers\<close>

text \<open>Whether the number is a float, and the rest behind it.\<close>

definition ScanNumber :: "string \<Rightarrow> (bool \<times> string) parsed" where
  "ScanNumber xs =
     (case SkipDigits xs of
        None \<Rightarrow> Fail ''invalid number'' xs
      | Some ys \<Rightarrow>
          (case (if ys \<noteq> [] \<and> hd ys = CHR ''.'' then
                   (case SkipDigits (tl ys) of
                      None \<Rightarrow> Fail ''invalid number'' (tl ys)
                    | Some zs \<Rightarrow> Inr (True, zs))
                 else Inr (False, ys)) of
             Inl e \<Rightarrow> Inl e
           | Inr (isFloat, zs) \<Rightarrow>
               if zs \<noteq> [] \<and> (hd zs = CHR ''e'' \<or> hd zs = CHR ''E'') then
                 let us = (if tl zs \<noteq> [] \<and> (hd (tl zs) = CHR ''+'' \<or> hd (tl zs) = CHR ''-'') then tl (tl zs) else tl zs)
                 in (case SkipDigits us of
                       None \<Rightarrow> Fail ''invalid number'' us
                     | Some vs \<Rightarrow> Inr (True, vs))
               else Inr (isFloat, zs)))"

definition ParseNumber :: "(string \<Rightarrow> 'd option) \<Rightarrow> string \<Rightarrow> ('d json \<times> string) parsed" where
  "ParseNumber fd xs =
     (let isNeg = (Peek xs = CHR ''-'') in
      case ScanNumber (if isNeg then tl xs else xs) of
        Inl e \<Rightarrow> Inl e
      | Inr (isFloat, ys) \<Rightarrow>
          let txt = take (length xs - length ys) xs in
          if isFloat then (case fd txt of None \<Rightarrow> Fail ''invalid number'' ys | Some v \<Rightarrow> Inr (DOUBLE v, ys))
          else if isNeg then
            (case from_chars_signed (- (2 ^ 63)) (2 ^ 63 - 1) txt of
               FcOk v _ \<Rightarrow> Inr (INT64 v, ys) | _ \<Rightarrow> Fail ''invalid number'' ys)
          else
            (case from_chars_unsigned (2 ^ 64 - 1) txt of
               FcOk v _ \<Rightarrow> Inr (UINT64 (word_of_int v), ys) | _ \<Rightarrow> Fail ''invalid number'' ys))"

section \<open>Values, objects, arrays\<close>

record 'd json_opts =
  storeViews :: bool
  depthLimit :: u32
  from_double :: "string \<Rightarrow> 'd option"

text \<open>A key at its opening quote, as bytes; the store always owns keys.\<close>

definition parse_key :: "string \<Rightarrow> (string \<times> string) parsed" where
  "parse_key xs =
     (if Peek xs \<noteq> CHR 0x22 then Fail ''expected string key'' xs
      else
        let ys = tl xs in
        (case ScanString ys of
           Inl e \<Rightarrow> Inl e
         | Inr (n, hasEscape) \<Rightarrow>
             if \<not> hasEscape then Inr (take n ys, drop (n + 1) ys)
             else (case ParseString False xs :: (unit json \<times> string) parsed of
                     Inl e \<Rightarrow> Inl e
                   | Inr (STR_OWN k, zs) \<Rightarrow> Inr (k, zs)
                   | Inr (_, zs) \<Rightarrow> Fail ''unreachable'' zs)))"

text \<open>The bodies of \<open>ParseValue\<close>, \<open>ParseObject\<close>, \<open>ParseArray\<close> and of the two loops, with the calls they make as
  arguments.\<close>

definition value_body ::
  "(string \<Rightarrow> ('d json \<times> string) parsed) \<Rightarrow> (string \<Rightarrow> ('d json \<times> string) parsed) \<Rightarrow> 'd json_opts \<Rightarrow> string \<Rightarrow> ('d json \<times> string) parsed" where
  "value_body parseObject parseArray opt xs0 =
     (let xs = SkipWS xs0; c = Peek xs in
      if xs = [] then Fail ''unexpected end of input'' xs
      else if c = CHR 0x22 then ParseString (storeViews opt) xs
      else if c = CHR ''{'' then parseObject xs
      else if c = CHR ''['' then parseArray xs
      else if c = CHR ''t'' then
        (if length xs < 4 \<or> take 4 xs \<noteq> ''true'' then Fail ''invalid literal'' xs else Inr (BOOL True, drop 4 xs))
      else if c = CHR ''f'' then
        (if length xs < 5 \<or> take 5 xs \<noteq> ''false'' then Fail ''invalid literal'' xs else Inr (BOOL False, drop 5 xs))
      else if c = CHR ''n'' then
        (if length xs < 4 \<or> take 4 xs \<noteq> ''null'' then Fail ''invalid literal'' xs else Inr (EMPTY, drop 4 xs))
      else if c = CHR ''-'' \<or> is_digit c then ParseNumber (from_double opt) xs
      else Fail ''unexpected character'' xs)"

text \<open>The head of both containers: bracket, depth, the empty container.\<close>

definition container_body ::
  "char \<Rightarrow> 'd json \<Rightarrow> (u32 \<Rightarrow> string \<Rightarrow> ('d json \<times> string) parsed) \<Rightarrow> 'd json_opts \<Rightarrow> u32 \<Rightarrow> string \<Rightarrow> ('d json \<times> string) parsed" where
  "container_body close nothing loop opt depth xs =
     (let ys = tl xs in
      if depth + 1 > depthLimit opt then Fail ''max depth exceeded'' ys
      else let zs = SkipWS ys in
        if Peek zs = close then Inr (nothing, tl zs) else loop (depth + 1) zs)"

definition object_loop_body ::
  "(string \<Rightarrow> ('d json \<times> string) parsed) \<Rightarrow> ((string \<times> 'd json) list \<Rightarrow> string \<Rightarrow> ('d json \<times> string) parsed) \<Rightarrow>
     (string \<times> 'd json) list \<Rightarrow> string \<Rightarrow> ('d json \<times> string) parsed" where
  "object_loop_body parseValue loop kvs xs0 =
     (case parse_key (SkipWS xs0) of
        Inl e \<Rightarrow> Inl e
      | Inr (k, ys) \<Rightarrow>
          if k \<in> fst ` set kvs then Fail ''duplicate key'' ys
          else
            (case Expect (CHR '':'') ys of
               Inl e \<Rightarrow> Inl e
             | Inr zs \<Rightarrow>
                 (case parseValue (SkipWS zs) of
                    Inl e \<Rightarrow> Inl e
                  | Inr (v, us) \<Rightarrow>
                      let vs = SkipWS us in
                      if Peek vs = CHR ''}'' then Inr (OBJECT (kvs @ [(k, v)]), tl vs)
                      else if Peek vs \<noteq> CHR '','' then Fail (expected_comma_or (CHR ''}'')) vs
                      else loop (kvs @ [(k, v)]) (tl vs))))"

definition array_loop_body ::
  "(string \<Rightarrow> ('d json \<times> string) parsed) \<Rightarrow> ('d json list \<Rightarrow> string \<Rightarrow> ('d json \<times> string) parsed) \<Rightarrow>
     'd json list \<Rightarrow> string \<Rightarrow> ('d json \<times> string) parsed" where
  "array_loop_body parseValue loop es xs0 =
     (case parseValue (SkipWS xs0) of
        Inl e \<Rightarrow> Inl e
      | Inr (v, us) \<Rightarrow>
          let vs = SkipWS us in
          if Peek vs = CHR '']'' then Inr (ARRAY (es @ [v]), tl vs)
          else if Peek vs \<noteq> CHR '','' then Fail (expected_comma_or (CHR '']'')) vs
          else loop (es @ [v]) (tl vs))"

text \<open>The mutual recursion, as one primitive recursion on the fuel: what the functions are with one step more.\<close>

record 'd json_parsers =
  parse_value :: "u32 \<Rightarrow> string \<Rightarrow> ('d json \<times> string) parsed"
  parse_object :: "u32 \<Rightarrow> string \<Rightarrow> ('d json \<times> string) parsed"
  parse_array :: "u32 \<Rightarrow> string \<Rightarrow> ('d json \<times> string) parsed"
  members_loop :: "u32 \<Rightarrow> (string \<times> 'd json) list \<Rightarrow> string \<Rightarrow> ('d json \<times> string) parsed"
  elements_loop :: "u32 \<Rightarrow> 'd json list \<Rightarrow> string \<Rightarrow> ('d json \<times> string) parsed"

primrec json_functions :: "'d json_opts \<Rightarrow> nat \<Rightarrow> 'd json_parsers" where
  "json_functions opt 0 =
     \<lparr>parse_value = (\<lambda>_ xs. Fail ''out of fuel'' xs), parse_object = (\<lambda>_ xs. Fail ''out of fuel'' xs),
      parse_array = (\<lambda>_ xs. Fail ''out of fuel'' xs), members_loop = (\<lambda>_ _ xs. Fail ''out of fuel'' xs),
      elements_loop = (\<lambda>_ _ xs. Fail ''out of fuel'' xs)\<rparr>"
| "json_functions opt (Suc f) =
     (let j = json_functions opt f in
      \<lparr>parse_value = (\<lambda>depth. value_body (parse_object j depth) (parse_array j depth) opt),
       parse_object = container_body (CHR ''}'') (OBJECT []) (\<lambda>depth. members_loop j depth []) opt,
       parse_array = container_body (CHR '']'') (ARRAY []) (\<lambda>depth. elements_loop j depth []) opt,
       members_loop = (\<lambda>depth. object_loop_body (parse_value j depth) (members_loop j depth)),
       elements_loop = (\<lambda>depth. array_loop_body (parse_value j depth) (elements_loop j depth))\<rparr>)"

definition ParseValue :: "nat \<Rightarrow> 'd json_opts \<Rightarrow> u32 \<Rightarrow> string \<Rightarrow> ('d json \<times> string) parsed" where
  "ParseValue f opt = parse_value (json_functions opt f)"

definition ParseObject :: "nat \<Rightarrow> 'd json_opts \<Rightarrow> u32 \<Rightarrow> string \<Rightarrow> ('d json \<times> string) parsed" where
  "ParseObject f opt = parse_object (json_functions opt f)"

definition ParseArray :: "nat \<Rightarrow> 'd json_opts \<Rightarrow> u32 \<Rightarrow> string \<Rightarrow> ('d json \<times> string) parsed" where
  "ParseArray f opt = parse_array (json_functions opt f)"

definition object_loop :: "nat \<Rightarrow> 'd json_opts \<Rightarrow> u32 \<Rightarrow> (string \<times> 'd json) list \<Rightarrow> string \<Rightarrow> ('d json \<times> string) parsed" where
  "object_loop f opt = members_loop (json_functions opt f)"

definition array_loop :: "nat \<Rightarrow> 'd json_opts \<Rightarrow> u32 \<Rightarrow> 'd json list \<Rightarrow> string \<Rightarrow> ('d json \<times> string) parsed" where
  "array_loop f opt = elements_loop (json_functions opt f)"

lemma parse_0:
  "ParseValue 0 opt depth xs = Fail ''out of fuel'' xs" "ParseObject 0 opt depth xs = Fail ''out of fuel'' xs"
  "ParseArray 0 opt depth xs = Fail ''out of fuel'' xs" "object_loop 0 opt depth kvs xs = Fail ''out of fuel'' xs"
  "array_loop 0 opt depth es xs = Fail ''out of fuel'' xs"
  by (simp_all add: ParseValue_def ParseObject_def ParseArray_def object_loop_def array_loop_def)

lemma parse_Suc:
  "ParseValue (Suc f) opt depth xs = value_body (ParseObject f opt depth) (ParseArray f opt depth) opt xs"
  "ParseObject (Suc f) opt depth xs = container_body (CHR ''}'') (OBJECT []) (\<lambda>d. object_loop f opt d []) opt depth xs"
  "ParseArray (Suc f) opt depth xs = container_body (CHR '']'') (ARRAY []) (\<lambda>d. array_loop f opt d []) opt depth xs"
  "object_loop (Suc f) opt depth kvs xs = object_loop_body (ParseValue f opt depth) (object_loop f opt depth) kvs xs"
  "array_loop (Suc f) opt depth es xs = array_loop_body (ParseValue f opt depth) (array_loop f opt depth) es xs"
  by (simp_all add: ParseValue_def ParseObject_def ParseArray_def object_loop_def array_loop_def Let_def)

text \<open>Evaluation with a numeral as the fuel.\<close>

lemma parse_numeral:
  "ParseValue (numeral n) opt depth xs = value_body (ParseObject (pred_numeral n) opt depth) (ParseArray (pred_numeral n) opt depth) opt xs"
  "ParseObject (numeral n) opt depth xs = container_body (CHR ''}'') (OBJECT []) (\<lambda>d. object_loop (pred_numeral n) opt d []) opt depth xs"
  "ParseArray (numeral n) opt depth xs = container_body (CHR '']'') (ARRAY []) (\<lambda>d. array_loop (pred_numeral n) opt d []) opt depth xs"
  "object_loop (numeral n) opt depth kvs xs =
     object_loop_body (ParseValue (pred_numeral n) opt depth) (object_loop (pred_numeral n) opt depth) kvs xs"
  "array_loop (numeral n) opt depth es xs =
     array_loop_body (ParseValue (pred_numeral n) opt depth) (array_loop (pred_numeral n) opt depth) es xs"
  by (simp_all add: numeral_eq_Suc parse_Suc)

lemmas parse_eval =
  parse_numeral parse_Suc value_body_def container_body_def object_loop_body_def array_loop_body_def parse_key_def ParseString_def
  ScanString_def Expect_def Peek_def SkipWS_def is_ws_def ParseNumber_def ScanNumber_def SkipDigits_def Let_def
  is_digit_def less_eq_char_def from_chars_unsigned_def from_chars_signed_def digits_val_def digit_val_def

text \<open>The result with the offset of the failure; each byte is worth three steps of fuel.\<close>

definition ParseImpl :: "'d json_opts \<Rightarrow> string \<Rightarrow> (string \<times> nat) + 'd json" where
  "ParseImpl opt body =
     (let off = (\<lambda>e. (err_msg e, length body - err_left e)); f = 3 * length body + 3 in
      if body = [] then Inl (''empty input'', 0)
      else
        let xs = SkipWS body in
        if Peek xs \<noteq> CHR ''{'' \<and> Peek xs \<noteq> CHR ''['' then Inl (''root must be object or array'', length body - length xs)
        else
          (case (if Peek xs = CHR ''{'' then ParseObject f opt 0 xs else ParseArray f opt 0 xs) of
             Inl e \<Rightarrow> Inl (off e)
           | Inr (v, ys) \<Rightarrow>
               let zs = SkipWS ys in
               if zs \<noteq> [] then Inl (''trailing content after root'', length body - length zs) else Inr v))"

end
