(* ===== verification/JsonWriter.thy ===== *)
theory JsonWriter
  imports Json
begin

text \<open>
  Model of \<open>src/shared/json/json_writter.hpp\<close>: the streaming writer. Commas and closing brackets are tracked
  in two 64-bit masks indexed by the depth; opens past the depth cap are only counted. The response the
  bytes go to is the string written so far.
\<close>

definition JSON_MAX_DEPTH :: nat where "JSON_MAX_DEPTH = 63"

record json_writer =
  jw_out :: string
  commas :: u64
  closes :: u64
  over :: u32
  jw_depth :: u8

definition Raw :: "string \<Rightarrow> json_writer \<Rightarrow> json_writer" where
  "Raw d w = w\<lparr>jw_out := jw_out w @ d\<rparr>"

definition new_writer :: json_writer where
  "new_writer = Raw ''{'' \<lparr>jw_out = [], commas = 0, closes = 0, over = 0, jw_depth = 1\<rparr>"

definition depth_bit :: "json_writer \<Rightarrow> u64" where
  "depth_bit w = push_bit (unat (jw_depth w)) 1"

definition Close :: "json_writer \<Rightarrow> json_writer" where
  "Close w =
     (if over w \<noteq> 0 then w\<lparr>over := over w - 1\<rparr>
      else if jw_depth w = 0 then w
      else
        let w1 = w\<lparr>jw_depth := jw_depth w - 1\<rparr>
        in Raw (if drop_bit (unat (jw_depth w1)) (closes w1) AND 1 \<noteq> 0 then '']'' else ''}'') w1)"

definition Comma :: "json_writer \<Rightarrow> json_writer" where
  "Comma w =
     (let w1 = (if commas w AND depth_bit w \<noteq> 0 then Raw '','' w else w)
      in w1\<lparr>commas := commas w1 OR depth_bit w\<rparr>)"

definition ResetComma :: "json_writer \<Rightarrow> json_writer" where
  "ResetComma w = w\<lparr>commas := commas w AND NOT (depth_bit w)\<rparr>"

section \<open>Strings and scalars\<close>

definition HEX :: string where "HEX = ''0123456789abcdef''"

definition named_escape :: "char \<Rightarrow> string option" where
  "named_escape c =
     (if c = CHR 0x22 then Some [CHR 0x5C, CHR 0x22]
      else if c = CHR 0x5C then Some [CHR 0x5C, CHR 0x5C]
      else if c = LF then Some [CHR 0x5C, CHR ''n'']
      else if c = CR then Some [CHR 0x5C, CHR ''r'']
      else if c = TAB then Some [CHR 0x5C, CHR ''t'']
      else if c = CHR 0x08 then Some [CHR 0x5C, CHR ''b'']
      else if c = CHR 0x0C then Some [CHR 0x5C, CHR ''f'']
      else if byte_of c < 0x20 then
        Some [CHR 0x5C, CHR ''u'', CHR ''0'', CHR ''0'', HEX ! unat (drop_bit 4 (byte_of c) AND 0xF), HEX ! unat (byte_of c AND 0xF)]
      else None)"

text \<open>The loop of \<open>Escaped\<close>, with the plain run since the last escape, which is written in one piece.\<close>

fun escape_loop :: "string \<Rightarrow> string \<Rightarrow> json_writer \<Rightarrow> json_writer" where
  "escape_loop run [] w = (if run \<noteq> [] then Raw run w else w)"
| "escape_loop run (c # cs) w =
     (case named_escape c of
        Some esc \<Rightarrow> escape_loop [] cs (Raw esc (if run \<noteq> [] then Raw run w else w))
      | None \<Rightarrow> escape_loop (run @ [c]) cs w)"

definition Escaped :: "string \<Rightarrow> json_writer \<Rightarrow> json_writer" where
  "Escaped s w = escape_loop [] s w"

definition WKey :: "string \<Rightarrow> json_writer \<Rightarrow> json_writer" where
  "WKey k w = Raw [CHR 0x22, CHR '':''] (Escaped k (Raw [CHR 0x22] w))"

definition WStr :: "string \<Rightarrow> json_writer \<Rightarrow> json_writer" where
  "WStr v w = Raw [CHR 0x22] (Escaped v (Raw [CHR 0x22] w))"

definition int_chars :: "int \<Rightarrow> string" where
  "int_chars v = (if v < 0 then CHR ''-'' # to_chars (nat (- v)) else to_chars (nat v))"

definition WInt :: "int \<Rightarrow> json_writer \<Rightarrow> json_writer" where
  "WInt v w = Raw (int_chars v) w"

definition WUInt :: "u64 \<Rightarrow> json_writer \<Rightarrow> json_writer" where
  "WUInt v w = Raw (to_chars (unat v)) w"

definition WDbl :: "('d \<Rightarrow> string) \<Rightarrow> 'd \<Rightarrow> json_writer \<Rightarrow> json_writer" where
  "WDbl td v w = Raw (td v) w"

definition WBool :: "bool \<Rightarrow> json_writer \<Rightarrow> json_writer" where
  "WBool v w = (if v then Raw ''true'' w else Raw ''false'' w)"

definition WNull :: "json_writer \<Rightarrow> json_writer" where
  "WNull w = Raw ''null'' w"

text \<open>The overloads of \<open>Write\<close> and \<open>Push\<close>: the narrower integers and \<open>float\<close> are widened first.\<close>

datatype 'd json_scalar = ScStr string | ScUuid UUID | ScInt int | ScUInt u64 | ScDbl 'd | ScBool bool | ScNull

definition WScalar :: "('d \<Rightarrow> string) \<Rightarrow> 'd json_scalar \<Rightarrow> json_writer \<Rightarrow> json_writer" where
  "WScalar td s w =
     (case s of
        ScStr v \<Rightarrow> WStr v w | ScUuid u \<Rightarrow> WStr (take 36 (ToString u)) w | ScInt v \<Rightarrow> WInt v w | ScUInt v \<Rightarrow> WUInt v w
      | ScDbl v \<Rightarrow> WDbl td v w | ScBool v \<Rightarrow> WBool v w | ScNull \<Rightarrow> WNull w)"

definition WriteField :: "('d \<Rightarrow> string) \<Rightarrow> string \<Rightarrow> 'd json_scalar \<Rightarrow> json_writer \<Rightarrow> json_writer" where
  "WriteField td key s w = WScalar td s (WKey key (Comma w))"

definition Push :: "('d \<Rightarrow> string) \<Rightarrow> 'd json_scalar \<Rightarrow> json_writer \<Rightarrow> json_writer" where
  "Push td s w = WScalar td s (Comma w)"

section \<open>Containers\<close>

definition too_deep :: "json_writer \<Rightarrow> bool" where
  "too_deep w \<longleftrightarrow> over w \<noteq> 0 \<or> unat (jw_depth w) \<ge> JSON_MAX_DEPTH"

definition open_container :: "bool \<Rightarrow> json_writer \<Rightarrow> json_writer" where
  "open_container arr w =
     (let w1 = Raw (if arr then ''['' else ''{'') w;
          w2 = w1\<lparr>closes := (if arr then closes w1 OR depth_bit w1 else closes w1 AND NOT (depth_bit w1))\<rparr>
      in ResetComma (w2\<lparr>jw_depth := jw_depth w2 + 1\<rparr>))"

definition ObjKey :: "string \<Rightarrow> json_writer \<Rightarrow> json_writer" where
  "ObjKey key w = (if too_deep w then w\<lparr>over := over w + 1\<rparr> else open_container False (WKey key (Comma w)))"

definition ArrKey :: "string \<Rightarrow> json_writer \<Rightarrow> json_writer" where
  "ArrKey key w = (if too_deep w then w\<lparr>over := over w + 1\<rparr> else open_container True (WKey key (Comma w)))"

definition Obj :: "json_writer \<Rightarrow> json_writer" where
  "Obj w = (if too_deep w then w\<lparr>over := over w + 1\<rparr> else open_container False (Comma w))"

definition Arr :: "json_writer \<Rightarrow> json_writer" where
  "Arr w = (if too_deep w then w\<lparr>over := over w + 1\<rparr> else open_container True (Comma w))"

definition End :: "json_writer \<Rightarrow> json_writer" where "End w = Close w"

text \<open>The destructor closes what is open.\<close>

function close_all :: "json_writer \<Rightarrow> json_writer" where
  "close_all w = (if jw_depth w \<noteq> 0 then close_all (Close w) else w)"
  by pat_completeness auto
termination
proof (relation "measure (\<lambda>w. unat (over w) + unat (jw_depth w))", goal_cases)
  case (2 w)
  then have "0 < unat (jw_depth w)" by (simp add: unat_gt_0)
  moreover have "over w \<noteq> 0 \<Longrightarrow> 0 < unat (over w)" by (simp add: unat_gt_0)
  ultimately show ?case using 2 by (simp add: Close_def Let_def Raw_def unat_minus_one)
qed simp

declare close_all.simps [simp del]

section \<open>Calls\<close>

datatype 'd json_call =
    CallObjKey string | CallArrKey string | CallObj | CallArr | CallEnd
  | CallWrite string "'d json_scalar" | CallPush "'d json_scalar"

fun writer_call :: "('d \<Rightarrow> string) \<Rightarrow> 'd json_call \<Rightarrow> json_writer \<Rightarrow> json_writer" where
  "writer_call td (CallObjKey k) w = ObjKey k w"
| "writer_call td (CallArrKey k) w = ArrKey k w"
| "writer_call td CallObj w = Obj w"
| "writer_call td CallArr w = Arr w"
| "writer_call td CallEnd w = End w"
| "writer_call td (CallWrite k s) w = WriteField td k s w"
| "writer_call td (CallPush s) w = Push td s w"

text \<open>The body of the response a handler leaves that makes these calls.\<close>

definition json_body :: "('d \<Rightarrow> string) \<Rightarrow> 'd json_call list \<Rightarrow> string" where
  "json_body td calls = jw_out (close_all (fold (writer_call td) calls new_writer))"

end
