(* ===== verification/JsonText.thy ===== *)
theory JsonText
  imports JsonWriter
begin

text \<open>
  The text of a JSON value, and that the streaming writer produces it: any value can be handed to the
  writer as a sequence of calls, and what the writer appends is the value's text, as long as the nesting
  stays within the writer's depth cap.
\<close>

section \<open>The text of a value\<close>

definition escape_text :: "string \<Rightarrow> string" where
  "escape_text s = concat (map (\<lambda>c. case named_escape c of None \<Rightarrow> [c] | Some esc \<Rightarrow> esc) s)"

definition quoted :: "string \<Rightarrow> string" where
  "quoted s = CHR 0x22 # escape_text s @ [CHR 0x22]"

definition after_commas :: "string list \<Rightarrow> string" where
  "after_commas ss = concat (map (\<lambda>s. CHR '','' # s) ss)"

fun commas_between :: "string list \<Rightarrow> string" where
  "commas_between [] = []"
| "commas_between (s # ss) = s @ after_commas ss"

text \<open>A value as an argument of the writer's scalar calls.\<close>

fun scalar_of :: "'d json \<Rightarrow> 'd json_scalar" where
  "scalar_of (BOOL b) = ScBool b"
| "scalar_of (INT64 i) = ScInt i"
| "scalar_of (UINT64 n) = ScUInt n"
| "scalar_of (DOUBLE x) = ScDbl x"
| "scalar_of (STR_VIEW s) = ScStr s"
| "scalar_of (STR_OWN s) = ScStr s"
| "scalar_of _ = ScNull"

fun scalar_text :: "('d \<Rightarrow> string) \<Rightarrow> 'd json_scalar \<Rightarrow> string" where
  "scalar_text td (ScStr s) = quoted s"
| "scalar_text td (ScUuid u) = quoted (take 36 (ToString u))"
| "scalar_text td (ScInt i) = int_chars i"
| "scalar_text td (ScUInt n) = to_chars (unat n)"
| "scalar_text td (ScDbl x) = td x"
| "scalar_text td (ScBool b) = (if b then ''true'' else ''false'')"
| "scalar_text td ScNull = ''null''"

fun render :: "('d \<Rightarrow> string) \<Rightarrow> 'd json \<Rightarrow> string" where
  "render td (ARRAY es) = CHR ''['' # commas_between (map (render td) es) @ '']''"
| "render td (OBJECT kvs) = CHR ''{'' # commas_between (map (\<lambda>(k, v). quoted k @ CHR '':'' # render td v) kvs) @ ''}''"
| "render td v = scalar_text td (scalar_of v)"

text \<open>The calls that write a value, under a key or as an array element.\<close>

fun calls_of :: "string option \<Rightarrow> 'd json \<Rightarrow> 'd json_call list" where
  "calls_of key (ARRAY es) =
     (case key of None \<Rightarrow> CallArr | Some k \<Rightarrow> CallArrKey k) # concat (map (calls_of None) es) @ [CallEnd]"
| "calls_of key (OBJECT kvs) =
     (case key of None \<Rightarrow> CallObj | Some k \<Rightarrow> CallObjKey k) # concat (map (\<lambda>(k, v). calls_of (Some k) v) kvs) @ [CallEnd]"
| "calls_of key v = [case key of None \<Rightarrow> CallPush (scalar_of v) | Some k \<Rightarrow> CallWrite k (scalar_of v)]"

fun json_height :: "'d json \<Rightarrow> nat" where
  "json_height (ARRAY es) = Suc (foldr max (map json_height es) 0)"
| "json_height (OBJECT kvs) = Suc (foldr max (map (\<lambda>kv. json_height (snd kv)) kvs) 0)"
| "json_height _ = 0"

lemma foldr_max_le: "foldr max xs (0 :: nat) \<le> n \<longleftrightarrow> (\<forall>x \<in> set xs. x \<le> n)"
  by (induction xs) auto

lemma foldr_max_ge: "x \<in> set xs \<Longrightarrow> x \<le> foldr max xs (0 :: nat)"
  using foldr_max_le by blast

definition key_text :: "string option \<Rightarrow> string" where
  "key_text key = (case key of None \<Rightarrow> [] | Some k \<Rightarrow> quoted k @ '':'')"

section \<open>What a call appends\<close>

lemma Raw_simps [simp]:
  "jw_out (Raw s w) = jw_out w @ s" "commas (Raw s w) = commas w" "closes (Raw s w) = closes w" "over (Raw s w) = over w"
  "jw_depth (Raw s w) = jw_depth w" "Raw s (Raw t w) = Raw (t @ s) w" "Raw [] w = w"
  by (simp_all add: Raw_def)

lemma escape_loop_text: "escape_loop run cs w = Raw (run @ escape_text cs) w"
  by (induction run cs w rule: escape_loop.induct) (auto simp: escape_text_def split: option.splits)

lemma quoted_writes: "WStr s w = Raw (quoted s) w" "WKey s w = Raw (quoted s @ '':'') w"
  by (simp_all add: WStr_def WKey_def Escaped_def escape_loop_text quoted_def)

lemma WScalar_text: "WScalar td s w = Raw (scalar_text td s) w"
  by (cases s) (simp_all add: WScalar_def quoted_writes WInt_def WUInt_def WDbl_def WBool_def WNull_def)

text \<open>\<open>wrote w s w'\<close>: the text \<open>s\<close> was appended as an item at the current depth; the masks below it are as before.\<close>

definition pending_comma :: "json_writer \<Rightarrow> string" where
  "pending_comma w = (if bit (commas w) (unat (jw_depth w)) then '','' else [])"

definition below :: "json_writer \<Rightarrow> json_writer \<Rightarrow> bool" where
  "below w w' \<longleftrightarrow> jw_depth w' = jw_depth w \<and> over w' = over w \<and>
     (\<forall>i < unat (jw_depth w). bit (commas w') i = bit (commas w) i \<and> bit (closes w') i = bit (closes w) i)"

definition wrote :: "json_writer \<Rightarrow> string \<Rightarrow> json_writer \<Rightarrow> bool" where
  "wrote w s w' \<longleftrightarrow> below w w' \<and> bit (commas w') (unat (jw_depth w)) \<and> jw_out w' = jw_out w @ pending_comma w @ s"

lemma bit_depth_bit: "bit (depth_bit w) i \<longleftrightarrow> i = unat (jw_depth w) \<and> i < 64"
  by (auto simp: depth_bit_def bit_simps)

lemma masked_zero: "commas w AND depth_bit w \<noteq> 0 \<longleftrightarrow> bit (commas w) (unat (jw_depth w))"
proof -
  have "commas w AND depth_bit w = (if bit (commas w) (unat (jw_depth w)) then depth_bit w else 0)"
    by (auto intro!: bit_eqI simp: bit_and_iff bit_depth_bit)
  moreover have "depth_bit w \<noteq> 0" if "bit (commas w) (unat (jw_depth w))"
  proof -
    have "unat (jw_depth w) < 64" using bit_imp_le_length[OF that] by simp
    then have "bit (depth_bit w) (unat (jw_depth w))" by (simp add: bit_depth_bit)
    then show ?thesis by (metis bit_0_eq bot_apply bot_bool_def)
  qed
  ultimately show ?thesis by simp
qed

lemma Comma_wrote:
  assumes "unat (jw_depth w) < 64"
  shows "wrote w [] (Comma w)" "closes (Comma w) = closes w"
  using assms unfolding wrote_def below_def pending_comma_def Comma_def Let_def masked_zero
  by (auto simp: bit_or_iff bit_depth_bit)

lemma wrote_Raw: "wrote w s w' \<Longrightarrow> wrote w (s @ t) (Raw t w')"
  by (simp add: wrote_def below_def)

lemma Push_wrote: "unat (jw_depth w) < 64 \<Longrightarrow> wrote w (scalar_text td s) (Push td s w)"
  using wrote_Raw[OF Comma_wrote(1), of w "scalar_text td s"] by (simp add: Push_def WScalar_text)

lemma WriteField_wrote: "unat (jw_depth w) < 64 \<Longrightarrow> wrote w (quoted k @ '':'' @ scalar_text td s) (WriteField td k s w)"
  using wrote_Raw[OF Comma_wrote(1), of w "quoted k @ '':'' @ scalar_text td s"]
  by (simp add: WriteField_def WScalar_text quoted_writes)

lemma scalar_wrote:
  assumes "calls_of key v = [case key of None \<Rightarrow> CallPush (scalar_of v) | Some k \<Rightarrow> CallWrite k (scalar_of v)]"
    and "render td v = scalar_text td (scalar_of v)" "unat (jw_depth w) < 64"
  shows "wrote w (key_text key @ render td v) (fold (writer_call td) (calls_of key v) w)"
  unfolding assms(1,2) using assms(3) WriteField_wrote[OF assms(3), of _ td "scalar_of v"]
  by (cases key) (simp_all add: key_text_def Push_wrote)

text \<open>A container: the opening call, its items, \<open>End\<close>.\<close>

lemma open_container_eff:
  assumes "unat (jw_depth w) < 63"
  shows "jw_out (open_container arr w) = jw_out w @ (if arr then ''['' else ''{'')"
    "unat (jw_depth (open_container arr w)) = Suc (unat (jw_depth w))"
    "jw_depth (open_container arr w) = jw_depth w + 1"
    "over (open_container arr w) = over w"
    "\<not> bit (commas (open_container arr w)) (Suc (unat (jw_depth w)))"
    "bit (closes (open_container arr w)) (unat (jw_depth w)) = arr"
    "i \<le> unat (jw_depth w) \<Longrightarrow> bit (commas (open_container arr w)) i = bit (commas w) i"
    "i < unat (jw_depth w) \<Longrightarrow> bit (closes (open_container arr w)) i = bit (closes w) i"
proof -
  have d: "unat (jw_depth w + 1) = Suc (unat (jw_depth w))"
    using assms by (simp add: unat_word_ariths)
  show "jw_out (open_container arr w) = jw_out w @ (if arr then ''['' else ''{'')"
    "jw_depth (open_container arr w) = jw_depth w + 1" "over (open_container arr w) = over w"
    by (simp_all add: open_container_def Let_def ResetComma_def)
  show "unat (jw_depth (open_container arr w)) = Suc (unat (jw_depth w))"
    "\<not> bit (commas (open_container arr w)) (Suc (unat (jw_depth w)))"
    "bit (closes (open_container arr w)) (unat (jw_depth w)) = arr"
    "i \<le> unat (jw_depth w) \<Longrightarrow> bit (commas (open_container arr w)) i = bit (commas w) i"
    "i < unat (jw_depth w) \<Longrightarrow> bit (closes (open_container arr w)) i = bit (closes w) i"
    using assms d
    by (auto simp: open_container_def Let_def ResetComma_def bit_depth_bit bit_and_iff bit_or_iff bit_not_iff
        dest: bit_imp_le_length)
qed

lemma Close_eff:
  assumes "over w = 0" "unat (jw_depth w) = Suc d"
  shows "Close w = (Raw (if bit (closes w) d then '']'' else ''}'') w)\<lparr>jw_depth := jw_depth w - 1\<rparr>"
    "unat (jw_depth w - 1) = d"
proof -
  have nz: "jw_depth w \<noteq> 0" using assms(2) by auto
  then show d: "unat (jw_depth w - 1) = d" using assms(2) by (simp add: unat_minus_one)
  have "drop_bit d (closes w) AND 1 \<noteq> 0 \<longleftrightarrow> bit (closes w) d" by (simp add: and_one_eq bit_iff_odd_drop_bit odd_iff_mod_2_eq_one)
  then show "Close w = (Raw (if bit (closes w) d then '']'' else ''}'') w)\<lparr>jw_depth := jw_depth w - 1\<rparr>"
    using assms nz d by (simp add: Close_def Let_def Raw_def)
qed

lemma container_wrote:
  assumes d: "unat (jw_depth w) < 63" "over w = 0"
    and k: "wrote w k w1"
    and i: "below (open_container arr w1) w2" "jw_out w2 = jw_out (open_container arr w1) @ items"
  shows "wrote w (k @ (if arr then CHR ''['' else CHR ''{'') # items @ (if arr then '']'' else ''}'')) (End w2)"
proof -
  have dep: "jw_depth w1 = jw_depth w" "over w1 = 0" using k d(2) by (simp_all add: wrote_def below_def)
  note O = open_container_eff[where w = w1 and arr = arr, unfolded dep, OF d(1)]
  have w2: "over w2 = 0" "unat (jw_depth w2) = Suc (unat (jw_depth w))" "jw_depth w2 = jw_depth w + 1"
    using i(1) O(2-4) by (simp_all add: below_def)
  note C = Close_eff[OF w2(1,2)]
  have b: "bit (commas w2) j = bit (commas w1) j" "j < unat (jw_depth w) \<Longrightarrow> bit (closes w2) j = bit (closes w1) j"
    "bit (closes w2) (unat (jw_depth w)) = arr" if "j \<le> unat (jw_depth w)" for j
    using i(1) O(2,6-8) that by (auto simp: below_def)
  show ?thesis
    using k i(2) b O(1) w2 C(2) d(2) unfolding wrote_def below_def End_def C(1) by auto
qed

lemma below_trans: "below a b \<Longrightarrow> below b c \<Longrightarrow> below a c"
  by (simp add: below_def)

lemma items_wrote:
  assumes "\<And>x w. x \<in> set xs \<Longrightarrow> unat (jw_depth w) = d \<Longrightarrow> over w = 0 \<Longrightarrow> wrote w (item x) (fold (writer_call td) (calls x) w)"
    and "unat (jw_depth w) = d" "over w = 0"
  shows "below w (fold (writer_call td) (concat (map calls xs)) w) \<and>
    jw_out (fold (writer_call td) (concat (map calls xs)) w) =
      jw_out w @ (if bit (commas w) d then after_commas (map item xs) else commas_between (map item xs))"
  using assms
proof (induction xs arbitrary: w)
  case Nil
  show ?case by (simp add: below_def after_commas_def)
next
  case (Cons x xs)
  let ?w = "fold (writer_call td) (calls x) w"
  have w: "wrote w (item x) ?w" by (rule Cons.prems(1)) (simp_all add: Cons.prems)
  have d: "unat (jw_depth ?w) = d" "over ?w = 0" "bit (commas ?w) d"
    using w Cons.prems(2,3) by (simp_all add: wrote_def below_def)
  have "below ?w (fold (writer_call td) (concat (map calls xs)) ?w) \<and>
    jw_out (fold (writer_call td) (concat (map calls xs)) ?w) = jw_out ?w @ after_commas (map item xs)"
    using Cons.IH[of ?w] Cons.prems(1) d by simp
  then show ?case
    using w Cons.prems(2) by (simp add: wrote_def pending_comma_def after_commas_def below_trans[of w ?w])
qed

text \<open>The calls of a value append its text.\<close>

text \<open>An opening call, the items and \<open>End\<close>.\<close>

definition open_call :: "bool \<Rightarrow> string option \<Rightarrow> 'd json_call" where
  "open_call arr key =
     (case key of None \<Rightarrow> if arr then CallArr else CallObj | Some k \<Rightarrow> if arr then CallArrKey k else CallObjKey k)"

lemma open_call_wrote:
  assumes "unat (jw_depth w) < 63" "over w = 0"
  obtains w1 where "wrote w (key_text key) w1" "writer_call td (open_call arr key) w = open_container arr w1"
proof -
  have nd: "\<not> too_deep w" using assms by (simp add: too_deep_def JSON_MAX_DEPTH_def)
  have d: "unat (jw_depth w) < 64" using assms(1) by simp
  have "wrote w (key_text key) (Raw (key_text key) (Comma w))" using wrote_Raw[OF Comma_wrote(1)[OF d], of "key_text key"] by simp
  moreover have "writer_call td (open_call arr key) w = open_container arr (Raw (key_text key) (Comma w))"
    using nd by (simp add: open_call_def Arr_def ArrKey_def Obj_def ObjKey_def key_text_def quoted_writes split: option.splits)
  ultimately show thesis by (rule that)
qed

lemma container_calls_wrote:
  assumes d: "unat (jw_depth w) < 63" "over w = 0"
    and items: "\<And>x w'. x \<in> set xs \<Longrightarrow> unat (jw_depth w') = Suc (unat (jw_depth w)) \<Longrightarrow> over w' = 0 \<Longrightarrow>
      wrote w' (item x) (fold (writer_call td) (calls x) w')"
  shows "wrote w (key_text key @ (if arr then CHR ''['' else CHR ''{'') # commas_between (map item xs) @ (if arr then '']'' else ''}''))
    (fold (writer_call td) (open_call arr key # concat (map calls xs) @ [CallEnd]) w)"
proof -
  obtain w1 where k: "wrote w (key_text key) w1" "writer_call td (open_call arr key) w = open_container arr w1"
    using open_call_wrote[OF d] by blast
  have w1: "jw_depth w1 = jw_depth w" "over w1 = 0" using k d by (simp_all add: wrote_def below_def)
  note O = open_container_eff[where w = w1 and arr = arr, unfolded w1, OF d(1)]
  let ?w = "open_container arr w1"
  have "below ?w (fold (writer_call td) (concat (map calls xs)) ?w) \<and>
    jw_out (fold (writer_call td) (concat (map calls xs)) ?w) =
      jw_out ?w @ (if bit (commas ?w) (Suc (unat (jw_depth w))) then after_commas (map item xs) else commas_between (map item xs))"
    by (rule items_wrote) (use O(2,4) w1(2) items in simp_all)
  then have "below ?w (fold (writer_call td) (concat (map calls xs)) ?w)"
    "jw_out (fold (writer_call td) (concat (map calls xs)) ?w) = jw_out ?w @ commas_between (map item xs)"
    using O(5) by simp_all
  from container_wrote[OF d k(1) this] show ?thesis by (simp add: k(2))
qed

lemma calls_wrote:
  assumes "unat (jw_depth w) + json_height v \<le> 63" "over w = 0"
  shows "wrote w (key_text key @ render td v) (fold (writer_call td) (calls_of key v) w)"
  using assms
proof (induction v arbitrary: key w)
  case (ARRAY es)
  have d: "unat (jw_depth w) < 63" using ARRAY.prems(1) by simp
  have "wrote w' (render td e) (fold (writer_call td) (calls_of None e) w')"
    if e: "e \<in> set es" "unat (jw_depth w') = Suc (unat (jw_depth w))" "over w' = 0" for e w'
  proof -
    have "json_height e \<le> foldr max (map json_height es) 0" by (rule foldr_max_ge) (simp add: e(1))
    then have "unat (jw_depth w') + json_height e \<le> 63" using ARRAY.prems(1) e(2) by simp
    from ARRAY.IH[OF e(1) this e(3), of None] show ?thesis by (simp add: key_text_def)
  qed
  then have "wrote w (key_text key @ (if True then CHR ''['' else CHR ''{'') # commas_between (map (render td) es) @ (if True then '']'' else ''}''))
    (fold (writer_call td) (open_call True key # concat (map (calls_of None) es) @ [CallEnd]) w)"
    by (intro container_calls_wrote d ARRAY.prems(2))
  then show ?case by (simp only: render.simps calls_of.simps open_call_def if_True)
next
  case (OBJECT kvs)
  have d: "unat (jw_depth w) < 63" using OBJECT.prems(1) by simp
  have "wrote w' (quoted (fst m) @ CHR '':'' # render td (snd m)) (fold (writer_call td) (calls_of (Some (fst m)) (snd m)) w')"
    if m: "m \<in> set kvs" "unat (jw_depth w') = Suc (unat (jw_depth w))" "over w' = 0" for m w'
  proof -
    have "json_height (snd m) \<le> foldr max (map (\<lambda>kv. json_height (snd kv)) kvs) 0"
      using m(1) by (intro foldr_max_ge) simp
    then have "unat (jw_depth w') + json_height (snd m) \<le> 63" using OBJECT.prems(1) m(2) by simp
    from OBJECT.IH[OF m(1) _ this m(3), of "Some (fst m)"] show ?thesis by (cases m) (simp add: key_text_def)
  qed
  then have "wrote w (key_text key @ (if False then CHR ''['' else CHR ''{'') #
      commas_between (map (\<lambda>m. quoted (fst m) @ CHR '':'' # render td (snd m)) kvs) @ (if False then '']'' else ''}''))
    (fold (writer_call td) (open_call False key # concat (map (\<lambda>m. calls_of (Some (fst m)) (snd m)) kvs) @ [CallEnd]) w)"
    by (intro container_calls_wrote d OBJECT.prems(2))
  then show ?case by (simp only: render.simps calls_of.simps open_call_def if_False split_beta')
qed (rule scalar_wrote; simp)+

text \<open>The body of a response whose handler writes the members of an object is the text of the object.\<close>

lemma body_text:
  assumes "json_height (OBJECT kvs) \<le> 63"
  shows "json_body td (concat (map (\<lambda>(k, v). calls_of (Some k) v) kvs)) = render td (OBJECT kvs)"
proof -
  let ?w = "fold (writer_call td) (concat (map (\<lambda>(k, v). calls_of (Some k) v) kvs)) new_writer"
  have n: "unat (jw_depth new_writer) = 1" "over new_writer = 0" "commas new_writer = 0" "closes new_writer = 0" "jw_out new_writer = ''{''"
    by (simp_all add: new_writer_def)
  have "below new_writer ?w \<and> jw_out ?w = jw_out new_writer @
      (if bit (commas new_writer) 1 then after_commas (map (\<lambda>(k, v). quoted k @ CHR '':'' # render td v) kvs)
       else commas_between (map (\<lambda>(k, v). quoted k @ CHR '':'' # render td v) kvs))"
  proof (rule items_wrote)
    fix m and w :: json_writer assume m: "m \<in> set kvs" "unat (jw_depth w) = 1" "over w = 0"
    have "json_height (snd m) \<le> foldr max (map (\<lambda>kv. json_height (snd kv)) kvs) 0"
      using m(1) by (intro foldr_max_ge) simp
    then have "unat (jw_depth w) + json_height (snd m) \<le> 63" using assms m(2) by simp
    from calls_wrote[where key = "Some (fst m)" and td = td, OF this m(3)]
    show "wrote w (case m of (k, v) \<Rightarrow> quoted k @ CHR '':'' # render td v) (fold (writer_call td) (case m of (k, v) \<Rightarrow> calls_of (Some k) v) w)"
      by (simp add: key_text_def case_prod_beta)
  qed (simp_all add: n)
  then have w: "unat (jw_depth ?w) = Suc 0" "over ?w = 0" "\<not> bit (closes ?w) 0"
      "jw_out ?w = CHR ''{'' # commas_between (map (\<lambda>(k, v). quoted k @ CHR '':'' # render td v) kvs)"
    using n by (auto simp: below_def)
  note C = Close_eff[OF w(2,1)]
  have "jw_depth ?w - 1 = 0" using C(2) by (simp add: unat_eq_0)
  moreover have "jw_depth ?w \<noteq> 0" using w(1) by auto
  ultimately have "close_all ?w = Close ?w" by (simp add: close_all.simps[of ?w] C(1) close_all.simps[of "_\<lparr>jw_depth := 0\<rparr>"])
  then show ?thesis by (simp add: json_body_def C(1) w(3,4))
qed

end
