(* ===== verification/JsonProofs.thy ===== *)
theory JsonProofs
  imports JsonText
begin

text \<open>
  The JSON parser terminates within its fuel on every input, and what it accepts is well formed.
\<close>

section \<open>Every call consumes input\<close>

lemma SkipWS_length: "length (SkipWS xs) \<le> length xs"
  by (simp add: SkipWS_def length_dropWhile_le)

lemma Expect_length: "Expect c xs = Inr ys \<Longrightarrow> c \<noteq> NUL \<Longrightarrow> length ys < length xs"
  using SkipWS_length[of xs] by (cases "SkipWS xs") (auto simp: Expect_def Let_def Peek_def split: if_splits)

lemma scan_string_le: "scan_string xs = Inr (n, e) \<Longrightarrow> n < length xs"
  by (induction xs arbitrary: n) (auto simp: map_sum_Inr split: if_splits)

lemma escaped_loop_length: "escaped_loop out xs = Inr (s, ys) \<Longrightarrow> length ys \<le> length xs"
proof (induction out xs rule: escaped_loop.induct)
  case (1 out xs)
  show ?case
  proof (cases xs)
    case (Cons c cs)
    then show ?thesis
      using 1 by (auto simp: escaped_loop.simps[of out "c # cs"] split: if_splits sum.splits prod.splits)
        (fastforce dest: DecodeEscape_length)
  qed (use 1 in \<open>simp add: escaped_loop.simps\<close>)
qed

lemma ParseString_length: "ParseString v xs = Inr (s, ys) \<Longrightarrow> length ys < length xs"
proof -
  assume p: "ParseString v xs = Inr (s, ys)"
  then obtain zs n e where zs: "Expect (CHR 0x22) xs = Inr zs" "ScanString zs = Inr (n, e)"
    by (auto simp: ParseString_def split: sum.splits)
  note E = Expect_length[OF zs(1)]
  show ?thesis
  proof (cases e)
    case True
    then show ?thesis
      using p zs E by (auto simp: ParseString_def ParseStringEscaped_def map_sum_Inr dest: escaped_loop_length)
  next
    case False
    then show ?thesis using p zs E by (auto simp: ParseString_def)
  qed
qed

lemma parse_key_length: "parse_key xs = Inr (k, ys) \<Longrightarrow> length ys < length xs"
proof -
  assume p: "parse_key xs = Inr (k, ys)"
  then have "xs \<noteq> []" by (auto simp: parse_key_def Peek_def split: if_splits)
  then have "length (tl xs) < length xs" by simp
  then show ?thesis
    using p by (auto simp: parse_key_def Let_def split: if_splits sum.splits prod.splits json.splits dest: ParseString_length)
qed

lemma SkipDigits_length: "SkipDigits xs = Some ys \<Longrightarrow> length ys < length xs"
  by (cases xs) (auto simp: SkipDigits_def length_dropWhile_le le_imp_less_Suc split: if_splits)

lemma ScanNumber_length:
  assumes "ScanNumber xs = Inr (b, ys)"
  shows "length ys < length xs"
proof -
  obtain zs where z: "SkipDigits xs = Some zs" using assms by (auto simp: ScanNumber_def split: option.splits)
  obtain b' us where u: "(if zs \<noteq> [] \<and> hd zs = CHR ''.'' then (case SkipDigits (tl zs) of None \<Rightarrow> Fail ''invalid number'' (tl zs)
      | Some zs \<Rightarrow> Inr (True, zs)) else Inr (False, zs)) = (Inr (b', us) :: (bool \<times> string) parsed)"
    using assms z by (auto simp: ScanNumber_def split: sum.splits if_splits)
  have l: "length us \<le> length zs" using u by (auto split: if_splits option.splits dest: SkipDigits_length)
  have "length ys \<le> length us"
    using assms unfolding ScanNumber_def z option.case u sum.case prod.case
    by (auto simp: Let_def split: if_splits option.splits dest!: SkipDigits_length)
  then show ?thesis using l SkipDigits_length[OF z] by simp
qed

lemma ParseNumber_length: "ParseNumber fd xs = Inr (v, ys) \<Longrightarrow> length ys < length xs"
proof -
  assume p: "ParseNumber fd xs = Inr (v, ys)"
  obtain b zs where z: "ScanNumber (if Peek xs = CHR ''-'' then tl xs else xs) = Inr (b, zs)"
    using p by (auto simp: ParseNumber_def Let_def split: sum.splits)
  have "zs = ys" using p z by (auto simp: ParseNumber_def Let_def split: if_splits option.splits from_chars_result.splits)
  then show ?thesis using ScanNumber_length[OF z] by (auto split: if_splits)
qed

text \<open>Bodies: if the calls they make consume input, so do they.\<close>

abbreviation shrinks :: "(string \<Rightarrow> ('a \<times> string) parsed) \<Rightarrow> bool" where
  "shrinks p \<equiv> \<forall>xs v ys. p xs = Inr (v, ys) \<longrightarrow> length ys < length xs"

lemma value_body_shrinks:
  assumes "shrinks po" "shrinks pa"
  shows "shrinks (value_body po pa opt)"
proof (intro allI impI)
  fix xs v ys assume p: "value_body po pa opt xs = Inr (v, ys)"
  let ?s = "SkipWS xs"
  have "length ys < length ?s"
    using p assms unfolding value_body_def Let_def
    by (auto split: if_splits dest: ParseString_length ParseNumber_length)
  then show "length ys < length xs" using SkipWS_length[of xs] by simp
qed

lemma container_body_shrinks:
  assumes "\<And>d. shrinks (loop d)"
    and "c \<noteq> NUL"
  shows "shrinks (container_body c e loop opt d)"
proof (intro allI impI)
  fix xs v ys assume p: "container_body c e loop opt d xs = Inr (v, ys)"
  let ?z = "SkipWS (tl xs)"
  have "length ?z \<le> length xs - 1" using SkipWS_length[of "tl xs"] by simp
  moreover have "length ys < length ?z"
  proof (cases "Peek ?z = c")
    case True
    then have "?z \<noteq> []" using assms(2) by (auto simp: Peek_def)
    moreover have "ys = tl ?z" using p True by (auto simp: container_body_def Let_def split: if_splits)
    ultimately show ?thesis by simp
  next
    case False
    then show ?thesis using p assms(1) by (auto simp: container_body_def Let_def split: if_splits)
  qed
  ultimately show "length ys < length xs" by linarith
qed

lemma object_loop_body_shrinks:
  assumes "shrinks pv" "\<And>kvs. shrinks (loop kvs)"
  shows "shrinks (object_loop_body pv loop kvs)"
proof (intro allI impI)
  fix xs v ys assume p: "object_loop_body pv loop kvs xs = Inr (v, ys)"
  then obtain k as bs u us where k: "parse_key (SkipWS xs) = Inr (k, as)" "Expect (CHR '':'') as = Inr bs"
    "pv (SkipWS bs) = Inr (u, us)"
    by (auto simp: object_loop_body_def split: sum.splits prod.splits if_splits)
  have l: "length (SkipWS us) < length xs"
    using parse_key_length[OF k(1)] Expect_length[OF k(2)] assms(1) k(3) SkipWS_length[of xs] SkipWS_length[of bs] SkipWS_length[of us]
    by fastforce
  have "length ys \<le> length (SkipWS us)"
    using p k assms(2) unfolding object_loop_body_def Let_def
    by (auto split: if_splits) (metis diff_le_self length_tl less_imp_le order.trans)+
  then show "length ys < length xs" using l by simp
qed

lemma array_loop_body_shrinks:
  assumes "shrinks pv" "\<And>es. shrinks (loop es)"
  shows "shrinks (array_loop_body pv loop es)"
proof (intro allI impI)
  fix xs v ys assume p: "array_loop_body pv loop es xs = Inr (v, ys)"
  then obtain u us where k: "pv (SkipWS xs) = Inr (u, us)" by (auto simp: array_loop_body_def split: sum.splits)
  have l: "length (SkipWS us) < length xs"
    using assms(1) k SkipWS_length[of xs] SkipWS_length[of us] by fastforce
  have "length ys \<le> length (SkipWS us)"
    using p k assms(2) unfolding array_loop_body_def Let_def
    by (auto split: if_splits) (metis diff_le_self length_tl less_imp_le order.trans)+
  then show "length ys < length xs" using l by simp
qed

lemma parse_shrinks_all:
  "(\<forall>d. shrinks (ParseValue f opt d)) \<and> (\<forall>d. shrinks (ParseObject f opt d)) \<and> (\<forall>d. shrinks (ParseArray f opt d)) \<and>
    (\<forall>d kvs. shrinks (object_loop f opt d kvs)) \<and> (\<forall>d es. shrinks (array_loop f opt d es))"
proof (induction f)
    case 0
    show ?case by (simp add: parse_0)
  next
    case (Suc f)
    note IH = Suc.IH[THEN conjunct1, rule_format] Suc.IH[THEN conjunct2, THEN conjunct1, rule_format]
      Suc.IH[THEN conjunct2, THEN conjunct2, THEN conjunct1, rule_format]
      Suc.IH[THEN conjunct2, THEN conjunct2, THEN conjunct2, THEN conjunct1, rule_format]
      Suc.IH[THEN conjunct2, THEN conjunct2, THEN conjunct2, THEN conjunct2, rule_format]
    have v: "shrinks (value_body (ParseObject f opt d) (ParseArray f opt d) opt)" for d
      by (rule value_body_shrinks) (use IH(2,3) in blast)+
    have o: "shrinks (container_body (CHR ''}'') (OBJECT []) (\<lambda>d. object_loop f opt d []) opt d)" for d
      by (rule container_body_shrinks) (use IH(4) in \<open>blast, simp\<close>)
    have a: "shrinks (container_body (CHR '']'') (ARRAY []) (\<lambda>d. array_loop f opt d []) opt d)" for d
      by (rule container_body_shrinks) (use IH(5) in \<open>blast, simp\<close>)
    have ol: "shrinks (object_loop_body (ParseValue f opt d) (object_loop f opt d) kvs)" for d kvs
      by (rule object_loop_body_shrinks) (use IH(1,4) in blast)+
    have al: "shrinks (array_loop_body (ParseValue f opt d) (array_loop f opt d) es)" for d es
      by (rule array_loop_body_shrinks) (use IH(1,5) in blast)+
    show ?case unfolding parse_Suc using v o a ol al by blast
  qed

lemma parse_shrinks:
  "ParseValue f opt d xs = Inr (v, ys) \<Longrightarrow> length ys < length xs"
  "ParseObject f opt d xs = Inr (v, ys) \<Longrightarrow> length ys < length xs"
  "ParseArray f opt d xs = Inr (v, ys) \<Longrightarrow> length ys < length xs"
  "object_loop f opt d kvs xs = Inr (v, ys) \<Longrightarrow> length ys < length xs"
  "array_loop f opt d es xs = Inr (v, ys) \<Longrightarrow> length ys < length xs"
  subgoal by (rule parse_shrinks_all[of f opt, THEN conjunct1, rule_format])
  subgoal by (rule parse_shrinks_all[of f opt, THEN conjunct2, THEN conjunct1, rule_format])
  subgoal by (rule parse_shrinks_all[of f opt, THEN conjunct2, THEN conjunct2, THEN conjunct1, rule_format])
  subgoal by (rule parse_shrinks_all[of f opt, THEN conjunct2, THEN conjunct2, THEN conjunct2, THEN conjunct1, rule_format])
  subgoal by (rule parse_shrinks_all[of f opt, THEN conjunct2, THEN conjunct2, THEN conjunct2, THEN conjunct2, rule_format])
  done

section \<open>The fuel is enough\<close>

text \<open>An error that is the parser's own.\<close>

definition own_error :: "'a parsed \<Rightarrow> bool" where
  "own_error r \<longleftrightarrow> (\<forall>e. r = Inl e \<longrightarrow> err_msg e \<noteq> ''out of fuel'')"

lemma own_error_simps [simp]:
  "own_error (Inr x)" "own_error (Inl (JsonError m n)) \<longleftrightarrow> m \<noteq> ''out of fuel''"
  by (simp_all add: own_error_def)

lemma own_error_case:
  "own_error r \<Longrightarrow> (\<And>x. r = Inr x \<Longrightarrow> own_error (g x)) \<Longrightarrow> own_error (case r of Inl e \<Rightarrow> Inl e | Inr x \<Rightarrow> g x)"
  by (cases r) (auto simp: own_error_def)

lemma own_error_map [simp]: "own_error (map_sum id g r) = own_error r"
  by (cases r) (auto simp: own_error_def)

lemma hex4_own: "own_error (hex4_loop n cp xs)"
  by (induction n cp xs rule: hex4_loop.induct) (auto split: option.splits)

lemma decode_u_own: "own_error (decode_u xs)"
  unfolding decode_u_def DecodeHex4_def by (rule own_error_case) (auto simp: hex4_own split: prod.splits intro!: own_error_case)

lemma DecodeEscape_own: "own_error (DecodeEscape xs)"
  by (cases xs) (auto simp: DecodeEscape_def decode_u_own)

lemma escaped_loop_own: "own_error (escaped_loop out xs)"
proof (induction out xs rule: escaped_loop.induct)
  case (1 out xs)
  show ?case
  proof (cases xs)
    case (Cons c cs)
    then show ?thesis
      using 1 DecodeEscape_own[of cs] by (simp add: escaped_loop.simps[of out "c # cs"] split: prod.splits)
        (auto intro!: own_error_case split: prod.splits)
  qed (simp add: escaped_loop.simps)
qed

lemma Expect_own: "own_error (Expect c xs)"
  by (simp add: Expect_def Let_def)

lemma scan_string_msg: "scan_string xs = Inl m \<Longrightarrow> m \<noteq> ''out of fuel''"
  by (induction xs) (auto split: if_splits sum.splits simp: map_sum_def)

lemma ScanString_own: "own_error (ScanString xs)"
  using scan_string_msg[of xs] by (cases "scan_string xs") (auto simp: ScanString_def)

lemma ParseString_own: "own_error (ParseString v xs)"
  unfolding ParseString_def ParseStringEscaped_def
  by (intro own_error_case Expect_own) (auto simp: escaped_loop_own split: prod.splits intro!: own_error_case ScanString_own)

lemma parse_key_own: "own_error (parse_key xs)"
proof -
  have "own_error (case ParseString False xs :: (unit json \<times> string) parsed of Inl e \<Rightarrow> Inl e
      | Inr (STR_OWN k, zs) \<Rightarrow> Inr (k, zs) | Inr (_, zs) \<Rightarrow> Fail ''unreachable'' zs)"
    by (rule own_error_case[OF ParseString_own]) (simp split: prod.splits json.splits)
  then have "own_error (case x of (n, e) \<Rightarrow> if \<not> e then Inr (take n (tl xs), drop (n + 1) (tl xs))
      else case ParseString False xs :: (unit json \<times> string) parsed of Inl e \<Rightarrow> Inl e
        | Inr (STR_OWN k, zs) \<Rightarrow> Inr (k, zs) | Inr (_, zs) \<Rightarrow> Fail ''unreachable'' zs)" for x :: "nat \<times> bool"
    by (cases x) simp
  from own_error_case[OF ScanString_own this] show ?thesis by (simp add: parse_key_def Let_def)
qed

lemma ScanNumber_own: "own_error (ScanNumber xs)"
proof (cases "SkipDigits xs")
  case (Some ys)
  show ?thesis
    unfolding ScanNumber_def Some option.case
  proof (rule own_error_case)
    show "own_error (if ys \<noteq> [] \<and> hd ys = CHR ''.'' then (case SkipDigits (tl ys) of None \<Rightarrow> Fail ''invalid number'' (tl ys)
        | Some zs \<Rightarrow> Inr (True, zs)) else Inr (False, ys))" by (simp split: option.splits)
  next
    fix x :: "bool \<times> string"
    show "own_error (case x of (isFloat, zs) \<Rightarrow>
        if zs \<noteq> [] \<and> (hd zs = CHR ''e'' \<or> hd zs = CHR ''E'') then
          let us = (if tl zs \<noteq> [] \<and> (hd (tl zs) = CHR ''+'' \<or> hd (tl zs) = CHR ''-'') then tl (tl zs) else tl zs)
          in (case SkipDigits us of None \<Rightarrow> Fail ''invalid number'' us | Some vs \<Rightarrow> Inr (True, vs))
        else Inr (isFloat, zs))" by (simp add: Let_def split: prod.splits option.splits)
  qed
qed (simp add: ScanNumber_def)

lemma ParseNumber_own: "own_error (ParseNumber fd xs)"
  unfolding ParseNumber_def Let_def
  by (rule own_error_case[OF ScanNumber_own]) (simp split: option.splits prod.splits from_chars_result.splits)

lemma fuel_enough:
  "(\<forall>d xs. 3 * length xs + 3 \<le> f \<longrightarrow> own_error (ParseValue f opt d xs)) \<and>
   (\<forall>d xs. 3 * length xs + 2 \<le> f \<longrightarrow> own_error (ParseObject f opt d xs)) \<and>
   (\<forall>d xs. 3 * length xs + 2 \<le> f \<longrightarrow> xs \<noteq> [] \<longrightarrow> own_error (ParseArray f opt d xs)) \<and>
   (\<forall>d kvs xs. 3 * length xs + 1 \<le> f \<longrightarrow> own_error (object_loop f opt d kvs xs)) \<and>
   (\<forall>d es xs. 3 * length xs + 4 \<le> f \<longrightarrow> own_error (array_loop f opt d es xs))"
proof (induction f)
  case (Suc f)
  have ws: "length (SkipWS xs) \<le> length xs" for xs by (rule SkipWS_length)
  have IH: "3 * length xs + 3 \<le> f \<Longrightarrow> own_error (ParseValue f opt d xs)"
    "3 * length xs + 2 \<le> f \<Longrightarrow> own_error (ParseObject f opt d xs)"
    "3 * length xs + 2 \<le> f \<Longrightarrow> xs \<noteq> [] \<Longrightarrow> own_error (ParseArray f opt d xs)"
    "3 * length xs + 1 \<le> f \<Longrightarrow> own_error (object_loop f opt d kvs xs)"
    "3 * length xs + 4 \<le> f \<Longrightarrow> own_error (array_loop f opt d es xs)" for d xs kvs es
    using Suc.IH by blast+
  have tl: "xs \<noteq> [] \<Longrightarrow> Suc (length (SkipWS (tl xs))) \<le> length xs" for xs using ws[of "tl xs"] by (cases xs) auto
  have v: "own_error (ParseValue (Suc f) opt d xs)" if "3 * length xs + 3 \<le> Suc f" for d xs
  proof -
    have "own_error (ParseObject f opt d (SkipWS xs))" "SkipWS xs \<noteq> [] \<Longrightarrow> own_error (ParseArray f opt d (SkipWS xs))"
      using that ws[of xs] by (auto intro!: IH(2,3))
    then show ?thesis unfolding parse_Suc value_body_def Let_def by (simp add: ParseString_own ParseNumber_own)
  qed
  have o: "own_error (ParseObject (Suc f) opt d xs)" if "3 * length xs + 2 \<le> Suc f" for d xs
    unfolding parse_Suc container_body_def Let_def using that ws[of "tl xs"] by (auto intro!: IH)
  have a: "own_error (ParseArray (Suc f) opt d xs)" if "3 * length xs + 2 \<le> Suc f" "xs \<noteq> []" for d xs
    unfolding parse_Suc container_body_def Let_def using that tl[of xs] by (auto intro!: IH)
  have ol: "own_error (object_loop (Suc f) opt d kvs xs)" if "3 * length xs + 1 \<le> Suc f" for d kvs xs
    unfolding parse_Suc object_loop_body_def
  proof (intro own_error_case parse_key_own, clarsimp simp del: not_None_eq)
    fix k as assume k: "parse_key (SkipWS xs) = Inr (k, as)" "k \<notin> fst ` set kvs"
    have l1: "length as < length xs" using parse_key_length[OF k(1)] ws[of xs] by simp
    show "own_error (case Expect (CHR '':'') as of Inl e \<Rightarrow> Inl e
      | Inr zs \<Rightarrow> (case ParseValue f opt d (SkipWS zs) of Inl e \<Rightarrow> Inl e
        | Inr (v, us) \<Rightarrow> let vs = SkipWS us in
            if Peek vs = CHR ''}'' then Inr (OBJECT (kvs @ [(k, v)]), tl vs)
            else if Peek vs \<noteq> CHR '','' then Fail (expected_comma_or (CHR ''}'')) vs
            else object_loop f opt d (kvs @ [(k, v)]) (tl vs)))"
    proof (rule own_error_case[OF Expect_own])
      fix zs assume e: "Expect (CHR '':'') as = Inr zs"
      have l2: "length (SkipWS zs) < length as" using Expect_length[OF e] ws[of zs] by simp
      show "own_error (case ParseValue f opt d (SkipWS zs) of Inl e \<Rightarrow> Inl e
        | Inr (v, us) \<Rightarrow> let vs = SkipWS us in
            if Peek vs = CHR ''}'' then Inr (OBJECT (kvs @ [(k, v)]), tl vs)
            else if Peek vs \<noteq> CHR '','' then Fail (expected_comma_or (CHR ''}'')) vs
            else object_loop f opt d (kvs @ [(k, v)]) (tl vs))"
      proof (rule own_error_case)
        show "own_error (ParseValue f opt d (SkipWS zs))" using l1 l2 that by (intro IH) simp
        fix x assume x: "ParseValue f opt d (SkipWS zs) = Inr x"
        obtain u us where u: "x = (u, us)" by (cases x)
        have "length us < length (SkipWS zs)" using parse_shrinks(1) x u by blast
        then have "length (tl (SkipWS us)) < length xs" using l1 l2 ws[of us] by simp
        then show "own_error (case x of (v, us) \<Rightarrow> let vs = SkipWS us in
            if Peek vs = CHR ''}'' then Inr (OBJECT (kvs @ [(k, v)]), tl vs)
            else if Peek vs \<noteq> CHR '','' then Fail (expected_comma_or (CHR ''}'')) vs
            else object_loop f opt d (kvs @ [(k, v)]) (tl vs))"
          using that by (auto simp: u Let_def intro!: IH)
      qed
    qed
  qed
  have al: "own_error (array_loop (Suc f) opt d es xs)" if "3 * length xs + 4 \<le> Suc f" for d es xs
    unfolding parse_Suc array_loop_body_def
  proof (rule own_error_case)
    show "own_error (ParseValue f opt d (SkipWS xs))" using ws[of xs] that by (intro IH) simp
    fix x assume x: "ParseValue f opt d (SkipWS xs) = Inr x"
    obtain u us where u: "x = (u, us)" by (cases x)
    have "length us < length (SkipWS xs)" using parse_shrinks(1) x u by blast
    then have "length (tl (SkipWS us)) < length xs" using ws[of us] ws[of xs] by simp
    then show "own_error (case x of (v, us) \<Rightarrow> let vs = SkipWS us in
          if Peek vs = CHR '']'' then Inr (ARRAY (es @ [v]), tl vs)
          else if Peek vs \<noteq> CHR '','' then Fail (expected_comma_or (CHR '']'')) vs
          else array_loop f opt d (es @ [v]) (tl vs))"
      using that by (auto simp: u Let_def intro!: IH)
  qed
  show ?case using v o a ol al by blast
qed simp

section \<open>Accepted documents are well formed\<close>

fun json_wf :: "bool \<Rightarrow> 'd json \<Rightarrow> bool" where
  "json_wf views (STR_VIEW _) \<longleftrightarrow> views"
| "json_wf views (INT64 i) \<longleftrightarrow> - (2 ^ 63) \<le> i \<and> i \<le> 0"
| "json_wf views (ARRAY es) \<longleftrightarrow> (\<forall>e \<in> set es. json_wf views e)"
| "json_wf views (OBJECT kvs) \<longleftrightarrow> distinct (map fst kvs) \<and> (\<forall>kv \<in> set kvs. json_wf views (snd kv))"
| "json_wf views _ \<longleftrightarrow> True"

text \<open>The value fits below a depth.\<close>

definition fits :: "'d json_opts \<Rightarrow> u32 \<Rightarrow> 'd json \<Rightarrow> bool" where
  "fits opt d v \<longleftrightarrow> json_wf (storeViews opt) v \<and> unat d + json_height v \<le> unat (depthLimit opt)"

lemma ParseString_fits:
  "ParseString (storeViews opt) xs = Inr (v, ys) \<Longrightarrow> d \<le> depthLimit opt \<Longrightarrow> fits opt d v"
  by (auto simp: ParseString_def ParseStringEscaped_def fits_def map_sum_Inr word_le_nat_alt split: sum.splits if_splits)

lemma negative_range:
  assumes "from_chars_signed lo hi (take m xs) = FcOk v n" "Peek xs = CHR ''-''" "0 < m"
  shows "lo \<le> v \<and> v \<le> 0"
proof -
  obtain zs k where "xs = CHR ''-'' # zs" "m = Suc k" using assms(2,3) by (cases xs; cases m) (auto simp: Peek_def)
  then show ?thesis using assms(1) by (auto simp: from_chars_signed_def Let_def split: if_splits)
qed

lemma ParseNumber_fits:
  assumes p: "ParseNumber fd xs = Inr (v, ys)" and d: "d \<le> depthLimit opt"
  shows "fits opt d v"
proof -
  have m: "0 < length xs - length ys" using ParseNumber_length[OF p] by simp
  have "json_wf (storeViews opt) v \<and> json_height v = 0"
  proof (cases v)
    case (INT64 i)
    then obtain n where "from_chars_signed (- (2 ^ 63)) (2 ^ 63 - 1) (take (length xs - length ys) xs) = FcOk i n" "Peek xs = CHR ''-''"
      using p by (auto simp: ParseNumber_def Let_def split: sum.splits if_splits option.splits from_chars_result.splits)
    from negative_range[OF this m] show ?thesis using INT64 by simp
  qed (use p in \<open>auto simp: ParseNumber_def Let_def split: sum.splits if_splits option.splits from_chars_result.splits\<close>)
  then show ?thesis using d by (simp add: fits_def word_le_nat_alt)
qed

lemma next_depth:
  assumes "l \<noteq> 0xFFFFFFFF" "d \<le> l"
  shows "unat (d + 1 :: u32) = Suc (unat d)"
proof -
  have "unat l \<noteq> unat (0xFFFFFFFF :: u32)" using assms(1) by (simp only: word_unat_eq_iff not_False_eq_True)
  then have "unat l < 4294967295" using unat_u32_lt[of l] by simp
  moreover have "unat d \<le> unat l" using assms(2) by (simp add: word_le_nat_alt)
  ultimately have "unat d + 1 < 2 ^ 32" by simp
  then show ?thesis by (simp add: unat_add_u32)
qed

lemma container_fits:
  assumes "l = depthLimit opt" "l \<noteq> 0xFFFFFFFF" "d \<le> l"
    and "container_body c e loop opt d xs = Inr (v, ys)" "json_wf (storeViews opt) e" "json_height e = 1"
    and "\<And>zs. d + 1 \<le> l \<Longrightarrow> loop (d + 1) zs = Inr (v, ys) \<Longrightarrow> fits opt d v"
  shows "fits opt d v"
proof -
  have le: "d + 1 \<le> l" using assms(1,4) by (auto simp: container_body_def Let_def split: if_splits)
  then have "Suc (unat d) \<le> unat l" using next_depth[OF assms(2,3)] by (simp add: word_le_nat_alt)
  then have "fits opt d e" using assms(1,5,6) by (simp add: fits_def)
  then show ?thesis using assms(4,7) le by (auto simp: container_body_def Let_def split: if_splits)
qed

definition members_fit :: "'d json_opts \<Rightarrow> u32 \<Rightarrow> (string \<times> 'd json) list \<Rightarrow> bool" where
  "members_fit opt d kvs \<longleftrightarrow> distinct (map fst kvs) \<and> (\<forall>kv \<in> set kvs. fits opt d (snd kv))"

lemma fits_containers:
  assumes "unat d' = Suc (unat d)" "d' \<le> depthLimit opt"
  shows "members_fit opt d' kvs \<Longrightarrow> fits opt d (OBJECT kvs)" "(\<forall>e \<in> set es. fits opt d' e) \<Longrightarrow> fits opt d (ARRAY es)"
proof -
  obtain n where n: "unat (depthLimit opt) = Suc (unat d) + n" using assms by (auto simp: word_le_nat_alt le_iff_add)
  have f: "fits opt d' v \<longleftrightarrow> json_wf (storeViews opt) v \<and> json_height v \<le> n" for v using assms(1) n by (simp add: fits_def)
  show "members_fit opt d' kvs \<Longrightarrow> fits opt d (OBJECT kvs)" "(\<forall>e \<in> set es. fits opt d' e) \<Longrightarrow> fits opt d (ARRAY es)"
    unfolding members_fit_def f by (auto simp: fits_def n foldr_max_le)
qed

lemma parse_fits:
  assumes small: "depthLimit opt \<noteq> 0xFFFFFFFF"
  shows "(\<forall>d xs v ys. d \<le> depthLimit opt \<longrightarrow> ParseValue f opt d xs = Inr (v, ys) \<longrightarrow> fits opt d v) \<and>
    (\<forall>d xs v ys. d \<le> depthLimit opt \<longrightarrow> ParseObject f opt d xs = Inr (v, ys) \<longrightarrow> fits opt d v) \<and>
    (\<forall>d xs v ys. d \<le> depthLimit opt \<longrightarrow> ParseArray f opt d xs = Inr (v, ys) \<longrightarrow> fits opt d v) \<and>
    (\<forall>d d' kvs xs v ys. d' \<le> depthLimit opt \<longrightarrow> unat d' = Suc (unat d) \<longrightarrow> members_fit opt d' kvs \<longrightarrow>
       object_loop f opt d' kvs xs = Inr (v, ys) \<longrightarrow> fits opt d v) \<and>
    (\<forall>d d' es xs v ys. d' \<le> depthLimit opt \<longrightarrow> unat d' = Suc (unat d) \<longrightarrow> (\<forall>e \<in> set es. fits opt d' e) \<longrightarrow>
       array_loop f opt d' es xs = Inr (v, ys) \<longrightarrow> fits opt d v)"
proof (induction f)
  case 0
  show ?case by (simp add: parse_0)
next
  case (Suc f)
  have IH: "d \<le> depthLimit opt \<Longrightarrow> ParseValue f opt d xs = Inr (v, ys) \<Longrightarrow> fits opt d v"
    "d \<le> depthLimit opt \<Longrightarrow> ParseObject f opt d xs = Inr (v, ys) \<Longrightarrow> fits opt d v"
    "d \<le> depthLimit opt \<Longrightarrow> ParseArray f opt d xs = Inr (v, ys) \<Longrightarrow> fits opt d v"
    "d' \<le> depthLimit opt \<Longrightarrow> unat d' = Suc (unat d) \<Longrightarrow> members_fit opt d' kvs \<Longrightarrow>
       object_loop f opt d' kvs xs = Inr (v, ys) \<Longrightarrow> fits opt d v"
    "d' \<le> depthLimit opt \<Longrightarrow> unat d' = Suc (unat d) \<Longrightarrow> (\<And>e. e \<in> set es \<Longrightarrow> fits opt d' e) \<Longrightarrow>
       array_loop f opt d' es xs = Inr (v, ys) \<Longrightarrow> fits opt d v" for d d' xs v ys kvs es
    subgoal by (rule Suc.IH[THEN conjunct1, rule_format])
    subgoal by (rule Suc.IH[THEN conjunct2, THEN conjunct1, rule_format])
    subgoal by (rule Suc.IH[THEN conjunct2, THEN conjunct2, THEN conjunct1, rule_format])
    subgoal by (rule Suc.IH[THEN conjunct2, THEN conjunct2, THEN conjunct2, THEN conjunct1, rule_format])
    subgoal by (rule Suc.IH[THEN conjunct2, THEN conjunct2, THEN conjunct2, THEN conjunct2, rule_format])
    done
  have v: "fits opt d v" if d: "d \<le> depthLimit opt" and p: "ParseValue (Suc f) opt d xs = Inr (v, ys)" for d xs v ys
  proof -
    have "fits opt d EMPTY" "fits opt d (BOOL b)" for b using d by (simp_all add: fits_def word_le_nat_alt)
    then show ?thesis using p d unfolding parse_Suc value_body_def Let_def
      using IH(2,3)[OF d, of "SkipWS xs" v ys] ParseString_fits[of opt "SkipWS xs" v ys d] ParseNumber_fits[of _ "SkipWS xs" v ys d opt]
      by (simp split: if_splits; metis)
  qed
  have o: "fits opt d v" if d: "d \<le> depthLimit opt" and p: "ParseObject (Suc f) opt d xs = Inr (v, ys)" for d xs v ys
  proof (rule container_fits[OF refl small d p[unfolded parse_Suc]])
    fix zs assume le: "d + 1 \<le> depthLimit opt" and l: "object_loop f opt (d + 1) [] zs = Inr (v, ys)"
    show "fits opt d v" by (rule IH(4)[OF le next_depth[OF small d] _ l]) (simp add: members_fit_def)
  qed simp_all
  have a: "fits opt d v" if d: "d \<le> depthLimit opt" and p: "ParseArray (Suc f) opt d xs = Inr (v, ys)" for d xs v ys
  proof (rule container_fits[OF refl small d p[unfolded parse_Suc]])
    fix zs assume le: "d + 1 \<le> depthLimit opt" and l: "array_loop f opt (d + 1) [] zs = Inr (v, ys)"
    show "fits opt d v" by (rule IH(5)[OF le next_depth[OF small d] _ l]) simp
  qed simp_all
  have ol: "fits opt d v" if d: "d' \<le> depthLimit opt" "unat d' = Suc (unat d)" and m: "members_fit opt d' kvs"
    and p: "object_loop (Suc f) opt d' kvs xs = Inr (v, ys)" for d d' kvs xs v ys
  proof -
    obtain k as bs u us where k: "parse_key (SkipWS xs) = Inr (k, as)" "k \<notin> fst ` set kvs" "Expect (CHR '':'') as = Inr bs"
      "ParseValue f opt d' (SkipWS bs) = Inr (u, us)"
      using p unfolding parse_Suc by (auto simp: object_loop_body_def split: sum.splits prod.splits if_splits)
    have "members_fit opt d' (kvs @ [(k, u)])" using m k(2) IH(1)[OF d(1) k(4)] by (auto simp: members_fit_def)
    then show ?thesis
      using p k unfolding parse_Suc object_loop_body_def Let_def
      by (auto split: if_splits intro: fits_containers(1)[OF d(2,1)] IH(4)[OF d])
  qed
  have al: "fits opt d v" if d: "d' \<le> depthLimit opt" "unat d' = Suc (unat d)" and m: "\<forall>e \<in> set es. fits opt d' e"
    and p: "array_loop (Suc f) opt d' es xs = Inr (v, ys)" for d d' es xs v ys
  proof -
    obtain u us where k: "ParseValue f opt d' (SkipWS xs) = Inr (u, us)"
      using p unfolding parse_Suc by (auto simp: array_loop_body_def split: sum.splits)
    have m': "\<forall>e \<in> set (es @ [u]). fits opt d' e" using m IH(1)[OF d(1) k] by auto
    consider "v = ARRAY (es @ [u])" | "array_loop f opt d' (es @ [u]) (tl (SkipWS us)) = Inr (v, ys)"
      using p k unfolding parse_Suc array_loop_body_def Let_def by (auto split: if_splits)
    then show ?thesis
    proof cases
      case 1
      then show ?thesis using fits_containers(2)[OF d(2,1) m'] by simp
    next
      case 2
      then show ?thesis using IH(5)[OF d _ 2] m' by blast
    qed
  qed
  show ?case by (intro conjI allI impI; (erule (1) v o a | erule (3) ol al))
qed

lemma container_result:
  "ParseObject f opt d xs = Inr (v, ys) \<Longrightarrow> 1 \<le> json_height v" "ParseArray f opt d xs = Inr (v, ys) \<Longrightarrow> 1 \<le> json_height v"
proof -
  have o: "object_loop f opt d kvs xs = Inr (v, ys) \<Longrightarrow> 1 \<le> json_height v" for f d kvs xs
  proof (induction f arbitrary: kvs xs)
    case (Suc f)
    then show ?case by (auto simp: parse_Suc object_loop_body_def Let_def split: sum.splits if_splits)
  qed (simp add: parse_0)
  have a: "array_loop f opt d es xs = Inr (v, ys) \<Longrightarrow> 1 \<le> json_height v" for f d es xs
  proof (induction f arbitrary: es xs)
    case (Suc f)
    then show ?case by (auto simp: parse_Suc array_loop_body_def Let_def split: sum.splits if_splits)
  qed (simp add: parse_0)
  show "ParseObject f opt d xs = Inr (v, ys) \<Longrightarrow> 1 \<le> json_height v" "ParseArray f opt d xs = Inr (v, ys) \<Longrightarrow> 1 \<le> json_height v"
    by (cases f; auto simp: parse_0 parse_Suc container_body_def Let_def dest: o a split: if_splits)+
qed

text \<open>C25. A document the parser accepts is well formed: no object has a key twice, strings refer into the
  input only if views were asked for, negative integers fit 64 bits, the root is a container and the
  nesting is within the depth limit.\<close>

theorem parse_accepts_well_formed:
  assumes "ParseImpl opt body = Inr v" "depthLimit opt \<noteq> 0xFFFFFFFF"
  shows "json_wf (storeViews opt) v \<and> json_height v \<le> unat (depthLimit opt) \<and> 1 \<le> json_height v"
proof -
  let ?x = "SkipWS body" let ?f = "3 * length body + 3"
  obtain ys where p: "(if Peek ?x = CHR ''{'' then ParseObject ?f opt 0 ?x else ParseArray ?f opt 0 ?x) = Inr (v, ys)"
    using assms(1) by (auto simp: ParseImpl_def Let_def split: if_splits sum.splits)
  have z: "0 \<le> depthLimit opt" by (rule word_zero_le)
  note F = parse_fits[OF assms(2), of ?f, THEN conjunct2]
  have "fits opt 0 v"
  proof (cases "Peek ?x = CHR ''{''")
    case True
    show ?thesis by (rule F[THEN conjunct1, rule_format, OF z]) (use p True in simp)
  next
    case False
    show ?thesis by (rule F[THEN conjunct2, THEN conjunct1, rule_format, OF z]) (use p False in simp)
  qed
  moreover have "1 \<le> json_height v"
    using p container_result[of ?f opt 0 ?x v ys] by (auto split: if_splits)
  ultimately show ?thesis by (simp add: fits_def)
qed

lemma parse_accepts_well_formed_witness:
  "let opt = \<lparr>storeViews = False, depthLimit = 64, from_double = (\<lambda>_. None :: unit option)\<rparr>;
     v = OBJECT [(''a'', ARRAY [UINT64 1, INT64 (- 2)]), (''b'', STR_OWN ''x'')] :: unit json
   in json_wf (storeViews opt) v \<and> json_height v \<le> unat (depthLimit opt) \<and> 1 \<le> json_height v"
  unfolding Let_def
  by (rule parse_accepts_well_formed[where body = "'' {'' @ [CHR 0x22] @ ''a'' @ [CHR 0x22] @ '':[1 ,-2],'' @ [CHR 0x22] @ ''b'' @ [CHR 0x22] @ '':'' @
    [CHR 0x22] @ ''x'' @ [CHR 0x22] @ ''}''"]) (simp_all add: ParseImpl_def parse_eval)



end
