(* ===== verification/JsonRoundtrip.thy ===== *)
theory JsonRoundtrip
  imports JsonProofs
begin

text \<open>
  The parser reads back what the writer writes: strings, numbers, containers, then the composition.
\<close>

section \<open>Strings\<close>

lemma named_escape_None: "named_escape c = None \<Longrightarrow> c \<noteq> CHR 0x22 \<and> c \<noteq> CHR 0x5C \<and> \<not> byte_of c < 0x20"
  by (auto simp: named_escape_def split: if_splits)

lemma hex4_loop_4:
  assumes "hex_digit a = Some w" "hex_digit b = Some x" "hex_digit c = Some y" "hex_digit d = Some z"
  shows "hex4_loop 4 0 (a # b # c # d # rest) =
    Inr (push_bit 4 (push_bit 4 (push_bit 4 (push_bit 4 0 OR w) OR x) OR y) OR z, rest)"
proof -
  have "4 = Suc (Suc (Suc (Suc 0)))" by simp
  then show ?thesis by (simp only: hex4_loop.simps list.sel assms option.case)
qed

lemma unat_byte_of: "unat (byte_of c) = code_of c"
  by (simp add: unat_of_nat of_char_def flip: of_nat_of_char)

text \<open>The numeric escape of each control character decodes to it.\<close>

definition decodes_control :: "char \<Rightarrow> u32 \<Rightarrow> u32 \<Rightarrow> bool" where
  "decodes_control c y z \<longleftrightarrow>
     (let cp = push_bit 4 (push_bit 4 (push_bit 4 (push_bit 4 0 OR 0) OR 0) OR y) OR z in cp < 0x80 \<and> low_char cp = c)"

definition control_ok :: "char \<Rightarrow> bool" where
  "control_ok c \<longleftrightarrow>
     (case (hex_digit (HEX ! unat (drop_bit 4 (byte_of c) AND 0xF)), hex_digit (HEX ! unat (byte_of c AND 0xF))) of
        (Some y, Some z) \<Rightarrow> decodes_control c y z
      | _ \<Rightarrow> False)"

lemma control_codes: "list_all (\<lambda>n. control_ok (char_of n)) [0 :: nat..<32]"
  by code_simp

lemma decode_control:
  assumes "byte_of c < 0x20"
  shows "decode_u (CHR ''0'' # CHR ''0'' # HEX ! unat (drop_bit 4 (byte_of c) AND 0xF) # HEX ! unat (byte_of c AND 0xF) # rest) = Inr ([c], rest)"
proof -
  have "code_of c \<in> set [0..<32]" using assms by (simp add: word_less_nat_alt unat_byte_of)
  then have "control_ok (char_of (code_of c))" using control_codes by (simp only: list_all_iff)
  then have "control_ok c" by simp
  then obtain y z where h: "hex_digit (HEX ! unat (drop_bit 4 (byte_of c) AND 0xF)) = Some y"
    "hex_digit (HEX ! unat (byte_of c AND 0xF)) = Some z" "decodes_control c y z"
    unfolding control_ok_def by (simp split: option.splits)
  have z0: "hex_digit (CHR ''0'') = Some 0" by (simp add: hex_digit_def is_digit_def)
  show ?thesis
    unfolding decode_u_def DecodeHex4_def hex4_loop_4[OF z0 z0 h(1,2)]
    using h(3) by (simp add: decodes_control_def Let_def EncodeUTF8_def word_less_nat_alt word_le_nat_alt)
qed

lemma named_escape_Some:
  assumes "named_escape c = Some esc"
  obtains ys where "esc = CHR 0x5C # ys" "\<And>rest. DecodeEscape (ys @ rest) = Inr ([c], rest)"
proof -
  have "\<exists>ys. esc = CHR 0x5C # ys \<and> (\<forall>rest. DecodeEscape (ys @ rest) = Inr ([c], rest))"
    using assms unfolding named_escape_def
    by (auto simp: DecodeEscape_def decode_control split: if_splits)
  then show thesis using that by blast
qed

lemma escape_text_simps [simp]:
  "escape_text [] = []"
  "escape_text (c # s) = (case named_escape c of None \<Rightarrow> [c] | Some esc \<Rightarrow> esc) @ escape_text s"
  by (simp_all add: escape_text_def)

lemma escaped_loop_text: "escaped_loop out (escape_text s @ CHR 0x22 # rest) = Inr (out @ s, rest)"
proof (induction s arbitrary: out)
  case Nil
  show ?case by (simp add: escaped_loop.simps)
next
  case (Cons c s)
  show ?case
  proof (cases "named_escape c")
    case None
    then show ?thesis using named_escape_None[OF None] Cons.IH[of "out @ [c]"]
      by (simp add: escaped_loop.simps[of out "c # _"])
  next
    case (Some esc)
    then obtain ys where ys: "esc = CHR 0x5C # ys" "\<And>rest. DecodeEscape (ys @ rest) = Inr ([c], rest)"
      using named_escape_Some by blast
    then show ?thesis using Some Cons.IH[of "out @ [c]"]
      by (simp add: escaped_loop.simps[of out "CHR 0x5C # _"])
  qed
qed

lemma scan_string_text:
  "scan_string (escape_text s @ CHR 0x22 # rest) =
     Inr (length (takeWhile (\<lambda>c. named_escape c = None) s), \<exists>c \<in> set s. named_escape c \<noteq> None)"
proof (induction s)
  case (Cons c s)
  show ?case
  proof (cases "named_escape c")
    case None
    then show ?thesis using named_escape_None[OF None] Cons.IH by simp
  next
    case (Some esc)
    then obtain ys where "esc = CHR 0x5C # ys" using named_escape_Some by blast
    then show ?thesis using Some by simp
  qed
qed simp

lemma plain_text: "\<forall>c \<in> set s. named_escape c = None \<Longrightarrow> escape_text s = s"
  by (induction s) auto

lemma scan_plain:
  "\<forall>c \<in> set s. named_escape c = None \<Longrightarrow> scan_string (s @ CHR 0x22 # rest) = Inr (length s, False)"
proof -
  assume a: "\<forall>c \<in> set s. named_escape c = None"
  then have "takeWhile (\<lambda>c. named_escape c = None) s = s" by (simp add: takeWhile_eq_all_conv)
  moreover have "\<not> (\<exists>c \<in> set s. named_escape c \<noteq> None)" using a by simp
  ultimately show ?thesis using scan_string_text[of s rest] by (simp only: plain_text[OF a])
qed

lemma parse_quoted_string: "ParseString False (quoted s @ rest) = Inr (STR_OWN s, rest)"
proof -
  have ws: "SkipWS (CHR 0x22 # ys) = CHR 0x22 # ys" for ys by (simp add: SkipWS_def is_ws_def)
  show ?thesis
    using escaped_loop_text[of "[]" s rest]
    by (cases "\<exists>c \<in> set s. named_escape c \<noteq> None")
      (auto simp: ParseString_def quoted_def Expect_def ws Peek_def ScanString_def scan_string_text scan_plain ParseStringEscaped_def plain_text
        simp del: escape_text_simps)
qed

lemma parse_quoted_key: "parse_key (quoted s @ rest) = Inr (s, rest)"
  using parse_quoted_string[of s rest]
  by (cases "\<exists>c \<in> set s. named_escape c \<noteq> None")
    (auto simp: parse_key_def quoted_def Peek_def ScanString_def scan_string_text scan_plain plain_text parse_quoted_string[unfolded quoted_def, simplified]
      simp del: escape_text_simps)

section \<open>Numbers\<close>

text \<open>What may follow a value: nothing, a comma, a closing bracket.\<close>

definition value_end :: "string \<Rightarrow> bool" where
  "value_end rest \<longleftrightarrow> rest = [] \<or> hd rest \<in> {CHR '','', CHR '']'', CHR ''}''}"

lemma digits_split:
  assumes "list_all is_digit ds" "value_end rest"
  shows "takeWhile is_digit (ds @ rest) = ds" "dropWhile is_digit (ds @ rest) = rest"
proof -
  have "rest = [] \<or> \<not> is_digit (hd rest)" using assms(2) by (auto simp: value_end_def is_digit_def less_eq_char_def)
  then have "takeWhile is_digit rest = [] \<and> dropWhile is_digit rest = rest" by (cases rest) auto
  then show "takeWhile is_digit (ds @ rest) = ds" "dropWhile is_digit (ds @ rest) = rest"
    using assms(1) by (simp_all add: list_all_iff takeWhile_append2 dropWhile_append2)
qed

lemma ScanNumber_digits:
  assumes "list_all is_digit ds" "ds \<noteq> []" "value_end rest"
  shows "ScanNumber (ds @ rest) = Inr (False, rest)"
proof -
  have "SkipDigits (ds @ rest) = Some rest"
    using assms digits_split[OF assms(1,3)] by (cases ds) (auto simp: SkipDigits_def)
  moreover have "rest = [] \<or> hd rest \<noteq> CHR ''.'' \<and> hd rest \<noteq> CHR ''e'' \<and> hd rest \<noteq> CHR ''E''"
    using assms(3) by (auto simp: value_end_def)
  ultimately show ?thesis by (auto simp: ScanNumber_def)
qed

lemma parse_to_chars:
  assumes "value_end rest"
  shows "n < 2 ^ 64 \<Longrightarrow> ParseNumber fd (to_chars n @ rest) = Inr (UINT64 (of_nat n), rest)"
    "n \<le> 2 ^ 63 \<Longrightarrow> ParseNumber fd (CHR ''-'' # to_chars n @ rest) = Inr (INT64 (- int n), rest)"
proof -
  have d: "list_all is_digit (to_chars n)" "to_chars n \<noteq> []" "digits_val (to_chars n) = n" using to_chars_digits by blast+
  note S = ScanNumber_digits[OF d(1,2) assms]
  have tw: "takeWhile is_digit (to_chars n) = to_chars n" using d(1) by (simp add: takeWhile_all)
  have p: "Peek (to_chars n @ rest) \<noteq> CHR ''-''"
    using d(1,2) by (cases "to_chars n") (auto simp: Peek_def is_digit_def less_eq_char_def)
  show "n < 2 ^ 64 \<Longrightarrow> ParseNumber fd (to_chars n @ rest) = Inr (UINT64 (of_nat n), rest)"
    using p d by (simp add: ParseNumber_def Let_def S from_chars_unsigned_def tw)
  show "n \<le> 2 ^ 63 \<Longrightarrow> ParseNumber fd (CHR ''-'' # to_chars n @ rest) = Inr (INT64 (- int n), rest)"
    using d by (simp add: ParseNumber_def Let_def S from_chars_signed_def tw Peek_def)
qed

section \<open>Values\<close>

text \<open>Values a handler can write and read back: integers in range, no doubles, no key twice in an object.\<close>

fun writable :: "'d json \<Rightarrow> bool" where
  "writable (DOUBLE _) \<longleftrightarrow> False"
| "writable (INT64 i) \<longleftrightarrow> - (2 ^ 63) \<le> i \<and> i < 2 ^ 63"
| "writable (ARRAY es) \<longleftrightarrow> (\<forall>e \<in> set es. writable e)"
| "writable (OBJECT kvs) \<longleftrightarrow> distinct (map fst kvs) \<and> (\<forall>kv \<in> set kvs. writable (snd kv))"
| "writable _ \<longleftrightarrow> True"

text \<open>The value the parser returns: integers that are not negative are unsigned, strings are owned.\<close>

fun read_back :: "'d json \<Rightarrow> 'd json" where
  "read_back (INT64 i) = (if i < 0 then INT64 i else UINT64 (word_of_int i))"
| "read_back (STR_VIEW s) = STR_OWN s"
| "read_back (ARRAY es) = ARRAY (map read_back es)"
| "read_back (OBJECT kvs) = OBJECT (map (\<lambda>kv. (fst kv, read_back (snd kv))) kvs)"
| "read_back v = v"

text \<open>The first byte of a value's text.\<close>

lemma to_chars_hd: "to_chars n \<noteq> []" "is_digit (hd (to_chars n))"
  using to_chars_digits[of n] by (cases "to_chars n"; auto)+

lemma digit_class: "is_digit c \<Longrightarrow> \<not> is_ws c \<and> c \<notin> set ''{[]tfn'' \<and> c \<noteq> CHR 0x22"
  by (auto simp: is_digit_def less_eq_char_def is_ws_def)

lemma render_hd:
  assumes "writable v"
  shows "render td v \<noteq> []" "\<not> is_ws (hd (render td v))"
    "hd (render td v) \<noteq> CHR '']''"
proof -
  have "render td v \<noteq> [] \<and> \<not> is_ws (hd (render td v)) \<and> hd (render td v) \<noteq> CHR '']''"
    using assms to_chars_hd digit_class
    by (cases v) (auto simp: is_ws_def quoted_def int_chars_def is_digit_def less_eq_char_def)
  then show "render td v \<noteq> []" "\<not> is_ws (hd (render td v))" "hd (render td v) \<noteq> CHR '']''" by blast+
qed

lemma SkipWS_id: "xs \<noteq> [] \<Longrightarrow> \<not> is_ws (hd xs) \<Longrightarrow> SkipWS (xs @ ys) = xs @ ys"
  by (cases xs) (auto simp: SkipWS_def)

lemma SkipWS_end: "value_end rest \<Longrightarrow> SkipWS rest = rest"
  by (cases rest) (auto simp: SkipWS_def value_end_def is_ws_def)


text \<open>\<open>reads_back td opt v\<close>: with enough fuel and depth, the parser reads the text of \<open>v\<close> up to its end.\<close>

definition reads_back :: "('d \<Rightarrow> string) \<Rightarrow> 'd json_opts \<Rightarrow> 'd json \<Rightarrow> bool" where
  "reads_back td opt v \<longleftrightarrow>
     (\<forall>f d rest. 3 * length (render td v @ rest) + 3 \<le> f \<longrightarrow> unat d + json_height v \<le> unat (depthLimit opt) \<longrightarrow>
        value_end rest \<longrightarrow> ParseValue f opt d (render td v @ rest) = Inr (read_back v, rest))"

lemma reads_backD:
  "reads_back td opt v \<Longrightarrow> 3 * length (render td v @ rest) + 3 \<le> f \<Longrightarrow> unat d + json_height v \<le> unat (depthLimit opt) \<Longrightarrow>
    value_end rest \<Longrightarrow> ParseValue f opt d (render td v @ rest) = Inr (read_back v, rest)"
  by (simp add: reads_back_def)

lemma after_commas_Cons [simp]: "after_commas (s # ss) = CHR '','' # commas_between (s # ss)"
  by (simp add: after_commas_def)

lemma after_commas_Nil [simp]: "after_commas [] = []"
  by (simp add: after_commas_def)

lemma value_end_after: "c \<in> {CHR '']'', CHR ''}''} \<Longrightarrow> value_end (after_commas ss @ c # rest)"
  by (cases ss) (auto simp: value_end_def)

lemma array_reads_back:
  assumes "\<And>e. e \<in> set es \<Longrightarrow> reads_back td opt e \<and> writable e \<and> unat d + json_height e \<le> unat (depthLimit opt)"
    and "es \<noteq> []" "3 * length (commas_between (map (render td) es) @ CHR '']'' # rest) + 4 \<le> f"
  shows "array_loop f opt d acc (commas_between (map (render td) es) @ CHR '']'' # rest) = Inr (ARRAY (acc @ map read_back es), rest)"
  using assms
proof (induction es arbitrary: acc f)
  case (Cons e es)
  let ?more = "after_commas (map (render td) es) @ CHR '']'' # rest"
  obtain g where g: "f = Suc g" using Cons.prems(3) by (cases f) auto
  have e: "reads_back td opt e" "writable e" "unat d + json_height e \<le> unat (depthLimit opt)" using Cons.prems(1)[of e] by simp_all
  have en: "value_end ?more" by (rule value_end_after) simp
  have v: "ParseValue g opt d (render td e @ ?more) = Inr (read_back e, ?more)"
    using Cons.prems(3) by (intro reads_backD[OF e(1) _ e(3) en]) (simp add: g)
  have s: "SkipWS (render td e @ ?more) = render td e @ ?more" by (rule SkipWS_id[OF render_hd(1,2)[OF e(2)]])
  show ?case
  proof (cases es)
    case Nil
    then show ?thesis using v s SkipWS_end[OF en] by (simp add: g parse_Suc array_loop_body_def Peek_def)
  next
    case (Cons e' es')
    have "array_loop g opt d (acc @ [read_back e]) (commas_between (map (render td) es) @ CHR '']'' # rest) =
        Inr (ARRAY ((acc @ [read_back e]) @ map read_back es), rest)"
      using Cons.prems(1,3) local.Cons by (intro Cons.IH) (auto simp: g)
    then show ?thesis using v s SkipWS_end[OF en] by (simp add: Cons g parse_Suc array_loop_body_def Peek_def)
  qed
qed simp


definition member_text :: "('d \<Rightarrow> string) \<Rightarrow> string \<times> 'd json \<Rightarrow> string" where
  "member_text td m = quoted (fst m) @ CHR '':'' # render td (snd m)"

abbreviation read_member :: "string \<times> 'd json \<Rightarrow> string \<times> 'd json" where
  "read_member m \<equiv> (fst m, read_back (snd m))"

lemma SkipWS_nonws: "\<not> is_ws c \<Longrightarrow> SkipWS (c # xs) = c # xs"
  by (simp add: SkipWS_def)

lemma object_reads_back:
  assumes "\<And>m. m \<in> set ms \<Longrightarrow> reads_back td opt (snd m) \<and> writable (snd m) \<and> unat d + json_height (snd m) \<le> unat (depthLimit opt)"
    and "ms \<noteq> []" "3 * length (commas_between (map (member_text td) ms) @ CHR ''}'' # rest) + 1 \<le> f"
    and "distinct (map fst acc @ map fst ms)"
  shows "object_loop f opt d acc (commas_between (map (member_text td) ms) @ CHR ''}'' # rest) = Inr (OBJECT (acc @ map read_member ms), rest)"
  using assms
proof (induction ms arbitrary: acc f)
  case (Cons m ms)
  let ?more = "after_commas (map (member_text td) ms) @ CHR ''}'' # rest"
  obtain k e where m: "m = (k, e)" by (cases m)
  obtain g where g: "f = Suc g" using Cons.prems(3) by (cases f) auto
  have e: "reads_back td opt e" "writable e" "unat d + json_height e \<le> unat (depthLimit opt)" using Cons.prems(1)[of m] m by simp_all
  have en: "value_end ?more" by (rule value_end_after) simp
  have t: "member_text td (k, e) = quoted k @ CHR '':'' # render td e" by (simp add: member_text_def)
  have len: "2 \<le> length (quoted k)" by (simp add: quoted_def)
  then have v: "ParseValue g opt d (render td e @ ?more) = Inr (read_back e, ?more)"
    using Cons.prems(3) by (intro reads_backD[OF e(1) _ e(3) en]) (simp add: g m t)
  have s: "SkipWS (render td e @ ?more) = render td e @ ?more" by (rule SkipWS_id[OF render_hd(1,2)[OF e(2)]])
  have q: "SkipWS (quoted k @ ys) = quoted k @ ys" for ys by (simp add: quoted_def SkipWS_nonws is_ws_def)
  have c: "SkipWS (CHR '':'' # ys) = CHR '':'' # ys" for ys by (simp add: SkipWS_nonws is_ws_def)
  have k: "k \<notin> fst ` set acc" using Cons.prems(4) m by auto
  show ?case
  proof (cases ms)
    case Nil
    then show ?thesis using v s SkipWS_end[OF en] k
      by (simp add: g t m parse_Suc object_loop_body_def Peek_def q c parse_quoted_key Expect_def)
  next
    case (Cons m' ms')
    have "object_loop g opt d (acc @ [(k, read_back e)]) (commas_between (map (member_text td) ms) @ CHR ''}'' # rest) =
        Inr (OBJECT ((acc @ [(k, read_back e)]) @ map read_member ms), rest)"
      using Cons.prems(1,3,4) local.Cons by (intro Cons.IH) (auto simp: g m)
    then show ?thesis using v s SkipWS_end[OF en] k
      by (simp add: Cons g t m parse_Suc object_loop_body_def Peek_def q c parse_quoted_key Expect_def)
  qed
qed simp

section \<open>Containers and the composition\<close>

lemma deeper:
  assumes "unat d + Suc h \<le> unat (l :: u32)"
  shows "unat (d + 1) = Suc (unat d)" "\<not> l < d + 1"
proof -
  have "unat d + 1 < 2 ^ 32" using assms unat_u32_lt[of l] by simp
  then show "unat (d + 1) = Suc (unat d)" by (simp add: unat_add_u32)
  then show "\<not> l < d + 1" using assms by (simp add: word_less_nat_alt)
qed

lemma render_object: "render td (OBJECT kvs) = CHR ''{'' # commas_between (map (member_text td) kvs) @ ''}''"
  by (simp add: member_text_def[abs_def] split_beta')

lemma object_text_reads_back:
  assumes "writable (OBJECT kvs)" "\<And>m. m \<in> set kvs \<Longrightarrow> reads_back td opt (snd m)"
    and "3 * length (render td (OBJECT kvs) @ rest) + 2 \<le> f" "unat d + json_height (OBJECT kvs) \<le> unat (depthLimit opt)"
  shows "ParseObject f opt d (render td (OBJECT kvs) @ rest) = Inr (read_back (OBJECT kvs), rest)"
proof -
  obtain g where g: "f = Suc g" using assms(3) by (cases f) auto
  have d: "unat d + Suc (foldr max (map (\<lambda>kv. json_height (snd kv)) kvs) 0) \<le> unat (depthLimit opt)" using assms(4) by simp
  note D = deeper[OF d]
  have h: "unat (d + 1) + json_height (snd m) \<le> unat (depthLimit opt)" if "m \<in> set kvs" for m
  proof -
    have "json_height (snd m) \<le> foldr max (map (\<lambda>kv. json_height (snd kv)) kvs) 0" using that by (intro foldr_max_ge) simp
    then show ?thesis using d D(1) by simp
  qed
  show ?thesis
  proof (cases kvs)
    case Nil
    then show ?thesis using D(2) by (simp add: g parse_Suc container_body_def SkipWS_nonws is_ws_def Peek_def)
  next
    case (Cons m ms)
    let ?t = "commas_between (map (member_text td) kvs) @ CHR ''}'' # rest"
    have "object_loop g opt (d + 1) [] ?t = Inr (OBJECT ([] @ map read_member kvs), rest)"
      using assms(1-3) h Cons by (intro object_reads_back) (auto simp: g render_object simp del: render.simps)
    moreover have "\<exists>ys. ?t = CHR 0x22 # ys" using Cons by (simp add: member_text_def quoted_def)
    ultimately show ?thesis using D(2)
      by (auto simp: g parse_Suc container_body_def SkipWS_nonws is_ws_def Peek_def render_object simp del: render.simps)
  qed
qed

lemma array_text_reads_back:
  assumes "writable (ARRAY es)" "\<And>e. e \<in> set es \<Longrightarrow> reads_back td opt e"
    and "3 * length (render td (ARRAY es) @ rest) + 2 \<le> f" "unat d + json_height (ARRAY es) \<le> unat (depthLimit opt)"
  shows "ParseArray f opt d (render td (ARRAY es) @ rest) = Inr (read_back (ARRAY es), rest)"
proof -
  obtain g where g: "f = Suc g" using assms(3) by (cases f) auto
  have d: "unat d + Suc (foldr max (map json_height es) 0) \<le> unat (depthLimit opt)" using assms(4) by simp
  note D = deeper[OF d]
  have h: "unat (d + 1) + json_height e \<le> unat (depthLimit opt)" if "e \<in> set es" for e
  proof -
    have "json_height e \<le> foldr max (map json_height es) 0" using that by (intro foldr_max_ge) simp
    then show ?thesis using d D(1) by simp
  qed
  show ?thesis
  proof (cases es)
    case Nil
    then show ?thesis using D(2) by (simp add: g parse_Suc container_body_def SkipWS_nonws is_ws_def Peek_def)
  next
    case (Cons e es')
    let ?t = "commas_between (map (render td) es) @ CHR '']'' # rest"
    have "array_loop g opt (d + 1) [] ?t = Inr (ARRAY ([] @ map read_back es), rest)"
      using assms(1-3) h Cons by (intro array_reads_back) (auto simp: g)
    moreover obtain c ys where c: "?t = c # ys" "\<not> is_ws c" "c \<noteq> CHR '']''"
      using render_hd[of e td] assms(1) Cons by (cases "render td e") auto
    have "SkipWS ?t = ?t" "Peek ?t \<noteq> CHR '']''" unfolding c(1) using c(2,3) by (simp_all add: SkipWS_nonws Peek_def)
    ultimately show ?thesis using D(2) by (simp add: g parse_Suc container_body_def)
  qed
qed

lemma value_number:
  assumes "is_digit c \<or> c = CHR ''-''"
  shows "ParseValue (Suc g) opt d (c # xs) = ParseNumber (from_double opt) (c # xs)"
proof -
  have N: "\<not> is_ws c \<and> c \<notin> set ''{[]tfn'' \<and> c \<noteq> CHR 0x22"
    by (rule disjE[OF assms]) (rule digit_class, assumption, simp add: is_ws_def)
  have ws: "\<not> is_ws c" using N by (rule conjunct1)
  have ne: "c \<noteq> CHR 0x22" "c \<noteq> CHR ''{''" "c \<noteq> CHR ''[''" "c \<noteq> CHR ''t''" "c \<noteq> CHR ''f''" "c \<noteq> CHR ''n''"
    using N by simp_all
  have n: "c = CHR ''-'' \<or> is_digit c" using assms by (rule disj_commute[THEN iffD1])
  show ?thesis
    unfolding parse_Suc value_body_def Let_def SkipWS_nonws[OF ws] Peek_def list.case using n by (simp only: ne list.distinct if_True if_False)
qed

lemma to_chars_read_back:
  assumes "value_end rest" "3 \<le> f"
  shows "n < 2 ^ 64 \<Longrightarrow> ParseValue f opt d (to_chars n @ rest) = Inr (UINT64 (of_nat n), rest)"
    "n \<le> 2 ^ 63 \<Longrightarrow> ParseValue f opt d (CHR ''-'' # to_chars n @ rest) = Inr (INT64 (- int n), rest)"
proof -
  obtain g where g: "f = Suc g" using assms(2) by (cases f) auto
  obtain c cs where c: "to_chars n = c # cs" "is_digit c" using to_chars_hd[of n] by (cases "to_chars n") auto
  show "n < 2 ^ 64 \<Longrightarrow> ParseValue f opt d (to_chars n @ rest) = Inr (UINT64 (of_nat n), rest)"
    using parse_to_chars(1)[OF assms(1), of n "from_double opt"] c by (simp add: g value_number)
  show "n \<le> 2 ^ 63 \<Longrightarrow> ParseValue f opt d (CHR ''-'' # to_chars n @ rest) = Inr (INT64 (- int n), rest)"
    using parse_to_chars(2)[OF assms(1), of n "from_double opt"] by (simp add: g value_number)
qed

lemma literal_read_back:
  assumes "3 \<le> f"
  shows "ParseValue f opt d (''true'' @ rest) = Inr (BOOL True, rest)" "ParseValue f opt d (''false'' @ rest) = Inr (BOOL False, rest)"
    "ParseValue f opt d (''null'' @ rest) = Inr (EMPTY, rest)"
    "\<not> storeViews opt \<Longrightarrow> ParseValue f opt d (quoted s @ rest) = Inr (STR_OWN s, rest)"
proof -
  obtain g where g: "f = Suc g" using assms by (cases f) auto
  show "ParseValue f opt d (''true'' @ rest) = Inr (BOOL True, rest)" "ParseValue f opt d (''false'' @ rest) = Inr (BOOL False, rest)"
    "ParseValue f opt d (''null'' @ rest) = Inr (EMPTY, rest)"
    by (simp_all add: g parse_Suc value_body_def SkipWS_nonws is_ws_def Peek_def)
  have "SkipWS (quoted s @ rest) = quoted s @ rest" "Peek (quoted s @ rest) = CHR 0x22" "quoted s @ rest \<noteq> []"
    by (simp_all add: quoted_def SkipWS_nonws is_ws_def Peek_def)
  then show "\<not> storeViews opt \<Longrightarrow> ParseValue f opt d (quoted s @ rest) = Inr (STR_OWN s, rest)"
    using parse_quoted_string[of s rest] by (simp add: g parse_Suc value_body_def Let_def)
qed

lemma all_read_back:
  assumes "\<not> storeViews opt"
  shows "writable v \<Longrightarrow> reads_back td opt v"
proof (induction v)
  case (ARRAY es)
  show ?case
    unfolding reads_back_def
  proof (intro allI impI)
    fix f rest and d :: u32
    assume f: "3 * length (render td (ARRAY es) @ rest) + 3 \<le> f" and d: "unat d + json_height (ARRAY es) \<le> unat (depthLimit opt)"
    obtain g where g: "f = Suc g" using f by (cases f) auto
    have "ParseArray g opt d (render td (ARRAY es) @ rest) = Inr (read_back (ARRAY es), rest)"
      using ARRAY f d g by (intro array_text_reads_back) auto
    then show "ParseValue f opt d (render td (ARRAY es) @ rest) = Inr (read_back (ARRAY es), rest)"
      by (simp add: g parse_Suc value_body_def SkipWS_nonws is_ws_def Peek_def)
  qed
next
  case (OBJECT kvs)
  show ?case
    unfolding reads_back_def
  proof (intro allI impI)
    fix f rest and d :: u32
    assume f: "3 * length (render td (OBJECT kvs) @ rest) + 3 \<le> f" and d: "unat d + json_height (OBJECT kvs) \<le> unat (depthLimit opt)"
    obtain g where g: "f = Suc g" using f by (cases f) auto
    have "ParseObject g opt d (render td (OBJECT kvs) @ rest) = Inr (read_back (OBJECT kvs), rest)"
      using OBJECT f d g by (intro object_text_reads_back) auto
    then show "ParseValue f opt d (render td (OBJECT kvs) @ rest) = Inr (read_back (OBJECT kvs), rest)"
      by (simp add: g parse_Suc value_body_def SkipWS_nonws is_ws_def Peek_def)
  qed
next
  case (INT64 i)
  have r: "render td (INT64 i) = (if i < 0 then CHR ''-'' # to_chars (nat (- i)) else to_chars (nat i))" by (simp add: int_chars_def)
  show ?case
  proof (cases "i < 0")
    case True
    then show ?thesis
      using INT64 by (simp add: reads_back_def r to_chars_read_back(2) del: render.simps)
  next
    case False
    then have "word_of_int i = (of_nat (nat i) :: u64)" by simp
    then show ?thesis
      using INT64 False by (simp add: reads_back_def r to_chars_read_back(1) del: render.simps)
  qed
next
  case (UINT64 n)
  have "unat n < 2 ^ 64" using unsigned_less[of n] by simp
  then show ?case by (simp add: reads_back_def to_chars_read_back(1))
next
  case (BOOL b)
  show ?case using literal_read_back(1,2) by (cases b) (simp_all add: reads_back_def literal_read_back(1,2)[simplified])
qed (use assms in \<open>auto simp: reads_back_def literal_read_back(3)[simplified] literal_read_back(4)\<close>)

text \<open>C9. A response body written through the streaming writer is parsed back to the object that was written:
  whatever strings, integers in range, nested arrays and objects the handler writes, as long as no key is
  repeated in an object and the nesting is within the writer's cap and the parser's limit.\<close>

theorem json_round_trip:
  assumes "writable (OBJECT members)" "json_height (OBJECT members) \<le> 63" "json_height (OBJECT members) \<le> unat (depthLimit opt)"
    and "\<not> storeViews opt"
  shows "ParseImpl opt (json_body td (concat (map (\<lambda>(k, v). calls_of (Some k) v) members))) = Inr (read_back (OBJECT members))"
proof -
  let ?t = "render td (OBJECT members)" let ?f = "3 * length ?t + 3"
  have "ParseObject ?f opt 0 (?t @ []) = Inr (read_back (OBJECT members), [])"
    using assms all_read_back[OF assms(4), of _ td] by (intro object_text_reads_back) auto
  then have p: "ParseObject ?f opt 0 ?t = Inr (read_back (OBJECT members), [])" by (simp only: append_Nil2)
  have "?t \<noteq> []" "SkipWS ?t = ?t" "Peek ?t = CHR ''{''" by (simp_all add: SkipWS_nonws is_ws_def Peek_def)
  then show ?thesis
    unfolding body_text[OF assms(2)] ParseImpl_def Let_def using p by (simp add: SkipWS_def del: render.simps)
qed

lemma json_round_trip_witness:
  "ParseImpl \<lparr>storeViews = False, depthLimit = 64, from_double = (\<lambda>_. None :: unit option)\<rparr>
     (json_body (\<lambda>_. []) (concat (map (\<lambda>(k, v). calls_of (Some k) v)
       [(''a'', ARRAY [INT64 (- 5), STR_OWN [LF]]), (''b'', INT64 7 :: unit json)])))
   = Inr (OBJECT [(''a'', ARRAY [INT64 (- 5), STR_OWN [LF]]), (''b'', UINT64 7)])"
  using json_round_trip[where members = "[(''a'', ARRAY [INT64 (- 5), STR_OWN [LF]]), (''b'', INT64 7)]" and td = "\<lambda>_. []"
    and opt = "\<lparr>storeViews = False, depthLimit = 64, from_double = (\<lambda>_. None :: unit option)\<rparr>"]
  by simp

end
