(* ===== verification/HttpResponse.thy ===== *)
theory HttpResponse
  imports RWBuffer StringUtils HttpHeaders HttpDetector
begin

text \<open>
  Model of \<open>src/http/response/http_response.cpp\<close>: the response under construction. It is written
  straight into the connection's write buffer, in an order its phase enforces; the status code, the
  content length and the chunk sizes are patched in place once they are known. Every \<open>memcpy\<close>
  into the buffer carries its bounds, so a write outside the block is an error value. The file system
  and the configured buffer sizes are arguments; \<open>WriteTemplate\<close> is in the theory of the template
  stream.
\<close>

section \<open>State\<close>

datatype ResponsePhase = FRESH | STATUS | HEADERS | BODY | COMMITTED

fun phase_code :: "ResponsePhase \<Rightarrow> nat" where
  "phase_code FRESH = 0"
| "phase_code STATUS = 1"
| "phase_code HEADERS = 2"
| "phase_code BODY = 3"
| "phase_code COMMITTED = 4"

lemma phase_code_inject: "phase_code p = phase_code q \<Longrightarrow> p = q"
  by (cases p; cases q) simp_all

instantiation ResponsePhase :: linorder
begin

definition less_eq_ResponsePhase :: "ResponsePhase \<Rightarrow> ResponsePhase \<Rightarrow> bool" where
  "less_eq_ResponsePhase p q \<longleftrightarrow> phase_code p \<le> phase_code q"

definition less_ResponsePhase :: "ResponsePhase \<Rightarrow> ResponsePhase \<Rightarrow> bool" where
  "less_ResponsePhase p q \<longleftrightarrow> phase_code p < phase_code q"

instance
  by standard (auto simp: less_eq_ResponsePhase_def less_ResponsePhase_def dest: phase_code_inject)

end

lemmas phase_order [simp] = less_eq_ResponsePhase_def less_ResponsePhase_def

datatype BodyKind = NONE | BUFFERED | GEN_STREAM | AWAIT_STREAM | FILE

text \<open>A generator of the user's body chunks: whether it has a context (and which), and a destructor.\<close>

record StreamGenerator =
  gen_ctx :: "nat option"
  gen_destroy :: bool

definition no_generator :: StreamGenerator where
  "no_generator = \<lparr>gen_ctx = None, gen_destroy = False\<rparr>"

text \<open>The response. \<open>res_destroyed\<close> is a trace of the generators whose destructor ran.\<close>

record HttpResponse =
  res_rwBuffer :: RWBuffer
  res_version :: HttpVersion
  res_shouldClose :: bool
  res_phase :: ResponsePhase
  res_bodyKind :: BodyKind
  res_status :: u16
  res_clNeeded :: bool
  res_aborted :: bool
  res_clOffset :: u64
  res_bodyStartOffset :: u64
  res_persistentHeadersEndOffset :: u64
  res_filePath :: string
  res_stream :: StreamGenerator
  res_destroyed :: "nat list"

record resp_env =
  env_alloc :: allocator
  sendBufferIncSize :: u32
  maxSendBufferSize :: u32
  FileExists :: "string \<Rightarrow> bool"
  GetFileSize :: "string \<Rightarrow> u64"

text \<open>What a step can hit instead of returning: a write outside the block, a null pointer; the last
  one only bounds the recursion of the error path and is never reached.\<close>

datatype mem_fault = OutOfBounds | NullDeref | TooDeep

definition CL_FIELD_WIDTH :: nat where "CL_FIELD_WIDTH = 10"
definition CL_HEADER_PREFIX :: string where "CL_HEADER_PREFIX = ''Content-Length: ''"
definition CL_PLACEHOLDER :: string where "CL_PLACEHOLDER = ''0000000000''"
definition CL_ZERO :: string where "CL_ZERO = ''Content-Length: 0'' @ [CR, LF]"
definition CHUNK_HDR_RESERVE :: nat where "CHUNK_HDR_RESERVE = 10"
definition CHUNK_TERMINATOR :: string where "CHUNK_TERMINATOR = ''0'' @ [CR, LF, CR, LF]"
definition STATUS_CODE_OFFSET :: nat where "STATUS_CODE_OFFSET = 9"
definition STATUS_LINE_PLACEHOLDER :: string where "STATUS_LINE_PLACEHOLDER = ''200 '' @ [CR, LF]"

lemmas response_consts = CL_FIELD_WIDTH_def CL_HEADER_PREFIX_def CL_PLACEHOLDER_def CL_ZERO_def
  CHUNK_HDR_RESERVE_def CHUNK_TERMINATOR_def STATUS_CODE_OFFSET_def STATUS_LINE_PLACEHOLDER_def

section \<open>Formatting helpers\<close>

fun HasCRLFOrNull :: "string \<Rightarrow> bool" where
  "HasCRLFOrNull [] = False"
| "HasCRLFOrNull (c # s) = (if c = CR \<or> c = LF \<or> c = NUL then True else HasCRLFOrNull s)"

definition digit :: "nat \<Rightarrow> char" where
  "digit n = char_of (48 + n)"

text \<open>The loops fill a fixed-width field from its last character.\<close>

fun fixed_digits :: "nat \<Rightarrow> nat \<Rightarrow> string \<Rightarrow> string" where
  "fixed_digits 0 v acc = acc"
| "fixed_digits (Suc i) v acc = fixed_digits i (v div 10) (digit (v mod 10) # acc)"

definition FormatFixed10 :: "u32 \<Rightarrow> string" where
  "FormatFixed10 v = fixed_digits CL_FIELD_WIDTH (unat v) []"

definition HEX_DIGITS :: string where "HEX_DIGITS = ''0123456789ABCDEF''"

fun fixed_hex :: "nat \<Rightarrow> u32 \<Rightarrow> string \<Rightarrow> string" where
  "fixed_hex 0 v acc = acc"
| "fixed_hex (Suc i) v acc = fixed_hex i (drop_bit 4 v) (HEX_DIGITS ! unat (v AND 0xF) # acc)"

definition FormatFixedHex8 :: "u32 \<Rightarrow> string" where
  "FormatFixedHex8 v = fixed_hex 8 v []"

function uint_digits :: "nat \<Rightarrow> string" where
  "uint_digits v = (if v > 0 then uint_digits (v div 10) @ [digit (v mod 10)] else [])"
  by pat_completeness auto
termination by (relation "measure id") auto

declare uint_digits.simps [simp del]

definition FormatUInt64 :: "u64 \<Rightarrow> string" where
  "FormatUInt64 v = (if v = 0 then ''0'' else uint_digits (unat v))"

definition StatusForbidsBody :: "u16 \<Rightarrow> bool" where
  "StatusForbidsBody s \<longleftrightarrow> (unat s \<ge> 100 \<and> unat s < 200) \<or> unat s = 204 \<or> unat s = 304"

text \<open>A path handed to the file system as a C string.\<close>

definition c_str :: "string \<Rightarrow> string" where
  "c_str s = takeWhile (\<lambda>c. c \<noteq> NUL) s"

section \<open>Access to the buffer\<close>

definition Append :: "resp_env \<Rightarrow> string \<Rightarrow> HttpResponse \<Rightarrow> bool \<times> HttpResponse" where
  "Append E s r =
     (case AppendWriteData (env_alloc E) (Some s) (of_nat (length s)) (sendBufferIncSize E) (maxSendBufferSize E) (res_rwBuffer r) of
        (ok, rw) \<Rightarrow> (ok, r\<lparr>res_rwBuffer := rw\<rparr>))"

text \<open>Most callers ignore the result.\<close>

definition Put :: "resp_env \<Rightarrow> string \<Rightarrow> HttpResponse \<Rightarrow> HttpResponse" where
  "Put E s r = snd (Append E s r)"

definition write_length :: "HttpResponse \<Rightarrow> mem_fault + u64" where
  "write_length r = (case writeBuffer (res_rwBuffer r) of None \<Rightarrow> Inl NullDeref
     | Some b \<Rightarrow> Inr (ucast (dataLength (blk_meta b))))"

definition set_write_length :: "u64 \<Rightarrow> HttpResponse \<Rightarrow> mem_fault + HttpResponse" where
  "set_write_length n r = (case writeBuffer (res_rwBuffer r) of None \<Rightarrow> Inl NullDeref
     | Some b \<Rightarrow> Inr (r\<lparr>res_rwBuffer := (res_rwBuffer r)\<lparr>writeBuffer :=
          Some (b\<lparr>blk_meta := (blk_meta b)\<lparr>dataLength := ucast n\<rparr>\<rparr>)\<rparr>\<rparr>))"

text \<open>\<open>memcpy(base + off, ds, n)\<close> where the code has tested \<open>base\<close>; the offset is the signed
  distance from the start of the data.\<close>

definition patch :: "int \<Rightarrow> string \<Rightarrow> HttpResponse \<Rightarrow> mem_fault + HttpResponse" where
  "patch off ds r = (case writeBuffer (res_rwBuffer r) of None \<Rightarrow> Inr r
     | Some b \<Rightarrow> if 0 \<le> off \<and> nat off + length ds \<le> length (blk_bytes b)
         then Inr (r\<lparr>res_rwBuffer := (res_rwBuffer r)\<lparr>writeBuffer :=
                Some (b\<lparr>blk_bytes := write_at (nat off) ds (blk_bytes b)\<rparr>)\<rparr>\<rparr>)
         else Inl OutOfBounds)"

definition release_stream :: "HttpResponse \<Rightarrow> HttpResponse" where
  "release_stream r =
     (if gen_ctx (res_stream r) \<noteq> None \<and> gen_destroy (res_stream r)
      then r\<lparr>res_destroyed := res_destroyed r @ [the (gen_ctx (res_stream r))]\<rparr> else r)"

definition drop_gen_stream :: "HttpResponse \<Rightarrow> HttpResponse" where
  "drop_gen_stream r = (if res_bodyKind r = GEN_STREAM then (release_stream r)\<lparr>res_stream := no_generator\<rparr> else r)"

definition Response_Reset :: "HttpResponse \<Rightarrow> HttpResponse" where
  "Response_Reset r =
     (let r1 = drop_gen_stream r in
      r1\<lparr>res_phase := FRESH, res_bodyKind := NONE, res_status := 200, res_clOffset := 0, res_bodyStartOffset := 0,
         res_persistentHeadersEndOffset := 0, res_clNeeded := False, res_aborted := False,
         res_rwBuffer := ClearWriteBuffer (res_rwBuffer r1)\<rparr>)"

section \<open>Status line and headers\<close>

definition EnsureStatusLineReserved :: "resp_env \<Rightarrow> HttpResponse \<Rightarrow> mem_fault + HttpResponse" where
  "EnsureStatusLineReserved E r =
     (if res_phase r \<noteq> FRESH then Inr r
      else let r1 = Put E ''HTTP/1.'' r;
               r2 = Put E (if res_version r1 = HTTP_1_1 then ''1 '' else ''0 '') r1;
               r3 = Put E STATUS_LINE_PLACEHOLDER r2
           in andThen (write_length r3) (\<lambda>n. Inr (r3\<lparr>res_phase := STATUS, res_persistentHeadersEndOffset := n\<rparr>)))"

definition EnsureHeadersOpen :: "resp_env \<Rightarrow> HttpResponse \<Rightarrow> mem_fault + HttpResponse" where
  "EnsureHeadersOpen E r =
     andThen (EnsureStatusLineReserved E r) (\<lambda>r1.
       Inr (if res_phase r1 = STATUS
            then (Put E (if res_shouldClose r1 then ''close'' @ [CR, LF] else ''keep-alive'' @ [CR, LF])
                    (Put E ''Connection: '' r1))\<lparr>res_phase := HEADERS\<rparr>
            else r1))"

definition InjectContentLength :: "resp_env \<Rightarrow> HttpResponse \<Rightarrow> mem_fault + HttpResponse" where
  "InjectContentLength E r =
     (let r1 = Put E CL_HEADER_PREFIX r in
      andThen (write_length r1) (\<lambda>n.
        Inr ((Put E [CR, LF] (Put E CL_PLACEHOLDER (r1\<lparr>res_clOffset := n\<rparr>)))\<lparr>res_clNeeded := True\<rparr>)))"

text \<open>
  The operations below and the error path call each other: a contract violation rebuilds the response
  as a 500 through the same operations. They take the \<open>AbortWithError\<close> to call as an argument, and
  the recursion is closed at a depth that is never used up.
\<close>

type_synonym abort_fn = "u16 \<Rightarrow> string \<Rightarrow> HttpResponse \<Rightarrow> mem_fault + HttpResponse"

definition AbortContractViolation :: "abort_fn \<Rightarrow> HttpResponse \<Rightarrow> mem_fault + HttpResponse" where
  "AbortContractViolation AE r =
     (if res_aborted r then Inr r
      else andThen (AE 500 ''Response contract violation'' r) (\<lambda>r1. Inr (r1\<lparr>res_aborted := True\<rparr>)))"

definition RejectIfCommitted :: "abort_fn \<Rightarrow> HttpResponse \<Rightarrow> mem_fault + bool \<times> HttpResponse" where
  "RejectIfCommitted AE r =
     (if res_aborted r then Inr (True, r)
      else if res_phase r \<noteq> COMMITTED then Inr (False, r)
      else andThen (AbortContractViolation AE r) (\<lambda>r1. Inr (True, r1)))"

definition status_digits :: "u16 \<Rightarrow> string" where
  "status_digits code = (let c = unat code in
     [char_of ((48 + c div 100) mod 256), digit ((c div 10) mod 10), digit (c mod 10)])"

definition WriteStatus_by :: "abort_fn \<Rightarrow> resp_env \<Rightarrow> u16 \<Rightarrow> HttpResponse \<Rightarrow> mem_fault + HttpResponse" where
  "WriteStatus_by AE E code r =
     andThen (RejectIfCommitted AE r) (\<lambda>(rejected, r).
       if rejected then Inr r
       else if res_phase r \<ge> BODY then AbortContractViolation AE r
       else andThen (EnsureStatusLineReserved E r) (\<lambda>r1.
         patch (int STATUS_CODE_OFFSET) (status_digits code) (r1\<lparr>res_status := code\<rparr>)))"

definition put_header :: "resp_env \<Rightarrow> string \<Rightarrow> string \<Rightarrow> HttpResponse \<Rightarrow> HttpResponse" where
  "put_header E key val r = Put E [CR, LF] (Put E val (Put E '': '' (Put E key r)))"

definition WritePersistentHeader_by :: "abort_fn \<Rightarrow> resp_env \<Rightarrow> string \<Rightarrow> string \<Rightarrow> HttpResponse \<Rightarrow> mem_fault + HttpResponse" where
  "WritePersistentHeader_by AE E key val r =
     andThen (RejectIfCommitted AE r) (\<lambda>(rejected, r).
       if rejected then Inr r
       else if res_phase r \<ge> HEADERS then AbortContractViolation AE r
       else if InsensitiveStringCompare key ''connection'' then AbortContractViolation AE r
       else if HasCRLFOrNull key \<or> HasCRLFOrNull val then AbortContractViolation AE r
       else andThen (EnsureStatusLineReserved E r) (\<lambda>r1.
         let r2 = put_header E key val r1 in
         andThen (write_length r2) (\<lambda>n. Inr (r2\<lparr>res_persistentHeadersEndOffset := n\<rparr>))))"

definition WriteHeader_by :: "abort_fn \<Rightarrow> resp_env \<Rightarrow> string \<Rightarrow> string \<Rightarrow> HttpResponse \<Rightarrow> mem_fault + HttpResponse" where
  "WriteHeader_by AE E key val r =
     andThen (RejectIfCommitted AE r) (\<lambda>(rejected, r).
       if rejected then Inr r
       else if res_phase r = BODY then AbortContractViolation AE r
       else if InsensitiveStringCompare key ''connection'' then AbortContractViolation AE r
       else if HasCRLFOrNull key \<or> HasCRLFOrNull val then AbortContractViolation AE r
       else andThen (EnsureHeadersOpen E r) (\<lambda>r1.
         Inr ((put_header E key val r1)\<lparr>res_phase := HEADERS\<rparr>)))"

section \<open>Bodies\<close>

definition EnsureBodyOpen_by :: "abort_fn \<Rightarrow> resp_env \<Rightarrow> HttpResponse \<Rightarrow> mem_fault + bool \<times> HttpResponse" where
  "EnsureBodyOpen_by AE E r =
     andThen (EnsureHeadersOpen E r) (\<lambda>r1.
       if res_phase r1 \<ge> BODY then Inr (True, r1)
       else if StatusForbidsBody (res_status r1)
       then andThen (AbortContractViolation AE r1) (\<lambda>r2. Inr (False, r2))
       else andThen (InjectContentLength E r1) (\<lambda>r2.
         let r3 = Put E [CR, LF] r2 in
         andThen (write_length r3) (\<lambda>n.
           Inr (True, r3\<lparr>res_bodyStartOffset := n, res_bodyKind := BUFFERED, res_phase := BODY\<rparr>))))"

definition WriteBodyData_by :: "abort_fn \<Rightarrow> resp_env \<Rightarrow> string \<Rightarrow> HttpResponse \<Rightarrow> mem_fault + HttpResponse" where
  "WriteBodyData_by AE E ds r =
     andThen (RejectIfCommitted AE r) (\<lambda>(rejected, r).
       if rejected then Inr r
       else andThen (EnsureBodyOpen_by AE E r) (\<lambda>(ok, r1).
         if \<not> ok then Inr r1
         else if length ds = 0 then Inr r1
         else Inr (Put E ds r1)))"

definition WriteFile_by :: "abort_fn \<Rightarrow> resp_env \<Rightarrow> string \<Rightarrow> bool \<Rightarrow> HttpResponse \<Rightarrow> mem_fault + HttpResponse" where
  "WriteFile_by AE E path autoHandle404 r =
     andThen (RejectIfCommitted AE r) (\<lambda>(rejected, r).
       if rejected then Inr r
       else if res_phase r = BODY then AbortContractViolation AE r
       else if res_bodyKind r \<noteq> NONE then AbortContractViolation AE r
       else if StatusForbidsBody (res_status r) then AbortContractViolation AE r
       else if autoHandle404 \<and> \<not> FileExists E (c_str path) then AE 404 ''File not found'' r
       else andThen (EnsureHeadersOpen E r) (\<lambda>r1.
         let r2 = Put E [CR, LF] (Put E (FormatUInt64 (GetFileSize E (c_str path))) (Put E ''Content-Length: '' r1));
             r3 = Put E [CR, LF] (Put E (DetectMimeFromExt path) (Put E ''Content-Type: '' r2));
             r4 = Put E [CR, LF] r3
         in Inr (r4\<lparr>res_filePath := path, res_bodyKind := FILE, res_phase := COMMITTED\<rparr>)))"

definition TE_CHUNKED :: string where
  "TE_CHUNKED = ''Transfer-Encoding: chunked'' @ [CR, LF]"

definition WriteStream_by :: "abort_fn \<Rightarrow> resp_env \<Rightarrow> StreamGenerator \<Rightarrow> bool \<Rightarrow> HttpResponse \<Rightarrow> mem_fault + HttpResponse" where
  "WriteStream_by AE E gen chunked r =
     andThen (RejectIfCommitted AE r) (\<lambda>(rejected, r).
       if rejected then Inr r
       else if res_bodyKind r \<noteq> NONE then AbortContractViolation AE r
       else if StatusForbidsBody (res_status r) then AbortContractViolation AE r
       else andThen (EnsureHeadersOpen E r) (\<lambda>r1.
         let r2 = (if chunked then Put E TE_CHUNKED r1 else r1);
             r3 = release_stream (Put E [CR, LF] r2)
         in Inr (r3\<lparr>res_stream := gen, res_bodyKind := GEN_STREAM, res_phase := COMMITTED\<rparr>)))"

section \<open>Incremental bodies\<close>

definition ReserveNextFlushGap :: "resp_env \<Rightarrow> HttpResponse \<Rightarrow> mem_fault + bool \<times> HttpResponse" where
  "ReserveNextFlushGap E r =
     (case Append E (replicate CHUNK_HDR_RESERVE NUL) r of
        (False, r1) \<Rightarrow> Inr (False, r1)
      | (True, r1) \<Rightarrow> andThen (write_length r1) (\<lambda>n. Inr (True, r1\<lparr>res_bodyStartOffset := n\<rparr>)))"

definition WriteFlushStart_by :: "abort_fn \<Rightarrow> resp_env \<Rightarrow> HttpResponse \<Rightarrow> mem_fault + HttpResponse" where
  "WriteFlushStart_by AE E r =
     andThen (RejectIfCommitted AE r) (\<lambda>(rejected, r).
       if rejected then Inr r
       else if res_bodyKind r \<noteq> NONE then AbortContractViolation AE r
       else if StatusForbidsBody (res_status r) then AbortContractViolation AE r
       else andThen (EnsureHeadersOpen E r) (\<lambda>r1.
         let r2 = Put E [CR, LF] (Put E TE_CHUNKED r1) in
         andThen (ReserveNextFlushGap E (r2\<lparr>res_bodyKind := AWAIT_STREAM, res_phase := BODY\<rparr>)) (\<lambda>(_, r3). Inr r3)))"

definition HasPendingFlushData :: "HttpResponse \<Rightarrow> mem_fault + bool" where
  "HasPendingFlushData r = andThen (write_length r) (\<lambda>n. Inr (n > res_bodyStartOffset r))"

definition PrepareFlushChunk :: "resp_env \<Rightarrow> bool \<Rightarrow> HttpResponse \<Rightarrow> mem_fault + bool \<times> HttpResponse" where
  "PrepareFlushChunk E isFinal r =
     (case writeBuffer (res_rwBuffer r) of
        None \<Rightarrow> Inr (False, r)
      | Some b \<Rightarrow>
          let bodyLen = (ucast (ucast (dataLength (blk_meta b)) - res_bodyStartOffset r :: u64) :: u32) in
          if bodyLen = 0
          then andThen (set_write_length (ucast (dataLength (blk_meta b) - of_nat CHUNK_HDR_RESERVE)) r) (\<lambda>r1.
                 Inr (Append E CHUNK_TERMINATOR r1))
          else andThen (patch (int (unat (res_bodyStartOffset r)) - int CHUNK_HDR_RESERVE) (FormatFixedHex8 bodyLen @ [CR, LF]) r) (\<lambda>r1.
                 case Append E [CR, LF] r1 of
                   (False, r2) \<Rightarrow> Inr (False, r2)
                 | (True, r2) \<Rightarrow>
                     if isFinal then
                       (case Append E CHUNK_TERMINATOR r2 of
                          (False, r3) \<Rightarrow> Inr (False, r3)
                        | (True, r3) \<Rightarrow> Inr (True, r3))
                     else Inr (True, r2)))"

definition FinishFlushRound :: "resp_env \<Rightarrow> bool \<Rightarrow> HttpResponse \<Rightarrow> mem_fault + bool \<times> HttpResponse" where
  "FinishFlushRound E isFinal r =
     (let r1 = r\<lparr>res_rwBuffer := ClearWriteBuffer (res_rwBuffer r)\<rparr> in
      if isFinal then Inr (True, r1\<lparr>res_phase := COMMITTED\<rparr>) else ReserveNextFlushGap E r1)"

section \<open>Commit and the error path\<close>

definition Commit_by :: "abort_fn \<Rightarrow> resp_env \<Rightarrow> HttpResponse \<Rightarrow> mem_fault + HttpResponse" where
  "Commit_by AE E r =
     andThen (RejectIfCommitted AE r) (\<lambda>(rejected, r).
       if rejected then Inr r
       else if res_bodyKind r = AWAIT_STREAM
       then andThen (write_length r) (\<lambda>n.
              andThen (set_write_length (n - of_nat CHUNK_HDR_RESERVE) r) (\<lambda>r1.
                Inr ((Put E CHUNK_TERMINATOR r1)\<lparr>res_phase := COMMITTED\<rparr>)))
       else if res_phase r < BODY
       then andThen (EnsureHeadersOpen E r) (\<lambda>r1.
              let r2 = (if StatusForbidsBody (res_status r1) then r1 else Put E CL_ZERO r1) in
              Inr ((Put E [CR, LF] r2)\<lparr>res_bodyKind := BUFFERED, res_phase := COMMITTED\<rparr>))
       else andThen
              (if res_clNeeded r
               then andThen (write_length r) (\<lambda>n.
                      patch (int (unat (res_clOffset r))) (FormatFixed10 (ucast (n - res_bodyStartOffset r))) r)
               else Inr r)
              (\<lambda>r1. Inr (r1\<lparr>res_phase := COMMITTED\<rparr>)))"

definition SendText_by :: "abort_fn \<Rightarrow> resp_env \<Rightarrow> string \<Rightarrow> HttpResponse \<Rightarrow> mem_fault + HttpResponse" where
  "SendText_by AE E ds r =
     andThen (EnsureHeadersOpen E r) (\<lambda>r1.
       andThen (WriteBodyData_by AE E ds ((Put E (''Content-Type: text/plain'' @ [CR, LF]) r1)\<lparr>res_phase := HEADERS\<rparr>))
         (Commit_by AE E))"

definition AbortWithError_by :: "abort_fn \<Rightarrow> resp_env \<Rightarrow> u16 \<Rightarrow> string \<Rightarrow> HttpResponse \<Rightarrow> mem_fault + HttpResponse" where
  "AbortWithError_by AE E status message r =
     (let r1 = drop_gen_stream r in
      andThen (set_write_length (res_persistentHeadersEndOffset r1) r1) (\<lambda>r2.
        andThen (WriteStatus_by AE E status
            (r2\<lparr>res_phase := if res_persistentHeadersEndOffset r2 > 0 then STATUS else FRESH, res_bodyKind := NONE,
                res_status := 200, res_clOffset := 0, res_bodyStartOffset := 0, res_clNeeded := False, res_aborted := False\<rparr>))
          (SendText_by AE E message)))"

text \<open>Two levels are enough: the first rebuild can only fail on a status that forbids a body, and
  then asks for a 500, which does not.\<close>

primrec AbortWithErrorN :: "nat \<Rightarrow> resp_env \<Rightarrow> abort_fn" where
  "AbortWithErrorN 0 E = (\<lambda>_ _ _. Inl TooDeep)"
| "AbortWithErrorN (Suc n) E = AbortWithError_by (AbortWithErrorN n E) E"

definition AbortWithError :: "resp_env \<Rightarrow> abort_fn" where
  "AbortWithError E = AbortWithErrorN 2 E"

section \<open>Calls\<close>

text \<open>The operations a handler reaches through the API table, and the ones the engine makes.\<close>

datatype resp_call =
  CallStatus u16
| CallPersistentHeader string string
| CallHeader string string
| CallWrite string
| CallFile string bool
| CallStream StreamGenerator bool
| CallFlushStart
| CallCommit
| CallAbort u16 string

fun response_call :: "resp_env \<Rightarrow> resp_call \<Rightarrow> HttpResponse \<Rightarrow> mem_fault + HttpResponse" where
  "response_call E (CallStatus code) = WriteStatus_by (AbortWithError E) E code"
| "response_call E (CallPersistentHeader k v) = WritePersistentHeader_by (AbortWithError E) E k v"
| "response_call E (CallHeader k v) = WriteHeader_by (AbortWithError E) E k v"
| "response_call E (CallWrite ds) = WriteBodyData_by (AbortWithError E) E ds"
| "response_call E (CallFile path auto) = WriteFile_by (AbortWithError E) E path auto"
| "response_call E (CallStream gen chunked) = WriteStream_by (AbortWithError E) E gen chunked"
| "response_call E CallFlushStart = WriteFlushStart_by (AbortWithError E) E"
| "response_call E CallCommit = Commit_by (AbortWithError E) E"
| "response_call E (CallAbort code msg) = AbortWithError E code msg"

fun response_calls :: "resp_env \<Rightarrow> resp_call list \<Rightarrow> HttpResponse \<Rightarrow> mem_fault + HttpResponse" where
  "response_calls E [] r = Inr r"
| "response_calls E (c # cs) r = andThen (response_call E c r) (response_calls E cs)"

text \<open>The user's \<open>Response::SendText\<close>.\<close>

definition user_SendText :: "string \<Rightarrow> resp_call list" where
  "user_SendText ds = [CallHeader ''Content-Type'' ''text/plain'', CallWrite ds, CallCommit]"

text \<open>The bytes waiting to be sent.\<close>

definition wire :: "HttpResponse \<Rightarrow> string" where
  "wire r = (case writeBuffer (res_rwBuffer r) of None \<Rightarrow> [] | Some b \<Rightarrow> contents b)"

end
