(* ===== verification/HttpResponseProofs.thy ===== *)
theory HttpResponseProofs
  imports HttpResponse
begin

text \<open>
  What a response looks like on the wire. The abstract response is a document: status, headers, body.
  Every call of a handler is one step on documents, contract violations included, and the buffer holds
  the text of the document at every moment (a simulation). From that: the body announced by
  \<open>Content-Length\<close> is the body that follows, no header can bring a line break in, and the error path
  neither recurses without end nor writes outside the buffer while the response fits.
\<close>

section \<open>The buffer seen as a text\<close>

definition env_ok :: "resp_env \<Rightarrow> bool" where
  "env_ok E \<longleftrightarrow> (\<forall>p n. a_realloc (env_alloc E) p n \<noteq> None) \<and> max_ok sizeof_WriteMetadata (maxSendBufferSize E)"

definition fits :: "resp_env \<Rightarrow> string \<Rightarrow> bool" where
  "fits E t \<longleftrightarrow> length t \<le> unat (maxSendBufferSize E)"

definition buf_present :: "HttpResponse \<Rightarrow> bool" where
  "buf_present r \<longleftrightarrow> (case writeBuffer (res_rwBuffer r) of None \<Rightarrow> False | Some b \<Rightarrow> block_ok sizeof_WriteMetadata b)"

text \<open>While a response is built nothing of it has been sent.\<close>

definition buf_ok :: "HttpResponse \<Rightarrow> bool" where
  "buf_ok r \<longleftrightarrow> (case writeBuffer (res_rwBuffer r) of None \<Rightarrow> False
     | Some b \<Rightarrow> block_ok sizeof_WriteMetadata b \<and> writtenLength (blk_meta b) = 0)"

lemma fits_prefix: "fits E (s @ t) \<Longrightarrow> fits E s"
  by (simp add: fits_def)

lemma fits_bound: "fits E t \<Longrightarrow> length t < 2 ^ 32"
  using unat_u32_lt[of "maxSendBufferSize E"] by (simp add: fits_def)

text \<open>The text depends on the buffer only.\<close>

lemma wire_update [simp]:
  "wire (r\<lparr>res_version := a\<rparr>) = wire r" "wire (r\<lparr>res_shouldClose := b\<rparr>) = wire r" "wire (r\<lparr>res_phase := c\<rparr>) = wire r"
  "wire (r\<lparr>res_bodyKind := d\<rparr>) = wire r" "wire (r\<lparr>res_status := e\<rparr>) = wire r" "wire (r\<lparr>res_clNeeded := f\<rparr>) = wire r"
  "wire (r\<lparr>res_aborted := g\<rparr>) = wire r" "wire (r\<lparr>res_clOffset := h\<rparr>) = wire r" "wire (r\<lparr>res_bodyStartOffset := i\<rparr>) = wire r"
  "wire (r\<lparr>res_persistentHeadersEndOffset := j\<rparr>) = wire r" "wire (r\<lparr>res_filePath := k\<rparr>) = wire r"
  "wire (r\<lparr>res_stream := l\<rparr>) = wire r" "wire (r\<lparr>res_destroyed := m\<rparr>) = wire r"
  by (simp_all add: wire_def)

lemma buf_ok_update [simp]:
  "buf_ok (r\<lparr>res_version := a\<rparr>) = buf_ok r" "buf_ok (r\<lparr>res_shouldClose := b\<rparr>) = buf_ok r" "buf_ok (r\<lparr>res_phase := c\<rparr>) = buf_ok r"
  "buf_ok (r\<lparr>res_bodyKind := d\<rparr>) = buf_ok r" "buf_ok (r\<lparr>res_status := e\<rparr>) = buf_ok r" "buf_ok (r\<lparr>res_clNeeded := f\<rparr>) = buf_ok r"
  "buf_ok (r\<lparr>res_aborted := g\<rparr>) = buf_ok r" "buf_ok (r\<lparr>res_clOffset := h\<rparr>) = buf_ok r" "buf_ok (r\<lparr>res_bodyStartOffset := i\<rparr>) = buf_ok r"
  "buf_ok (r\<lparr>res_persistentHeadersEndOffset := j\<rparr>) = buf_ok r" "buf_ok (r\<lparr>res_filePath := k\<rparr>) = buf_ok r"
  "buf_ok (r\<lparr>res_stream := l\<rparr>) = buf_ok r" "buf_ok (r\<lparr>res_destroyed := m\<rparr>) = buf_ok r"
  by (simp_all add: buf_ok_def)

lemma Put_fields [simp]:
  "res_version (Put E s r) = res_version r" "res_shouldClose (Put E s r) = res_shouldClose r" "res_phase (Put E s r) = res_phase r"
  "res_bodyKind (Put E s r) = res_bodyKind r" "res_status (Put E s r) = res_status r" "res_clNeeded (Put E s r) = res_clNeeded r"
  "res_aborted (Put E s r) = res_aborted r" "res_clOffset (Put E s r) = res_clOffset r" "res_bodyStartOffset (Put E s r) = res_bodyStartOffset r"
  "res_persistentHeadersEndOffset (Put E s r) = res_persistentHeadersEndOffset r" "res_filePath (Put E s r) = res_filePath r"
  "res_stream (Put E s r) = res_stream r" "res_destroyed (Put E s r) = res_destroyed r"
  by (simp_all add: Put_def Append_def split: prod.splits)

text \<open>An append that fits succeeds.\<close>

lemma Append_ok:
  assumes e: "env_ok E" and b: "buf_ok r" and f: "fits E (wire r @ s)" and s: "s \<noteq> []"
  shows "Append E s r = (True, Put E s r)" "buf_ok (Put E s r)" "wire (Put E s r) = wire r @ s"
proof -
  obtain blk where blk: "writeBuffer (res_rwBuffer r) = Some blk" "block_ok sizeof_WriteMetadata blk" "writtenLength (blk_meta blk) = 0"
    using b by (auto simp: buf_ok_def split: option.splits)
  let ?n = "of_nat (length s) :: u32"
  have l: "unat ?n = length s" using fits_bound[OF f] by (simp add: unat_of_nat)
  have fit: "length (contents blk) + length s \<le> max (unat (bufferSize (blk_meta blk))) (unat (maxSendBufferSize E))"
    using f by (simp add: fits_def wire_def blk(1))
  have mx: "max_ok sizeof_WriteMetadata (maxSendBufferSize E)" and al: "\<forall>p n. a_realloc (env_alloc E) p n \<noteq> None"
    using e by (auto simp: env_ok_def)
  obtain rw' b' where b': "AppendWriteData (env_alloc E) (Some s) ?n (sendBufferIncSize E) (maxSendBufferSize E) (res_rwBuffer r) = (True, rw')"
    "writeBuffer rw' = Some b'" "block_ok sizeof_WriteMetadata b'" "contents b' = contents blk @ s"
    by (rule AppendWriteData_fits[OF blk(1,2) mx s l al fit])
  obtain b2 where "writeBuffer rw' = Some b2" "writtenLength (blk_meta b2) = writtenLength (blk_meta blk)"
    by (rule AppendWriteData_written[OF blk(1) b'(1)])
  with b'(2) blk(3) have "writtenLength (blk_meta b') = 0" by simp
  with b' blk show "Append E s r = (True, Put E s r)" "buf_ok (Put E s r)" "wire (Put E s r) = wire r @ s"
    by (simp_all add: Append_def Put_def buf_ok_def wire_def)
qed

lemma Put_Nil [simp]: "Put E [] r = r"
proof -
  have "GenericAppendData A b ms (Some []) 0 g m = (False, b)" for A and b :: "WriteMetadata block option" and ms g m
    by (cases b) (simp_all add: GenericAppendData_def)
  then show ?thesis by (simp add: Put_def Append_def AppendWriteData_def)
qed

lemma Put_ok [simp]:
  assumes "env_ok E" "buf_ok r" "fits E (wire r @ s)"
  shows "buf_ok (Put E s r)" "wire (Put E s r) = wire r @ s"
  using Append_ok[OF assms] assms(2) by (cases "s = []"; simp)+

lemma write_length_ok [simp]: "buf_ok r \<Longrightarrow> write_length r = Inr (of_nat (length (wire r)))"
  by (auto simp: write_length_def buf_ok_def wire_def length_contents split: option.splits)

text \<open>Cutting the text back, and patching it.\<close>

definition cut :: "nat \<Rightarrow> HttpResponse \<Rightarrow> HttpResponse" where
  "cut n r = (case set_write_length (of_nat n) r of Inl _ \<Rightarrow> r | Inr r' \<Rightarrow> r')"

definition patched :: "nat \<Rightarrow> string \<Rightarrow> HttpResponse \<Rightarrow> HttpResponse" where
  "patched off ds r = (case patch (int off) ds r of Inl _ \<Rightarrow> r | Inr r' \<Rightarrow> r')"

lemma cut_fields [simp]:
  "res_version (cut n r) = res_version r" "res_shouldClose (cut n r) = res_shouldClose r" "res_phase (cut n r) = res_phase r"
  "res_bodyKind (cut n r) = res_bodyKind r" "res_status (cut n r) = res_status r" "res_clNeeded (cut n r) = res_clNeeded r"
  "res_aborted (cut n r) = res_aborted r" "res_clOffset (cut n r) = res_clOffset r" "res_bodyStartOffset (cut n r) = res_bodyStartOffset r"
  "res_persistentHeadersEndOffset (cut n r) = res_persistentHeadersEndOffset r" "res_filePath (cut n r) = res_filePath r"
  "res_stream (cut n r) = res_stream r" "res_destroyed (cut n r) = res_destroyed r"
  by (simp_all add: cut_def set_write_length_def split: option.splits)

lemma patched_fields [simp]:
  "res_version (patched n s r) = res_version r" "res_shouldClose (patched n s r) = res_shouldClose r" "res_phase (patched n s r) = res_phase r"
  "res_bodyKind (patched n s r) = res_bodyKind r" "res_status (patched n s r) = res_status r" "res_clNeeded (patched n s r) = res_clNeeded r"
  "res_aborted (patched n s r) = res_aborted r" "res_clOffset (patched n s r) = res_clOffset r" "res_bodyStartOffset (patched n s r) = res_bodyStartOffset r"
  "res_persistentHeadersEndOffset (patched n s r) = res_persistentHeadersEndOffset r" "res_filePath (patched n s r) = res_filePath r"
  "res_stream (patched n s r) = res_stream r" "res_destroyed (patched n s r) = res_destroyed r"
  by (simp_all add: patched_def patch_def split: option.splits)

lemma buf_length: "buf_ok r \<Longrightarrow> length (wire r) < 2 ^ 32"
  by (auto simp: buf_ok_def wire_def length_contents unat_u32_lt split: option.splits)

lemma cut_ok:
  assumes b: "buf_ok r" and n: "n \<le> length (wire r)"
  shows "set_write_length (of_nat n) r = Inr (cut n r)" "buf_ok (cut n r)" "wire (cut n r) = take n (wire r)"
proof -
  obtain blk where blk: "writeBuffer (res_rwBuffer r) = Some blk" "block_ok sizeof_WriteMetadata blk" "writtenLength (blk_meta blk) = 0"
    using b by (auto simp: buf_ok_def split: option.splits)
  have "n < 2 ^ 32" using n buf_length[OF b] by simp
  then have u: "unat (ucast (of_nat n :: u64) :: u32) = n" by (simp add: unat_ucast_64_32 unat_of_nat)
  have l: "n \<le> unat (dataLength (blk_meta blk))" using n blk by (simp add: wire_def length_contents)
  let ?m = "ucast (of_nat n :: u64) :: u32"
  have m: "?m \<le> dataLength (blk_meta blk)" using l u by (simp add: word_le_unat)
  then have "?m \<le> bufferSize (blk_meta blk)" using blk(2) by (auto simp: block_ok_def)
  then show "set_write_length (of_nat n) r = Inr (cut n r)" "buf_ok (cut n r)" "wire (cut n r) = take n (wire r)"
    using blk u l by (simp_all add: cut_def set_write_length_def buf_ok_def wire_def block_ok_def contents_def min_absorb1)
qed

lemma take_write_at_inside: "off + length ds \<le> n \<Longrightarrow> n \<le> length bs \<Longrightarrow> take n (write_at off ds bs) = write_at off ds (take n bs)"
  by (simp add: write_at_def take_drop min_absorb1)

lemma patched_ok:
  assumes b: "buf_ok r" and n: "off + length ds \<le> length (wire r)"
  shows "patch (int off) ds r = Inr (patched off ds r)" "buf_ok (patched off ds r)" "wire (patched off ds r) = write_at off ds (wire r)"
proof -
  obtain blk where blk: "writeBuffer (res_rwBuffer r) = Some blk" "block_ok sizeof_WriteMetadata blk" "writtenLength (blk_meta blk) = 0"
    using b by (auto simp: buf_ok_def split: option.splits)
  have "off + length ds \<le> unat (dataLength (blk_meta blk))" using n blk by (simp add: wire_def length_contents)
  moreover have "unat (dataLength (blk_meta blk)) \<le> length (blk_bytes blk)"
    using blk(2) by (auto simp: block_ok_def word_le_unat)
  ultimately show "patch (int off) ds r = Inr (patched off ds r)" "buf_ok (patched off ds r)" "wire (patched off ds r) = write_at off ds (wire r)"
    using blk by (simp_all add: patched_def patch_def buf_ok_def wire_def block_ok_def contents_def take_write_at_inside length_write_at)
qed

lemma write_at_middle: "length pre = off \<Longrightarrow> length old = length ds \<Longrightarrow> write_at off ds (pre @ old @ post) = pre @ ds @ post"
  by (simp add: write_at_def)


section \<open>Documents\<close>

datatype doc_body =
  DFresh
| DStatus
| DHeaders
| DOpen string
| DDone string
| DEmpty
| DFile u64 string string
| DStream bool StreamGenerator
| DAwait string
| DAwaitDone string

record doc =
  d_version :: HttpVersion
  d_close :: bool
  d_status :: u16
  d_persist :: "(string \<times> string) list"
  d_headers :: "(string \<times> string) list"
  d_body :: doc_body
  d_aborted :: bool
  d_destroyed :: "nat list"

definition hdr_line :: "string \<times> string \<Rightarrow> string" where
  "hdr_line h = fst h @ '': '' @ snd h @ [CR, LF]"

definition status_line :: "doc \<Rightarrow> string" where
  "status_line d = (''HTTP/1.'' @ (if d_version d = HTTP_1_1 then ''1 '' else ''0 '')) @ status_digits (d_status d) @ '' '' @ [CR, LF]"

definition lines_of :: "(string \<times> string) list \<Rightarrow> string" where
  "lines_of hs = concat (map hdr_line hs)"

text \<open>The part an error keeps, and the part written once the regular headers are open.\<close>

definition kept_head :: "doc \<Rightarrow> string" where
  "kept_head d = status_line d @ lines_of (d_persist d)"

definition connection_header :: "doc \<Rightarrow> string \<times> string" where
  "connection_header d = (''Connection'', if d_close d then ''close'' else ''keep-alive'')"

definition open_head :: "doc \<Rightarrow> string" where
  "open_head d = kept_head d @ hdr_line (connection_header d) @ lines_of (d_headers d)"

definition gap :: string where "gap = replicate 10 NUL"

fun body_text :: "doc \<Rightarrow> doc_body \<Rightarrow> string" where
  "body_text d DFresh = []"
| "body_text d DStatus = kept_head d"
| "body_text d DHeaders = open_head d"
| "body_text d (DOpen b) = open_head d @ ''Content-Length: '' @ CL_PLACEHOLDER @ [CR, LF, CR, LF] @ b"
| "body_text d (DDone b) = open_head d @ hdr_line (''Content-Length'', FormatFixed10 (of_nat (length b))) @ [CR, LF] @ b"
| "body_text d DEmpty = open_head d @ (if StatusForbidsBody (d_status d) then [] else hdr_line (''Content-Length'', ''0'')) @ [CR, LF]"
| "body_text d (DFile n mime _) = open_head d @ hdr_line (''Content-Length'', FormatUInt64 n) @ hdr_line (''Content-Type'', mime) @ [CR, LF]"
| "body_text d (DStream chunked _) = open_head d @ (if chunked then TE_CHUNKED else []) @ [CR, LF]"
| "body_text d (DAwait b) = open_head d @ TE_CHUNKED @ [CR, LF] @ gap @ b"
| "body_text d (DAwaitDone b) = open_head d @ TE_CHUNKED @ [CR, LF] @ b"

definition doc_text :: "doc \<Rightarrow> string" where
  "doc_text d = body_text d (d_body d)"

fun doc_phase :: "doc_body \<Rightarrow> ResponsePhase" where
  "doc_phase DFresh = FRESH"
| "doc_phase DStatus = STATUS"
| "doc_phase DHeaders = HEADERS"
| "doc_phase (DOpen _) = BODY"
| "doc_phase (DAwait _) = BODY"
| "doc_phase _ = COMMITTED"

fun doc_kind :: "doc_body \<Rightarrow> BodyKind" where
  "doc_kind (DOpen _) = BUFFERED"
| "doc_kind (DDone _) = BUFFERED"
| "doc_kind DEmpty = BUFFERED"
| "doc_kind (DFile _ _ _) = FILE"
| "doc_kind (DStream _ _) = GEN_STREAM"
| "doc_kind (DAwait _) = AWAIT_STREAM"
| "doc_kind (DAwaitDone _) = AWAIT_STREAM"
| "doc_kind _ = NONE"

text \<open>The steps of a document.\<close>

fun doc_stream :: "doc_body \<Rightarrow> StreamGenerator" where
  "doc_stream (DStream _ g) = g"
| "doc_stream _ = no_generator"

definition gen_release :: "StreamGenerator \<Rightarrow> nat list" where
  "gen_release g = (if gen_ctx g \<noteq> None \<and> gen_destroy g then [the (gen_ctx g)] else [])"

definition error_doc :: "u16 \<Rightarrow> string \<Rightarrow> bool \<Rightarrow> doc \<Rightarrow> doc" where
  "error_doc code msg ab d = d\<lparr>d_status := code, d_headers := [(''Content-Type'', ''text/plain'')], d_body := DDone msg,
     d_aborted := ab, d_destroyed := d_destroyed d @ gen_release (doc_stream (d_body d))\<rparr>"

definition violation_text :: string where "violation_text = ''Response contract violation''"

definition doc_violation :: "doc \<Rightarrow> doc" where
  "doc_violation d = (if d_aborted d then d else error_doc 500 violation_text True d)"

definition doc_abort :: "u16 \<Rightarrow> string \<Rightarrow> doc \<Rightarrow> doc" where
  "doc_abort code msg d = (if StatusForbidsBody code then error_doc 500 violation_text True d else error_doc code msg False d)"

definition rejected_header :: "string \<Rightarrow> string \<Rightarrow> bool" where
  "rejected_header k v \<longleftrightarrow> InsensitiveStringCompare k ''connection'' \<or> HasCRLFOrNull k \<or> HasCRLFOrNull v"

fun doc_step :: "resp_env \<Rightarrow> resp_call \<Rightarrow> doc \<Rightarrow> doc" where
  "doc_step E (CallStatus code) d =
     (if doc_phase (d_body d) = BODY then doc_violation d
      else d\<lparr>d_status := code, d_body := if d_body d = DFresh then DStatus else d_body d\<rparr>)"
| "doc_step E (CallPersistentHeader k v) d =
     (if phase_code (doc_phase (d_body d)) \<ge> 2 \<or> rejected_header k v then doc_violation d
      else d\<lparr>d_persist := d_persist d @ [(k, v)], d_body := DStatus\<rparr>)"
| "doc_step E (CallHeader k v) d =
     (if doc_phase (d_body d) = BODY \<or> rejected_header k v then doc_violation d
      else d\<lparr>d_headers := d_headers d @ [(k, v)], d_body := DHeaders\<rparr>)"
| "doc_step E (CallWrite ds) d =
     (case d_body d of
        DOpen b \<Rightarrow> d\<lparr>d_body := DOpen (b @ ds)\<rparr>
      | DAwait b \<Rightarrow> d\<lparr>d_body := DAwait (b @ ds)\<rparr>
      | _ \<Rightarrow> if StatusForbidsBody (d_status d) then doc_violation d else d\<lparr>d_body := DOpen ds\<rparr>)"
| "doc_step E (CallFile path auto) d =
     (if doc_phase (d_body d) = BODY \<or> StatusForbidsBody (d_status d) then doc_violation d
      else if auto \<and> \<not> FileExists E (c_str path) then doc_abort 404 ''File not found'' d
      else d\<lparr>d_body := DFile (GetFileSize E (c_str path)) (DetectMimeFromExt path) path\<rparr>)"
| "doc_step E (CallStream g chunked) d =
     (if doc_phase (d_body d) = BODY \<or> StatusForbidsBody (d_status d) then doc_violation d
      else d\<lparr>d_body := DStream chunked g\<rparr>)"
| "doc_step E CallFlushStart d =
     (if doc_phase (d_body d) = BODY \<or> StatusForbidsBody (d_status d) then doc_violation d
      else d\<lparr>d_body := DAwait []\<rparr>)"
| "doc_step E CallCommit d =
     (case d_body d of
        DOpen b \<Rightarrow> d\<lparr>d_body := DDone b\<rparr>
      | DAwait b \<Rightarrow> d\<lparr>d_body := DAwaitDone (take (length b) (gap @ b) @ CHUNK_TERMINATOR)\<rparr>
      | _ \<Rightarrow> d\<lparr>d_body := DEmpty\<rparr>)"
| "doc_step E (CallAbort code msg) d = doc_abort code msg d"

definition doc_call :: "resp_env \<Rightarrow> resp_call \<Rightarrow> doc \<Rightarrow> doc" where
  "doc_call E c d =
     (case c of CallAbort code msg \<Rightarrow> doc_step E c d
      | _ \<Rightarrow> if d_aborted d then d else if doc_phase (d_body d) = COMMITTED then doc_violation d else doc_step E c d)"

fun doc_calls :: "resp_env \<Rightarrow> resp_call list \<Rightarrow> doc \<Rightarrow> doc" where
  "doc_calls E [] d = d"
| "doc_calls E (c # cs) d = doc_calls E cs (doc_call E c d)"

section \<open>The simulation relation\<close>

definition kept_length :: "doc \<Rightarrow> nat" where
  "kept_length d = (if d_body d = DFresh then 0 else length (kept_head d))"

definition rep :: "doc \<Rightarrow> HttpResponse \<Rightarrow> bool" where
  "rep d r \<longleftrightarrow> buf_ok r \<and> wire r = doc_text d \<and> res_version r = d_version d \<and> res_shouldClose r = d_close d \<and>
     res_status r = d_status d \<and> res_aborted r = d_aborted d \<and> res_destroyed r = d_destroyed d \<and>
     res_phase r = doc_phase (d_body d) \<and> res_bodyKind r = doc_kind (d_body d) \<and>
     res_stream r = doc_stream (d_body d) \<and>
     res_persistentHeadersEndOffset r = of_nat (kept_length d) \<and>
     (phase_code (doc_phase (d_body d)) \<le> 1 \<longrightarrow> d_headers d = []) \<and>
     (case d_body d of
        DFresh \<Rightarrow> d_persist d = [] \<and> d_status d = 200
      | DOpen b \<Rightarrow> res_clNeeded r \<and> res_clOffset r = of_nat (length (open_head d) + 16) \<and>
          res_bodyStartOffset r = of_nat (length (open_head d) + 30)
      | DAwait b \<Rightarrow> res_bodyStartOffset r = of_nat (length (doc_text d) - length b)
      | DFile _ _ path \<Rightarrow> res_filePath r = path
      | _ \<Rightarrow> True)"


lemma rep_facts:
  assumes "rep d r"
  shows "buf_ok r" "wire r = doc_text d" "res_phase r = doc_phase (d_body d)" "res_bodyKind r = doc_kind (d_body d)"
    "res_status r = d_status d" "res_aborted r = d_aborted d" "res_stream r = doc_stream (d_body d)"
    "res_persistentHeadersEndOffset r = of_nat (kept_length d)" "res_version r = d_version d" "res_shouldClose r = d_close d"
    "res_destroyed r = d_destroyed d"
  using assms by (simp_all add: rep_def)

lemma head_update [simp]:
  "status_line (d\<lparr>d_body := b\<rparr>) = status_line d" "status_line (d\<lparr>d_headers := h\<rparr>) = status_line d"
  "status_line (d\<lparr>d_aborted := a\<rparr>) = status_line d" "status_line (d\<lparr>d_destroyed := g\<rparr>) = status_line d"
  "status_line (d\<lparr>d_persist := ps\<rparr>) = status_line d"
  "kept_head (d\<lparr>d_body := b\<rparr>) = kept_head d" "kept_head (d\<lparr>d_headers := h\<rparr>) = kept_head d"
  "kept_head (d\<lparr>d_aborted := a\<rparr>) = kept_head d" "kept_head (d\<lparr>d_destroyed := g\<rparr>) = kept_head d"
  "connection_header (d\<lparr>d_body := b\<rparr>) = connection_header d" "connection_header (d\<lparr>d_headers := h\<rparr>) = connection_header d"
  "connection_header (d\<lparr>d_aborted := a\<rparr>) = connection_header d" "connection_header (d\<lparr>d_destroyed := g\<rparr>) = connection_header d"
  "connection_header (d\<lparr>d_status := st\<rparr>) = connection_header d" "connection_header (d\<lparr>d_persist := ps\<rparr>) = connection_header d"
  "open_head (d\<lparr>d_body := b\<rparr>) = open_head d"
  "open_head (d\<lparr>d_aborted := a\<rparr>) = open_head d" "open_head (d\<lparr>d_destroyed := g\<rparr>) = open_head d"
  by (simp_all add: status_line_def kept_head_def connection_header_def open_head_def)

lemma body_text_update [simp]:
  "body_text (d\<lparr>d_body := b\<rparr>) x = body_text d x"
  "body_text (d\<lparr>d_aborted := a\<rparr>) x = body_text d x" "body_text (d\<lparr>d_destroyed := g\<rparr>) x = body_text d x"
  by (cases x; simp)+

lemma lines_of_simps [simp]: "lines_of [] = []" "lines_of (xs @ ys) = lines_of xs @ lines_of ys" "lines_of [h] = hdr_line h"
  by (simp_all add: lines_of_def)

lemma status_digits_200: "status_digits 200 = ''200''"
  by code_simp

lemma length_status_digits [simp]: "length (status_digits c) = 3"
  by (simp add: status_digits_def Let_def)

lemma length_status_line [simp]: "length (status_line d) = 15"
  by (simp add: status_line_def)

lemma length_kept_head: "length (kept_head d) = 15 + length (lines_of (d_persist d))"
  by (simp add: kept_head_def)

lemma length_gap [simp]: "length gap = 10"
  by (simp add: gap_def)

lemma of_nat_pos_u64: "n < 2 ^ 64 \<Longrightarrow> (0 < (of_nat n :: u64)) \<longleftrightarrow> 0 < n"
  by (simp add: word_less_nat_alt unat_of_nat)

text \<open>Reserving the status line and opening the headers.\<close>

definition ensure_status :: "doc \<Rightarrow> doc" where
  "ensure_status d = d\<lparr>d_body := if d_body d = DFresh then DStatus else d_body d\<rparr>"

definition ensure_headers :: "doc \<Rightarrow> doc" where
  "ensure_headers d = d\<lparr>d_body := if d_body d = DFresh \<or> d_body d = DStatus then DHeaders else d_body d\<rparr>"

lemma doc_phase_simps [simp]:
  "doc_phase b = FRESH \<longleftrightarrow> b = DFresh" "doc_phase b = STATUS \<longleftrightarrow> b = DStatus" "doc_phase b = HEADERS \<longleftrightarrow> b = DHeaders"
  by (cases b; simp)+

lemma ensure_status_ok:
  assumes e: "env_ok E" and r: "rep d r" and f: "fits E (doc_text (ensure_status d))"
  shows "\<exists>r'. EnsureStatusLineReserved E r = Inr r' \<and> rep (ensure_status d) r'"
proof (cases "d_body d = DFresh")
  case True
  have [simp]: "buf_ok r" "wire r = []" using r True by (auto simp: rep_def doc_text_def)
  have l: "15 \<le> unat (maxSendBufferSize E)"
    using f r True by (simp add: rep_def fits_def ensure_status_def doc_text_def kept_head_def)
  have t: "''HTTP/1.'' @ (if d_version d = HTTP_1_1 then ''1 '' else ''0 '') @ STATUS_LINE_PLACEHOLDER = status_line d"
    using r True by (simp add: rep_def status_line_def STATUS_LINE_PLACEHOLDER_def status_digits_200)
  show ?thesis
    using r True l t e
    by (auto simp: EnsureStatusLineReserved_def ensure_status_def rep_def fits_def doc_text_def kept_head_def
        kept_length_def response_consts split: if_splits)
next
  case False
  then show ?thesis
    using r by (auto simp: EnsureStatusLineReserved_def ensure_status_def rep_def)
qed

lemma ensure_headers_ok:
  assumes e: "env_ok E" and r: "rep d r" and f: "fits E (doc_text (ensure_headers d))"
  shows "\<exists>r'. EnsureHeadersOpen E r = Inr r' \<and> rep (ensure_headers d) r'"
proof -
  have "fits E (doc_text (ensure_status d))"
    using f r by (cases "d_body d") (auto simp: ensure_status_def ensure_headers_def doc_text_def fits_def open_head_def rep_def)
  from ensure_status_ok[OF e r this] obtain r1 where r1: "EnsureStatusLineReserved E r = Inr r1" "rep (ensure_status d) r1"
    by blast
  show ?thesis
  proof (cases "d_body (ensure_status d) = DStatus")
    case True
    then have dh: "d_body (ensure_headers d) = DHeaders" "d_headers d = []" "d_body d = DFresh \<or> d_body d = DStatus"
      using r by (auto simp: ensure_status_def ensure_headers_def rep_def split: if_splits)
    have w: "buf_ok r1" "wire r1 = kept_head d" "res_phase r1 = STATUS" "res_shouldClose r1 = d_close d"
      using r1(2) True by (auto simp: rep_def doc_text_def ensure_status_def)
    have l: "length (kept_head d @ hdr_line (connection_header d)) \<le> unat (maxSendBufferSize E)"
      using f dh by (simp add: fits_def doc_text_def open_head_def ensure_headers_def)
    define v where "v = (if d_close d then ''close'' @ [CR, LF] else ''keep-alive'' @ [CR, LF])"
    have cl: "hdr_line (connection_header d) = ''Connection: '' @ v" by (simp add: hdr_line_def connection_header_def v_def)
    have f1: "fits E (wire r1 @ ''Connection: '')" using l by (simp add: fits_def w cl)
    let ?r1 = "Put E ''Connection: '' r1"
    note p1 = Put_ok[OF e w(1) f1]
    have f2: "fits E (wire ?r1 @ v)" unfolding p1(2) using l by (simp add: fits_def w cl)
    note p2 = Put_ok[OF e p1(1) f2]
    have eq: "EnsureHeadersOpen E r = Inr ((Put E v ?r1)\<lparr>res_phase := HEADERS\<rparr>)"
      using r1(1) w by (simp add: EnsureHeadersOpen_def v_def)
    have ed: "ensure_headers d = d\<lparr>d_body := DHeaders\<rparr>" "ensure_status d = d\<lparr>d_body := DStatus\<rparr>"
      using dh(3) by (auto simp: ensure_headers_def ensure_status_def)
    have "rep (ensure_headers d) ((Put E v ?r1)\<lparr>res_phase := HEADERS\<rparr>)"
      using r1(2) p2(1) dh(2) by (simp add: rep_def ed p2(2) p1(2) w(2) cl doc_text_def open_head_def kept_length_def)
    with eq show ?thesis by blast
  next
    case False
    then show ?thesis
      using r1 by (auto simp: EnsureHeadersOpen_def rep_def ensure_status_def ensure_headers_def split: if_splits)
  qed
qed

text \<open>The status code is patched in place.\<close>

lemma patch_status_ok:
  assumes r: "rep d r" and p: "d_body d = DStatus \<or> d_body d = DHeaders"
  shows "\<exists>r'. patch (int STATUS_CODE_OFFSET) (status_digits code) (r\<lparr>res_status := code\<rparr>) = Inr r' \<and> rep (d\<lparr>d_status := code\<rparr>) r'"
proof -
  define pre where "pre = ''HTTP/1.'' @ (if d_version d = HTTP_1_1 then ''1 '' else ''0 '')"
  define rest where "rest = ('' '' @ [CR, LF]) @ lines_of (d_persist d) @
    (if d_body d = DStatus then [] else hdr_line (connection_header d) @ lines_of (d_headers d))"
  have t: "doc_text d = pre @ status_digits (d_status d) @ rest"
    "doc_text (d\<lparr>d_status := code\<rparr>) = pre @ status_digits code @ rest"
    using p by (elim disjE; simp add: doc_text_def open_head_def kept_head_def status_line_def pre_def rest_def)+
  have l: "length pre = 9" by (simp add: pre_def)
  let ?r = "r\<lparr>res_status := code\<rparr>"
  have b: "buf_ok ?r" "9 + length (status_digits code) \<le> length (wire ?r)" using rep_facts(1,2)[OF r] l by (simp_all add: t(1))
  have w: "write_at 9 (status_digits code) (doc_text d) = doc_text (d\<lparr>d_status := code\<rparr>)"
    unfolding t by (rule write_at_middle) (simp_all add: l)
  have k: "kept_length (d\<lparr>d_status := code\<rparr>) = kept_length d" by (simp add: kept_length_def length_kept_head)
  note q = patched_ok[OF b]
  have "rep (d\<lparr>d_status := code\<rparr>) (patched 9 (status_digits code) ?r)"
    using p
  proof
    assume d: "d_body d = DStatus"
    show ?thesis using r q(2) by (simp add: rep_def d q(3) rep_facts(2)[OF r] w k)
  next
    assume d: "d_body d = DHeaders"
    show ?thesis using r q(2) by (simp add: rep_def d q(3) rep_facts(2)[OF r] w k)
  qed
  then show ?thesis using q(1) by (simp add: STATUS_CODE_OFFSET_def)
qed


section \<open>Each operation is its step\<close>

text \<open>Operations before the response is committed do not use the error path.\<close>

lemma not_rejected:
  assumes "rep d r" "\<not> d_aborted d" "doc_phase (d_body d) \<noteq> COMMITTED"
  shows "RejectIfCommitted AE r = Inr (False, r)"
  using assms by (simp add: RejectIfCommitted_def rep_facts)

definition headers_phase :: "doc \<Rightarrow> bool" where
  "headers_phase d \<longleftrightarrow> d_body d = DFresh \<or> d_body d = DStatus \<or> d_body d = DHeaders"

lemma headers_phase_code: "headers_phase d \<longleftrightarrow> phase_code (doc_phase (d_body d)) < 3"
  by (cases "d_body d") (simp_all add: headers_phase_def)

lemma headers_phase_simps:
  "headers_phase d \<Longrightarrow> \<not> BODY \<le> doc_phase (d_body d)" "headers_phase d \<Longrightarrow> doc_phase (d_body d) \<noteq> COMMITTED"
  "headers_phase d \<Longrightarrow> doc_phase (d_body d) \<noteq> BODY" "headers_phase d \<Longrightarrow> doc_kind (d_body d) = NONE"
  "headers_phase d \<Longrightarrow> d_body (ensure_headers d) = DHeaders" "headers_phase d \<Longrightarrow> ensure_headers d = d\<lparr>d_body := DHeaders\<rparr>"
  by (auto simp: headers_phase_def ensure_headers_def)

lemma put_header_ok:
  assumes e: "env_ok E" and b: "buf_ok r" and f: "fits E (wire r @ hdr_line (k, v))"
  shows "buf_ok (put_header E k v r)" "wire (put_header E k v r) = wire r @ hdr_line (k, v)"
proof -
  have l: "length (wire r) + length k + 2 + length v + 2 \<le> unat (maxSendBufferSize E)" using f by (simp add: fits_def hdr_line_def)
  have f1: "fits E (wire r @ k)" using l by (simp add: fits_def)
  note p1 = Put_ok[OF e b f1]
  have f2: "fits E (wire (Put E k r) @ '': '')" unfolding p1(2) using l by (simp add: fits_def)
  note p2 = Put_ok[OF e p1(1) f2]
  have f3: "fits E (wire (Put E '': '' (Put E k r)) @ v)" unfolding p1(2) p2(2) using l by (simp add: fits_def)
  note p3 = Put_ok[OF e p2(1) f3]
  have f4: "fits E (wire (Put E v (Put E '': '' (Put E k r))) @ [CR, LF])" unfolding p1(2) p2(2) p3(2) using l by (simp add: fits_def)
  note p4 = Put_ok[OF e p3(1) f4]
  show "buf_ok (put_header E k v r)" "wire (put_header E k v r) = wire r @ hdr_line (k, v)"
    using p4 p3(2) p2(2) p1(2) by (simp_all add: put_header_def hdr_line_def)
qed

lemma put_header_fields [simp]:
  "res_version (put_header E k v r) = res_version r" "res_shouldClose (put_header E k v r) = res_shouldClose r"
  "res_phase (put_header E k v r) = res_phase r" "res_bodyKind (put_header E k v r) = res_bodyKind r"
  "res_status (put_header E k v r) = res_status r" "res_clNeeded (put_header E k v r) = res_clNeeded r"
  "res_aborted (put_header E k v r) = res_aborted r" "res_clOffset (put_header E k v r) = res_clOffset r"
  "res_bodyStartOffset (put_header E k v r) = res_bodyStartOffset r"
  "res_persistentHeadersEndOffset (put_header E k v r) = res_persistentHeadersEndOffset r"
  "res_filePath (put_header E k v r) = res_filePath r" "res_stream (put_header E k v r) = res_stream r"
  "res_destroyed (put_header E k v r) = res_destroyed r"
  by (simp_all add: put_header_def)

lemma write_status_ok:
  assumes e: "env_ok E" and r: "rep d (r\<lparr>res_status := d_status d\<rparr>)" and p: "headers_phase d" "\<not> d_aborted d"
    and s: "d_body d = DFresh \<Longrightarrow> res_status r = 200" and f: "fits E (doc_text (ensure_status d))"
  shows "\<exists>r'. WriteStatus_by AE E code r = Inr r' \<and> rep ((ensure_status d)\<lparr>d_status := code\<rparr>) r'"
proof -
  have ph: "res_phase r = doc_phase (d_body d)" "res_aborted r = d_aborted d" using r by (simp_all add: rep_def)
  have rj: "RejectIfCommitted AE r = Inr (False, r)" "\<not> BODY \<le> res_phase r"
    using ph p headers_phase_simps(1,2)[OF p(1)] by (simp_all add: RejectIfCommitted_def)
  obtain r1 where r1: "EnsureStatusLineReserved E r = Inr r1" "rep (ensure_status d) (r1\<lparr>res_status := d_status d\<rparr>)"
  proof (cases "d_body d = DFresh")
    case True
    have "d_status d = res_status r" using r True s by (simp add: rep_def)
    then have "r\<lparr>res_status := d_status d\<rparr> = r" by simp
    with r have rr: "rep d r" by simp
    obtain r1 where r1: "EnsureStatusLineReserved E r = Inr r1" "rep (ensure_status d) r1"
      using ensure_status_ok[OF e rr f] by blast
    have "d_status d = res_status r1" using rep_facts(5)[OF r1(2)] by (simp add: ensure_status_def)
    then have "r1\<lparr>res_status := d_status d\<rparr> = r1" by simp
    with r1 show ?thesis by (intro that[of r1]) simp_all
  next
    case False
    then have "EnsureStatusLineReserved E r = Inr r" "ensure_status d = d" using ph by (simp_all add: EnsureStatusLineReserved_def ensure_status_def)
    with r show ?thesis by (intro that[of r]) simp_all
  qed
  have "d_body (ensure_status d) = DStatus \<or> d_body (ensure_status d) = DHeaders"
    using p(1) by (auto simp: headers_phase_def ensure_status_def)
  from patch_status_ok[OF r1(2) this, of code] obtain r2 where
    "patch (int STATUS_CODE_OFFSET) (status_digits code) (r1\<lparr>res_status := code\<rparr>) = Inr r2" "rep ((ensure_status d)\<lparr>d_status := code\<rparr>) r2"
    by auto
  then show ?thesis using rj r1(1) by (simp add: WriteStatus_by_def)
qed

lemma fits_mono: "fits E t \<Longrightarrow> length s \<le> length t \<Longrightarrow> fits E s"
  by (simp add: fits_def)

text \<open>Opening the body and writing to it.\<close>

lemma inject_ok:
  assumes e: "env_ok E" and r: "rep d r" and d: "d_body d = DHeaders"
    and f: "fits E (doc_text (d\<lparr>d_body := DOpen []\<rparr>))"
  shows "\<exists>r'. InjectContentLength E r = Inr r' \<and> buf_ok r' \<and> wire r' = open_head d @ ''Content-Length: '' @ CL_PLACEHOLDER @ [CR, LF] \<and>
     rep (d\<lparr>d_body := DOpen []\<rparr>) ((Put E [CR, LF] r')\<lparr>res_bodyStartOffset := of_nat (length (open_head d) + 30),
        res_bodyKind := BUFFERED, res_phase := BODY\<rparr>)"
proof -
  have w: "buf_ok r" "wire r = open_head d" using rep_facts(1,2)[OF r] d by (simp_all add: doc_text_def)
  have l: "length (open_head d) + 30 \<le> unat (maxSendBufferSize E)" using f by (simp add: fits_def doc_text_def CL_PLACEHOLDER_def)
  have f1: "fits E (wire r @ CL_HEADER_PREFIX)" using l by (simp add: fits_def w CL_HEADER_PREFIX_def)
  note p1 = Put_ok[OF e w(1) f1]
  let ?r1 = "(Put E CL_HEADER_PREFIX r)\<lparr>res_clOffset := of_nat (length (open_head d) + 16)\<rparr>"
  have b1: "buf_ok ?r1" "wire ?r1 = open_head d @ ''Content-Length: ''" using p1 w by (simp_all add: CL_HEADER_PREFIX_def)
  have f2: "fits E (wire ?r1 @ CL_PLACEHOLDER)" unfolding b1(2) using l by (simp add: fits_def CL_PLACEHOLDER_def)
  note p2 = Put_ok[OF e b1(1) f2, unfolded b1(2)]
  have f3: "fits E (wire (Put E CL_PLACEHOLDER ?r1) @ [CR, LF])" unfolding p2(2) using l by (simp add: fits_def CL_PLACEHOLDER_def)
  note p3 = Put_ok[OF e p2(1) f3, unfolded p2(2)]
  let ?r2 = "(Put E [CR, LF] (Put E CL_PLACEHOLDER ?r1))\<lparr>res_clNeeded := True\<rparr>"
  have eq: "InjectContentLength E r = Inr ?r2"
    using p1 w by (simp add: InjectContentLength_def Let_def CL_HEADER_PREFIX_def add.commute)
  have b2: "buf_ok ?r2" "wire ?r2 = open_head d @ ''Content-Length: '' @ CL_PLACEHOLDER @ [CR, LF]" using p3 by simp_all
  have f4: "fits E (wire ?r2 @ [CR, LF])" unfolding b2(2) using l by (simp add: fits_def CL_PLACEHOLDER_def)
  note p4 = Put_ok[OF e b2(1) f4, unfolded b2(2)]
  define r3 where "r3 = Put E [CR, LF] ?r2"
  have b3: "buf_ok r3" "wire r3 = doc_text (d\<lparr>d_body := DOpen []\<rparr>)"
    unfolding r3_def using p4 by (simp_all only: ) (simp_all add: doc_text_def)
  have fl: "res_version r3 = res_version r" "res_shouldClose r3 = res_shouldClose r" "res_status r3 = res_status r"
    "res_aborted r3 = res_aborted r" "res_destroyed r3 = res_destroyed r" "res_stream r3 = res_stream r"
    "res_persistentHeadersEndOffset r3 = res_persistentHeadersEndOffset r" "res_clNeeded r3"
    "res_clOffset r3 = of_nat (length (open_head d) + 16)"
    by (simp_all add: r3_def)
  have "rep (d\<lparr>d_body := DOpen []\<rparr>) (r3\<lparr>res_bodyStartOffset := of_nat (length (open_head d) + 30),
        res_bodyKind := BUFFERED, res_phase := BODY\<rparr>)"
    using r b3(1) by (simp add: rep_def d b3(2) fl kept_length_def)
  with eq b2 show ?thesis unfolding r3_def by blast
qed

lemma body_open_ok:
  assumes e: "env_ok E" and r: "rep d r" and p: "headers_phase d" "\<not> StatusForbidsBody (d_status d)"
    and f: "fits E (doc_text (d\<lparr>d_body := DOpen []\<rparr>))"
  shows "\<exists>r'. EnsureBodyOpen_by AE E r = Inr (True, r') \<and> rep (d\<lparr>d_body := DOpen []\<rparr>) r'"
proof -
  note hp = headers_phase_simps[OF p(1)]
  have f0: "fits E (doc_text (ensure_headers d))"
    by (rule fits_mono[OF f]) (simp add: hp(6) doc_text_def)
  obtain r1 where r1: "EnsureHeadersOpen E r = Inr r1" "rep (d\<lparr>d_body := DHeaders\<rparr>) r1"
    using ensure_headers_ok[OF e r f0] unfolding hp(6) by blast
  have f2: "fits E (doc_text (d\<lparr>d_body := DHeaders, d_body := DOpen []\<rparr>))" using f by simp
  have d1: "d_body (d\<lparr>d_body := DHeaders\<rparr>) = DHeaders" by simp
  obtain r2 where r2: "InjectContentLength E r1 = Inr r2" "buf_ok r2"
    "wire r2 = open_head d @ ''Content-Length: '' @ CL_PLACEHOLDER @ [CR, LF]"
    "rep (d\<lparr>d_body := DOpen []\<rparr>) ((Put E [CR, LF] r2)\<lparr>res_bodyStartOffset := of_nat (length (open_head d) + 30),
        res_bodyKind := BUFFERED, res_phase := BODY\<rparr>)"
    using inject_ok[OF e r1(2) d1 f2] by auto
  have "buf_ok (Put E [CR, LF] r2)" "wire (Put E [CR, LF] r2) = doc_text (d\<lparr>d_body := DOpen []\<rparr>)"
    using rep_facts(1,2)[OF r2(4)] by simp_all
  then have wl: "write_length (Put E [CR, LF] r2) = Inr (of_nat (length (open_head d) + 30))"
    by (simp add: doc_text_def CL_PLACEHOLDER_def)
  have "res_phase r1 = HEADERS" "res_status r1 = d_status d" using rep_facts[OF r1(2)] by simp_all
  then have "EnsureBodyOpen_by AE E r = Inr (True, (Put E [CR, LF] r2)\<lparr>res_bodyStartOffset := of_nat (length (open_head d) + 30),
        res_bodyKind := BUFFERED, res_phase := BODY\<rparr>)"
    using r1(1) r2(1) wl p(2) by (simp add: EnsureBodyOpen_by_def Let_def)
  with r2(4) show ?thesis by blast
qed


lemma body_more_ok:
  assumes e: "env_ok E" and r: "rep d r" and d: "d_body d = DOpen b \<or> d_body d = DAwait b" and ds: "ds \<noteq> []"
    and f: "fits E (doc_text d @ ds)"
  shows "rep (d\<lparr>d_body := if d_body d = DOpen b then DOpen (b @ ds) else DAwait (b @ ds)\<rparr>) (Put E ds r)"
proof -
  note w = rep_facts(1,2)[OF r]
  have "fits E (wire r @ ds)" using f w by simp
  note p = Put_ok[OF e w(1) this]
  from d show ?thesis
  proof
    assume d: "d_body d = DOpen b"
    show ?thesis using r p(1) by (simp add: rep_def d p(2) w(2) doc_text_def kept_length_def)
  next
    assume d: "d_body d = DAwait b"
    show ?thesis using r p(1) by (simp add: rep_def d p(2) w(2) doc_text_def kept_length_def)
  qed
qed

lemma write_body_ok:
  assumes e: "env_ok E" and r: "rep d r" and p: "headers_phase d" "\<not> StatusForbidsBody (d_status d)" "\<not> d_aborted d"
    and f: "fits E (doc_text (d\<lparr>d_body := DOpen ds\<rparr>))"
  shows "\<exists>r'. WriteBodyData_by AE E ds r = Inr r' \<and> rep (d\<lparr>d_body := DOpen ds\<rparr>) r'"
proof -
  note rj = not_rejected[OF r p(3) headers_phase_simps(2)[OF p(1)], of AE]
  have "fits E (doc_text (d\<lparr>d_body := DOpen []\<rparr>))" by (rule fits_mono[OF f]) (simp add: doc_text_def)
  from body_open_ok[OF e r p(1,2) this] obtain r1 where r1: "EnsureBodyOpen_by AE E r = Inr (True, r1)"
    "rep (d\<lparr>d_body := DOpen []\<rparr>) r1" by blast
  show ?thesis
  proof (cases "ds = []")
    case True
    then show ?thesis using rj r1 by (simp add: WriteBodyData_by_def)
  next
    case False
    have "fits E (doc_text (d\<lparr>d_body := DOpen []\<rparr>) @ ds)" using f by (simp add: doc_text_def)
    from body_more_ok[OF e r1(2) _ False this, of "[]"] have "rep (d\<lparr>d_body := DOpen ds\<rparr>) (Put E ds r1)" by simp
    then show ?thesis using rj r1(1) False by (simp add: WriteBodyData_by_def)
  qed
qed

text \<open>The length is patched over its placeholder.\<close>

lemma length_fixed_digits: "length (fixed_digits n v acc) = n + length acc"
  by (induction n arbitrary: v acc) simp_all

lemma length_FormatFixed10 [simp]: "length (FormatFixed10 v) = 10"
  by (simp add: FormatFixed10_def length_fixed_digits CL_FIELD_WIDTH_def)

lemma commit_open_ok:
  assumes r: "rep d r" and d: "d_body d = DOpen b" and a: "\<not> d_aborted d"
  shows "\<exists>r'. Commit_by AE E r = Inr r' \<and> rep (d\<lparr>d_body := DDone b\<rparr>) r'"
proof -
  have rj: "RejectIfCommitted AE r = Inr (False, r)" using not_rejected[OF r a, of AE] d by simp
  note w = rep_facts(1,2)[OF r]
  have cl: "res_clNeeded r" "res_clOffset r = of_nat (length (open_head d) + 16)"
    "res_bodyStartOffset r = of_nat (length (open_head d) + 30)" using r d by (simp_all add: rep_def)
  have L: "length (wire r) = length (open_head d) + 30 + length b" by (simp add: w(2) doc_text_def d CL_PLACEHOLDER_def)
  then have lt: "length (open_head d) + 30 + length b < 2 ^ 32" using buf_length[OF w(1)] by simp
  have u: "unat (of_nat (length (open_head d) + 16) :: u64) = length (open_head d) + 16" using lt by (simp add: unat_of_nat del: of_nat_add)
  have n: "(ucast (of_nat (length (wire r)) - res_bodyStartOffset r :: u64) :: u32) = of_nat (length b)"
    unfolding L cl(3) using lt by (simp add: word_unat_eq_iff unat_ucast_64_32 unat_of_nat)
  define t1 where "t1 = open_head d @ ''Content-Length: ''"
  have t: "wire r = t1 @ CL_PLACEHOLDER @ [CR, LF, CR, LF] @ b" "length t1 = length (open_head d) + 16"
    by (simp_all add: w(2) doc_text_def d t1_def)
  let ?ds = "FormatFixed10 (of_nat (length b))"
  have "length (open_head d) + 16 + length ?ds \<le> length (wire r)" by (simp add: L)
  note q = patched_ok[OF w(1) this]
  have "write_at (length (open_head d) + 16) ?ds (wire r) = t1 @ ?ds @ [CR, LF, CR, LF] @ b"
    unfolding t(1) by (rule write_at_middle) (simp_all add: t(2) CL_PLACEHOLDER_def)
  then have q3: "wire (patched (length (open_head d) + 16) ?ds r) = doc_text (d\<lparr>d_body := DDone b\<rparr>)"
    unfolding q(3) by (simp add: doc_text_def hdr_line_def t1_def)
  have ph: "res_phase r = BODY" "res_bodyKind r = BUFFERED" using rep_facts[OF r] d by simp_all
  have "Commit_by AE E r = Inr ((patched (length (open_head d) + 16) ?ds r)\<lparr>res_phase := COMMITTED\<rparr>)"
    using rj ph cl(1) w(1) n u q(1) by (simp add: Commit_by_def cl(2) del: of_nat_add)
  moreover have "rep (d\<lparr>d_body := DDone b\<rparr>) ((patched (length (open_head d) + 16) ?ds r)\<lparr>res_phase := COMMITTED\<rparr>)"
    using r q(2) by (simp add: rep_def d q3 kept_length_def)
  ultimately show ?thesis by blast
qed

lemma send_text_head_ok:
  assumes e: "env_ok E" and r: "rep d r" and p: "d_body d = DStatus"
    and f: "fits E (doc_text (d\<lparr>d_headers := [(''Content-Type'', ''text/plain'')], d_body := DHeaders\<rparr>))"
  obtains r1 where "EnsureHeadersOpen E r = Inr r1"
    "rep (d\<lparr>d_headers := [(''Content-Type'', ''text/plain'')], d_body := DHeaders\<rparr>)
       ((Put E (''Content-Type: text/plain'' @ [CR, LF]) r1)\<lparr>res_phase := HEADERS\<rparr>)"
proof -
  have h: "d_headers d = []" "headers_phase d" using r p by (simp_all add: rep_def headers_phase_def)
  note hp = headers_phase_simps(6)[OF h(2)]
  have f0: "fits E (doc_text (ensure_headers d))" by (rule fits_mono[OF f]) (simp add: hp doc_text_def open_head_def h)
  obtain r1 where r1: "EnsureHeadersOpen E r = Inr r1" "rep (d\<lparr>d_body := DHeaders\<rparr>) r1"
    using ensure_headers_ok[OF e r f0] unfolding hp by blast
  note w = rep_facts(1,2)[OF r1(2)]
  have c: "''Content-Type: text/plain'' @ [CR, LF] = hdr_line (''Content-Type'', ''text/plain'')" by (simp add: hdr_line_def)
  have "fits E (wire r1 @ ''Content-Type: text/plain'' @ [CR, LF])"
    unfolding c w(2) using f by (simp add: doc_text_def open_head_def h)
  note q = Put_ok[OF e w(1) this]
  define r2 where "r2 = Put E (''Content-Type: text/plain'' @ [CR, LF]) r1"
  have q2: "buf_ok r2" "wire r2 = doc_text (d\<lparr>d_headers := [(''Content-Type'', ''text/plain'')], d_body := DHeaders\<rparr>)"
    unfolding r2_def q(2) using q(1) by (simp_all only: c w(2)) (simp_all add: doc_text_def open_head_def h)
  have fl: "res_version r2 = res_version r1" "res_shouldClose r2 = res_shouldClose r1" "res_status r2 = res_status r1"
    "res_aborted r2 = res_aborted r1" "res_destroyed r2 = res_destroyed r1" "res_stream r2 = res_stream r1"
    "res_bodyKind r2 = res_bodyKind r1"
    "res_persistentHeadersEndOffset r2 = res_persistentHeadersEndOffset r1"
    by (simp_all add: r2_def)
  have "rep (d\<lparr>d_headers := [(''Content-Type'', ''text/plain'')], d_body := DHeaders\<rparr>) (r2\<lparr>res_phase := HEADERS\<rparr>)"
    using r1(2) q2(1) by (simp add: rep_def q2(2) fl kept_length_def)
  with r1(1) show ?thesis unfolding r2_def by (rule that)
qed


section \<open>The error path\<close>

text \<open>What an error rebuild starts from.\<close>

definition kept_doc :: "doc \<Rightarrow> doc" where
  "kept_doc d = d\<lparr>d_headers := [], d_body := if d_body d = DFresh then DFresh else DStatus, d_aborted := False,
     d_destroyed := d_destroyed d @ gen_release (doc_stream (d_body d))\<rparr>"

lemma doc_text_kept: "d_body d \<noteq> DFresh \<Longrightarrow> \<exists>rest. doc_text d = kept_head d @ rest"
  by (cases "d_body d") (auto simp: doc_text_def open_head_def)

lemma drop_gen_stream_simps [simp]:
  "res_rwBuffer (drop_gen_stream r) = res_rwBuffer r" "res_version (drop_gen_stream r) = res_version r"
  "res_shouldClose (drop_gen_stream r) = res_shouldClose r" "res_phase (drop_gen_stream r) = res_phase r"
  "res_status (drop_gen_stream r) = res_status r" "res_aborted (drop_gen_stream r) = res_aborted r"
  "res_persistentHeadersEndOffset (drop_gen_stream r) = res_persistentHeadersEndOffset r"
  "wire (drop_gen_stream r) = wire r" "buf_ok (drop_gen_stream r) = buf_ok r"
  by (simp_all add: drop_gen_stream_def release_stream_def)

lemma gen_release_none [simp]: "gen_release no_generator = []"
  by (simp add: gen_release_def no_generator_def)

lemma doc_stream_none: "doc_kind b \<noteq> GEN_STREAM \<Longrightarrow> doc_stream b = no_generator"
  by (cases b) simp_all

lemma drop_gen_stream_doc:
  assumes "rep d r"
  shows "res_destroyed (drop_gen_stream r) = d_destroyed d @ gen_release (doc_stream (d_body d))"
    "res_stream (drop_gen_stream r) = no_generator"
  using rep_facts[OF assms] by (auto simp: drop_gen_stream_def release_stream_def gen_release_def doc_stream_none no_generator_def)

definition error_start :: "HttpResponse \<Rightarrow> HttpResponse" where
  "error_start r2 = r2\<lparr>res_phase := if res_persistentHeadersEndOffset r2 > 0 then STATUS else FRESH, res_bodyKind := NONE,
     res_status := 200, res_clOffset := 0, res_bodyStartOffset := 0, res_clNeeded := False, res_aborted := False\<rparr>"

lemma error_start_ok:
  assumes r: "rep d r"
  shows "\<exists>r2. set_write_length (res_persistentHeadersEndOffset (drop_gen_stream r)) (drop_gen_stream r) = Inr r2 \<and>
     rep (kept_doc d) ((error_start r2)\<lparr>res_status := d_status d\<rparr>) \<and> res_status (error_start r2) = 200"
proof -
  let ?r1 = "drop_gen_stream r"
  note w = rep_facts[OF r]
  obtain rest where rest: "doc_text d = (if d_body d = DFresh then [] else kept_head d) @ rest"
    using doc_text_kept[of d] by (cases "d_body d = DFresh") auto
  have k: "kept_length d \<le> length (wire ?r1)" "take (kept_length d) (wire ?r1) = (if d_body d = DFresh then [] else kept_head d)"
    by (simp_all add: w(2) rest kept_length_def)
  have b: "buf_ok ?r1" using w(1) by simp
  note c = cut_ok[OF b k(1)]
  have pos: "0 < (of_nat (kept_length d) :: u64) \<longleftrightarrow> d_body d \<noteq> DFresh"
    using k(1) buf_length[OF b] by (subst of_nat_pos_u64) (auto simp: kept_length_def length_kept_head)
  define r2 where "r2 = cut (kept_length d) ?r1"
  have b2: "buf_ok r2" "wire r2 = (if d_body d = DFresh then [] else kept_head d)" using c k(2) by (simp_all add: r2_def)
  have fl: "res_version r2 = d_version d" "res_shouldClose r2 = d_close d"
    "res_destroyed r2 = d_destroyed d @ gen_release (doc_stream (d_body d))" "res_stream r2 = no_generator"
    "res_persistentHeadersEndOffset r2 = of_nat (kept_length d)"
    using w drop_gen_stream_doc[OF r] by (simp_all add: r2_def)
  have k1: "kept_length (kept_doc d) = kept_length d" by (simp add: kept_length_def kept_doc_def)
  have "rep (kept_doc d) ((error_start r2)\<lparr>res_status := d_status d\<rparr>)"
  proof (cases "d_body d = DFresh")
    case True
    then show ?thesis using r b2 fl pos k1 by (simp add: rep_def kept_doc_def error_start_def doc_text_def)
  next
    case False
    then show ?thesis using b2 fl pos k1 by (simp add: rep_def kept_doc_def error_start_def doc_text_def)
  qed
  then show ?thesis using c(1) w(8) by (intro exI[of _ r2]) (simp add: error_start_def r2_def)
qed

lemma length_hdr_line [simp]: "length (hdr_line (k, v)) = length k + length v + 4"
  by (simp add: hdr_line_def)

lemma error_doc_text:
  "doc_text (error_doc code msg ab d) = status_line (d\<lparr>d_status := code\<rparr>) @ lines_of (d_persist d) @ hdr_line (connection_header d) @
     hdr_line (''Content-Type'', ''text/plain'') @ hdr_line (''Content-Length'', FormatFixed10 (of_nat (length msg))) @ [CR, LF] @ msg"
  by (simp add: error_doc_def doc_text_def open_head_def kept_head_def connection_header_def status_line_def)

text \<open>A rebuild with a status that allows a body, whatever the error path above it is.\<close>

definition opened_error :: "u16 \<Rightarrow> doc \<Rightarrow> doc" where
  "opened_error code d = (kept_doc d)\<lparr>d_status := code, d_headers := [(''Content-Type'', ''text/plain'')], d_body := DHeaders\<rparr>"

lemma error_opened_ok:
  assumes e: "env_ok E" and r: "rep d r" and f: "fits E (doc_text (opened_error code d))"
  obtains r1 where "rep (opened_error code d) r1"
    "AbortWithError_by AE E code msg r = andThen (WriteBodyData_by AE E msg r1) (Commit_by AE E)"
proof -
  obtain r2 where r2: "set_write_length (res_persistentHeadersEndOffset (drop_gen_stream r)) (drop_gen_stream r) = Inr r2"
    "rep (kept_doc d) ((error_start r2)\<lparr>res_status := d_status d\<rparr>)" "res_status (error_start r2) = 200"
    using error_start_ok[OF r] by blast
  have kd: "headers_phase (kept_doc d)" "\<not> d_aborted (kept_doc d)" "d_status (kept_doc d) = d_status d"
    by (simp_all add: kept_doc_def headers_phase_def)
  have ek: "ensure_status (kept_doc d) = (kept_doc d)\<lparr>d_body := DStatus\<rparr>" by (simp add: ensure_status_def kept_doc_def)
  have f1: "fits E (doc_text (ensure_status (kept_doc d)))"
    by (rule fits_mono[OF f]) (simp add: ek doc_text_def opened_error_def open_head_def length_kept_head)
  have "rep (kept_doc d) ((error_start r2)\<lparr>res_status := d_status (kept_doc d)\<rparr>)" using r2(2) kd(3) by simp
  from write_status_ok[OF e this kd(1,2) r2(3) f1, of AE code] obtain r3 where
    r3: "WriteStatus_by AE E code (error_start r2) = Inr r3" "rep ((kept_doc d)\<lparr>d_body := DStatus, d_status := code\<rparr>) r3"
    unfolding ek by auto
  define d3 where "d3 = (kept_doc d)\<lparr>d_body := DStatus, d_status := code\<rparr>"
  have o: "opened_error code d = d3\<lparr>d_headers := [(''Content-Type'', ''text/plain'')], d_body := DHeaders\<rparr>"
    by (simp add: opened_error_def d3_def)
  have s3: "d_body d3 = DStatus" by (simp add: d3_def)
  obtain r4 where r4: "EnsureHeadersOpen E r3 = Inr r4"
    "rep (opened_error code d) ((Put E (''Content-Type: text/plain'' @ [CR, LF]) r4)\<lparr>res_phase := HEADERS\<rparr>)"
    using send_text_head_ok[OF e r3(2)[folded d3_def] s3 f[unfolded o]] unfolding o by metis
  have "AbortWithError_by AE E code msg r = SendText_by AE E msg r3"
    using r2(1) r3(1) by (simp add: AbortWithError_by_def Let_def error_start_def)
  with r4 show ?thesis by (intro that) (simp_all add: SendText_by_def)
qed

lemma error_doc_opened:
  "(opened_error code d)\<lparr>d_body := DDone msg\<rparr> = error_doc code msg False d"
  "error_doc code msg ab (opened_error code' d) = error_doc code msg ab d"
  by (simp_all add: opened_error_def kept_doc_def error_doc_def)

lemma error_allowed_ok:
  assumes e: "env_ok E" and r: "rep d r" and c: "\<not> StatusForbidsBody code" and f: "fits E (doc_text (error_doc code msg False d))"
  shows "\<exists>r'. AbortWithError_by AE E code msg r = Inr r' \<and> rep (error_doc code msg False d) r'"
proof -
  let ?o = "opened_error code d"
  have o: "headers_phase ?o" "d_status ?o = code" "\<not> d_aborted ?o" by (simp_all add: opened_error_def kept_doc_def headers_phase_def)
  have f1: "fits E (doc_text (?o\<lparr>d_body := DOpen msg\<rparr>))" 
    by (rule fits_mono[OF f]) (simp add: error_doc_opened(1)[symmetric] doc_text_def CL_PLACEHOLDER_def)
  have f2: "fits E (doc_text ?o)" by (rule fits_mono[OF f1]) (simp add: doc_text_def opened_error_def)
  obtain r1 where r1: "rep ?o r1" "AbortWithError_by AE E code msg r = andThen (WriteBodyData_by AE E msg r1) (Commit_by AE E)"
    by (rule error_opened_ok[OF e r f2])
  have c': "\<not> StatusForbidsBody (d_status ?o)" using c o(2) by simp
  obtain r2 where r2: "WriteBodyData_by AE E msg r1 = Inr r2" "rep (?o\<lparr>d_body := DOpen msg\<rparr>) r2"
    using write_body_ok[OF e r1(1) o(1) c' o(3) f1] by blast
  have "\<not> d_aborted (?o\<lparr>d_body := DOpen msg\<rparr>)" using o(3) by simp
  from commit_open_ok[OF r2(2) _ this, of msg AE E] obtain r3 where "Commit_by AE E r2 = Inr r3"
    "rep (?o\<lparr>d_body := DDone msg\<rparr>) r3" by auto
  then show ?thesis using r1(2) r2(1) error_doc_opened(1) by simp
qed


lemma violation_ok:
  assumes e: "env_ok E" and r: "rep d r" and f: "fits E (doc_text (doc_violation d))"
  shows "\<exists>r'. AbortContractViolation (AbortWithErrorN (Suc n) E) r = Inr r' \<and> rep (doc_violation d) r'"
proof (cases "d_aborted d")
  case True
  then show ?thesis using r rep_facts(6)[OF r] by (simp add: AbortContractViolation_def doc_violation_def)
next
  case False
  have f1: "fits E (doc_text (error_doc 500 violation_text False d))"
    by (rule fits_mono[OF f]) (simp add: doc_violation_def False error_doc_text)
  have "\<not> StatusForbidsBody 500" by (simp add: StatusForbidsBody_def)
  from error_allowed_ok[OF e r this f1, of "AbortWithErrorN n E"] obtain r1 where
    r1: "AbortWithErrorN (Suc n) E 500 violation_text r = Inr r1" "rep (error_doc 500 violation_text False d) r1" by auto
  have "rep (doc_violation d) (r1\<lparr>res_aborted := True\<rparr>)"
    using r1(2) by (simp add: rep_def doc_violation_def False error_doc_def doc_text_def kept_length_def)
  then show ?thesis using r1(1) False rep_facts(6)[OF r] by (simp add: AbortContractViolation_def violation_text_def)
qed

lemma abort_ok:
  assumes e: "env_ok E" and r: "rep d r" and f: "fits E (doc_text (doc_abort code msg d))"
  shows "\<exists>r'. AbortWithErrorN (Suc (Suc n)) E code msg r = Inr r' \<and> rep (doc_abort code msg d) r'"
proof (cases "StatusForbidsBody code")
  case False
  then show ?thesis using error_allowed_ok[OF e r False, of msg "AbortWithErrorN (Suc n) E"] f by (simp add: doc_abort_def)
next
  case True
  let ?o = "opened_error code d" and ?AE = "AbortWithErrorN (Suc n) E"
  have o: "headers_phase ?o" "d_status ?o = code" "\<not> d_aborted ?o" "d_body ?o = DHeaders"
    by (simp_all add: opened_error_def kept_doc_def headers_phase_def)
  have v: "doc_violation ?o = error_doc 500 violation_text True d"
    by (simp add: doc_violation_def o(3) error_doc_opened)
  have f1: "fits E (doc_text (error_doc 500 violation_text True d))" using f True by (simp add: doc_abort_def)
  have f2: "fits E (doc_text ?o)"
    by (rule fits_mono[OF f1], unfold error_doc_text)
      (simp add: doc_text_def o(4) opened_error_def open_head_def kept_head_def kept_doc_def connection_header_def)
  obtain r1 where r1: "rep ?o r1" "AbortWithError_by ?AE E code msg r = andThen (WriteBodyData_by ?AE E msg r1) (Commit_by ?AE E)"
    by (rule error_opened_ok[OF e r f2])
  obtain r2 where r2: "AbortContractViolation ?AE r1 = Inr r2" "rep (error_doc 500 violation_text True d) r2"
    using violation_ok[OF e r1(1)] f1 unfolding v by blast
  have h: "EnsureHeadersOpen E r1 = Inr r1"
    using rep_facts(3)[OF r1(1)] o(4) by (simp add: EnsureHeadersOpen_def EnsureStatusLineReserved_def)
  have "EnsureBodyOpen_by ?AE E r1 = Inr (False, r2)"
    using h r2(1) rep_facts(3,5)[OF r1(1)] o True by (simp add: EnsureBodyOpen_by_def)
  then have "WriteBodyData_by ?AE E msg r1 = Inr r2"
    using not_rejected[OF r1(1) o(3), of ?AE] o(4) by (simp add: WriteBodyData_by_def)
  moreover have "res_aborted r2" using rep_facts(6)[OF r2(2)] by (simp add: error_doc_def)
  then have "Commit_by ?AE E r2 = Inr r2" by (simp add: Commit_by_def RejectIfCommitted_def)
  ultimately show ?thesis using r1(2) r2(2) True by (simp add: doc_abort_def)
qed

text \<open>The calls of a handler, on a response that still takes them.\<close>

lemma aborted_call:
  assumes "rep d r" "d_aborted d"
  shows "RejectIfCommitted AE r = Inr (True, r)"
  using rep_facts(6)[OF assms(1)] assms(2) by (simp add: RejectIfCommitted_def)

lemma committed_call:
  assumes e: "env_ok E" and r: "rep d r" and c: "\<not> d_aborted d" "doc_phase (d_body d) = COMMITTED"
    and f: "fits E (doc_text (doc_violation d))"
  shows "\<exists>r'. RejectIfCommitted (AbortWithErrorN (Suc n) E) r = Inr (True, r') \<and> rep (doc_violation d) r'"
proof -
  obtain r1 where "AbortContractViolation (AbortWithErrorN (Suc n) E) r = Inr r1" "rep (doc_violation d) r1"
    using violation_ok[OF e r f] by blast
  then show ?thesis using rep_facts(3,6)[OF r] c by (simp add: RejectIfCommitted_def del: AbortWithErrorN.simps)
qed

lemma status_step:
  assumes e: "env_ok E" and r: "rep d r" and c: "\<not> d_aborted d" "doc_phase (d_body d) \<noteq> COMMITTED"
    and f: "fits E (doc_text (doc_step E (CallStatus code) d))"
  shows "\<exists>r'. WriteStatus_by (AbortWithErrorN (Suc n) E) E code r = Inr r' \<and> rep (doc_step E (CallStatus code) d) r'"
proof (cases "headers_phase d")
  case True
  have eq: "doc_step E (CallStatus code) d = (ensure_status d)\<lparr>d_status := code\<rparr>"
    using True by (auto simp: headers_phase_def ensure_status_def)
  have f1: "fits E (doc_text (ensure_status d))"
    by (rule fits_mono[OF f]) (use True in \<open>auto simp: eq headers_phase_def doc_text_def ensure_status_def open_head_def length_kept_head\<close>)
  have "r\<lparr>res_status := d_status d\<rparr> = r" using rep_facts(5)[OF r] by simp
  with r have r': "rep d (r\<lparr>res_status := d_status d\<rparr>)" by simp
  have "d_body d = DFresh \<Longrightarrow> res_status r = 200" using r by (simp add: rep_def)
  from write_status_ok[OF e r' True c(1) this f1] show ?thesis unfolding eq by simp
next
  case False
  then have b: "doc_phase (d_body d) = BODY" using c(2) by (cases "d_body d") (auto simp: headers_phase_def)
  then show ?thesis
    using violation_ok[OF e r, of n] f not_rejected[OF r c] rep_facts(3)[OF r] by (simp add: WriteStatus_by_def)
qed

lemma rejected_header_violates:
  assumes "rejected_header k v"
  shows "(if InsensitiveStringCompare k ''connection'' then x else if HasCRLFOrNull k \<or> HasCRLFOrNull v then x else y) = x"
  using assms by (auto simp: rejected_header_def)

lemma ensure_status_as: "d_body d = DFresh \<or> d_body d = DStatus \<Longrightarrow> ensure_status d = d\<lparr>d_body := DStatus\<rparr>"
  by (auto simp: ensure_status_def)

lemma persistent_header_step:
  assumes e: "env_ok E" and r: "rep d r" and c: "\<not> d_aborted d" "doc_phase (d_body d) \<noteq> COMMITTED"
    and f: "fits E (doc_text (doc_step E (CallPersistentHeader k v) d))"
  shows "\<exists>r'. WritePersistentHeader_by (AbortWithErrorN (Suc n) E) E k v r = Inr r' \<and> rep (doc_step E (CallPersistentHeader k v) d) r'"
proof (cases "phase_code (doc_phase (d_body d)) \<ge> 2 \<or> rejected_header k v")
  case True
  then have st: "doc_step E (CallPersistentHeader k v) d = doc_violation d" by (auto simp only: doc_step.simps if_True)
  have "WritePersistentHeader_by (AbortWithErrorN (Suc n) E) E k v r = AbortContractViolation (AbortWithErrorN (Suc n) E) r"
    using True not_rejected[OF r c] rep_facts(3)[OF r] by (auto simp: WritePersistentHeader_by_def rejected_header_def)
  then show ?thesis using violation_ok[OF e r, of n] f unfolding st by simp
next
  case False
  then have p: "d_body d = DFresh \<or> d_body d = DStatus" by (cases "d_body d") auto
  let ?d = "d\<lparr>d_persist := d_persist d @ [(k, v)], d_body := DStatus\<rparr>"
  have st: "doc_step E (CallPersistentHeader k v) d = ?d" using False by simp
  have f1: "fits E (doc_text (ensure_status d))"
    by (rule fits_mono[OF f], unfold st) (use p in \<open>simp add: ensure_status_as doc_text_def length_kept_head\<close>)
  obtain r1 where r1: "EnsureStatusLineReserved E r = Inr r1" "rep (d\<lparr>d_body := DStatus\<rparr>) r1"
    using ensure_status_ok[OF e r f1] p by (auto simp: ensure_status_as)
  have w: "buf_ok r1" "wire r1 = kept_head d" using rep_facts(1,2)[OF r1(2)] by (simp_all add: doc_text_def)
  have kh: "kept_head (d\<lparr>d_persist := d_persist d @ [(k, v)]\<rparr>) = kept_head d @ hdr_line (k, v)" by (simp add: kept_head_def)
  have f2: "fits E (wire r1 @ hdr_line (k, v))" using f unfolding st w by (simp add: doc_text_def kh)
  note q = put_header_ok[OF e w(1) f2]
  let ?r = "(put_header E k v r1)\<lparr>res_persistentHeadersEndOffset := of_nat (length (kept_head ?d))\<rparr>"
  have ph: "\<not> HEADERS \<le> res_phase r" using False rep_facts(3)[OF r] by simp
  have "WritePersistentHeader_by (AbortWithErrorN (Suc n) E) E k v r = Inr ?r"
    using not_rejected[OF r c] ph False r1(1) q w(2)
    by (simp add: WritePersistentHeader_by_def Let_def rejected_header_def kh)
  moreover have "rep ?d ?r"
    using r1(2) q(1) by (simp add: rep_def q(2) w(2) kh doc_text_def kept_length_def)
  ultimately show ?thesis unfolding st by blast
qed

lemma header_step:
  assumes e: "env_ok E" and r: "rep d r" and c: "\<not> d_aborted d" "doc_phase (d_body d) \<noteq> COMMITTED"
    and f: "fits E (doc_text (doc_step E (CallHeader k v) d))"
  shows "\<exists>r'. WriteHeader_by (AbortWithErrorN (Suc n) E) E k v r = Inr r' \<and> rep (doc_step E (CallHeader k v) d) r'"
proof (cases "doc_phase (d_body d) = BODY \<or> rejected_header k v")
  case True
  then have st: "doc_step E (CallHeader k v) d = doc_violation d" by (auto simp only: doc_step.simps if_True)
  have "WriteHeader_by (AbortWithErrorN (Suc n) E) E k v r = AbortContractViolation (AbortWithErrorN (Suc n) E) r"
    using True not_rejected[OF r c] rep_facts(3)[OF r] by (auto simp: WriteHeader_by_def rejected_header_def)
  then show ?thesis using violation_ok[OF e r, of n] f unfolding st by simp
next
  case False
  then have p: "headers_phase d" using c(2) by (cases "d_body d") (auto simp: headers_phase_def)
  note hp = headers_phase_simps(6)[OF p]
  let ?d = "d\<lparr>d_headers := d_headers d @ [(k, v)], d_body := DHeaders\<rparr>"
  have st: "doc_step E (CallHeader k v) d = ?d" using False by simp
  have oh: "open_head (d\<lparr>d_headers := d_headers d @ [(k, v)]\<rparr>) = open_head d @ hdr_line (k, v)" by (simp add: open_head_def)
  have f1: "fits E (doc_text (ensure_headers d))"
    by (rule fits_mono[OF f], unfold st) (simp add: hp doc_text_def oh)
  obtain r1 where r1: "EnsureHeadersOpen E r = Inr r1" "rep (d\<lparr>d_body := DHeaders\<rparr>) r1"
    using ensure_headers_ok[OF e r f1] unfolding hp by blast
  have w: "buf_ok r1" "wire r1 = open_head d" using rep_facts(1,2)[OF r1(2)] by (simp_all add: doc_text_def)
  have f2: "fits E (wire r1 @ hdr_line (k, v))" using f unfolding st w by (simp add: doc_text_def oh)
  note q = put_header_ok[OF e w(1) f2]
  let ?r = "(put_header E k v r1)\<lparr>res_phase := HEADERS\<rparr>"
  have "WriteHeader_by (AbortWithErrorN (Suc n) E) E k v r = Inr ?r"
    using not_rejected[OF r c] False r1(1) rep_facts(3)[OF r] by (simp add: WriteHeader_by_def rejected_header_def)
  moreover have "rep ?d ?r"
    using r1(2) q(1) by (simp add: rep_def q(2) w(2) oh doc_text_def kept_length_def)
  ultimately show ?thesis unfolding st by blast
qed


lemma write_step:
  assumes e: "env_ok E" and r: "rep d r" and c: "\<not> d_aborted d" "doc_phase (d_body d) \<noteq> COMMITTED"
    and f: "fits E (doc_text d)" "fits E (doc_text (doc_step E (CallWrite ds) d))"
  shows "\<exists>r'. WriteBodyData_by (AbortWithErrorN (Suc n) E) E ds r = Inr r' \<and> rep (doc_step E (CallWrite ds) d) r'"
proof (cases "headers_phase d")
  case False
  then obtain b where b: "d_body d = DOpen b \<or> d_body d = DAwait b" using c(2) by (cases "d_body d") (auto simp: headers_phase_def)
  have st: "doc_step E (CallWrite ds) d = d\<lparr>d_body := if d_body d = DOpen b then DOpen (b @ ds) else DAwait (b @ ds)\<rparr>"
    using b by auto
  have h: "EnsureHeadersOpen E r = Inr r" "res_phase r = BODY"
    using b rep_facts(3)[OF r] by (auto simp: EnsureHeadersOpen_def EnsureStatusLineReserved_def)
  then have o: "EnsureBodyOpen_by AE E r = Inr (True, r)" for AE by (simp add: EnsureBodyOpen_by_def)
  show ?thesis
  proof (cases "ds = []")
    case True
    have "d\<lparr>d_body := if d_body d = DOpen b then DOpen (b @ ds) else DAwait (b @ ds)\<rparr> = d" using b True by (elim disjE) simp_all
    then show ?thesis using r not_rejected[OF r c] o True unfolding st by (simp add: WriteBodyData_by_def)
  next
    case False
    have "fits E (doc_text d @ ds)" using f(2) b unfolding st by (elim disjE) (simp_all add: doc_text_def)
    from body_more_ok[OF e r b False this] show ?thesis
      using not_rejected[OF r c] o False unfolding st by (simp add: WriteBodyData_by_def)
  qed
next
  case True
  show ?thesis
  proof (cases "StatusForbidsBody (d_status d)")
    case False
    then have st: "doc_step E (CallWrite ds) d = d\<lparr>d_body := DOpen ds\<rparr>" using True by (auto simp: headers_phase_def)
    show ?thesis using write_body_ok[OF e r True False c(1)] f(2) unfolding st by blast
  next
    case forb: True
    then have st: "doc_step E (CallWrite ds) d = doc_violation d" using True by (auto simp: headers_phase_def)
    note hp = headers_phase_simps(6)[OF True]
    have v: "doc_violation d = error_doc 500 violation_text True d" by (simp add: doc_violation_def c(1))
    have f1: "fits E (doc_text (ensure_headers d))"
    proof (cases "d_body d = DHeaders")
      case True
      then have "ensure_headers d = d" by (simp add: ensure_headers_def)
      then show ?thesis using f(1) by simp
    next
      case False
      then have "d_headers d = []" using True r by (auto simp: headers_phase_def rep_def)
      then show ?thesis
        by (intro fits_mono[OF f(2)[unfolded st v]]) (simp add: hp doc_text_def error_doc_text[unfolded doc_text_def] open_head_def kept_head_def)
    qed
    obtain r1 where r1: "EnsureHeadersOpen E r = Inr r1" "rep (d\<lparr>d_body := DHeaders\<rparr>) r1"
      using ensure_headers_ok[OF e r f1] unfolding hp by blast
    have v1: "doc_violation (d\<lparr>d_body := DHeaders\<rparr>) = doc_violation d"
      using True c(1) by (auto simp: doc_violation_def error_doc_def headers_phase_def)
    obtain r2 where r2: "AbortContractViolation (AbortWithErrorN (Suc n) E) r1 = Inr r2" "rep (doc_violation d) r2"
      using violation_ok[OF e r1(2), of n] f(2) unfolding v1 st by blast
    have "EnsureBodyOpen_by (AbortWithErrorN (Suc n) E) E r = Inr (False, r2)"
      using r1(1) r2(1) rep_facts(3,5)[OF r1(2)] forb by (simp add: EnsureBodyOpen_by_def del: AbortWithErrorN.simps)
    then show ?thesis using not_rejected[OF r c] r2(2) unfolding st by (simp add: WriteBodyData_by_def del: AbortWithErrorN.simps)
  qed
qed

text \<open>The three bodies that are not in the buffer share their guards.\<close>

lemma body_kind_guard:
  assumes r: "rep d r" and c: "doc_phase (d_body d) \<noteq> COMMITTED"
  shows "res_bodyKind r \<noteq> NONE \<longleftrightarrow> doc_phase (d_body d) = BODY" "res_phase r = BODY \<longleftrightarrow> doc_phase (d_body d) = BODY"
  using rep_facts(3,4)[OF r] c by (cases "d_body d"; simp)+

lemma headers_phase_not_body: "doc_phase (d_body d) \<noteq> COMMITTED \<Longrightarrow> doc_phase (d_body d) \<noteq> BODY \<Longrightarrow> headers_phase d"
  by (cases "d_body d") (simp_all add: headers_phase_def)

lemma stream_step:
  assumes e: "env_ok E" and r: "rep d r" and c: "\<not> d_aborted d" "doc_phase (d_body d) \<noteq> COMMITTED"
    and f: "fits E (doc_text (doc_step E (CallStream g chunked) d))"
  shows "\<exists>r'. WriteStream_by (AbortWithErrorN (Suc n) E) E g chunked r = Inr r' \<and> rep (doc_step E (CallStream g chunked) d) r'"
proof (cases "doc_phase (d_body d) = BODY \<or> StatusForbidsBody (d_status d)")
  case True
  then have st: "doc_step E (CallStream g chunked) d = doc_violation d" by simp
  have "WriteStream_by (AbortWithErrorN (Suc n) E) E g chunked r = AbortContractViolation (AbortWithErrorN (Suc n) E) r"
    using True not_rejected[OF r c] rep_facts(5)[OF r] body_kind_guard(1)[OF r c(2)] by (auto simp: WriteStream_by_def)
  then show ?thesis using violation_ok[OF e r, of n] f unfolding st by simp
next
  case False
  then have p: "headers_phase d" using c(2) headers_phase_not_body by blast
  note hp = headers_phase_simps(6)[OF p]
  have st: "doc_step E (CallStream g chunked) d = d\<lparr>d_body := DStream chunked g\<rparr>" using False by simp
  have f1: "fits E (doc_text (ensure_headers d))" by (rule fits_mono[OF f], unfold st) (simp add: hp doc_text_def)
  obtain r1 where r1: "EnsureHeadersOpen E r = Inr r1" "rep (d\<lparr>d_body := DHeaders\<rparr>) r1"
    using ensure_headers_ok[OF e r f1] unfolding hp by blast
  have w: "buf_ok r1" "wire r1 = open_head d" using rep_facts(1,2)[OF r1(2)] by (simp_all add: doc_text_def)
  define te where "te = (if chunked then TE_CHUNKED else [])"
  have f2: "fits E (wire r1 @ te)" and f3: "fits E (wire r1 @ te @ [CR, LF])"
    using f unfolding st w by (simp_all add: doc_text_def te_def fits_def)
  note q = Put_ok[OF e w(1) f2]
  have f4: "fits E (wire (Put E te r1) @ [CR, LF])" unfolding q(2) using f3 by simp
  note q2 = Put_ok[OF e q(1) f4]
  define r3 where "r3 = Put E [CR, LF] (Put E te r1)"
  have r3: "buf_ok r3" "wire r3 = doc_text (d\<lparr>d_body := DStream chunked g\<rparr>)" using q2 q(2) w(2) by (simp_all add: r3_def doc_text_def te_def)
  have fl: "res_version r3 = d_version d" "res_shouldClose r3 = d_close d" "res_status r3 = d_status d" "res_aborted r3 = d_aborted d"
    "res_destroyed r3 = d_destroyed d" "res_stream r3 = no_generator" "res_persistentHeadersEndOffset r3 = of_nat (length (kept_head d))"
    using rep_facts[OF r1(2)] by (simp_all add: r3_def kept_length_def)
  have rl: "release_stream r3 = r3" using fl(6) by (simp add: release_stream_def no_generator_def)
  have eq: "WriteStream_by (AbortWithErrorN (Suc n) E) E g chunked r = Inr (r3\<lparr>res_stream := g, res_bodyKind := GEN_STREAM, res_phase := COMMITTED\<rparr>)"
    using False not_rejected[OF r c] rep_facts(5)[OF r] body_kind_guard(1)[OF r c(2)] r1(1) rl
    by (simp add: WriteStream_by_def Let_def r3_def te_def split: if_splits)
  have "rep (d\<lparr>d_body := DStream chunked g\<rparr>) (r3\<lparr>res_stream := g, res_bodyKind := GEN_STREAM, res_phase := COMMITTED\<rparr>)"
    using r3 fl by (simp add: rep_def kept_length_def)
  with eq show ?thesis unfolding st by blast
qed


lemma file_step:
  assumes e: "env_ok E" and r: "rep d r" and c: "\<not> d_aborted d" "doc_phase (d_body d) \<noteq> COMMITTED"
    and f: "fits E (doc_text (doc_step E (CallFile path auto) d))"
  shows "\<exists>r'. WriteFile_by (AbortWithErrorN (Suc n) E) E path auto r = Inr r' \<and> rep (doc_step E (CallFile path auto) d) r'"
proof (cases "doc_phase (d_body d) = BODY \<or> StatusForbidsBody (d_status d)")
  case True
  then have st: "doc_step E (CallFile path auto) d = doc_violation d" by simp
  have "WriteFile_by (AbortWithErrorN (Suc n) E) E path auto r = AbortContractViolation (AbortWithErrorN (Suc n) E) r"
    using True not_rejected[OF r c] rep_facts(3,5)[OF r] body_kind_guard[OF r c(2)] by (auto simp: WriteFile_by_def)
  then show ?thesis using violation_ok[OF e r, of n] f unfolding st by simp
next
  case False
  note guards = False not_rejected[OF r c] rep_facts(5)[OF r] body_kind_guard[OF r c(2)]
  show ?thesis
  proof (cases "auto \<and> \<not> FileExists E (c_str path)")
    case True
    have n: "\<not> StatusForbidsBody 404" by (simp add: StatusForbidsBody_def)
    then have st: "doc_step E (CallFile path auto) d = error_doc 404 ''File not found'' False d"
      using True False by (simp add: doc_abort_def)
    have "WriteFile_by (AbortWithErrorN (Suc n) E) E path auto r = AbortWithError_by (AbortWithErrorN n E) E 404 ''File not found'' r"
      using guards True by (simp add: WriteFile_by_def)
    then show ?thesis using error_allowed_ok[OF e r n, of "''File not found''" "AbortWithErrorN n E"] f unfolding st by simp
  next
    case found: False
    have p: "headers_phase d" using False c(2) headers_phase_not_body by blast
    note hp = headers_phase_simps(6)[OF p]
    define sz where "sz = FormatUInt64 (GetFileSize E (c_str path))"
    define mime where "mime = DetectMimeFromExt path"
    let ?d = "d\<lparr>d_body := DFile (GetFileSize E (c_str path)) mime path\<rparr>"
    have st: "doc_step E (CallFile path auto) d = ?d" using False found by (auto simp: mime_def)
    have f1: "fits E (doc_text (ensure_headers d))" by (rule fits_mono[OF f], unfold st) (simp add: hp doc_text_def)
    obtain r1 where r1: "EnsureHeadersOpen E r = Inr r1" "rep (d\<lparr>d_body := DHeaders\<rparr>) r1"
      using ensure_headers_ok[OF e r f1] unfolding hp by blast
    have w: "buf_ok r1" "wire r1 = open_head d" using rep_facts(1,2)[OF r1(2)] by (simp_all add: doc_text_def)
    have all: "fits E (open_head d @ hdr_line (''Content-Length'', sz) @ hdr_line (''Content-Type'', mime) @ [CR, LF])"
      using f unfolding st by (simp add: doc_text_def sz_def)
    have fh1: "fits E (wire r1 @ hdr_line (''Content-Length'', sz))" using all by (simp add: w fits_def)
    define r2 where "r2 = Put E [CR, LF] (Put E sz (Put E ''Content-Length: '' r1))"
    have l1: "fits E (wire r1 @ ''Content-Length: '')" "fits E ((wire r1 @ ''Content-Length: '') @ sz)"
      "fits E (((wire r1 @ ''Content-Length: '') @ sz) @ [CR, LF])" using all by (simp_all add: w fits_def)
    note q1 = Put_ok[OF e w(1) l1(1)] 
    note q2 = Put_ok[OF e q1(1) l1(2)[folded q1(2)]]
    note q3 = Put_ok[OF e q2(1) l1(3)[folded q1(2), folded q2(2)]]
    have b2: "buf_ok r2" "wire r2 = open_head d @ hdr_line (''Content-Length'', sz)"
      using q3(1) unfolding r2_def q3(2) q2(2) q1(2) w(2) by (simp_all add: hdr_line_def)
    define r3 where "r3 = Put E [CR, LF] (Put E mime (Put E ''Content-Type: '' r2))"
    have l2: "fits E (wire r2 @ ''Content-Type: '')" "fits E ((wire r2 @ ''Content-Type: '') @ mime)"
      "fits E (((wire r2 @ ''Content-Type: '') @ mime) @ [CR, LF])" using all by (simp_all add: b2(2) fits_def)
    note u1 = Put_ok[OF e b2(1) l2(1)] 
    note u2 = Put_ok[OF e u1(1) l2(2)[folded u1(2)]]
    note u3 = Put_ok[OF e u2(1) l2(3)[folded u1(2), folded u2(2)]]
    have b3: "buf_ok r3" "wire r3 = open_head d @ hdr_line (''Content-Length'', sz) @ hdr_line (''Content-Type'', mime)"
      using u3(1) unfolding r3_def u3(2) u2(2) u1(2) b2(2) by (simp_all add: hdr_line_def)
    have l3: "fits E (wire r3 @ [CR, LF])" using all by (simp add: b3(2))
    note q = Put_ok[OF e b3(1) l3]
    define r4 where "r4 = Put E [CR, LF] r3"
    have b4: "buf_ok r4" "wire r4 = doc_text ?d" using q unfolding r4_def b3(2) by (simp_all add: doc_text_def sz_def)
    have fl: "res_version r4 = d_version d" "res_shouldClose r4 = d_close d" "res_status r4 = d_status d" "res_aborted r4 = d_aborted d"
      "res_destroyed r4 = d_destroyed d" "res_stream r4 = no_generator" "res_persistentHeadersEndOffset r4 = of_nat (length (kept_head d))"
      using rep_facts[OF r1(2)] by (simp_all add: r4_def r3_def r2_def kept_length_def)
    have "WriteFile_by (AbortWithErrorN (Suc n) E) E path auto r = Inr (r4\<lparr>res_filePath := path, res_bodyKind := FILE, res_phase := COMMITTED\<rparr>)"
      using guards found r1(1) by (auto simp: WriteFile_by_def Let_def r4_def r3_def r2_def sz_def mime_def)
    moreover have "rep ?d (r4\<lparr>res_filePath := path, res_bodyKind := FILE, res_phase := COMMITTED\<rparr>)"
      using b4 fl by (simp add: rep_def kept_length_def)
    ultimately show ?thesis unfolding st by blast
  qed
qed

lemma flush_start_step:
  assumes e: "env_ok E" and r: "rep d r" and c: "\<not> d_aborted d" "doc_phase (d_body d) \<noteq> COMMITTED"
    and f: "fits E (doc_text (doc_step E CallFlushStart d))"
  shows "\<exists>r'. WriteFlushStart_by (AbortWithErrorN (Suc n) E) E r = Inr r' \<and> rep (doc_step E CallFlushStart d) r'"
proof (cases "doc_phase (d_body d) = BODY \<or> StatusForbidsBody (d_status d)")
  case True
  then have st: "doc_step E CallFlushStart d = doc_violation d" by simp
  have "WriteFlushStart_by (AbortWithErrorN (Suc n) E) E r = AbortContractViolation (AbortWithErrorN (Suc n) E) r"
    using True not_rejected[OF r c] rep_facts(5)[OF r] body_kind_guard(1)[OF r c(2)] by (auto simp: WriteFlushStart_by_def)
  then show ?thesis using violation_ok[OF e r, of n] f unfolding st by simp
next
  case False
  then have p: "headers_phase d" using c(2) headers_phase_not_body by blast
  note hp = headers_phase_simps(6)[OF p]
  let ?d = "d\<lparr>d_body := DAwait []\<rparr>"
  have st: "doc_step E CallFlushStart d = ?d" using False by simp
  have f1: "fits E (doc_text (ensure_headers d))" by (rule fits_mono[OF f], unfold st) (simp add: hp doc_text_def)
  obtain r1 where r1: "EnsureHeadersOpen E r = Inr r1" "rep (d\<lparr>d_body := DHeaders\<rparr>) r1"
    using ensure_headers_ok[OF e r f1] unfolding hp by blast
  have w: "buf_ok r1" "wire r1 = open_head d" using rep_facts(1,2)[OF r1(2)] by (simp_all add: doc_text_def)
  have l: "fits E (wire r1 @ TE_CHUNKED)" "fits E ((wire r1 @ TE_CHUNKED) @ [CR, LF])" "fits E (((wire r1 @ TE_CHUNKED) @ [CR, LF]) @ gap)"
    using f unfolding st by (simp_all add: doc_text_def w fits_def)
  note q1 = Put_ok[OF e w(1) l(1)]
  note q2 = Put_ok[OF e q1(1) l(2)[folded q1(2)]]
  define r2 where "r2 = (Put E [CR, LF] (Put E TE_CHUNKED r1))\<lparr>res_bodyKind := AWAIT_STREAM, res_phase := BODY\<rparr>"
  have b2: "buf_ok r2" "wire r2 = (wire r1 @ TE_CHUNKED) @ [CR, LF]" using q2 q1(2) by (simp_all add: r2_def)
  have g: "gap \<noteq> []" "replicate CHUNK_HDR_RESERVE NUL = gap" by (simp_all add: gap_def CHUNK_HDR_RESERVE_def)
  note a = Append_ok[OF e b2(1) l(3)[folded b2(2)] g(1)]
  define r3 where "r3 = Put E gap r2"
  have b3: "buf_ok r3" "wire r3 = doc_text ?d" using a(2,3) unfolding r3_def b2(2) w(2) by (simp_all add: doc_text_def)
  have fl: "res_version r3 = d_version d" "res_shouldClose r3 = d_close d" "res_status r3 = d_status d" "res_aborted r3 = d_aborted d"
    "res_destroyed r3 = d_destroyed d" "res_stream r3 = no_generator" "res_persistentHeadersEndOffset r3 = of_nat (length (kept_head d))"
    "res_bodyKind r3 = AWAIT_STREAM" "res_phase r3 = BODY"
    using rep_facts[OF r1(2)] by (simp_all add: r3_def r2_def kept_length_def)
  have eq: "ReserveNextFlushGap E r2 = Inr (True, r3\<lparr>res_bodyStartOffset := of_nat (length (doc_text ?d))\<rparr>)"
    using a(1) b3 by (simp add: ReserveNextFlushGap_def g(2) r3_def)
  have "WriteFlushStart_by (AbortWithErrorN (Suc n) E) E r = Inr (r3\<lparr>res_bodyStartOffset := of_nat (length (doc_text ?d))\<rparr>)"
    using False not_rejected[OF r c] rep_facts(5)[OF r] body_kind_guard(1)[OF r c(2)] r1(1) eq
    by (simp add: WriteFlushStart_by_def Let_def r2_def)
  moreover have "rep ?d (r3\<lparr>res_bodyStartOffset := of_nat (length (doc_text ?d))\<rparr>)"
    using b3 fl by (simp add: rep_def kept_length_def)
  ultimately show ?thesis unfolding st by blast
qed

lemma commit_step:
  assumes e: "env_ok E" and r: "rep d r" and c: "\<not> d_aborted d" "doc_phase (d_body d) \<noteq> COMMITTED"
    and f: "fits E (doc_text (doc_step E CallCommit d))"
  shows "\<exists>r'. Commit_by (AbortWithErrorN (Suc n) E) E r = Inr r' \<and> rep (doc_step E CallCommit d) r'"
proof (cases "headers_phase d")
  case True
  note hp = headers_phase_simps(6)[OF True]
  let ?d = "d\<lparr>d_body := DEmpty\<rparr>"
  have st: "doc_step E CallCommit d = ?d" using True by (auto simp: headers_phase_def)
  have f1: "fits E (doc_text (ensure_headers d))" by (rule fits_mono[OF f], unfold st) (simp add: hp doc_text_def)
  obtain r1 where r1: "EnsureHeadersOpen E r = Inr r1" "rep (d\<lparr>d_body := DHeaders\<rparr>) r1"
    using ensure_headers_ok[OF e r f1] unfolding hp by blast
  have w: "buf_ok r1" "wire r1 = open_head d" using rep_facts(1,2)[OF r1(2)] by (simp_all add: doc_text_def)
  define cl where "cl = (if StatusForbidsBody (d_status d) then [] else CL_ZERO)"
  have clh: "cl = (if StatusForbidsBody (d_status d) then [] else hdr_line (''Content-Length'', ''0''))"
    by (simp add: cl_def CL_ZERO_def hdr_line_def)
  have l: "fits E (wire r1 @ cl)" "fits E ((wire r1 @ cl) @ [CR, LF])" using f unfolding st w clh by (simp_all add: doc_text_def fits_def)
  note q1 = Put_ok[OF e w(1) l(1)]
  note q2 = Put_ok[OF e q1(1) l(2)[folded q1(2)]]
  define r2 where "r2 = Put E [CR, LF] (Put E cl r1)"
  have b2: "buf_ok r2" using q2(1) unfolding r2_def .
  have b2w: "wire r2 = doc_text ?d" unfolding r2_def q2(2) q1(2) w(2) by (simp add: clh doc_text_def)
  have fl: "res_version r2 = d_version d" "res_shouldClose r2 = d_close d" "res_status r2 = d_status d" "res_aborted r2 = d_aborted d"
    "res_destroyed r2 = d_destroyed d" "res_stream r2 = no_generator" "res_persistentHeadersEndOffset r2 = of_nat (length (kept_head d))"
    using rep_facts[OF r1(2)] by (simp_all add: r2_def kept_length_def)
  have ph: "res_phase r < BODY" "res_bodyKind r \<noteq> AWAIT_STREAM" using rep_facts(3,4)[OF r] True by (auto simp: headers_phase_def)
  have "Commit_by (AbortWithErrorN (Suc n) E) E r = Inr (r2\<lparr>res_bodyKind := BUFFERED, res_phase := COMMITTED\<rparr>)"
    using not_rejected[OF r c] ph r1(1) rep_facts(5)[OF r1(2)] by (simp add: Commit_by_def Let_def r2_def cl_def)
  moreover have "rep ?d (r2\<lparr>res_bodyKind := BUFFERED, res_phase := COMMITTED\<rparr>)"
    using b2 b2w fl by (simp add: rep_def kept_length_def)
  ultimately show ?thesis unfolding st by blast
next
  case False
  then consider b where "d_body d = DOpen b" | b where "d_body d = DAwait b" using c(2) by (cases "d_body d") (auto simp: headers_phase_def)
  then show ?thesis
  proof cases
    case (1 b)
    then have st: "doc_step E CallCommit d = d\<lparr>d_body := DDone b\<rparr>" by simp
    show ?thesis using commit_open_ok[OF r 1 c(1)] unfolding st by blast
  next
    case (2 b)
    let ?raw = "take (length b) (gap @ b)"
    let ?d = "d\<lparr>d_body := DAwaitDone (?raw @ CHUNK_TERMINATOR)\<rparr>"
    have st: "doc_step E CallCommit d = ?d" using 2 by simp
    define pre where "pre = open_head d @ TE_CHUNKED @ [CR, LF]"
    note w = rep_facts(1,2)[OF r]
    have t: "wire r = pre @ gap @ b" by (simp add: w(2) doc_text_def 2 pre_def)
    let ?n = "length pre + length b"
    have n: "?n \<le> length (wire r)" "(of_nat (length (wire r)) - of_nat CHUNK_HDR_RESERVE :: u64) = of_nat ?n"
      by (simp_all add: t CHUNK_HDR_RESERVE_def)
    note q = cut_ok[OF w(1) n(1)]
    have tk: "take ?n (wire r) = pre @ ?raw" by (simp add: t)
    have td: "doc_text ?d = (pre @ ?raw) @ CHUNK_TERMINATOR" by (simp add: doc_text_def pre_def)
    have f2: "fits E (wire (cut ?n r) @ CHUNK_TERMINATOR)" using f unfolding st q(3) tk td .
    note q2 = Put_ok[OF e q(2) f2]
    define r2 where "r2 = Put E CHUNK_TERMINATOR (cut ?n r)"
    have b2: "buf_ok r2" "wire r2 = doc_text ?d" using q2(1) unfolding r2_def q2(2) q(3) tk td by simp_all
    have fl: "res_version r2 = d_version d" "res_shouldClose r2 = d_close d" "res_status r2 = d_status d" "res_aborted r2 = d_aborted d"
      "res_destroyed r2 = d_destroyed d" "res_stream r2 = no_generator" "res_persistentHeadersEndOffset r2 = of_nat (length (kept_head d))"
      "res_bodyKind r2 = AWAIT_STREAM" using rep_facts[OF r] 2 by (simp_all add: r2_def kept_length_def)
    have "Commit_by (AbortWithErrorN (Suc n) E) E r = Inr (r2\<lparr>res_phase := COMMITTED\<rparr>)"
      using not_rejected[OF r c] rep_facts(4)[OF r] 2 w(1) n(2) q(1) by (simp add: Commit_by_def r2_def)
    moreover have "rep ?d (r2\<lparr>res_phase := COMMITTED\<rparr>)" using b2 fl by (simp add: rep_def kept_length_def)
    ultimately show ?thesis unfolding st by blast
  qed
qed


section \<open>Any sequence of calls\<close>

lemma rejected_ops:
  assumes "RejectIfCommitted AE r = Inr (True, r')"
  shows "WriteStatus_by AE E code r = Inr r'" "WritePersistentHeader_by AE E k v r = Inr r'" "WriteHeader_by AE E k v r = Inr r'"
    "WriteBodyData_by AE E ds r = Inr r'" "WriteFile_by AE E path auto r = Inr r'" "WriteStream_by AE E g ch r = Inr r'"
    "WriteFlushStart_by AE E r = Inr r'" "Commit_by AE E r = Inr r'"
  using assms by (simp_all add: WriteStatus_by_def WritePersistentHeader_by_def WriteHeader_by_def WriteBodyData_by_def
      WriteFile_by_def WriteStream_by_def WriteFlushStart_by_def Commit_by_def)

lemma rejected_call:
  assumes "RejectIfCommitted (AbortWithError E) r = Inr (True, r')" "\<forall>code msg. c \<noteq> CallAbort code msg"
  shows "response_call E c r = Inr r'"
  using assms by (cases c) (simp_all add: rejected_ops)

lemma AbortWithError_levels: "AbortWithError E = AbortWithErrorN (Suc (Suc 0)) E"
  by (simp add: AbortWithError_def numeral_2_eq_2)

lemma accepted_call_step:
  assumes e: "env_ok E" and r: "rep d r" and c: "\<not> d_aborted d" "doc_phase (d_body d) \<noteq> COMMITTED"
    and na: "\<forall>code msg. c \<noteq> CallAbort code msg"
    and f: "fits E (doc_text d)" "fits E (doc_text (doc_step E c d))"
  shows "\<exists>r'. response_call E c r = Inr r' \<and> rep (doc_step E c d) r'"
proof (cases c)
  case (CallAbort code msg)
  then show ?thesis using na by simp
qed (use status_step[OF e r c] persistent_header_step[OF e r c] header_step[OF e r c] write_step[OF e r c f(1)] file_step[OF e r c]
    stream_step[OF e r c] flush_start_step[OF e r c] commit_step[OF e r c] f(2)
    in \<open>simp_all only: response_call.simps AbortWithError_levels\<close>)

lemma call_step:
  assumes e: "env_ok E" and r: "rep d r" and f: "fits E (doc_text d)" "fits E (doc_text (doc_call E c d))"
  shows "\<exists>r'. response_call E c r = Inr r' \<and> rep (doc_call E c d) r'"
proof (cases "\<exists>code msg. c = CallAbort code msg")
  case True
  then obtain code msg where c: "c = CallAbort code msg" by blast
  have "fits E (doc_text (doc_abort code msg d))" using f(2) by (simp add: c doc_call_def)
  from abort_ok[OF e r this, of 0] show ?thesis
    unfolding c response_call.simps AbortWithError_levels by (simp add: doc_call_def del: AbortWithErrorN.simps)
next
  case False
  then have na: "\<forall>code msg. c \<noteq> CallAbort code msg" by blast
  have dc: "doc_call E c d = (if d_aborted d then d else if doc_phase (d_body d) = COMMITTED then doc_violation d else doc_step E c d)"
    using na by (cases c) (simp_all add: doc_call_def)
  consider "d_aborted d" | "\<not> d_aborted d" "doc_phase (d_body d) = COMMITTED" | "\<not> d_aborted d" "doc_phase (d_body d) \<noteq> COMMITTED"
    by blast
  then show ?thesis
  proof cases
    case 1
    then show ?thesis using rejected_call[OF aborted_call[OF r 1] na] r dc by simp
  next
    case 2
    obtain r' where r': "RejectIfCommitted (AbortWithError E) r = Inr (True, r')" "rep (doc_violation d) r'"
      using committed_call[OF e r 2, of "Suc 0"] f(2) 2 unfolding dc AbortWithError_levels by auto
    show ?thesis using rejected_call[OF r'(1) na] r'(2) 2 dc by simp
  next
    case 3
    show ?thesis using accepted_call_step[OF e r 3 na f(1)] f(2) 3 dc by simp
  qed
qed

definition new_doc :: "HttpResponse \<Rightarrow> doc" where
  "new_doc r = \<lparr>d_version = res_version r, d_close = res_shouldClose r, d_status = 200, d_persist = [], d_headers = [],
     d_body = DFresh, d_aborted = False, d_destroyed = res_destroyed (drop_gen_stream r)\<rparr>"

text \<open>All texts a sequence of calls goes through stay within the configured ceiling.\<close>

fun all_fit :: "resp_env \<Rightarrow> resp_call list \<Rightarrow> doc \<Rightarrow> bool" where
  "all_fit E [] d = fits E (doc_text d)"
| "all_fit E (c # cs) d = (fits E (doc_text d) \<and> all_fit E cs (doc_call E c d))"

lemma all_fit_first: "all_fit E cs d \<Longrightarrow> fits E (doc_text d)"
  by (cases cs) simp_all

lemma calls_ok:
  assumes "env_ok E" "rep d r" "all_fit E cs d"
  shows "\<exists>r'. response_calls E cs r = Inr r' \<and> rep (doc_calls E cs d) r'"
  using assms(2,3)
proof (induction cs arbitrary: d r)
  case Nil
  then show ?case by simp
next
  case (Cons c cs)
  have f: "fits E (doc_text d)" "all_fit E cs (doc_call E c d)" using Cons.prems(2) by simp_all
  obtain r1 where r1: "response_call E c r = Inr r1" "rep (doc_call E c d) r1"
    using call_step[OF assms(1) Cons.prems(1) f(1) all_fit_first[OF f(2)]] by blast
  then show ?case using Cons.IH[OF r1(2) f(2)] by simp
qed

text \<open>Only a streamed body leaves a generator behind, and the engine takes it before the reset.\<close>

definition stream_ok :: "HttpResponse \<Rightarrow> bool" where
  "stream_ok r \<longleftrightarrow> (res_bodyKind r \<noteq> GEN_STREAM \<longrightarrow> res_stream r = no_generator)"

lemma reset_rep:
  assumes b: "buf_present r" and s: "stream_ok r"
  shows "rep (new_doc r) (Response_Reset r)"
proof -
  obtain blk where blk: "writeBuffer (res_rwBuffer r) = Some blk" "block_ok sizeof_WriteMetadata blk"
    using b by (auto simp: buf_present_def split: option.splits)
  have st: "res_stream (drop_gen_stream r) = no_generator" using s by (auto simp: stream_ok_def drop_gen_stream_def)
  show ?thesis
    using blk st by (simp add: rep_def Response_Reset_def Let_def new_doc_def buf_ok_def wire_def ClearWriteBuffer_def doc_text_def
        kept_length_def block_ok_def contents_def)
qed


text \<open>C4. Whatever a handler calls, in whatever order, the buffer holds the text of one document: the
  abstract machine says which, contract violations become a 500 that keeps the persistent headers, and
  no call faults or writes outside the buffer as long as the texts stay below the configured ceiling.\<close>

theorem response_refines_document:
  assumes "env_ok E" "buf_present r" "stream_ok r" "all_fit E cs (new_doc r)"
  shows "\<exists>r'. response_calls E cs (Response_Reset r) = Inr r' \<and> wire r' = doc_text (doc_calls E cs (new_doc r)) \<and>
     res_phase r' = doc_phase (d_body (doc_calls E cs (new_doc r))) \<and>
     res_bodyKind r' = doc_kind (d_body (doc_calls E cs (new_doc r))) \<and> res_status r' = d_status (doc_calls E cs (new_doc r))"
proof -
  obtain r' where "response_calls E cs (Response_Reset r) = Inr r'" "rep (doc_calls E cs (new_doc r)) r'"
    using calls_ok[OF assms(1) reset_rep[OF assms(2,3)] assms(4)] by blast
  then show ?thesis using rep_facts by blast
qed

definition demo_env :: resp_env where
  "demo_env = \<lparr>env_alloc = test_allocator, sendBufferIncSize = 64, maxSendBufferSize = 1024,
     FileExists = (\<lambda>_. False), GetFileSize = (\<lambda>_. 0)\<rparr>"

definition demo_response :: HttpResponse where
  "demo_response = \<lparr>res_rwBuffer = \<lparr>writeBuffer = Some \<lparr>blk_addr = 0x1000, blk_size = 80,
       blk_meta = \<lparr>bufferSize = 64, dataLength = 0, writtenLength = 0\<rparr>, blk_bytes = replicate 64 NUL\<rparr>, readBuffer = None\<rparr>,
     res_version = HTTP_1_1, res_shouldClose = False, res_phase = FRESH, res_bodyKind = NONE, res_status = 200,
     res_clNeeded = False, res_aborted = False, res_clOffset = 0, res_bodyStartOffset = 0, res_persistentHeadersEndOffset = 0,
     res_filePath = [], res_stream = no_generator, res_destroyed = []\<rparr>"

definition demo_calls :: "resp_call list" where
  "demo_calls = CallStatus 201 # CallHeader ''X-A'' ''1'' # user_SendText ''hi''"

lemma demo_env_ok: "env_ok demo_env" "buf_present demo_response" "stream_ok demo_response"
  by (simp_all add: env_ok_def demo_env_def test_allocator_def max_ok_def buf_present_def demo_response_def block_ok_def stream_ok_def)

lemma demo_doc: "new_doc demo_response = \<lparr>d_version = HTTP_1_1, d_close = False, d_status = 200, d_persist = [], d_headers = [],
     d_body = DFresh, d_aborted = False, d_destroyed = []\<rparr>"
  by (simp add: new_doc_def demo_response_def drop_gen_stream_def)

lemma demo_steps: "\<not> rejected_header ''X-A'' ''1''" "\<not> rejected_header ''Content-Type'' ''text/plain''"
  by code_simp+

lemma demo_fit: "all_fit demo_env demo_calls (new_doc demo_response)"
  unfolding demo_calls_def user_SendText_def
  by (simp add: demo_doc fits_def doc_call_def demo_steps StatusForbidsBody_def doc_text_def demo_env_def
      open_head_def length_kept_head connection_header_def CL_PLACEHOLDER_def lines_of_def)

theorem response_refines_document_witness:
  "\<exists>r'. response_calls demo_env demo_calls (Response_Reset demo_response) = Inr r' \<and> res_status r' = 201 \<and> res_bodyKind r' = BUFFERED"
  using response_refines_document[OF demo_env_ok demo_fit]
  by (auto simp: demo_calls_def user_SendText_def demo_doc doc_call_def demo_steps StatusForbidsBody_def)

section \<open>The error path ends\<close>

lemma write_length_fault: "write_length r \<noteq> Inl TooDeep"
  by (simp add: write_length_def split: option.splits)

lemma set_write_length_fault: "set_write_length n r \<noteq> Inl TooDeep"
  by (simp add: set_write_length_def split: option.splits)

lemma patch_fault: "patch off ds r \<noteq> Inl TooDeep"
  by (simp add: patch_def split: option.splits)

lemma andThen_fault: "andThen m f = Inl x \<longleftrightarrow> m = Inl x \<or> (\<exists>y. m = Inr y \<and> f y = Inl x)"
  by (cases m) simp_all

lemma ensure_fault: "EnsureStatusLineReserved E r \<noteq> Inl TooDeep" "EnsureHeadersOpen E r \<noteq> Inl TooDeep"
  by (auto simp: EnsureStatusLineReserved_def EnsureHeadersOpen_def Let_def andThen_fault write_length_fault split: if_splits)

text \<open>Below the headers, a body on a status that allows one never reaches the error path.\<close>

definition error_opened :: "HttpResponse \<Rightarrow> bool" where
  "error_opened r \<longleftrightarrow> \<not> res_aborted r \<and> res_phase r = HEADERS"

lemma error_body:
  assumes "error_opened r" "\<not> StatusForbidsBody (res_status r)"
  shows "WriteBodyData_by AE E msg r = WriteBodyData_by AE' E msg r" "WriteBodyData_by AE E msg r \<noteq> Inl TooDeep"
    "WriteBodyData_by AE E msg r = Inr r1 \<Longrightarrow> res_phase r1 = BODY \<and> \<not> res_aborted r1"
proof -
  have rj: "RejectIfCommitted AE r = Inr (False, r)" for AE using assms by (simp add: RejectIfCommitted_def error_opened_def)
  have h: "EnsureHeadersOpen E r = Inr r" using assms by (simp add: EnsureHeadersOpen_def EnsureStatusLineReserved_def error_opened_def)
  have e: "EnsureBodyOpen_by AE E r = andThen (InjectContentLength E r) (\<lambda>r2.
         let r3 = Put E [CR, LF] r2 in
         andThen (write_length r3) (\<lambda>n.
           Inr (True, r3\<lparr>res_bodyStartOffset := n, res_bodyKind := BUFFERED, res_phase := BODY\<rparr>)))" for AE
    using h assms by (simp add: EnsureBodyOpen_by_def error_opened_def)
  show "WriteBodyData_by AE E msg r = WriteBodyData_by AE' E msg r" using rj e by (simp add: WriteBodyData_by_def)
  have ij: "InjectContentLength E r \<noteq> Inl TooDeep" by (simp add: InjectContentLength_def Let_def andThen_fault write_length_fault)
  show "WriteBodyData_by AE E msg r \<noteq> Inl TooDeep"
    using rj e ij by (auto simp: WriteBodyData_by_def andThen_fault write_length_fault Let_def split: if_splits)
  show "WriteBodyData_by AE E msg r = Inr r1 \<Longrightarrow> res_phase r1 = BODY \<and> \<not> res_aborted r1"
    using assms rj e by (auto simp: WriteBodyData_by_def andThen_Inr_iff Let_def InjectContentLength_def error_opened_def split: if_splits)
qed

lemma error_commit:
  assumes "res_phase r = BODY" "\<not> res_aborted r"
  shows "Commit_by AE E r = Commit_by AE' E r" "Commit_by AE E r \<noteq> Inl TooDeep"
  using assms by (auto simp: Commit_by_def RejectIfCommitted_def andThen_fault write_length_fault set_write_length_fault patch_fault
      split: if_splits)

lemma error_rest:
  assumes "error_opened r" "\<not> StatusForbidsBody (res_status r)"
  shows "andThen (WriteBodyData_by AE E msg r) (Commit_by AE E) = andThen (WriteBodyData_by AE' E msg r) (Commit_by AE' E)"
    and "andThen (WriteBodyData_by AE E msg r) (Commit_by AE E) \<noteq> Inl TooDeep"
proof -
  show "andThen (WriteBodyData_by AE E msg r) (Commit_by AE E) = andThen (WriteBodyData_by AE' E msg r) (Commit_by AE' E)"
  proof (cases "WriteBodyData_by AE E msg r")
    case (Inl e)
    then show ?thesis using error_body(1)[OF assms, of AE E msg AE'] by simp
  next
    case (Inr r1)
    then show ?thesis using error_body(1)[OF assms, of AE E msg AE'] error_body(3)[OF assms Inr]
        error_commit(1)[of r1 AE E AE'] by simp
  qed
  show "andThen (WriteBodyData_by AE E msg r) (Commit_by AE E) \<noteq> Inl TooDeep"
    using error_body(2,3)[OF assms, of AE E msg] error_commit(2)[of _ AE E] by (auto simp: andThen_fault)
qed

text \<open>The rebuild up to its headers does not depend on the error path above it.\<close>

definition error_prefix :: "resp_env \<Rightarrow> u16 \<Rightarrow> HttpResponse \<Rightarrow> mem_fault + HttpResponse" where
  "error_prefix E code r =
     andThen (set_write_length (res_persistentHeadersEndOffset (drop_gen_stream r)) (drop_gen_stream r)) (\<lambda>r2.
       andThen (EnsureStatusLineReserved E (error_start r2)) (\<lambda>r3.
         andThen (patch (int STATUS_CODE_OFFSET) (status_digits code) (r3\<lparr>res_status := code\<rparr>)) (\<lambda>r4.
           andThen (EnsureHeadersOpen E r4) (\<lambda>r5.
             Inr ((Put E (''Content-Type: text/plain'' @ [CR, LF]) r5)\<lparr>res_phase := HEADERS\<rparr>)))))"

lemma error_by_prefix:
  "AbortWithError_by AE E code msg r = andThen (error_prefix E code r) (\<lambda>r1. andThen (WriteBodyData_by AE E msg r1) (Commit_by AE E))"
proof -
  have w: "WriteStatus_by AE E code (error_start r2) = andThen (EnsureStatusLineReserved E (error_start r2)) (\<lambda>r3.
       patch (int STATUS_CODE_OFFSET) (status_digits code) (r3\<lparr>res_status := code\<rparr>))" for r2
    by (simp add: WriteStatus_by_def RejectIfCommitted_def error_start_def)
  show ?thesis
    by (simp add: AbortWithError_by_def Let_def error_prefix_def andThen_assoc error_start_def[symmetric] w SendText_by_def[abs_def])
qed

lemma patch_fields:
  "patch off ds r = Inr r' \<Longrightarrow> res_status r' = res_status r \<and> res_aborted r' = res_aborted r \<and> res_phase r' = res_phase r"
  by (auto simp: patch_def split: option.splits if_splits)

lemma ensure_fields:
  "EnsureStatusLineReserved E r = Inr r' \<Longrightarrow> res_status r' = res_status r \<and> res_aborted r' = res_aborted r"
  "EnsureHeadersOpen E r = Inr r' \<Longrightarrow> res_status r' = res_status r \<and> res_aborted r' = res_aborted r"
  by (auto simp: EnsureStatusLineReserved_def EnsureHeadersOpen_def andThen_Inr_iff Let_def split: if_splits)

lemma error_prefix_ok:
  assumes "error_prefix E code r = Inr r1"
  shows "error_opened r1" "res_status r1 = code"
  using assms by (auto simp: error_prefix_def andThen_Inr_iff error_opened_def error_start_def dest!: patch_fields ensure_fields)

lemma error_prefix_fault: "error_prefix E code r \<noteq> Inl TooDeep"
  by (auto simp: error_prefix_def andThen_fault set_write_length_fault ensure_fault patch_fault)

lemma error_allowed:
  assumes "\<not> StatusForbidsBody code"
  shows "AbortWithError_by AE E code msg r = AbortWithError_by AE' E code msg r" "AbortWithError_by AE E code msg r \<noteq> Inl TooDeep"
proof -
  show "AbortWithError_by AE E code msg r = AbortWithError_by AE' E code msg r"
  proof (cases "error_prefix E code r")
    case (Inr r1)
    from error_prefix_ok[OF Inr] assms have "error_opened r1" "\<not> StatusForbidsBody (res_status r1)" by simp_all
    from error_rest(1)[OF this] show ?thesis by (simp add: error_by_prefix Inr)
  qed (simp add: error_by_prefix)
  show "AbortWithError_by AE E code msg r \<noteq> Inl TooDeep"
  proof (cases "error_prefix E code r")
    case (Inl e)
    then show ?thesis using error_prefix_fault[of E code r] by (simp add: error_by_prefix)
  next
    case (Inr r1)
    from error_prefix_ok[OF Inr] assms have "error_opened r1" "\<not> StatusForbidsBody (res_status r1)" by simp_all
    from error_rest(2)[OF this] show ?thesis by (simp add: error_by_prefix Inr)
  qed
qed

text \<open>On a forbidden status the body is refused, and the refusal is a 500.\<close>

lemma error_forbidden:
  assumes "error_opened r" "StatusForbidsBody (res_status r)"
  shows "andThen (WriteBodyData_by AE E msg r) (Commit_by AE E) =
     andThen (AE 500 ''Response contract violation'' r) (\<lambda>r1. Inr (r1\<lparr>res_aborted := True\<rparr>))"
proof -
  have rj: "RejectIfCommitted AE r = Inr (False, r)" using assms by (simp add: RejectIfCommitted_def error_opened_def)
  have h: "EnsureHeadersOpen E r = Inr r" using assms by (simp add: EnsureHeadersOpen_def EnsureStatusLineReserved_def error_opened_def)
  have c: "Commit_by AE E (r1\<lparr>res_aborted := True\<rparr>) = Inr (r1\<lparr>res_aborted := True\<rparr>)" for r1
    by (simp add: Commit_by_def RejectIfCommitted_def)
  have "EnsureBodyOpen_by AE E r = andThen (AE 500 ''Response contract violation'' r) (\<lambda>r1. Inr (False, r1\<lparr>res_aborted := True\<rparr>))"
    using h assms by (simp add: EnsureBodyOpen_by_def error_opened_def AbortContractViolation_def andThen_assoc)
  then show ?thesis using rj c by (simp add: WriteBodyData_by_def andThen_assoc)
qed

text \<open>C16. The error path ends: rebuilding a response as an error can run into the contract once more, when
  the error status itself forbids a body, and the 500 that follows cannot. The recursion limit of
  the model is never reached, whatever the buffer holds and whichever appends fail, and a larger one
  gives the same result.\<close>

theorem error_path_ends:
  "AbortWithError E code msg r \<noteq> Inl TooDeep \<and> AbortWithErrorN (Suc (Suc n)) E code msg r = AbortWithError E code msg r"
proof (cases "StatusForbidsBody code")
  case False
  note a = error_allowed[OF False]
  show ?thesis unfolding AbortWithError_levels AbortWithErrorN.simps using a by blast
next
  case True
  have n5: "\<not> StatusForbidsBody 500" by (simp add: StatusForbidsBody_def)
  have i: "AbortWithErrorN (Suc n) E 500 m q = AbortWithErrorN (Suc 0) E 500 m q" "AbortWithErrorN (Suc n) E 500 m q \<noteq> Inl TooDeep" for n m q
    unfolding AbortWithErrorN.simps using error_allowed[OF n5] by blast+
  have step: "AbortWithErrorN (Suc (Suc n)) E code msg r = andThen (error_prefix E code r) (\<lambda>r1.
      andThen (AbortWithErrorN (Suc n) E 500 ''Response contract violation'' r1) (\<lambda>r2. Inr (r2\<lparr>res_aborted := True\<rparr>)))" for n
  proof (cases "error_prefix E code r")
    case (Inr r1)
    from error_prefix_ok[OF Inr] True have "error_opened r1" "StatusForbidsBody (res_status r1)" by simp_all
    from error_forbidden[OF this] show ?thesis by (simp only: AbortWithErrorN.simps error_by_prefix Inr andThen.simps)
  qed (simp only: AbortWithErrorN.simps error_by_prefix andThen.simps)
  have "AbortWithErrorN (Suc (Suc n)) E code msg r = AbortWithErrorN (Suc (Suc 0)) E code msg r"
    unfolding step using i(1)[of n] by simp
  moreover have "AbortWithErrorN (Suc (Suc 0)) E code msg r \<noteq> Inl TooDeep"
    unfolding step using i(2)[of 0] error_prefix_fault[of E code r] by (auto simp only: andThen_fault sum.simps)
  ultimately show ?thesis unfolding AbortWithError_levels by blast
qed

end
