(* ===== verification/HttpClient.thy ===== *)
theory HttpClient
  imports HttpHeaders
begin

text \<open>
  Model of \<open>src/include/wfx/endpoint/http.hpp\<close> and \<open>helper.hpp\<close>: the HTTP/1.1 client codec, which writes
  a request into a bounded buffer and parses the response as its bytes arrive. The parser keeps its
  state between calls, so a call takes the state, the response parsed so far and the new bytes. The
  sizes keep their width; a byte string stands for \<open>WFX::String\<close>, whose allocation does not fail here.
\<close>

section \<open>Shared helpers\<close>

text \<open>\<open>BufWriter\<close>: the capacity and the bytes written.\<close>

record BufWriter =
  bw_cap :: u32
  bw_out :: string

definition bw_Append :: "string \<Rightarrow> BufWriter \<Rightarrow> bool \<times> BufWriter" where
  "bw_Append s w =
     (if of_nat (length s) > (ucast (bw_cap w - of_nat (length (bw_out w))) :: u64) then (False, w)
      else (True, w\<lparr>bw_out := bw_out w @ s\<rparr>))"

definition bw_AppendChar :: "char \<Rightarrow> BufWriter \<Rightarrow> bool \<times> BufWriter" where
  "bw_AppendChar c w =
     (if (of_nat (length (bw_out w)) :: u32) \<ge> bw_cap w then (False, w) else (True, w\<lparr>bw_out := bw_out w @ [c]\<rparr>))"

text \<open>A chain of appends joined by \<open>&&\<close>.\<close>

fun bw_all :: "string list \<Rightarrow> BufWriter \<Rightarrow> bool \<times> BufWriter" where
  "bw_all [] w = (True, w)"
| "bw_all (s # ss) w = (case bw_Append s w of (True, w') \<Rightarrow> bw_all ss w' | (False, w') \<Rightarrow> (False, w'))"

fun HasInjectionBytes :: "string \<Rightarrow> bool" where
  "HasInjectionBytes [] = False"
| "HasInjectionBytes (c # s) = (if c = CR \<or> c = LF \<or> c = NUL then True else HasInjectionBytes s)"

definition ep_ToLowerAscii :: "u8 \<Rightarrow> u8" where
  "ep_ToLowerAscii c = c OR (if c - 0x41 < 26 then 0x20 else 0)"

fun equal_loop :: "string \<Rightarrow> string \<Rightarrow> bool" where
  "equal_loop (a # as) (b # bs) =
     (if ep_ToLowerAscii (byte_of a) \<noteq> ep_ToLowerAscii (byte_of b) then False else equal_loop as bs)"
| "equal_loop _ _ = True"

definition InsensitiveEqual :: "string \<Rightarrow> string \<Rightarrow> bool" where
  "InsensitiveEqual a b = (if length a \<noteq> length b then False else equal_loop a b)"

datatype 'a line_read = NEED_MORE | TOO_LONG | GOT_LINE 'a

text \<open>\<open>ReadLine\<close> on the bytes still unread: the status with the line, the accumulator, the bytes left.\<close>

definition strip_cr :: "string \<Rightarrow> string" where
  "strip_cr line = (if line \<noteq> [] \<and> last line = CR then butlast line else line)"

definition ReadLine :: "string \<Rightarrow> string \<Rightarrow> u32 \<Rightarrow> string line_read \<times> string \<times> string" where
  "ReadLine buf lineAcc maxLineBytes =
     (case sv_find LF buf of
        None \<Rightarrow>
          if length lineAcc + length buf > unat maxLineBytes then (TOO_LONG, lineAcc, buf)
          else (NEED_MORE, lineAcc @ buf, [])
      | Some lineLen \<Rightarrow>
          if lineAcc \<noteq> [] then
            if length lineAcc + lineLen > unat maxLineBytes then (TOO_LONG, lineAcc, buf)
            else (GOT_LINE (strip_cr (lineAcc @ take lineLen buf)), lineAcc @ take lineLen buf, drop (Suc lineLen) buf)
          else
            if lineLen > unat maxLineBytes then (TOO_LONG, lineAcc, buf)
            else (GOT_LINE (strip_cr (take lineLen buf)), lineAcc, drop (Suc lineLen) buf))"

section \<open>Header list\<close>

type_synonym header_list = "(string \<times> string) list"

definition hl_Add :: "string \<Rightarrow> string \<Rightarrow> header_list \<Rightarrow> header_list" where
  "hl_Add name val es = es @ [(name, val)]"

fun hl_replace :: "string \<Rightarrow> string \<Rightarrow> header_list \<Rightarrow> header_list option" where
  "hl_replace name val [] = None"
| "hl_replace name val (e # es) =
     (if InsensitiveEqual (fst e) name then Some ((fst e, val) # es) else map_option ((#) e) (hl_replace name val es))"

definition hl_Set :: "string \<Rightarrow> string \<Rightarrow> header_list \<Rightarrow> header_list" where
  "hl_Set name val es = (case hl_replace name val es of Some es' \<Rightarrow> es' | None \<Rightarrow> hl_Add name val es)"

fun hl_Get :: "string \<Rightarrow> header_list \<Rightarrow> string option" where
  "hl_Get name [] = None"
| "hl_Get name (e # es) = (if InsensitiveEqual (fst e) name then Some (snd e) else hl_Get name es)"

definition hl_Contains :: "string \<Rightarrow> header_list \<Rightarrow> bool" where
  "hl_Contains name es = (hl_Get name es \<noteq> None)"

section \<open>Requests\<close>

record HttpEndpointRequest =
  rq_method :: HttpMethod
  rq_path :: string
  rq_body :: string
  rq_headers :: header_list

record HttpEndpointLimits =
  maxHeaderBytes :: u32
  maxBodyBytes :: u32
  maxHeaderCount :: u16

record HttpEndpointOptions =
  hostHeaderValue :: string
  limits :: HttpEndpointLimits

record SlotState =
  slot_options :: HttpEndpointOptions
  lastMethod :: HttpMethod

datatype SerializeResult = SerOk string | SerError | SerBufferTooSmall

fun serialize_headers :: "header_list \<Rightarrow> BufWriter \<Rightarrow> SerializeResult + bool \<times> BufWriter" where
  "serialize_headers [] w = Inr (True, w)"
| "serialize_headers (h # hs) w =
     (if HasInjectionBytes (fst h) \<or> HasInjectionBytes (snd h) then Inl SerError
      else if InsensitiveEqual (fst h) ''host'' \<or> InsensitiveEqual (fst h) ''content-length'' \<or>
              InsensitiveEqual (fst h) ''transfer-encoding''
      then serialize_headers hs w
      else (case bw_all [fst h, '': '', snd h, [CR, LF]] w of
              (True, w') \<Rightarrow> serialize_headers hs w'
            | (False, w') \<Rightarrow> Inr (False, w')))"

definition body_bearing :: "HttpMethod \<Rightarrow> bool" where
  "body_bearing m \<longleftrightarrow> m = M_POST \<or> m = M_PUT \<or> m = M_PATCH"

definition length_value :: "HttpEndpointRequest \<Rightarrow> string" where
  "length_value req = (if rq_body req \<noteq> [] \<or> body_bearing (rq_method req) then to_chars (length (rq_body req)) else [])"

definition Serialize :: "HttpEndpointRequest \<Rightarrow> u32 \<Rightarrow> SlotState \<Rightarrow> SerializeResult \<times> SlotState" where
  "Serialize req bufLen st =
     (if HasInjectionBytes (rq_path req) then (SerError, st)
      else
        let st1 = st\<lparr>lastMethod := rq_method req\<rparr>;
            lenSv = length_value req;
            (ok, w) = bw_all [HttpMethodToStringView (rq_method req)] \<lparr>bw_cap = bufLen, bw_out = []\<rparr>;
            (ok, w) = (if ok then bw_AppendChar (CHR '' '') w else (False, w));
            (ok, w) = (if ok then bw_all [rq_path req, '' HTTP/1.1'' @ [CR, LF] @ ''Host: '', hostHeaderValue (slot_options st), [CR, LF]] w
                       else (False, w));
            (ok, w) = (if ok \<and> lenSv \<noteq> [] then bw_all [''Content-Length: '', lenSv, [CR, LF]] w else (ok, w))
        in (case (if ok then serialize_headers (rq_headers req) w else Inr (False, w)) of
              Inl e \<Rightarrow> (e, st1)
            | Inr (ok, w) \<Rightarrow>
                let (ok, w) = (if ok then bw_Append [CR, LF] w else (False, w));
                    (ok, w) = (if ok then (if rq_body req = [] then (True, w) else bw_Append (rq_body req) w) else (False, w))
                in (if ok then SerOk (bw_out w) else SerBufferTooSmall, st1)))"

section \<open>Response parser state\<close>

record HttpEndpointResponse =
  rs_status :: u16
  rs_body :: string
  rs_headers :: header_list

datatype ParsePhase = STATUS_LINE | HDRS | BODY_CONTENT_LENGTH | BODY_CHUNK_SIZE | BODY_CHUNK_DATA
  | BODY_CHUNK_LINE_END | BODY_CHUNK_TRAILER | BODY_UNTIL_CLOSE

definition MAX_INFORMATIONAL_RESPONSES :: u8 where "MAX_INFORMATIONAL_RESPONSES = 8"

record ParseState =
  lineAcc :: string
  bodyRemaining :: u64
  headerBytes :: u32
  headerCount :: u16
  informationalCount :: u8
  ps_phase :: ParsePhase
  chunked :: bool
  hasContentLength :: bool
  closeAfter :: bool
  httpMinor0 :: bool

definition fresh_parse_state :: ParseState where
  "fresh_parse_state = \<lparr>lineAcc = [], bodyRemaining = 0, headerBytes = 0, headerCount = 0, informationalCount = 0,
     ps_phase = STATUS_LINE, chunked = False, hasContentLength = False, closeAfter = False, httpMinor0 = False\<rparr>"

definition ResetParseStateFields :: "ParseState \<Rightarrow> ParseState" where
  "ResetParseStateFields s = s\<lparr>ps_phase := STATUS_LINE, lineAcc := [], bodyRemaining := 0, headerBytes := 0,
     headerCount := 0, informationalCount := 0, chunked := False, hasContentLength := False,
     closeAfter := False, httpMinor0 := False\<rparr>"

definition fresh_response :: HttpEndpointResponse where
  "fresh_response = \<lparr>rs_status = 0, rs_body = [], rs_headers = []\<rparr>"

section \<open>Lines of the head\<close>

definition ParseStatusLine :: "string \<Rightarrow> HttpEndpointResponse \<Rightarrow> ParseState \<Rightarrow> bool \<times> HttpEndpointResponse \<times> ParseState" where
  "ParseStatusLine line res st =
     (if length line < 12 \<or> take 5 line \<noteq> ''HTTP/'' \<or> line ! 6 \<noteq> CHR ''.'' then (False, res, st)
      else
        let major = line ! 5; minor = line ! 7 in
        if major \<noteq> CHR ''1'' \<or> (minor \<noteq> CHR ''0'' \<and> minor \<noteq> CHR ''1'') \<or> line ! 8 \<noteq> CHR '' '' then (False, res, st)
        else (case from_chars_unsigned 65535 (take 3 (drop 9 line)) of
                FcOk code n \<Rightarrow>
                  if n \<noteq> 3 then (False, res, st)
                  else (True, res\<lparr>rs_status := word_of_int code\<rparr>, st\<lparr>httpMinor0 := (minor = CHR ''0'')\<rparr>)
              | _ \<Rightarrow> (False, res, st)))"

definition is_ows :: "char \<Rightarrow> bool" where
  "is_ows c \<longleftrightarrow> c = CHR '' '' \<or> c = TAB"

text \<open>The two trimming loops.\<close>

fun trim_front :: "string \<Rightarrow> string" where
  "trim_front [] = []"
| "trim_front (c # s) = (if is_ows c then trim_front s else c # s)"

definition trim_ows :: "string \<Rightarrow> string" where
  "trim_ows s = rev (trim_front (rev (trim_front s)))"

function close_tokens :: "string \<Rightarrow> bool" where
  "close_tokens val =
     (case sv_find (CHR '','') val of
        None \<Rightarrow> InsensitiveEqual (trim_ows val) ''close''
      | Some comma \<Rightarrow> InsensitiveEqual (trim_ows (take comma val)) ''close'' \<or> close_tokens (drop (Suc comma) val))"
  by pat_completeness auto
termination by (relation "measure length") (auto dest: sv_find_lt)

declare close_tokens.simps [simp del]

definition count_header :: "HttpEndpointLimits \<Rightarrow> string \<Rightarrow> string \<Rightarrow> HttpEndpointResponse \<Rightarrow> ParseState \<Rightarrow>
    bool \<times> HttpEndpointResponse \<times> ParseState" where
  "count_header lim name val res st =
     (let st = st\<lparr>headerCount := headerCount st + 1\<rparr> in
      if headerCount st > maxHeaderCount lim then (False, res, st)
      else (True, res\<lparr>rs_headers := hl_Add name val (rs_headers res)\<rparr>, st))"

definition ParseHeaderLine :: "HttpEndpointLimits \<Rightarrow> string \<Rightarrow> HttpEndpointResponse \<Rightarrow> ParseState \<Rightarrow>
    bool \<times> HttpEndpointResponse \<times> ParseState" where
  "ParseHeaderLine lim line res st =
     (if is_ows (hd line) then (False, res, st)
      else (case sv_find (CHR '':'') line of
        None \<Rightarrow> (False, res, st)
      | Some colon \<Rightarrow>
          let name = take colon line; val = trim_ows (drop (Suc colon) line) in
          if name = [] \<or> is_ows (last name) then (False, res, st)
          else if InsensitiveEqual name ''content-length'' then
            if chunked st then (False, res, st)
            else (case from_chars_unsigned (2 ^ 64 - 1) val of
                    FcOk v n \<Rightarrow>
                      let v = word_of_int v :: u64 in
                      if n \<noteq> length val then (False, res, st)
                      else if v > ucast (maxBodyBytes lim) then (False, res, st)
                      else if hasContentLength st \<and> bodyRemaining st \<noteq> v then (False, res, st)
                      else count_header lim name val res (st\<lparr>hasContentLength := True, bodyRemaining := v\<rparr>)
                  | _ \<Rightarrow> (False, res, st))
          else if InsensitiveEqual name ''transfer-encoding'' then
            if hasContentLength st then (False, res, st)
            else if \<not> InsensitiveEqual val ''chunked'' then (False, res, st)
            else count_header lim name val res (st\<lparr>chunked := True\<rparr>)
          else if InsensitiveEqual name ''connection'' then
            count_header lim name val res (if close_tokens val then st\<lparr>closeAfter := True\<rparr> else st)
          else count_header lim name val res st))"

text \<open>\<open>std::from_chars\<close> with base 16 and a 64-bit target: both cases of the digits, no prefix.\<close>

definition hex_val :: "char \<Rightarrow> nat option" where
  "hex_val c =
     (if CHR ''0'' \<le> c \<and> c \<le> CHR ''9'' then Some (of_char c - 48)
      else if CHR ''a'' \<le> c \<and> c \<le> CHR ''f'' then Some (of_char c - 87)
      else if CHR ''A'' \<le> c \<and> c \<le> CHR ''F'' then Some (of_char c - 55) else None)"

definition hex_digits_val :: "string \<Rightarrow> nat" where
  "hex_digits_val ds = foldl (\<lambda>a d. 16 * a + the (hex_val d)) 0 ds"

definition from_chars_hex :: "nat \<Rightarrow> string \<Rightarrow> from_chars_result" where
  "from_chars_hex maxv s =
     (let ds = takeWhile (\<lambda>c. hex_val c \<noteq> None) s in
      if ds = [] then FcInvalid
      else if hex_digits_val ds > maxv then FcOutOfRange
      else FcOk (int (hex_digits_val ds)) (length ds))"

definition ParseChunkSizeLine :: "string \<Rightarrow> u64 option" where
  "ParseChunkSizeLine line =
     (let hexPart = (case sv_find (CHR '';'') line of None \<Rightarrow> line | Some semi \<Rightarrow> take semi line) in
      if hexPart = [] then None
      else (case from_chars_hex (2 ^ 64 - 1) hexPart of
              FcOk v n \<Rightarrow> if n = length hexPart then Some (word_of_int v) else None
            | _ \<Rightarrow> None))"

section \<open>The parser\<close>

datatype ParseResult = ParseDone | ParseClose | ParseIncomplete | ParseError

definition done_or_close :: "ParseState \<Rightarrow> ParseResult" where
  "done_or_close st = (if closeAfter st \<or> httpMinor0 st then ParseClose else ParseDone)"

text \<open>A step ends the call with a result or goes round the loop.\<close>

datatype step_end = Finish ParseResult | Continue

text \<open>The empty line that ends the headers.\<close>

definition headers_end :: "SlotState \<Rightarrow> HttpEndpointResponse \<Rightarrow> ParseState \<Rightarrow> step_end \<times> ParseState" where
  "headers_end slot res st =
     (let informational = (unat (rs_status res) \<ge> 100 \<and> unat (rs_status res) < 200);
          noBody = (lastMethod slot = M_HEAD \<or> rs_status res = 204 \<or> rs_status res = 304 \<or> informational)
      in if informational then
           let st = st\<lparr>informationalCount := informationalCount st + 1\<rparr> in
           if informationalCount st > MAX_INFORMATIONAL_RESPONSES then (Finish ParseError, st\<lparr>lineAcc := []\<rparr>)
           else (Continue, st\<lparr>chunked := False, hasContentLength := False, closeAfter := False, ps_phase := STATUS_LINE, lineAcc := []\<rparr>)
         else if noBody then (Finish (done_or_close st), st)
         else if chunked st then (Continue, st\<lparr>ps_phase := BODY_CHUNK_SIZE, lineAcc := []\<rparr>)
         else if hasContentLength st then
           if bodyRemaining st = 0 then (Finish (done_or_close st), st)
           else (Continue, st\<lparr>ps_phase := BODY_CONTENT_LENGTH, lineAcc := []\<rparr>)
         else (Continue, st\<lparr>ps_phase := BODY_UNTIL_CLOSE, lineAcc := []\<rparr>))"

definition line_step :: "SlotState \<Rightarrow> string \<Rightarrow> HttpEndpointResponse \<Rightarrow> ParseState \<Rightarrow>
    step_end \<times> HttpEndpointResponse \<times> ParseState" where
  "line_step slot line res st =
     (let lim = limits (slot_options slot);
          settle = (\<lambda>(ok, res', st'). (if ok then Continue else Finish ParseError, res', st'\<lparr>lineAcc := []\<rparr>))
      in case ps_phase st of
        STATUS_LINE \<Rightarrow>
          settle (case ParseStatusLine line res st of
                    (True, res', st') \<Rightarrow> (True, res'\<lparr>rs_headers := []\<rparr>, st'\<lparr>headerCount := 0, ps_phase := HDRS\<rparr>)
                  | (False, res', st') \<Rightarrow> (False, res', st'))
      | HDRS \<Rightarrow>
          if line = [] then (case headers_end slot res st of (e, st') \<Rightarrow> (e, res, st'))
          else settle (ParseHeaderLine lim line res st)
      | BODY_CHUNK_SIZE \<Rightarrow>
          settle (case ParseChunkSizeLine line of
                    None \<Rightarrow> (False, res, st)
                  | Some chunkSize \<Rightarrow>
                      if chunkSize = 0 then (True, res, st\<lparr>ps_phase := BODY_CHUNK_TRAILER\<rparr>)
                      else if chunkSize > ucast (maxBodyBytes lim) - of_nat (length (rs_body res)) then (False, res, st)
                      else (True, res, st\<lparr>bodyRemaining := chunkSize, ps_phase := BODY_CHUNK_DATA\<rparr>))
      | BODY_CHUNK_LINE_END \<Rightarrow>
          settle (if line \<noteq> [] then (False, res, st) else (True, res, st\<lparr>ps_phase := BODY_CHUNK_SIZE\<rparr>))
      | _ \<Rightarrow>
          if line = [] then (Finish (done_or_close st), res, st)
          else let st' = st\<lparr>headerCount := headerCount st + 1\<rparr> in
               settle (headerCount st' \<le> maxHeaderCount lim, res, st'))"

definition line_phase :: "ParsePhase \<Rightarrow> bool" where
  "line_phase p \<longleftrightarrow> p = STATUS_LINE \<or> p = HDRS \<or> p = BODY_CHUNK_SIZE \<or> p = BODY_CHUNK_LINE_END \<or> p = BODY_CHUNK_TRAILER"

text \<open>One round of the loop: the bytes left after it, and how it ends.\<close>

definition parse_round :: "SlotState \<Rightarrow> bool \<Rightarrow> string \<Rightarrow> HttpEndpointResponse \<Rightarrow> ParseState \<Rightarrow>
    step_end \<times> string \<times> HttpEndpointResponse \<times> ParseState" where
  "parse_round slot isEof buf res st =
     (let lim = limits (slot_options slot) in
      if line_phase (ps_phase st) then
        (case ReadLine buf (lineAcc st) (maxHeaderBytes lim) of
           (TOO_LONG, acc, rest) \<Rightarrow> (Finish ParseError, rest, res, st\<lparr>lineAcc := acc\<rparr>)
         | (NEED_MORE, acc, rest) \<Rightarrow> (Finish (if isEof then ParseError else ParseIncomplete), rest, res, st\<lparr>lineAcc := acc\<rparr>)
         | (GOT_LINE line, acc, rest) \<Rightarrow>
             let st1 = st\<lparr>lineAcc := acc\<rparr>;
                 lineLenInBuf = (of_nat (length buf - length rest) - 1 :: u32);
                 head = (ps_phase st = STATUS_LINE \<or> ps_phase st = HDRS);
                 st2 = (if head then st1\<lparr>headerBytes := headerBytes st1 + (lineLenInBuf + 1)\<rparr> else st1)
             in if head \<and> headerBytes st2 > maxHeaderBytes lim then (Finish ParseError, rest, res, st2)
                else (case line_step slot line res st2 of (e, res', st') \<Rightarrow> (e, rest, res', st')))
      else if ps_phase st = BODY_UNTIL_CLOSE then
        if length buf > 0 \<and> length (rs_body res) + length buf > unat (maxBodyBytes lim) then (Finish ParseError, buf, res, st)
        else (Finish (if isEof then ParseClose else ParseIncomplete), [], res\<lparr>rs_body := rs_body res @ buf\<rparr>, st)
      else
        let n = min (unat (bodyRemaining st)) (length buf) in
        if length (rs_body res) + n > unat (maxBodyBytes lim) then (Finish ParseError, buf, res, st)
        else
          let res' = res\<lparr>rs_body := rs_body res @ take n buf\<rparr>;
              st' = st\<lparr>bodyRemaining := bodyRemaining st - of_nat n\<rparr>;
              rest = drop n buf
          in if bodyRemaining st' = 0 then
               if ps_phase st' = BODY_CHUNK_DATA then (Continue, rest, res', st'\<lparr>ps_phase := BODY_CHUNK_LINE_END\<rparr>)
               else (Finish (done_or_close st'), rest, res', st')
             else (Finish (if isEof then ParseError else ParseIncomplete), rest, res', st'))"

text \<open>The loop. Every round that continues takes at least one byte or leaves the body phases, so the
  fuel of two rounds per byte and two more is never used up.\<close>

fun parse_loop :: "nat \<Rightarrow> SlotState \<Rightarrow> bool \<Rightarrow> string \<Rightarrow> HttpEndpointResponse \<Rightarrow> ParseState \<Rightarrow>
    (ParseResult \<times> string \<times> HttpEndpointResponse \<times> ParseState) option" where
  "parse_loop 0 slot isEof buf res st = None"
| "parse_loop (Suc n) slot isEof buf res st =
     (case parse_round slot isEof buf res st of
        (Finish r, rest, res', st') \<Rightarrow> Some (r, rest, res', st')
      | (Continue, rest, res', st') \<Rightarrow> parse_loop n slot isEof rest res' st')"

definition Parse :: "SlotState \<Rightarrow> bool \<Rightarrow> string \<Rightarrow> HttpEndpointResponse \<Rightarrow> ParseState \<Rightarrow>
    (ParseResult \<times> nat \<times> HttpEndpointResponse \<times> ParseState) option" where
  "Parse slot isEof buf res st =
     map_option (\<lambda>(r, rest, res', st'). (r, length buf - length rest, res', st'))
       (parse_loop (2 * length buf + 2) slot isEof buf res st)"

section \<open>Endpoint options\<close>

datatype EndpointTLSConfig = TlsAuto | TlsRequire | TlsInsecure

definition BuildEndpointOptions :: "string \<Rightarrow> EndpointTLSConfig \<Rightarrow> HttpEndpointLimits \<Rightarrow> HttpEndpointOptions" where
  "BuildEndpointOptions hp tls lim =
     (let colon = sv_rfind (CHR '':'') hp;
          hostOnly = (case colon of None \<Rightarrow> hp | Some c \<Rightarrow> take c hp);
          port = (case colon of None \<Rightarrow> 0
                  | Some c \<Rightarrow> (case from_chars_unsigned 65535 (drop (Suc c) hp) of FcOk v _ \<Rightarrow> word_of_int v | _ \<Rightarrow> 0)) :: u16;
          isSecure = (case tls of TlsRequire \<Rightarrow> True | TlsInsecure \<Rightarrow> False | TlsAuto \<Rightarrow> port = 443);
          defaultPort = (if isSecure then port = 443 else port = 80)
      in \<lparr>hostHeaderValue = (if defaultPort then hostOnly else hp), limits = lim\<rparr>)"

end
