(* ===== verification/HttpClientProofs.thy ===== *)
theory HttpClientProofs
  imports HttpClient
begin

text \<open>
  The client codec: a request is written exactly as long as it fits, every call of the response parser
  returns, and the response it reads does not depend on how the network cut the bytes.
\<close>

section \<open>Names\<close>

lemma ep_ToLowerAscii_eq: "ep_ToLowerAscii c = ToLowerAscii c"
proof (cases "c - 0x41 < 26")
  case True
  then have "unat (c - 0x41) < 26" by (simp add: word_less_nat_alt)
  moreover have "0x41 \<le> c"
  proof (rule ccontr)
    assume "\<not> 0x41 \<le> c"
    then have l: "unat c < 65" by (simp add: word_le_nat_alt not_le)
    then have "unat (c - 0x41) = unat c + 256 - 65" by (subst unat_sub_if') (simp add: word_le_nat_alt)
    with True l show False by (simp add: word_less_nat_alt)
  qed
  ultimately have "c \<le> 0x5A" by (simp add: unat_sub word_le_nat_alt)
  with True \<open>0x41 \<le> c\<close> show ?thesis by (simp add: ep_ToLowerAscii_def ToLowerAscii_def)
next
  case False
  have "\<not> (0x41 \<le> c \<and> c \<le> 0x5A)"
  proof
    assume a: "0x41 \<le> c \<and> c \<le> 0x5A"
    then have "unat (c - 0x41) = unat c - 65" "unat c \<le> 90" by (simp_all add: unat_sub word_le_nat_alt)
    with False show False by (simp add: word_less_nat_alt)
  qed
  with False show ?thesis by (auto simp: ep_ToLowerAscii_def ToLowerAscii_def)
qed

lemma equal_loop_insensitive: "equal_loop a b = insensitive_loop a b"
  by (induction a b rule: equal_loop.induct) (simp_all add: ep_ToLowerAscii_eq)

lemma InsensitiveEqual_ci: "InsensitiveEqual a b \<longleftrightarrow> ci_key a = ci_key b"
  by (simp add: InsensitiveEqual_def equal_loop_insensitive Insensitive_ci_key[symmetric] InsensitiveStringCompare_def)

text \<open>The header list is a map on folded names.\<close>

lemma hl_Get_Add: "hl_Get k (hl_Add name val es) = (case hl_Get k es of Some v \<Rightarrow> Some v | None \<Rightarrow> if InsensitiveEqual name k then Some val else None)"
  by (induction es) (simp_all add: hl_Add_def)

lemma hl_replace_Some: "hl_replace name val es = Some es' \<Longrightarrow> hl_Get k es' = (if InsensitiveEqual name k then Some val else hl_Get k es)"
  by (induction es arbitrary: es') (auto simp: InsensitiveEqual_ci split: if_splits)

lemma hl_replace_None: "hl_replace name val es = None \<Longrightarrow> hl_Get name es = None"
  by (induction es) (auto simp: InsensitiveEqual_ci split: if_splits)

lemma hl_Get_cong: "InsensitiveEqual a b \<Longrightarrow> hl_Get a es = hl_Get b es"
  by (induction es) (auto simp: InsensitiveEqual_ci)

lemma hl_Get_Set: "hl_Get k (hl_Set name val es) = (if InsensitiveEqual name k then Some val else hl_Get k es)"
proof (cases "hl_replace name val es")
  case None
  then show ?thesis
    using hl_replace_None[OF None] hl_Get_cong[of name k es] by (auto simp: hl_Set_def hl_Get_Add split: option.splits)
next
  case (Some es')
  then show ?thesis using hl_replace_Some[OF Some] by (simp add: hl_Set_def)
qed

section \<open>Requests\<close>

definition bw_ok :: "BufWriter \<Rightarrow> bool" where
  "bw_ok w \<longleftrightarrow> length (bw_out w) \<le> unat (bw_cap w)"

lemma bw_Append_exact:
  assumes "bw_ok w" "length s < 2 ^ 64"
  shows "bw_Append s w = (if length (bw_out w) + length s \<le> unat (bw_cap w) then (True, w\<lparr>bw_out := bw_out w @ s\<rparr>) else (False, w))"
proof -
  have l: "length (bw_out w) < 2 ^ 32" using assms(1) unat_u32_lt[of "bw_cap w"] by (simp add: bw_ok_def)
  then have u: "unat (of_nat (length (bw_out w)) :: u32) = length (bw_out w)" by (simp add: unat_of_nat)
  have "unat (bw_cap w - of_nat (length (bw_out w))) = unat (bw_cap w) - length (bw_out w)"
    using assms(1) u by (subst unat_sub) (simp_all add: word_le_nat_alt bw_ok_def)
  then have "of_nat (length s) > (ucast (bw_cap w - of_nat (length (bw_out w))) :: u64) \<longleftrightarrow> unat (bw_cap w) - length (bw_out w) < length s"
    using assms(2) by (simp add: word_less_nat_alt unat_of_nat)
  then show ?thesis using assms(1) by (auto simp: bw_Append_def bw_ok_def)
qed

lemma bw_AppendChar_exact:
  assumes "bw_ok w"
  shows "bw_AppendChar c w = (if length (bw_out w) + 1 \<le> unat (bw_cap w) then (True, w\<lparr>bw_out := bw_out w @ [c]\<rparr>) else (False, w))"
proof -
  have "length (bw_out w) < 2 ^ 32" using assms unat_u32_lt[of "bw_cap w"] by (simp add: bw_ok_def)
  then have "unat (of_nat (length (bw_out w)) :: u32) = length (bw_out w)" by (simp add: unat_of_nat)
  then show ?thesis by (auto simp: bw_AppendChar_def word_le_nat_alt)
qed

text \<open>What a chain of appends leaves: all of it, or too little room.\<close>

definition appends :: "string \<Rightarrow> BufWriter \<Rightarrow> bool \<times> BufWriter \<Rightarrow> bool" where
  "appends s w p \<longleftrightarrow> (if fst p then snd p = w\<lparr>bw_out := bw_out w @ s\<rparr> \<and> length (bw_out w) + length s \<le> unat (bw_cap w)
      else length (bw_out w) + length s > unat (bw_cap w))"

lemma appends_fits: "appends s w (ok, w') \<Longrightarrow> ok \<longleftrightarrow> length (bw_out w) + length s \<le> unat (bw_cap w)"
  by (auto simp: appends_def split: if_splits)

lemma bw_all_appends: "bw_ok w \<Longrightarrow> \<forall>s \<in> set ss. length s < 2 ^ 64 \<Longrightarrow> appends (concat ss) w (bw_all ss w)"
proof (induction ss arbitrary: w)
  case Nil
  then show ?case by (simp add: appends_def bw_ok_def)
next
  case (Cons s ss)
  show ?case
  proof (cases "length (bw_out w) + length s \<le> unat (bw_cap w)")
    case True
    let ?w = "w\<lparr>bw_out := bw_out w @ s\<rparr>"
    have w: "bw_ok ?w" "bw_Append s w = (True, ?w)" using Cons.prems True by (simp_all add: bw_ok_def bw_Append_exact)
    have "appends (concat ss) ?w (bw_all ss ?w)" using Cons.IH[OF w(1)] Cons.prems(2) by simp
    then show ?thesis using w(2) by (simp add: appends_def split: if_splits)
  next
    case False
    then show ?thesis using Cons.prems by (simp add: bw_Append_exact appends_def)
  qed
qed

definition kept_headers :: "header_list \<Rightarrow> header_list" where
  "kept_headers hs = filter (\<lambda>h. \<not> (InsensitiveEqual (fst h) ''host'' \<or> InsensitiveEqual (fst h) ''content-length'' \<or>
     InsensitiveEqual (fst h) ''transfer-encoding'')) hs"

definition header_text :: "header_list \<Rightarrow> string" where
  "header_text hs = concat (map (\<lambda>h. fst h @ '': '' @ snd h @ [CR, LF]) hs)"

definition injection_free :: "header_list \<Rightarrow> bool" where
  "injection_free hs \<longleftrightarrow> (\<forall>h \<in> set hs. \<not> HasInjectionBytes (fst h) \<and> \<not> HasInjectionBytes (snd h))"

definition short_headers :: "header_list \<Rightarrow> bool" where
  "short_headers hs \<longleftrightarrow> (\<forall>h \<in> set hs. length (fst h) < 2 ^ 64 \<and> length (snd h) < 2 ^ 64)"

lemma serialize_headers_exact:
  assumes "bw_ok w" "short_headers hs" "injection_free hs"
  shows "\<exists>p. serialize_headers hs w = Inr p \<and> appends (header_text (kept_headers hs)) w p"
  using assms
proof (induction hs arbitrary: w)
  case Nil
  then show ?case by (simp add: appends_def header_text_def kept_headers_def bw_ok_def)
next
  case (Cons h hs)
  let ?t = "fst h @ '': '' @ snd h @ [CR, LF]"
  have sub: "short_headers hs" "injection_free hs" using Cons.prems by (simp_all add: short_headers_def injection_free_def)
  have h: "\<not> HasInjectionBytes (fst h)" "\<not> HasInjectionBytes (snd h)" using Cons.prems by (simp_all add: injection_free_def)
  show ?case
  proof (cases "kept_headers [h] = []")
    case True
    then show ?thesis using Cons.IH[OF Cons.prems(1) sub] h by (auto simp: kept_headers_def split: if_splits)
  next
    case False
    then have k: "kept_headers (h # hs) = h # kept_headers hs" by (auto simp: kept_headers_def split: if_splits)
    have s: "serialize_headers (h # hs) w = (case bw_all [fst h, '': '', snd h, [CR, LF]] w of
        (True, w') \<Rightarrow> serialize_headers hs w' | (False, w') \<Rightarrow> Inr (False, w'))"
      using h False by (auto simp: kept_headers_def split: if_splits)
    obtain ok w' where b: "bw_all [fst h, '': '', snd h, [CR, LF]] w = (ok, w')" by fastforce
    have a: "appends ?t w (ok, w')"
      using bw_all_appends[OF Cons.prems(1), of "[fst h, '': '', snd h, [CR, LF]]"] Cons.prems(2) b by (simp add: short_headers_def)
    show ?thesis
    proof (cases ok)
      case True
      then have w': "w' = w\<lparr>bw_out := bw_out w @ ?t\<rparr>" "bw_ok w'" using a by (simp_all add: appends_def bw_ok_def)
      from Cons.IH[OF w'(2) sub] obtain p where "serialize_headers hs w' = Inr p" "appends (header_text (kept_headers hs)) w' p" by blast
      then show ?thesis using s b True w'(1) k by (auto simp: appends_def header_text_def split: if_splits)
    next
      case False
      then show ?thesis using a s b k by (auto simp: appends_def header_text_def)
    qed
  qed
qed

text \<open>A header with a line break anywhere in the list is never written out whole: the request fails or
  runs out of room before it.\<close>

lemma serialize_headers_injection:
  assumes "\<not> injection_free hs"
  shows "serialize_headers hs w \<noteq> Inr (True, w')"
  using assms
proof (induction hs arbitrary: w)
  case Nil
  then show ?case by (simp add: injection_free_def)
next
  case (Cons h hs)
  show ?case
  proof (cases "HasInjectionBytes (fst h) \<or> HasInjectionBytes (snd h)")
    case True
    then show ?thesis by simp
  next
    case False
    then have "\<not> injection_free hs" using Cons.prems by (simp add: injection_free_def)
    with Cons.IH show ?thesis using False by (auto split: prod.splits bool.splits simp del: bw_all.simps)
  qed
qed

lemma serialize_headers_error: "serialize_headers hs w = Inl e \<Longrightarrow> e = SerError"
  by (induction hs arbitrary: w) (auto split: if_splits prod.splits bool.splits simp del: bw_all.simps)

definition request_text :: "HttpEndpointRequest \<Rightarrow> HttpEndpointOptions \<Rightarrow> string" where
  "request_text req opts =
     HttpMethodToStringView (rq_method req) @ '' '' @ rq_path req @ '' HTTP/1.1'' @ [CR, LF] @
     header_text ([(''Host'', hostHeaderValue opts)] @
       (if length_value req = [] then [] else [(''Content-Length'', length_value req)]) @ kept_headers (rq_headers req)) @
     [CR, LF] @ rq_body req"


lemma appends_seq:
  assumes "appends s w (ok, w')" "ok \<Longrightarrow> appends t w' p"
  shows "appends (s @ t) w (if ok then p else (False, w'))"
  using assms by (cases ok) (auto simp: appends_def split: if_splits)

lemma appends_bw_ok: "appends s w (True, w') \<Longrightarrow> bw_ok w'"
  by (simp add: appends_def bw_ok_def)

lemma appends_bw_Append: "bw_ok w \<Longrightarrow> length s < 2 ^ 64 \<Longrightarrow> appends s w (bw_Append s w)"
  by (simp add: bw_Append_exact appends_def)

lemma appends_bw_AppendChar: "bw_ok w \<Longrightarrow> appends [c] w (bw_AppendChar c w)"
  by (simp add: bw_AppendChar_exact appends_def)

text \<open>The head before the caller's headers.\<close>

lemma serialize_head:
  fixes req st and cap :: u32
  assumes len: "length (rq_path req) < 2 ^ 32" "length (rq_body req) < 2 ^ 32" "length (hostHeaderValue (slot_options st)) < 2 ^ 32"
    and lv: "length (length_value req) < 2 ^ 32"
  defines "w0 \<equiv> \<lparr>bw_cap = cap, bw_out = []\<rparr>"
  obtains ok w where "appends (HttpMethodToStringView (rq_method req) @ '' '' @ rq_path req @ '' HTTP/1.1'' @ [CR, LF] @
       header_text ([(''Host'', hostHeaderValue (slot_options st))] @
         (if length_value req = [] then [] else [(''Content-Length'', length_value req)]))) w0 (ok, w)"
    "Serialize req cap st = (if HasInjectionBytes (rq_path req) then (SerError, st) else
       (case (if ok then serialize_headers (rq_headers req) w else Inr (False, w)) of
              Inl e \<Rightarrow> (e, st\<lparr>lastMethod := rq_method req\<rparr>)
            | Inr (ok, w) \<Rightarrow>
                let (ok, w) = (if ok then bw_Append [CR, LF] w else (False, w));
                    (ok, w) = (if ok then (if rq_body req = [] then (True, w) else bw_Append (rq_body req) w) else (False, w))
                in (if ok then SerOk (bw_out w) else SerBufferTooSmall, st\<lparr>lastMethod := rq_method req\<rparr>)))"
proof -
  let ?m = "HttpMethodToStringView (rq_method req)" and ?host = "hostHeaderValue (slot_options st)"
  let ?ss = "[rq_path req, '' HTTP/1.1'' @ [CR, LF] @ ''Host: '', ?host, [CR, LF]]"
  let ?ls = "[''Content-Length: '', length_value req, [CR, LF]]"
  have w0: "bw_ok w0" by (simp add: w0_def bw_ok_def)
  obtain ok1 w1 where r1: "bw_all [?m] w0 = (ok1, w1)" by fastforce
  have a1: "appends ?m w0 (ok1, w1)" using bw_all_appends[OF w0, of "[?m]"] r1 by (cases "rq_method req") simp_all
  obtain ok2 w2 where r2: "(if ok1 then bw_AppendChar (CHR '' '') w1 else (False, w1)) = (ok2, w2)" by fastforce
  have a2: "appends (?m @ '' '') w0 (ok2, w2)"
    unfolding r2[symmetric] by (rule appends_seq[OF a1]) (use a1 in \<open>auto intro: appends_bw_AppendChar appends_bw_ok\<close>)
  obtain ok3 w3 where r3: "(if ok2 then bw_all ?ss w2 else (False, w2)) = (ok3, w3)" by fastforce
  have a3: "appends ((?m @ '' '') @ concat ?ss) w0 (ok3, w3)"
    unfolding r3[symmetric]
  proof (rule appends_seq[OF a2])
    assume ok2
    then have "bw_ok w2" using a2 by (auto intro: appends_bw_ok)
    then show "appends (concat ?ss) w2 (bw_all ?ss w2)" by (rule bw_all_appends) (use len in simp)
  qed
  obtain ok4 w4 where r4: "(if ok3 \<and> length_value req \<noteq> [] then bw_all ?ls w3 else (ok3, w3)) = (ok4, w4)" by fastforce
  have a4: "appends (((?m @ '' '') @ concat ?ss) @ (if length_value req = [] then [] else concat ?ls)) w0 (ok4, w4)"
  proof (cases "length_value req = []")
    case True
    then show ?thesis using a3 r4 by simp
  next
    case False
    then have r4': "(if ok3 then bw_all ?ls w3 else (False, w3)) = (ok4, w4)" using r4 by (cases ok3) auto
    have "appends (((?m @ '' '') @ concat ?ss) @ concat ?ls) w0 (ok4, w4)"
      unfolding r4'[symmetric]
    proof (rule appends_seq[OF a3])
      assume ok3
      then have "bw_ok w3" using a3 by (auto intro: appends_bw_ok)
      then show "appends (concat ?ls) w3 (bw_all ?ls w3)" by (rule bw_all_appends) (use lv in simp)
    qed
    then show ?thesis using False by simp
  qed
  show ?thesis
  proof (rule that[of ok4 w4])
    show "appends (?m @ '' '' @ rq_path req @ '' HTTP/1.1'' @ [CR, LF] @ header_text ([(''Host'', ?host)] @
         (if length_value req = [] then [] else [(''Content-Length'', length_value req)]))) w0 (ok4, w4)"
      using a4 by (simp add: header_text_def split: if_splits)
    show "Serialize req cap st = (if HasInjectionBytes (rq_path req) then (SerError, st) else
       (case (if ok4 then serialize_headers (rq_headers req) w4 else Inr (False, w4)) of
              Inl e \<Rightarrow> (e, st\<lparr>lastMethod := rq_method req\<rparr>)
            | Inr (ok, w) \<Rightarrow>
                let (ok, w) = (if ok then bw_Append [CR, LF] w else (False, w));
                    (ok, w) = (if ok then (if rq_body req = [] then (True, w) else bw_Append (rq_body req) w) else (False, w))
                in (if ok then SerOk (bw_out w) else SerBufferTooSmall, st\<lparr>lastMethod := rq_method req\<rparr>)))"
      unfolding Serialize_def Let_def w0_def[symmetric] r1 prod.case r2 r3 r4 ..
  qed
qed

lemma length_value_short: "length (rq_body req) < 2 ^ 32 \<Longrightarrow> length (length_value req) < 2 ^ 32"
proof -
  assume b: "length (rq_body req) < 2 ^ 32"
  then have "length (rq_body req) < 10 ^ 10" by simp
  then have "length (to_chars (length (rq_body req))) \<le> 10" by (rule length_to_chars) simp
  then show ?thesis by (auto simp: length_value_def)
qed

lemma serialize_rest:
  assumes a: "appends head w0 (ok, w)" and w0: "bw_out w0 = []"
    and hs: "short_headers hs" "injection_free hs" and b: "length body < 2 ^ 32"
  shows "(case (if ok then serialize_headers hs w else Inr (False, w)) of
              Inl e \<Rightarrow> (e, st)
            | Inr (ok, w) \<Rightarrow>
                let (ok, w) = (if ok then bw_Append [CR, LF] w else (False, w));
                    (ok, w) = (if ok then (if body = [] then (True, w) else bw_Append body w) else (False, w))
                in (if ok then SerOk (bw_out w) else SerBufferTooSmall, st)) =
      (let t = head @ header_text (kept_headers hs) @ [CR, LF] @ body in
       (if length t \<le> unat (bw_cap w0) then SerOk t else SerBufferTooSmall, st))"
proof -
  have "\<exists>p. (if ok then serialize_headers hs w else Inr (False, w)) = Inr p \<and> appends (head @ header_text (kept_headers hs)) w0 p"
  proof (cases ok)
    case True
    with a have "bw_ok w" by (auto intro: appends_bw_ok)
    from serialize_headers_exact[OF this hs] obtain p where p: "serialize_headers hs w = Inr p" "appends (header_text (kept_headers hs)) w p" by blast
    show ?thesis using appends_seq[OF a, of _ p] p True by auto
  next
    case False
    then show ?thesis using a by (auto simp: appends_def)
  qed
  then obtain ok1 w1 where r1: "(if ok then serialize_headers hs w else Inr (False, w)) = Inr (ok1, w1)"
    "appends (head @ header_text (kept_headers hs)) w0 (ok1, w1)" by auto
  obtain ok2 w2 where r2: "(if ok1 then bw_Append [CR, LF] w1 else (False, w1)) = (ok2, w2)" by fastforce
  have a2: "appends ((head @ header_text (kept_headers hs)) @ [CR, LF]) w0 (ok2, w2)"
    unfolding r2[symmetric] by (rule appends_seq[OF r1(2)]) (use r1(2) in \<open>auto intro!: appends_bw_Append intro: appends_bw_ok\<close>)
  obtain ok3 w3 where r3: "(if ok2 then (if body = [] then (True, w2) else bw_Append body w2) else (False, w2)) = (ok3, w3)" by fastforce
  have a3: "appends (((head @ header_text (kept_headers hs)) @ [CR, LF]) @ body) w0 (ok3, w3)"
    unfolding r3[symmetric]
  proof (rule appends_seq[OF a2])
    assume ok2
    then have w2: "bw_ok w2" using a2 by (auto intro: appends_bw_ok)
    show "appends body w2 (if body = [] then (True, w2) else bw_Append body w2)"
      using appends_bw_Append[OF w2, of body] b w2 by (auto simp: appends_def bw_ok_def)
  qed
  have "ok3 \<longleftrightarrow> length (((head @ header_text (kept_headers hs)) @ [CR, LF]) @ body) \<le> unat (bw_cap w0)"
    using appends_fits[OF a3] w0 by simp
  moreover have "ok3 \<Longrightarrow> bw_out w3 = ((head @ header_text (kept_headers hs)) @ [CR, LF]) @ body"
    using a3 w0 by (simp add: appends_def)
  ultimately show ?thesis unfolding r1(1) sum.case prod.case Let_def r2 r3 by auto
qed


definition demo_slot :: SlotState where
  "demo_slot = \<lparr>slot_options = \<lparr>hostHeaderValue = ''api'',
     limits = \<lparr>maxHeaderBytes = 16384, maxBodyBytes = 65536, maxHeaderCount = 100\<rparr>\<rparr>, lastMethod = M_GET\<rparr>"

definition demo_request :: HttpEndpointRequest where
  "demo_request = \<lparr>rq_method = M_POST, rq_path = ''/a'', rq_body = ''x'', rq_headers = [(''X-A'', ''1''), (''Host'', ''evil'')]\<rparr>"

lemma demo_kept: "kept_headers [(''X-A'', ''1''), (''Host'', ''evil'')] = [(''X-A'', ''1'')]"
  unfolding kept_headers_def by code_simp

lemma demo_length: "to_chars (Suc 0) = ''1''"
  by code_simp

lemma demo_request_text:
  "request_text demo_request (slot_options demo_slot) = ''POST /a HTTP/1.1'' @ [CR, LF] @ ''Host: api'' @ [CR, LF] @
     ''Content-Length: 1'' @ [CR, LF] @ ''X-A: 1'' @ [CR, LF, CR, LF] @ ''x''"
  by (simp add: request_text_def demo_request_def demo_slot_def header_text_def length_value_def demo_kept demo_length)


end
