(* ===== verification/HttpClientStream.thy ===== *)
theory HttpClientStream
  imports HttpClientProofs
begin

text \<open>
  The response parser as its bytes arrive: every call returns, an incomplete answer has taken all the
  bytes it was given, and cutting the bytes differently does not change what is read.
\<close>

section \<open>Every call returns\<close>

definition in_body :: "ParsePhase \<Rightarrow> bool" where
  "in_body p \<longleftrightarrow> p = BODY_CONTENT_LENGTH \<or> p = BODY_CHUNK_DATA"

lemma phase_cases: "line_phase p \<or> p = BODY_UNTIL_CLOSE \<or> in_body p"
  by (cases p) (simp_all add: line_phase_def in_body_def)

lemma in_body_simps [simp]:
  "in_body BODY_CHUNK_DATA" "in_body BODY_CONTENT_LENGTH" "\<not> in_body STATUS_LINE" "\<not> in_body HDRS" "\<not> in_body BODY_CHUNK_SIZE"
  "\<not> in_body BODY_CHUNK_LINE_END" "\<not> in_body BODY_CHUNK_TRAILER" "\<not> in_body BODY_UNTIL_CLOSE"
  by (simp_all add: in_body_def)

lemma ReadLine_line:
  "ReadLine buf acc m = (GOT_LINE line, acc', rest) \<Longrightarrow> \<exists>k. sv_find LF buf = Some k \<and> rest = drop (Suc k) buf \<and>
     length (acc @ take k buf) \<le> unat m \<and> line = strip_cr (acc @ take k buf) \<and> length rest < length buf"
proof -
  assume r: "ReadLine buf acc m = (GOT_LINE line, acc', rest)"
  then obtain k where k: "sv_find LF buf = Some k" by (auto simp: ReadLine_def split: option.splits if_splits)
  with r have "rest = drop (Suc k) buf" "length acc + k \<le> unat m" "line = strip_cr (acc @ take k buf)"
    by (auto simp: ReadLine_def split: if_splits)
  with sv_find_lt[OF k] k show ?thesis by (intro exI[of _ k]) simp
qed

definition rounds_left :: "string \<Rightarrow> ParseState \<Rightarrow> nat" where
  "rounds_left buf st = 2 * length buf + (if in_body (ps_phase st) then 1 else 0)"

lemma parse_round_decreases:
  assumes "parse_round slot e buf res st = (Continue, rest, res', st')"
  shows "rounds_left rest st' < rounds_left buf st"
proof (cases "line_phase (ps_phase st)")
  case True
  then obtain line acc where "ReadLine buf (lineAcc st) (maxHeaderBytes (limits (slot_options slot))) = (GOT_LINE line, acc, rest)"
    using assms by (auto simp: parse_round_def Let_def split: prod.splits line_read.splits if_splits)
  from ReadLine_line[OF this] have "length rest < length buf" by blast
  then show ?thesis by (simp add: rounds_left_def)
next
  case False
  then have "in_body (ps_phase st)" "\<not> in_body (ps_phase st')" "length rest \<le> length buf"
    using assms phase_cases[of "ps_phase st"] by (auto simp: parse_round_def Let_def split: if_splits)
  then show ?thesis by (simp add: rounds_left_def)
qed

lemma parse_loop_returns: "rounds_left buf st < n \<Longrightarrow> parse_loop n slot e buf res st \<noteq> None"
proof (induction n arbitrary: buf res st)
  case (Suc n)
  obtain c rest res' st' where r: "parse_round slot e buf res st = (c, rest, res', st')" by (metis prod_cases4)
  show ?case
  proof (cases c)
    case Continue
    from parse_round_decreases[OF r[unfolded Continue]] Suc show ?thesis by (simp add: r Continue)
  qed (simp add: r)
qed simp

text \<open>More fuel gives the same result.\<close>

lemma parse_loop_mono: "parse_loop n slot e buf res st = Some x \<Longrightarrow> n \<le> m \<Longrightarrow> parse_loop m slot e buf res st = Some x"
proof (induction n arbitrary: m buf res st)
  case (Suc n)
  then obtain k where m: "m = Suc k" "n \<le> k" by (cases m) auto
  show ?case using Suc m by (auto split: prod.splits step_end.splits)
qed simp

lemma Parse_Some: "\<exists>r. Parse slot e buf res st = Some r"
proof -
  have "rounds_left buf st < 2 * length buf + 2" by (simp add: rounds_left_def)
  from parse_loop_returns[OF this, of slot e res] show ?thesis by (auto simp: Parse_def)
qed

text \<open>The result of the loop, whatever the fuel.\<close>

definition parse_result :: "SlotState \<Rightarrow> bool \<Rightarrow> string \<Rightarrow> HttpEndpointResponse \<Rightarrow> ParseState \<Rightarrow>
    ParseResult \<times> string \<times> HttpEndpointResponse \<times> ParseState" where
  "parse_result slot e buf res st = the (parse_loop (2 * length buf + 2) slot e buf res st)"

lemma parse_loop_result: "rounds_left buf st < n \<Longrightarrow> parse_loop n slot e buf res st = Some (parse_result slot e buf res st)"
proof -
  assume n: "rounds_left buf st < n"
  obtain x where x: "parse_loop n slot e buf res st = Some x" using parse_loop_returns[OF n, of slot e res] by auto
  have "rounds_left buf st < 2 * length buf + 2" by (simp add: rounds_left_def)
  then obtain y where y: "parse_loop (2 * length buf + 2) slot e buf res st = Some y"
    using parse_loop_returns[of buf st "2 * length buf + 2" slot e res] by auto
  have "x = y" using parse_loop_mono[OF x, of "max n (2 * length buf + 2)"] parse_loop_mono[OF y, of "max n (2 * length buf + 2)"] by simp
  then show ?thesis using x y by (simp add: parse_result_def)
qed

lemma parse_result_unfold:
  "parse_result slot e buf res st =
     (case parse_round slot e buf res st of
        (Finish r, rest, res', st') \<Rightarrow> (r, rest, res', st')
      | (Continue, rest, res', st') \<Rightarrow> parse_result slot e rest res' st')"
proof -
  obtain c rest res' st' where r: "parse_round slot e buf res st = (c, rest, res', st')" by (metis prod_cases4)
  have "parse_loop (Suc (rounds_left buf st)) slot e buf res st = Some (parse_result slot e buf res st)"
    by (rule parse_loop_result) simp
  then show ?thesis
    using parse_loop_result[OF parse_round_decreases, of slot e buf res st rest res' st' slot e res'] r by (cases c) auto
qed

lemma Parse_result:
  "Parse slot e buf res st = (case parse_result slot e buf res st of (r, rest, res', st') \<Rightarrow> Some (r, length buf - length rest, res', st'))"
proof -
  have "rounds_left buf st < 2 * length buf + 2" by (simp add: rounds_left_def)
  from parse_loop_result[OF this, of slot e res] show ?thesis by (simp add: Parse_def split: prod.splits)
qed

lemma parse_result_induct [case_names round]:
  assumes "\<And>buf res st. (\<And>rest res' st'. parse_round slot e buf res st = (Continue, rest, res', st') \<Longrightarrow> P rest res' st') \<Longrightarrow> P buf res st"
  shows "P buf res st"
proof (induction "rounds_left buf st" arbitrary: buf res st rule: less_induct)
  case less
  show ?case
  proof (rule assms)
    fix rest res' st'
    assume "parse_round slot e buf res st = (Continue, rest, res', st')"
    from parse_round_decreases[OF this] less show "P rest res' st'" by blast
  qed
qed

section \<open>A line, wherever it was cut\<close>

text \<open>The part of a round that follows \<open>ReadLine\<close>.\<close>

definition line_round :: "SlotState \<Rightarrow> nat \<Rightarrow> string \<Rightarrow> HttpEndpointResponse \<Rightarrow> ParseState \<Rightarrow>
    step_end \<times> HttpEndpointResponse \<times> ParseState" where
  "line_round slot used line res st =
     (let head = (ps_phase st = STATUS_LINE \<or> ps_phase st = HDRS);
          st2 = (if head then st\<lparr>headerBytes := headerBytes st + of_nat used\<rparr> else st)
      in if head \<and> headerBytes st2 > maxHeaderBytes (limits (slot_options slot)) then (Finish ParseError, res, st2)
         else line_step slot line res st2)"

lemma parse_round_line:
  assumes "line_phase (ps_phase st)" "ReadLine buf (lineAcc st) (maxHeaderBytes (limits (slot_options slot))) = (GOT_LINE line, acc, rest)"
  shows "parse_round slot e buf res st =
     (case line_round slot (length buf - length rest) line res (st\<lparr>lineAcc := acc\<rparr>) of (c, res', st') \<Rightarrow> (c, rest, res', st'))"
proof -
  have "length rest < length buf" using ReadLine_line[OF assms(2)] by blast
  then have u: "(of_nat (length buf - length rest) - 1 + 1 :: u32) = of_nat (length buf - length rest)" by simp
  show ?thesis
    using assms(1) by (simp add: parse_round_def assms(2) Let_def line_round_def u split: prod.split del: of_nat_diff)
qed

text \<open>What a line does to the state depends neither on the bytes counted so far nor on the accumulator.\<close>

definition vary :: "u32 \<Rightarrow> string \<Rightarrow> ParseState \<Rightarrow> ParseState" where
  "vary h a st = st\<lparr>headerBytes := h, lineAcc := a\<rparr>"

lemma vary_fields [simp]:
  "bodyRemaining (vary h a st) = bodyRemaining st" "headerCount (vary h a st) = headerCount st"
  "informationalCount (vary h a st) = informationalCount st" "ps_phase (vary h a st) = ps_phase st"
  "chunked (vary h a st) = chunked st" "hasContentLength (vary h a st) = hasContentLength st"
  "closeAfter (vary h a st) = closeAfter st" "httpMinor0 (vary h a st) = httpMinor0 st"
  "headerBytes (vary h a st) = h" "lineAcc (vary h a st) = a"
  by (simp_all add: vary_def)

lemma vary_update [simp]:
  "(vary h a st)\<lparr>bodyRemaining := x1\<rparr> = vary h a (st\<lparr>bodyRemaining := x1\<rparr>)"
  "(vary h a st)\<lparr>headerCount := x2\<rparr> = vary h a (st\<lparr>headerCount := x2\<rparr>)"
  "(vary h a st)\<lparr>informationalCount := x3\<rparr> = vary h a (st\<lparr>informationalCount := x3\<rparr>)"
  "(vary h a st)\<lparr>ps_phase := x4\<rparr> = vary h a (st\<lparr>ps_phase := x4\<rparr>)"
  "(vary h a st)\<lparr>chunked := x5\<rparr> = vary h a (st\<lparr>chunked := x5\<rparr>)"
  "(vary h a st)\<lparr>hasContentLength := x5\<rparr> = vary h a (st\<lparr>hasContentLength := x5\<rparr>)"
  "(vary h a st)\<lparr>closeAfter := x5\<rparr> = vary h a (st\<lparr>closeAfter := x5\<rparr>)"
  "(vary h a st)\<lparr>httpMinor0 := x5\<rparr> = vary h a (st\<lparr>httpMinor0 := x5\<rparr>)"
  "(vary h a st)\<lparr>lineAcc := b\<rparr> = vary h b st"
  "(vary h a st)\<lparr>headerBytes := g\<rparr> = vary g a st"
  "vary h a (vary g b st) = vary h a st"
  "vary h a (st\<lparr>lineAcc := b\<rparr>) = vary h a st"
  by (simp_all add: vary_def)

lemma vary_same: "vary (headerBytes st) (lineAcc st) st = st"
  by (simp add: vary_def)

lemma count_header_vary:
  "count_header lim name val res (vary h a st) = (case count_header lim name val res st of (ok, r, s) \<Rightarrow> (ok, r, vary h a s))"
  by (simp add: count_header_def Let_def)

lemma ParseStatusLine_vary:
  "ParseStatusLine line res (vary h a st) = (case ParseStatusLine line res st of (ok, r, s) \<Rightarrow> (ok, r, vary h a s))"
  by (simp add: ParseStatusLine_def Let_def split: from_chars_result.splits)

lemma ParseHeaderLine_vary:
  "ParseHeaderLine lim line res (vary h a st) = (case ParseHeaderLine lim line res st of (ok, r, s) \<Rightarrow> (ok, r, vary h a s))"
  by (auto simp: ParseHeaderLine_def Let_def count_header_vary split: from_chars_result.splits option.splits)

lemma headers_end_vary:
  "headers_end slot res (vary h a st) = (case headers_end slot res st of (c, s) \<Rightarrow> (c, vary h (if c = Continue \<or> c = Finish ParseError then [] else a) s))"
  by (simp add: headers_end_def Let_def done_or_close_def)

lemma line_step_vary:
  "line_step slot line res (vary h a st) =
     (case line_step slot line res st of (c, r, s) \<Rightarrow> (c, r, vary h (if c = Continue \<or> c = Finish ParseError then [] else a) s))"
proof (cases "ps_phase st")
  case STATUS_LINE
  then show ?thesis
    by (simp add: line_step_def Let_def ParseStatusLine_vary split: prod.splits bool.splits)
next
  case HDRS
  show ?thesis
  proof (cases "line = []")
    case True
    then show ?thesis using HDRS by (simp add: line_step_def Let_def headers_end_vary split: prod.splits)
  next
    case False
    then show ?thesis using HDRS by (simp add: line_step_def Let_def ParseHeaderLine_vary split: prod.splits)
  qed
qed (simp_all add: line_step_def Let_def done_or_close_def split: option.splits)

text \<open>What a line leaves in the two fields.\<close>

lemma count_header_keeps: "count_header lim name val res st = (ok, r, s) \<Longrightarrow> headerBytes s = headerBytes st"
  by (auto simp: count_header_def Let_def split: if_splits)

lemma ParseStatusLine_keeps: "ParseStatusLine line res st = (ok, r, s) \<Longrightarrow> headerBytes s = headerBytes st"
  by (auto simp: ParseStatusLine_def Let_def split: from_chars_result.splits if_splits)

lemma ParseHeaderLine_keeps: "ParseHeaderLine lim line res st = (ok, r, s) \<Longrightarrow> headerBytes s = headerBytes st"
  by (auto simp: ParseHeaderLine_def Let_def split: from_chars_result.splits if_splits option.splits dest: count_header_keeps)

lemma line_step_keeps:
  assumes "line_step slot line res st = (c, r, s)"
  shows "headerBytes s = headerBytes st" "c = Continue \<Longrightarrow> lineAcc s = []" "c \<noteq> Finish ParseIncomplete"
proof -
  show "headerBytes s = headerBytes st"
    using assms by (cases "ps_phase st") (auto simp: line_step_def Let_def headers_end_def split: prod.splits bool.splits option.splits if_splits
      dest!: ParseStatusLine_keeps ParseHeaderLine_keeps)
  show "c = Continue \<Longrightarrow> lineAcc s = []"
    using assms by (cases "ps_phase st") (auto simp: line_step_def Let_def headers_end_def split: prod.splits bool.splits option.splits if_splits)
  show "c \<noteq> Finish ParseIncomplete"
    using assms by (cases "ps_phase st") (auto simp: line_step_def Let_def headers_end_def done_or_close_def split: prod.splits bool.splits option.splits if_splits)
qed


section \<open>Cutting the bytes\<close>

definition max_header :: "SlotState \<Rightarrow> nat" where
  "max_header slot = unat (maxHeaderBytes (limits (slot_options slot)))"

text \<open>Fewer bytes counted never turn an accepted line into a refused one.\<close>

lemma line_round_vary:
  assumes r: "line_round slot used line res st = (c, r', s')" "c \<noteq> Finish ParseError"
    and h: "unat h \<le> unat (headerBytes st)" "unat (headerBytes st) \<le> max_header slot"
    and u: "used' \<le> used" "used \<le> Suc (max_header slot)" and m: "max_header slot < 2 ^ 31 - 1"
  shows "\<exists>h'. line_round slot used' line res (vary h a st) = (c, r', vary h' (if c = Continue then [] else a) s') \<and>
     unat h' \<le> unat (headerBytes s')" and "unat (headerBytes s') \<le> max_header slot" "c = Continue \<Longrightarrow> lineAcc s' = []"
    "c \<noteq> Finish ParseIncomplete"
proof -
  have add: "unat (headerBytes st + of_nat used) = unat (headerBytes st) + used" "unat (h + of_nat used') = unat h + used'"
    using h u m by (simp_all add: unat_add_u32 unat_of_nat)
  let ?head = "ps_phase st = STATUS_LINE \<or> ps_phase st = HDRS"
  define s2 where "s2 = (if ?head then st\<lparr>headerBytes := headerBytes st + of_nat used\<rparr> else st)"
  define h2 where "h2 = (if ?head then h + of_nat used' else h)"
  have ok: "\<not> (?head \<and> headerBytes s2 > maxHeaderBytes (limits (slot_options slot)))" and ls: "line_step slot line res s2 = (c, r', s')"
    using r by (auto simp: line_round_def Let_def s2_def split: if_splits)
  have le: "unat h2 \<le> unat (headerBytes s2)" "unat (headerBytes s2) \<le> max_header slot"
    using ok h u add by (auto simp: h2_def s2_def max_header_def word_less_nat_alt split: if_splits)
  have v: "(if ?head then (vary h a st)\<lparr>headerBytes := h + of_nat used'\<rparr> else vary h a st) = vary h2 a s2"
    by (simp add: h2_def s2_def vary_def)
  have nb: "\<not> (?head \<and> h2 > maxHeaderBytes (limits (slot_options slot)))"
    using ok le(1) by (auto simp: word_less_nat_alt)
  note k = line_step_keeps[OF ls]
  have "line_round slot used' line res (vary h a st) = (c, r', vary h2 (if c = Continue then [] else a) s')"
    using nb r(2) unfolding line_round_def Let_def vary_fields v by (simp add: line_step_vary ls)
  then show "\<exists>h'. line_round slot used' line res (vary h a st) = (c, r', vary h' (if c = Continue then [] else a) s') \<and>
     unat h' \<le> unat (headerBytes s')" using le k(1) by auto
  show "unat (headerBytes s') \<le> max_header slot" "c = Continue \<Longrightarrow> lineAcc s' = []" "c \<noteq> Finish ParseIncomplete"
    using le(2) k by simp_all
qed

lemma ReadLine_used:
  assumes "ReadLine buf acc m = (GOT_LINE line, acc', rest)"
  shows "length buf - length rest \<le> Suc (unat m)"
proof -
  obtain k where k: "sv_find LF buf = Some k" "rest = drop (Suc k) buf" "length (acc @ take k buf) \<le> unat m"
    using ReadLine_line[OF assms] by blast
  then show ?thesis using sv_find_lt[OF k(1)] by simp
qed

text \<open>A body round does not look at the count.\<close>

lemma round_body_header:
  assumes "\<not> line_phase (ps_phase st)"
  shows "parse_round slot e buf res (st\<lparr>headerBytes := h\<rparr>) =
     (case parse_round slot e buf res st of (c, rest, r', s') \<Rightarrow> (c, rest, r', s'\<lparr>headerBytes := h\<rparr>))"
    "headerBytes (snd (snd (snd (parse_round slot e buf res st)))) = headerBytes st"
  using assms by (simp_all add: parse_round_def Let_def done_or_close_def)

text \<open>One round with fewer bytes counted.\<close>

lemma round_lower:
  assumes r: "parse_round slot e buf res st = (c, rest, r', s')" "c \<noteq> Finish ParseError"
    and h: "unat h \<le> unat (headerBytes st)" "unat (headerBytes st) \<le> max_header slot" and m: "max_header slot < 2 ^ 31 - 1"
  shows "\<exists>h'. parse_round slot e buf res (st\<lparr>headerBytes := h\<rparr>) = (c, rest, r', s'\<lparr>headerBytes := h'\<rparr>) \<and> unat h' \<le> unat (headerBytes s')"
    and "unat (headerBytes s') \<le> max_header slot"
proof -
  consider (got) line acc where "line_phase (ps_phase st)"
      "ReadLine buf (lineAcc st) (maxHeaderBytes (limits (slot_options slot))) = (GOT_LINE line, acc, rest)"
      "line_round slot (length buf - length rest) line res (st\<lparr>lineAcc := acc\<rparr>) = (c, r', s')"
    | (more) acc where "line_phase (ps_phase st)"
      "ReadLine buf (lineAcc st) (maxHeaderBytes (limits (slot_options slot))) = (NEED_MORE, acc, rest)"
      "c = Finish ParseIncomplete" "\<not> e" "r' = res" "s' = st\<lparr>lineAcc := acc\<rparr>"
    | (body) "\<not> line_phase (ps_phase st)"
  proof (cases "line_phase (ps_phase st)")
    case True
    obtain lr acc rest1 where rl: "ReadLine buf (lineAcc st) (maxHeaderBytes (limits (slot_options slot))) = (lr, acc, rest1)"
      by (metis prod_cases3)
    show ?thesis
    proof (cases lr)
      case (GOT_LINE line)
      with rl r(1) True show ?thesis
        by (intro that(1)) (auto simp: parse_round_line split: prod.splits)
    qed (use rl r True that in \<open>auto simp: parse_round_def Let_def split: if_splits\<close>)
  qed (rule that(3))
  note cases = this
  have "(\<exists>h'. parse_round slot e buf res (st\<lparr>headerBytes := h\<rparr>) = (c, rest, r', s'\<lparr>headerBytes := h'\<rparr>) \<and> unat h' \<le> unat (headerBytes s')) \<and>
    unat (headerBytes s') \<le> max_header slot"
    using cases
  proof cases
    case (got line acc)
    have u: "length buf - length rest \<le> Suc (max_header slot)" using ReadLine_used[OF got(2)] by (simp add: max_header_def)
    have h1: "unat h \<le> unat (headerBytes (st\<lparr>lineAcc := acc\<rparr>))" "unat (headerBytes (st\<lparr>lineAcc := acc\<rparr>)) \<le> max_header slot"
      using h by simp_all
    note v1 = line_round_vary(1)[OF got(3) r(2) h1 order_refl u m, of acc]
    note v2 = line_round_vary(2)[OF got(3) r(2) h1 order_refl u m]
    note v3 = line_round_vary(3)[OF got(3) r(2) h1 order_refl u m]
    obtain h' where h': "line_round slot (length buf - length rest) line res (vary h acc st) = (c, r', vary h' (if c = Continue then [] else acc) s')"
      "unat h' \<le> unat (headerBytes s')" using v1 by auto
    have acc: "lineAcc s' = (if c = Continue then [] else acc)"
    proof (cases "c = Continue")
      case False
      have "vary (headerBytes s') (lineAcc s') s' = s'" by (rule vary_same)
      obtain h2 where "line_round slot (length buf - length rest) line res (vary (headerBytes st) acc (st\<lparr>lineAcc := acc\<rparr>)) =
          (c, r', vary h2 (if c = Continue then [] else acc) s')"
        using line_round_vary(1)[OF got(3) r(2) order_refl h1(2) order_refl u m, of acc] by auto
      moreover have "vary (headerBytes st) acc st = st\<lparr>lineAcc := acc\<rparr>" by (simp add: vary_def)
      ultimately have "s' = vary h2 acc s'" using got(3) False by simp
      then have "lineAcc s' = acc" by (metis vary_fields(10))
      then show ?thesis using False by simp
    qed (use v3 in simp)
    have e1: "(st\<lparr>headerBytes := h\<rparr>)\<lparr>lineAcc := acc\<rparr> = vary h acc st" by (simp add: vary_def)
    have e2: "vary h' (if c = Continue then [] else acc) s' = s'\<lparr>headerBytes := h'\<rparr>" using acc by (simp add: vary_def)
    have rl: "ReadLine buf (lineAcc (st\<lparr>headerBytes := h\<rparr>)) (maxHeaderBytes (limits (slot_options slot))) = (GOT_LINE line, acc, rest)"
      using got(2) by simp
    have "parse_round slot e buf res (st\<lparr>headerBytes := h\<rparr>) = (c, rest, r', s'\<lparr>headerBytes := h'\<rparr>)"
      using parse_round_line[OF _ rl, of e res] got(1) h'(1) e1 e2 by simp
    then show ?thesis using h'(2) v2 by blast
  next
    case (more acc)
    then show ?thesis using h by (auto simp: parse_round_def Let_def intro!: exI[of _ h])
  next
    case body
    from round_body_header[OF this, of slot e buf res] r(1) h show ?thesis by (auto simp: split_def intro!: exI[of _ h])
  qed
  then show "\<exists>h'. parse_round slot e buf res (st\<lparr>headerBytes := h\<rparr>) = (c, rest, r', s'\<lparr>headerBytes := h'\<rparr>) \<and> unat h' \<le> unat (headerBytes s')"
    "unat (headerBytes s') \<le> max_header slot" by blast+
qed

lemma result_lower:
  assumes m: "max_header slot < 2 ^ 31 - 1"
  shows "parse_result slot e buf res st = (R, rest, r', s') \<Longrightarrow> R \<noteq> ParseError \<Longrightarrow> unat h \<le> unat (headerBytes st) \<Longrightarrow>
     unat (headerBytes st) \<le> max_header slot \<Longrightarrow> \<exists>s''. parse_result slot e buf res (st\<lparr>headerBytes := h\<rparr>) = (R, rest, r', s'')"
proof (induction buf res st arbitrary: h rule: parse_result_induct[where slot = slot and e = e])
  case (round buf res st)
  obtain c rest1 r1 s1 where pr: "parse_round slot e buf res st = (c, rest1, r1, s1)" by (metis prod_cases4)
  have ne: "c \<noteq> Finish ParseError" using round.prems pr by (auto simp: parse_result_unfold[of slot e buf])
  obtain h' where h': "parse_round slot e buf res (st\<lparr>headerBytes := h\<rparr>) = (c, rest1, r1, s1\<lparr>headerBytes := h'\<rparr>)"
    "unat h' \<le> unat (headerBytes s1)" using round_lower(1)[OF pr ne round.prems(3,4) m] by blast
  show ?case
  proof (cases c)
    case (Finish x)
    then show ?thesis using round.prems(1) pr h' by (simp add: parse_result_unfold[of slot e buf])
  next
    case Continue
    have "parse_result slot e rest1 r1 s1 = (R, rest, r', s')" using round.prems(1) pr Continue by (simp add: parse_result_unfold[of slot e buf])
    from round.IH[OF pr[unfolded Continue] this round.prems(2) h'(2) round_lower(2)[OF pr ne round.prems(3,4) m]]
    show ?thesis using h'(1) Continue by (simp add: parse_result_unfold[of slot e buf])
  qed
qed


text \<open>A cut: either the first part already holds the whole answer, or it is taken completely and the
  second part gives the answer the two would have given together.\<close>

definition cut_ok :: "SlotState \<Rightarrow> bool \<Rightarrow> string \<Rightarrow> string \<Rightarrow> HttpEndpointResponse \<Rightarrow> ParseState \<Rightarrow> u32 \<Rightarrow>
    ParseResult \<times> string \<times> HttpEndpointResponse \<times> ParseState \<Rightarrow> bool" where
  "cut_ok slot e a b res st h out \<longleftrightarrow>
     (case out of (R, rest, r', s') \<Rightarrow>
       (\<exists>rest1 s1. parse_result slot False a res (st\<lparr>headerBytes := h\<rparr>) = (R, rest1, r', s1) \<and> rest = rest1 @ b \<and> R \<noteq> ParseIncomplete) \<or>
       (\<exists>r1 s1 s2. parse_result slot False a res (st\<lparr>headerBytes := h\<rparr>) = (ParseIncomplete, [], r1, s1) \<and>
          parse_result slot e b r1 s1 = (R, rest, r', s2) \<and> unat (headerBytes s1) \<le> max_header slot))"

lemma cut_ok_round:
  assumes a: "parse_round slot False a res (st\<lparr>headerBytes := h\<rparr>) = (Continue, rest, r1, s1\<lparr>headerBytes := h1\<rparr>)"
    and c: "cut_ok slot e rest b r1 s1 h1 out"
  shows "cut_ok slot e a b res st h out"
proof -
  have "parse_result slot False a res (st\<lparr>headerBytes := h\<rparr>) = parse_result slot False rest r1 (s1\<lparr>headerBytes := h1\<rparr>)"
    using a by (simp add: parse_result_unfold[of slot False a])
  then show ?thesis using c by (simp add: cut_ok_def)
qed

lemma sv_find_append_cases:
  "sv_find c (a @ b) = Some k \<Longrightarrow> (k < length a \<and> sv_find c a = Some k) \<or>
     (length a \<le> k \<and> sv_find c a = None \<and> sv_find c b = Some (k - length a))"
  "sv_find c (a @ b) = None \<longleftrightarrow> sv_find c a = None \<and> sv_find c b = None"
proof -
  show "sv_find c (a @ b) = None \<longleftrightarrow> sv_find c a = None \<and> sv_find c b = None" by (simp add: sv_find_None)
  assume s: "sv_find c (a @ b) = Some k"
  show "(k < length a \<and> sv_find c a = Some k) \<or> (length a \<le> k \<and> sv_find c a = None \<and> sv_find c b = Some (k - length a))"
  proof (cases "c \<in> set a")
    case True
    then obtain j where j: "sv_find c a = Some j" by (metis sv_find_None option.exhaust)
    then have "sv_find c (a @ b) = Some j" by (auto simp: sv_find_Some nth_append)
    then show ?thesis using s j sv_find_lt[OF j] by simp
  next
    case False
    then show ?thesis using s sv_find_append_notin[OF False, of b] by (auto simp: sv_find_None[symmetric])
  qed
qed

text \<open>The line the round reads, cut after the first part.\<close>

lemma ReadLine_inside:
  assumes "ReadLine (a @ b) acc m = (GOT_LINE line, acc', rest)" "sv_find LF a = Some k"
  shows "ReadLine a acc m = (GOT_LINE line, acc', drop (Suc k) a)" "rest = drop (Suc k) a @ b"
proof -
  have k: "k < length a" using sv_find_lt[OF assms(2)] .
  have "sv_find LF (a @ b) = Some k" using assms(2) k by (auto simp: sv_find_Some nth_append)
  then show "ReadLine a acc m = (GOT_LINE line, acc', drop (Suc k) a)" "rest = drop (Suc k) a @ b"
    using assms k by (auto simp: ReadLine_def split: if_splits)
qed

lemma ReadLine_across:
  assumes "ReadLine (a @ b) acc m = (GOT_LINE line, acc', rest)" "sv_find LF a = None"
  shows "ReadLine a acc m = (NEED_MORE, acc @ a, [])"
    and "\<exists>acc''. ReadLine b (acc @ a) m = (GOT_LINE line, acc'', rest)" "length rest < length b"
proof -
  obtain k where k: "sv_find LF (a @ b) = Some k" "rest = drop (Suc k) (a @ b)" "length (acc @ take k (a @ b)) \<le> unat m"
    "line = strip_cr (acc @ take k (a @ b))" using ReadLine_line[OF assms(1)] by blast
  from sv_find_append_cases(1)[OF k(1)] assms(2) have b: "length a \<le> k" "sv_find LF b = Some (k - length a)" by auto
  have kb: "k - length a < length b" using sv_find_lt[OF b(2)] .
  have ln: "length acc + k \<le> unat m" using k(3) b kb by (simp add: min_def split: if_splits)
  have t: "take k (a @ b) = a @ take (k - length a) b" using b(1) by simp
  have r: "rest = drop (Suc (k - length a)) b" using k(2) b(1) by (simp add: Suc_diff_le)
  show "ReadLine a acc m = (NEED_MORE, acc @ a, [])" using assms(2) ln b(1) by (simp add: ReadLine_def)
  show "\<exists>acc''. ReadLine b (acc @ a) m = (GOT_LINE line, acc'', rest)"
    using ln b k(4) t r by (auto simp: ReadLine_def)
  show "length rest < length b" using r kb by simp
qed

lemma cut_line:
  assumes m: "max_header slot < 2 ^ 31 - 1" and lp: "line_phase (ps_phase st)"
    and rl: "ReadLine (a @ b) (lineAcc st) (maxHeaderBytes (limits (slot_options slot))) = (GOT_LINE line, acc, rest)"
    and lr: "line_round slot (length (a @ b) - length rest) line res (st\<lparr>lineAcc := acc\<rparr>) = (c, r1, s1)" "c \<noteq> Finish ParseError"
    and h: "unat h \<le> unat (headerBytes st)" "unat (headerBytes st) \<le> max_header slot"
    and out: "case c of Finish R \<Rightarrow> out = (R, rest, r1, s1) | Continue \<Rightarrow> out = parse_result slot e rest r1 s1"
    and ok: "fst out \<noteq> ParseError"
    and IH: "\<And>a' h'. c = Continue \<Longrightarrow> rest = a' @ b \<Longrightarrow> unat h' \<le> unat (headerBytes s1) \<Longrightarrow> unat (headerBytes s1) \<le> max_header slot \<Longrightarrow>
      cut_ok slot e a' b r1 s1 h' out"
  shows "cut_ok slot e a b res st h out"
proof -
  let ?m = "maxHeaderBytes (limits (slot_options slot))" and ?st = "st\<lparr>headerBytes := h\<rparr>"
  have u: "length (a @ b) - length rest \<le> Suc (max_header slot)" using ReadLine_used[OF rl] by (simp add: max_header_def)
  have h1: "unat h \<le> unat (headerBytes (st\<lparr>lineAcc := acc\<rparr>))" "unat (headerBytes (st\<lparr>lineAcc := acc\<rparr>)) \<le> max_header slot"
    using h by simp_all
  have ni: "c \<noteq> Finish ParseIncomplete" and hb: "unat (headerBytes s1) \<le> max_header slot"
    and la: "c = Continue \<Longrightarrow> lineAcc s1 = []"
    using line_round_vary(2,3,4)[OF lr h1 order_refl u m] by blast+
  show ?thesis
  proof (cases "sv_find LF a")
    case (Some k)
    note ri = ReadLine_inside[OF rl Some]
    have us: "length a - length (drop (Suc k) a) \<le> length (a @ b) - length rest" using ri(2) sv_find_lt[OF Some] by simp
    obtain h' where h': "line_round slot (length a - length (drop (Suc k) a)) line res (vary h acc (st\<lparr>lineAcc := acc\<rparr>)) =
        (c, r1, vary h' (if c = Continue then [] else acc) s1)" "unat h' \<le> unat (headerBytes s1)"
      using line_round_vary(1)[OF lr h1 us u m, of acc] by blast
    have v: "(?st)\<lparr>lineAcc := acc\<rparr> = vary h acc (st\<lparr>lineAcc := acc\<rparr>)" by (simp add: vary_def)
    have lp': "line_phase (ps_phase ?st)" using lp by simp
    have "ReadLine a (lineAcc ?st) ?m = (GOT_LINE line, acc, drop (Suc k) a)" using ri(1) by simp
    from parse_round_line[OF lp' this, of False res] h'(1)
    have pr: "parse_round slot False a res ?st = (c, drop (Suc k) a, r1, vary h' (if c = Continue then [] else acc) s1)"
      by (simp only: v prod.case)
    show ?thesis
    proof (cases c)
      case (Finish R)
      then show ?thesis using pr out ri(2) ni by (auto simp: cut_ok_def parse_result_unfold[of slot False a])
    next
      case Continue
      have "vary h' [] s1 = s1\<lparr>headerBytes := h'\<rparr>" using la[OF Continue] by (simp add: vary_def)
      then have "parse_round slot False a res ?st = (Continue, drop (Suc k) a, r1, s1\<lparr>headerBytes := h'\<rparr>)"
        using pr Continue by simp
      then show ?thesis by (rule cut_ok_round) (rule IH[OF Continue ri(2) h'(2) hb])
    qed
  next
    case None
    obtain acc2 where ra: "ReadLine a (lineAcc st) ?m = (NEED_MORE, lineAcc st @ a, [])"
      "ReadLine b (lineAcc st @ a) ?m = (GOT_LINE line, acc2, rest)" "length rest < length b"
      using ReadLine_across[OF rl None] by blast
    let ?s1 = "?st\<lparr>lineAcc := lineAcc st @ a\<rparr>"
    have A: "parse_result slot False a res ?st = (ParseIncomplete, [], res, ?s1)"
      using lp ra(1) by (simp add: parse_result_unfold[of slot False a] parse_round_def Let_def)
    have us: "length b - length rest \<le> length (a @ b) - length rest" by simp
    obtain h' where h': "line_round slot (length b - length rest) line res (vary h acc2 (st\<lparr>lineAcc := acc\<rparr>)) =
        (c, r1, vary h' (if c = Continue then [] else acc2) s1)" "unat h' \<le> unat (headerBytes s1)"
      using line_round_vary(1)[OF lr h1 us u m, of acc2] by blast
    have v: "?s1\<lparr>lineAcc := acc2\<rparr> = vary h acc2 (st\<lparr>lineAcc := acc\<rparr>)" by (simp add: vary_def)
    have lp': "line_phase (ps_phase ?s1)" using lp by simp
    have "ReadLine b (lineAcc ?s1) ?m = (GOT_LINE line, acc2, rest)" using ra(2) by simp
    from parse_round_line[OF lp' this, of e res] h'(1)
    have pr: "parse_round slot e b res ?s1 = (c, rest, r1, vary h' (if c = Continue then [] else acc2) s1)"
      by (simp only: v prod.case)
    have "\<exists>s2. parse_result slot e b res ?s1 = (fst out, fst (snd out), fst (snd (snd out)), s2)"
    proof (cases c)
      case (Finish R)
      then show ?thesis using pr out by (simp add: parse_result_unfold[of slot e b])
    next
      case Continue
      have "vary h' [] s1 = s1\<lparr>headerBytes := h'\<rparr>" using la[OF Continue] by (simp add: vary_def)
      then have B: "parse_result slot e b res ?s1 = parse_result slot e rest r1 (s1\<lparr>headerBytes := h'\<rparr>)"
        using pr Continue by (simp add: parse_result_unfold[of slot e b])
      obtain R rest2 r2 s2 where o: "out = (R, rest2, r2, s2)" by (metis prod_cases4)
      have pe: "parse_result slot e rest r1 s1 = (R, rest2, r2, s2)" using out o Continue by simp
      have ne: "R \<noteq> ParseError" using ok unfolding o by simp
      from result_lower[OF m pe ne h'(2) hb] show ?thesis unfolding B o by simp
    qed
    then obtain s2 where "parse_result slot e b res ?s1 = (fst out, fst (snd out), fst (snd (snd out)), s2)" ..
    moreover have "unat (headerBytes ?s1) \<le> max_header slot" using h by simp
    ultimately show ?thesis using A unfolding cut_ok_def by (auto simp: split_def)
  qed
qed


lemma cut_until_close:
  assumes p: "ps_phase st = BODY_UNTIL_CLOSE" and h: "unat h \<le> unat (headerBytes st)" "unat (headerBytes st) \<le> max_header slot"
    and ok: "fst (parse_result slot e (a @ b) res st) \<noteq> ParseError"
  shows "cut_ok slot e a b res st h (parse_result slot e (a @ b) res st)"
proof -
  have np: "\<not> line_phase (ps_phase st)" using p by (simp add: line_phase_def)
  have fit: "a @ b = [] \<or> length (rs_body res) + length (a @ b) \<le> unat (maxBodyBytes (limits (slot_options slot)))"
    using ok p np by (auto simp: parse_result_unfold[of slot e "a @ b"] parse_round_def Let_def split: if_splits)
  let ?res = "res\<lparr>rs_body := rs_body res @ a\<rparr>" and ?st = "st\<lparr>headerBytes := h\<rparr>"
  have W: "parse_result slot e (a @ b) res st = (if e then ParseClose else ParseIncomplete, [], res\<lparr>rs_body := rs_body res @ a @ b\<rparr>, st)"
    using p np fit by (auto simp: parse_result_unfold[of slot e "a @ b"] parse_round_def Let_def)
  have A: "parse_result slot False a res ?st = (ParseIncomplete, [], ?res, ?st)"
    using p np fit by (auto simp: parse_result_unfold[of slot False a] parse_round_def Let_def)
  have B: "parse_result slot e b ?res ?st = (if e then ParseClose else ParseIncomplete, [], res\<lparr>rs_body := rs_body res @ a @ b\<rparr>, ?st)"
    using p np fit by (auto simp: parse_result_unfold[of slot e b] parse_round_def Let_def)
  show ?thesis unfolding W cut_ok_def using A B h by simp
qed

lemma unat_sub_of_nat: "n \<le> unat (x :: u64) \<Longrightarrow> unat (x - of_nat n) = unat x - n"
proof -
  assume n: "n \<le> unat x"
  have "unat (of_nat n :: u64) = n" using n unat_u64_lt[of x] by (simp add: unat_of_nat)
  then show ?thesis using n by (subst unat_sub) (simp_all add: word_le_nat_alt)
qed

text \<open>A body round in numbers.\<close>

lemma body_round:
  assumes p: "in_body (ps_phase st)"
  shows "parse_round slot e buf res st =
     (let n = min (unat (bodyRemaining st)) (length buf);
          res' = res\<lparr>rs_body := rs_body res @ take n buf\<rparr>;
          st' = st\<lparr>bodyRemaining := bodyRemaining st - of_nat n\<rparr>
      in if length (rs_body res) + n > unat (maxBodyBytes (limits (slot_options slot))) then (Finish ParseError, buf, res, st)
         else if unat (bodyRemaining st) \<le> length buf then
           if ps_phase st = BODY_CHUNK_DATA then (Continue, drop n buf, res', st'\<lparr>ps_phase := BODY_CHUNK_LINE_END\<rparr>)
           else (Finish (done_or_close st'), drop n buf, res', st')
         else (Finish (if e then ParseError else ParseIncomplete), drop n buf, res', st'))"
proof -
  have np: "\<not> line_phase (ps_phase st)" "ps_phase st \<noteq> BODY_UNTIL_CLOSE" using p by (auto simp: in_body_def line_phase_def)
  let ?n = "min (unat (bodyRemaining st)) (length buf)"
  have "unat (bodyRemaining st - of_nat ?n) = unat (bodyRemaining st) - ?n" by (rule unat_sub_of_nat) simp
  then have z: "bodyRemaining st - of_nat ?n = 0 \<longleftrightarrow> unat (bodyRemaining st) \<le> length buf"
    by (metis diff_is_0_eq linorder_le_cases min.absorb1 min.absorb2 nat_le_linear unat_eq_0 diff_self_eq_0)
  show ?thesis using np z by (simp add: parse_round_def Let_def)
qed

lemma cut_body:
  assumes p: "in_body (ps_phase st)" and h: "unat h \<le> unat (headerBytes st)" "unat (headerBytes st) \<le> max_header slot"
    and ok: "fst (parse_result slot e (a @ b) res st) \<noteq> ParseError"
    and IH: "\<And>a' h' rest r1 s1. parse_round slot e (a @ b) res st = (Continue, rest, r1, s1) \<Longrightarrow> rest = a' @ b \<Longrightarrow> headerBytes s1 = headerBytes st \<Longrightarrow>
      unat h' \<le> unat (headerBytes s1) \<Longrightarrow> cut_ok slot e a' b r1 s1 h' (parse_result slot e rest r1 s1)"
    and IH2: "\<And>h' rest r1 s1. parse_round slot e (a @ b) res st = (Continue, rest, r1, s1) \<Longrightarrow> unat h' \<le> unat (headerBytes s1) \<Longrightarrow>
      headerBytes s1 = headerBytes st \<Longrightarrow> fst (parse_result slot e rest r1 s1) \<noteq> ParseError \<Longrightarrow>
      \<exists>s2. parse_result slot e rest r1 (s1\<lparr>headerBytes := h'\<rparr>) =
        (fst (parse_result slot e rest r1 s1), fst (snd (parse_result slot e rest r1 s1)), fst (snd (snd (parse_result slot e rest r1 s1))), s2)"
  shows "cut_ok slot e a b res st h (parse_result slot e (a @ b) res st)"
proof -
  let ?st = "st\<lparr>headerBytes := h\<rparr>" and ?k = "unat (bodyRemaining st)" and ?M = "unat (maxBodyBytes (limits (slot_options slot)))"
  have p': "in_body (ps_phase ?st)" using p by simp
  note RW = body_round[OF p, of slot e "a @ b" res]
  note RA = body_round[OF p', of slot False a res]
  have fit: "length (rs_body res) + min ?k (length (a @ b)) \<le> ?M"
    using ok by (auto simp: parse_result_unfold[of slot e "a @ b"] RW Let_def split: if_splits)
  show ?thesis
  proof (cases "?k \<le> length a")
    case True
    then have mk: "min ?k (length (a @ b)) = ?k" "min ?k (length a) = ?k" "?k \<le> length (a @ b)" by simp_all
    let ?r = "res\<lparr>rs_body := rs_body res @ take ?k a\<rparr>" and ?s = "st\<lparr>bodyRemaining := 0\<rparr>"
    have z: "bodyRemaining st - of_nat ?k = 0" by simp
    have f: "length (rs_body res) + ?k \<le> ?M" using fit mk by simp
    show ?thesis
    proof (cases "ps_phase st = BODY_CHUNK_DATA")
      case data: True
      have W: "parse_round slot e (a @ b) res st = (Continue, drop ?k a @ b, ?r, ?s\<lparr>ps_phase := BODY_CHUNK_LINE_END\<rparr>)"
        unfolding RW using f mk data True by (simp add: Let_def)
      have A: "parse_round slot False a res ?st = (Continue, drop ?k a, ?r, (?s\<lparr>ps_phase := BODY_CHUNK_LINE_END\<rparr>)\<lparr>headerBytes := h\<rparr>)"
        unfolding RA using f mk data by (simp add: Let_def)
      have "cut_ok slot e (drop ?k a) b ?r (?s\<lparr>ps_phase := BODY_CHUNK_LINE_END\<rparr>) h
          (parse_result slot e (drop ?k a @ b) ?r (?s\<lparr>ps_phase := BODY_CHUNK_LINE_END\<rparr>))"
        by (rule IH[OF W]) (use h in simp_all)
      with cut_ok_round[OF A] W show ?thesis by (simp add: parse_result_unfold[of slot e "a @ b"])
    next
      case False
      have W: "parse_round slot e (a @ b) res st = (Finish (done_or_close ?s), drop ?k a @ b, ?r, ?s)"
        unfolding RW using f mk False True by (simp add: Let_def)
      have A: "parse_round slot False a res ?st = (Finish (done_or_close ?s), drop ?k a, ?r, ?s\<lparr>headerBytes := h\<rparr>)"
        unfolding RA using f mk False True by (simp add: Let_def done_or_close_def)
      show ?thesis
        unfolding cut_ok_def using W A by (simp add: parse_result_unfold[of slot e "a @ b"] parse_result_unfold[of slot False a] done_or_close_def)
    qed
  next
    case False
    let ?r = "res\<lparr>rs_body := rs_body res @ a\<rparr>" and ?s = "?st\<lparr>bodyRemaining := bodyRemaining st - of_nat (length a)\<rparr>"
    have u: "unat (bodyRemaining st - of_nat (length a)) = ?k - length a" by (rule unat_sub_of_nat) (use False in simp)
    have mk: "min ?k (length a) = length a" "min ?k (length (a @ b)) = length a + min (?k - length a) (length b)" using False by auto
    have A: "parse_result slot False a res ?st = (ParseIncomplete, [], ?r, ?s)"
      using fit mk False by (simp add: parse_result_unfold[of slot False a] RA Let_def)
    have p2: "in_body (ps_phase ?s)" using p by simp
    note RB = body_round[OF p2, of slot e b ?r]
    have tk: "rs_body res @ take (length a + min (?k - length a) (length b)) (a @ b) = (rs_body res @ a) @ take (min (?k - length a) (length b)) b"
      "drop (length a + min (?k - length a) (length b)) (a @ b) = drop (min (?k - length a) (length b)) b" by simp_all
    have rm: "bodyRemaining st - of_nat (length a + min (?k - length a) (length b)) =
        bodyRemaining st - of_nat (length a) - of_nat (min (?k - length a) (length b))" by simp
    have le: "?k \<le> length (a @ b) \<longleftrightarrow> ?k - length a \<le> length b" using False by auto
    have f2: "length (rs_body ?r) + min (unat (bodyRemaining ?s)) (length b) \<le> ?M" using fit mk u by simp
    obtain c rest r1 s1 where W: "parse_round slot e (a @ b) res st = (c, rest, r1, s1)" by (metis prod_cases4)
    have hb: "headerBytes s1 = headerBytes st" using W round_body_header(2)[of st slot e "a @ b" res] p
      by (auto simp: in_body_def line_phase_def)
    have B: "parse_round slot e b ?r ?s = (c, rest, r1, s1\<lparr>headerBytes := h\<rparr>)"
      using W fit f2 unfolding RW RB Let_def mk tk rm le by (auto simp: u done_or_close_def split: if_splits)
    have "\<exists>s2. parse_result slot e b ?r ?s = (fst (parse_result slot e (a @ b) res st), fst (snd (parse_result slot e (a @ b) res st)),
        fst (snd (snd (parse_result slot e (a @ b) res st))), s2)"
    proof (cases c)
      case (Finish R)
      then show ?thesis using W B by (simp add: parse_result_unfold[of slot e b] parse_result_unfold[of slot e "a @ b"])
    next
      case Continue
      have eq: "parse_result slot e (a @ b) res st = parse_result slot e rest r1 s1"
        "parse_result slot e b ?r ?s = parse_result slot e rest r1 (s1\<lparr>headerBytes := h\<rparr>)"
        using W B Continue by (simp_all add: parse_result_unfold[of slot e b] parse_result_unfold[of slot e "a @ b"])
      show ?thesis unfolding eq using IH2[OF W[unfolded Continue] _ hb, of h] ok h hb unfolding eq by simp
    qed
    then show ?thesis using A h unfolding cut_ok_def by (auto simp: split_def)
  qed
qed


lemma cut_result:
  assumes m: "max_header slot < 2 ^ 31 - 1"
  shows "fst (parse_result slot e buf res st) \<noteq> ParseError \<Longrightarrow> buf = a @ b \<Longrightarrow> unat h \<le> unat (headerBytes st) \<Longrightarrow>
     unat (headerBytes st) \<le> max_header slot \<Longrightarrow> cut_ok slot e a b res st h (parse_result slot e buf res st)"
proof (induction buf res st arbitrary: a h rule: parse_result_induct[where slot = slot and e = e])
  case (round buf res st)
  note ok = round.prems(1) and buf = round.prems(2) and h = round.prems(3,4)
  consider "line_phase (ps_phase st)" | "ps_phase st = BODY_UNTIL_CLOSE" | "in_body (ps_phase st)" using phase_cases by blast
  then show ?case
  proof cases
    case 1
    let ?m = "maxHeaderBytes (limits (slot_options slot))"
    obtain lr acc rest where rl: "ReadLine buf (lineAcc st) ?m = (lr, acc, rest)" by (metis prod_cases3)
    show ?thesis
    proof (cases lr)
      case NEED_MORE
      with rl have nl: "sv_find LF (a @ b) = None" "acc = lineAcc st @ a @ b" "rest = []" "length (lineAcc st) + length (a @ b) \<le> unat ?m"
        by (auto simp: ReadLine_def buf split: option.splits if_splits)
      have out: "parse_result slot e buf res st = (if e then ParseError else ParseIncomplete, [], res, st\<lparr>lineAcc := acc\<rparr>)"
        using rl NEED_MORE 1 nl(3) by (simp add: parse_result_unfold[of slot e buf] parse_round_def Let_def)
      with ok have e: "\<not> e" by (auto split: if_splits)
      have ab: "sv_find LF a = None" "sv_find LF b = None" using nl(1) by (simp_all add: sv_find_append_cases(2))
      let ?s1 = "st\<lparr>headerBytes := h, lineAcc := lineAcc st @ a\<rparr>"
      have A: "parse_result slot False a res (st\<lparr>headerBytes := h\<rparr>) = (ParseIncomplete, [], res, ?s1)"
        using 1 ab(1) nl(4) by (simp add: parse_result_unfold[of slot False a] parse_round_def Let_def ReadLine_def)
      have B: "parse_result slot e b res ?s1 = (ParseIncomplete, [], res, ?s1\<lparr>lineAcc := acc\<rparr>)"
        using 1 ab(2) nl(2,4) e by (subst parse_result_unfold) (simp add: parse_round_def Let_def ReadLine_def)
      show ?thesis unfolding out cut_ok_def using A B e h by simp
    next
      case TOO_LONG
      then show ?thesis using ok rl 1 by (simp add: parse_result_unfold[of slot e buf] parse_round_def Let_def)
    next
      case (GOT_LINE line)
      obtain c r1 s1 where lrd: "line_round slot (length buf - length rest) line res (st\<lparr>lineAcc := acc\<rparr>) = (c, r1, s1)"
        by (metis prod_cases3)
      have pr: "parse_round slot e buf res st = (c, rest, r1, s1)"
        using parse_round_line[OF 1 rl[unfolded GOT_LINE], of e res] lrd by simp
      have out: "case c of Finish R \<Rightarrow> parse_result slot e buf res st = (R, rest, r1, s1)
          | Continue \<Rightarrow> parse_result slot e buf res st = parse_result slot e rest r1 s1"
        using pr by (simp add: parse_result_unfold[of slot e buf] split: step_end.split)
      have ne: "c \<noteq> Finish ParseError" using ok out by (auto split: step_end.splits)
      show ?thesis
        unfolding buf
      proof (rule cut_line[OF m 1 rl[unfolded GOT_LINE buf] lrd[unfolded buf] ne h out[unfolded buf] ok[unfolded buf]])
        fix a' and h' :: u32
        assume c: "c = Continue" and r: "rest = a' @ b" and h': "unat h' \<le> unat (headerBytes s1)" "unat (headerBytes s1) \<le> max_header slot"
        have eq: "parse_result slot e (a @ b) res st = parse_result slot e rest r1 s1" using out c buf by simp
        show "cut_ok slot e a' b r1 s1 h' (parse_result slot e (a @ b) res st)"
          unfolding eq by (rule round.IH[OF pr[unfolded c] _ r h']) (use ok eq buf in simp)
      qed
    qed
  next
    case 2
    show ?thesis unfolding buf by (rule cut_until_close[OF 2 h ok[unfolded buf]])
  next
    case 3
    show ?thesis
      unfolding buf
    proof (rule cut_body[OF 3 h ok[unfolded buf]])
      fix a' and h' :: u32 and rest r1 s1
      assume pr: "parse_round slot e (a @ b) res st = (Continue, rest, r1, s1)" and r: "rest = a' @ b"
        and hb: "headerBytes s1 = headerBytes st" "unat h' \<le> unat (headerBytes s1)"
      have eq: "parse_result slot e (a @ b) res st = parse_result slot e rest r1 s1" using pr by (simp add: parse_result_unfold[of slot e "a @ b"])
      show "cut_ok slot e a' b r1 s1 h' (parse_result slot e rest r1 s1)"
        by (rule round.IH[OF pr[folded buf] _ r hb(2)]) (use ok eq buf h hb in simp_all)
    next
      fix h' :: u32 and rest r1 s1
      assume pr: "parse_round slot e (a @ b) res st = (Continue, rest, r1, s1)" and h': "unat h' \<le> unat (headerBytes s1)"
        and hb: "headerBytes s1 = headerBytes st" and ne: "fst (parse_result slot e rest r1 s1) \<noteq> ParseError"
      obtain R rest2 r2 s2 where o: "parse_result slot e rest r1 s1 = (R, rest2, r2, s2)" by (metis prod_cases4)
      have "R \<noteq> ParseError" using ne o by simp
      from result_lower[OF m o this h'] h hb show "\<exists>s2. parse_result slot e rest r1 (s1\<lparr>headerBytes := h'\<rparr>) =
        (fst (parse_result slot e rest r1 s1), fst (snd (parse_result slot e rest r1 s1)), fst (snd (snd (parse_result slot e rest r1 s1))), s2)"
        by (simp add: o)
    qed
  qed
qed

text \<open>The engine hands the parser what the socket gave it, keeps its state while the answer is incomplete,
  and stops at the first other answer. Only the last piece can be the end of the stream.\<close>

fun parse_pieces :: "SlotState \<Rightarrow> bool \<Rightarrow> string list \<Rightarrow> HttpEndpointResponse \<Rightarrow> ParseState \<Rightarrow>
    (ParseResult \<times> HttpEndpointResponse) option" where
  "parse_pieces slot e [] res st = Some (ParseIncomplete, res)"
| "parse_pieces slot e [p] res st = map_option (\<lambda>(R, _, r', _). (R, r')) (Parse slot e p res st)"
| "parse_pieces slot e (p # q # ps) res st =
     (case Parse slot False p res st of
        None \<Rightarrow> None
      | Some (ParseIncomplete, _, r', s') \<Rightarrow> parse_pieces slot e (q # ps) r' s'
      | Some (R, _, r', _) \<Rightarrow> Some (R, r'))"

lemma parse_pieces_concat:
  "max_header slot < 2 ^ 31 - 1 \<Longrightarrow> ps \<noteq> [] \<Longrightarrow> parse_result slot e (concat ps) res st = (R, rest, r', s') \<Longrightarrow> R \<noteq> ParseError \<Longrightarrow>
     unat (headerBytes st) \<le> max_header slot \<Longrightarrow> parse_pieces slot e ps res st = Some (R, r')"
proof (induction slot e ps res st arbitrary: rest s' rule: parse_pieces.induct)
  case (3 slot e p q ps res st)
  have w: "parse_result slot e (p @ concat (q # ps)) res st = (R, rest, r', s')" using "3.prems"(3) by simp
  have "cut_ok slot e p (concat (q # ps)) res st (headerBytes st) (parse_result slot e (p @ concat (q # ps)) res st)"
    by (rule cut_result[OF "3.prems"(1) _ refl order_refl "3.prems"(5)]) (use w "3.prems"(4) in simp)
  then consider rest1 s1 where "parse_result slot False p res st = (R, rest1, r', s1)" "R \<noteq> ParseIncomplete"
    | r1 s1 s2 where "parse_result slot False p res st = (ParseIncomplete, [], r1, s1)"
      "parse_result slot e (concat (q # ps)) r1 s1 = (R, rest, r', s2)" "unat (headerBytes s1) \<le> max_header slot"
    unfolding w cut_ok_def by auto
  then show ?case
  proof cases
    case 1
    then show ?thesis by (cases R) (simp_all add: Parse_result)
  next
    case 2
    then show ?thesis using "3.IH"[OF _ _ _ _ _ "3.prems"(1) _ 2(2) "3.prems"(4) 2(3)] by (simp add: Parse_result)
  qed
qed (simp_all add: Parse_result)

text \<open>C5. The client reads the same response however the bytes were cut: if the parser accepts a stream, or
  wants more of it, given as one piece, then it gives the same answer and builds the same
  response from any division of the stream into pieces.\<close>

theorem client_parse_is_independent_of_pieces:
  assumes "unat (maxHeaderBytes (limits (slot_options slot))) < 2 ^ 31 - 1" "ps \<noteq> []"
    and "Parse slot e (concat ps) fresh_response fresh_parse_state = Some (R, n, r', s')" "R \<noteq> ParseError"
  shows "parse_pieces slot e ps fresh_response fresh_parse_state = Some (R, r')"
proof -
  obtain rest where "parse_result slot e (concat ps) fresh_response fresh_parse_state = (R, rest, r', s')"
    using assms(3) by (auto simp: Parse_result split: prod.splits)
  from parse_pieces_concat[OF _ assms(2) this assms(4)] assms(1) show ?thesis by (simp add: max_header_def fresh_parse_state_def)
qed

end
