(* ===== verification/ResponseReading.thy ===== *)
theory ResponseReading
  imports HttpResponseProofs HttpClientStream
begin

text \<open>
  The client reads the text of a document: its numbers, its lines, its head, and a body that is
  announced by its length, cut into chunks, or absent.
\<close>

section \<open>Numbers\<close>

lemma digit_digit_char: "digit n = digit_char n"
  by (simp add: digit_def digit_char_def)

lemma digits_val_snoc: "digits_val (ds @ [d]) = 10 * digits_val ds + digit_val d"
  by (simp add: digits_val_def)

lemma fixed_digits_acc: "fixed_digits k v acc = fixed_digits k v [] @ acc"
proof (induction k arbitrary: v acc)
  case (Suc k)
  show ?case by (simp only: fixed_digits.simps) (subst (1 2) Suc, simp)
qed simp

lemma fixed_digits_Suc: "fixed_digits (Suc k) v [] = fixed_digits k (v div 10) [] @ [digit (v mod 10)]"
  by (simp only: fixed_digits.simps) (rule fixed_digits_acc)

lemma fixed_digits_ok: "list_all is_digit (fixed_digits k v []) \<and> digits_val (fixed_digits k v []) = v mod 10 ^ k"
proof (induction k arbitrary: v)
  case 0
  then show ?case by (simp add: digits_val_def)
next
  case (Suc k)
  have "v mod 10 ^ Suc k = 10 * (v div 10 mod 10 ^ k) + v mod 10" by (simp add: mod_mult2_eq)
  then show ?case using Suc[of "v div 10"]
    unfolding fixed_digits_Suc by (simp add: digits_val_snoc digit_digit_char is_digit_char digit_val_char)
qed

lemma uint_digits_ok: "list_all is_digit (uint_digits v) \<and> digits_val (uint_digits v) = v \<and> (0 < v \<longrightarrow> uint_digits v \<noteq> [])"
proof (induction v rule: uint_digits.induct)
  case (1 v)
  have z: "uint_digits 0 = []" by (subst uint_digits.simps) simp
  show ?case
  proof (cases "0 < v")
    case True
    then have "uint_digits v = uint_digits (v div 10) @ [digit (v mod 10)]" by (subst uint_digits.simps) simp
    with 1[OF True] True show ?thesis by (simp add: digits_val_snoc digit_digit_char is_digit_char digit_val_char)
  next
    case False
    then show ?thesis using z by (simp add: digits_val_def)
  qed
qed

text \<open>A decimal text that stands for a number.\<close>

definition decimal :: "nat \<Rightarrow> string \<Rightarrow> bool" where
  "decimal n ds \<longleftrightarrow> ds \<noteq> [] \<and> list_all is_digit ds \<and> digits_val ds = n"

lemma decimal_from_chars: "decimal n ds \<Longrightarrow> n \<le> mx \<Longrightarrow> from_chars_unsigned mx ds = FcOk (int n) (length ds)"
proof -
  assume d: "decimal n ds" "n \<le> mx"
  then have t: "takeWhile is_digit ds = ds" by (simp add: decimal_def takeWhile_eq_all_conv list_all_iff)
  show ?thesis unfolding from_chars_unsigned_def Let_def t using d by (simp add: decimal_def)
qed

lemma decimal_FormatFixed10: "decimal (unat v) (FormatFixed10 v)"
proof -
  have "unat v < 10 ^ 10" using unat_u32_lt[of v] by simp
  moreover have "FormatFixed10 v \<noteq> []" using length_FormatFixed10[of v] by (metis list.size(3) zero_neq_numeral)
  ultimately show ?thesis using fixed_digits_ok[of 10 "unat v"] by (simp add: decimal_def FormatFixed10_def CL_FIELD_WIDTH_def)
qed

lemma decimal_FormatUInt64: "decimal (unat v) (FormatUInt64 v)"
proof (cases "v = 0")
  case True
  then show ?thesis by (simp add: decimal_def FormatUInt64_def is_digit_def digits_val_def digit_val_def)
next
  case False
  then have "0 < unat v" by (simp add: unat_gt_0)
  then show ?thesis using uint_digits_ok[of "unat v"] False by (simp add: decimal_def FormatUInt64_def)
qed

lemma decimal_status:
  assumes "100 \<le> unat code" "unat code < 1000"
  shows "decimal (unat code) (status_digits code)"
proof -
  let ?c = "unat code"
  have a: "?c div 100 < 10" using assms by simp
  have m: "(48 + ?c div 100) mod 256 = 48 + ?c div 100" using a by simp
  have "status_digits code = [digit (?c div 100), digit (?c div 10 mod 10), digit (?c mod 10)]"
    by (simp add: status_digits_def Let_def m digit_def)
  moreover have "?c div 100 = ?c div 10 div 10" by (simp flip: div_mult2_eq)
  then have "?c = 100 * (?c div 100) + 10 * (?c div 10 mod 10) + ?c mod 10"
    using div_mult_mod_eq[of ?c 10] div_mult_mod_eq[of "?c div 10" 10] by linarith
  ultimately show ?thesis using a
    by (simp add: decimal_def digit_digit_char is_digit_char digits_val_def digit_val_char)
qed

text \<open>Chunk sizes.\<close>

lemma hex_digit_ok: "n < 16 \<Longrightarrow> hex_val (HEX_DIGITS ! n) = Some n"
proof -
  assume "n < 16"
  then have "n \<in> set [0..<16]" by simp
  moreover have "\<forall>n \<in> set [0..<16]. hex_val (HEX_DIGITS ! n) = Some n" by code_simp
  ultimately show ?thesis by blast
qed

lemma fixed_hex_acc: "fixed_hex k v acc = fixed_hex k v [] @ acc"
proof (induction k arbitrary: v acc)
  case (Suc k)
  show ?case by (simp only: fixed_hex.simps) (subst (1 2) Suc, simp)
qed simp

lemma fixed_hex_Suc: "fixed_hex (Suc k) v [] = fixed_hex k (drop_bit 4 v) [] @ [HEX_DIGITS ! unat (v AND 0xF)]"
  by (simp only: fixed_hex.simps) (rule fixed_hex_acc)

lemma length_fixed_hex: "length (fixed_hex k v acc) = k + length acc"
  by (induction k arbitrary: v acc) simp_all

lemma fixed_hex_ok: "list_all (\<lambda>c. hex_val c \<noteq> None) (fixed_hex k v []) \<and> hex_digits_val (fixed_hex k v []) = unat v mod 16 ^ k"
proof (induction k arbitrary: v)
  case 0
  then show ?case by (simp add: hex_digits_val_def)
next
  case (Suc k)
  have "v AND 0xF = take_bit 4 v" by (simp add: take_bit_eq_mask mask_eq_exp_minus_1)
  then have nib: "unat (v AND 0xF) = unat v mod 16" by (simp add: take_bit_eq_mod unat_mod)
  have "drop_bit 4 v = v div 16" by (simp add: drop_bit_eq_div)
  then have sh: "unat (drop_bit 4 v) = unat v div 16" by (simp add: unat_div)
  have "unat v mod 16 ^ Suc k = 16 * (unat v div 16 mod 16 ^ k) + unat v mod 16" by (simp add: mod_mult2_eq)
  then show ?case using Suc[of "drop_bit 4 v"] unfolding fixed_hex_Suc by (simp add: hex_digits_val_def nib sh hex_digit_ok)
qed


section \<open>One line\<close>

lemma strip_cr_line: "strip_cr (l @ [CR]) = l"
  by (simp add: strip_cr_def)

lemma ReadLine_whole:
  assumes "LF \<notin> set l" "Suc (length l) \<le> unat m"
  shows "ReadLine (l @ [CR, LF] @ rest) [] m = (GOT_LINE l, [], rest)"
proof -
  have "LF \<notin> set (l @ [CR])" using assms(1) by simp
  from sv_find_append[OF this, of rest] have f: "sv_find LF (l @ [CR, LF] @ rest) = Some (Suc (length l))" by simp
  then show ?thesis using assms(2) strip_cr_line[of l] by (simp add: ReadLine_def)
qed

text \<open>What a line costs, and the room for it.\<close>

definition line_room :: "SlotState \<Rightarrow> ParseState \<Rightarrow> nat \<Rightarrow> bool" where
  "line_room slot st n \<longleftrightarrow> unat (headerBytes st) + n \<le> max_header slot"

definition counted :: "nat \<Rightarrow> ParseState \<Rightarrow> ParseState" where
  "counted n st = st\<lparr>headerBytes := headerBytes st + of_nat n\<rparr>"

lemma counted_fields [simp]:
  "bodyRemaining (counted n st) = bodyRemaining st" "headerCount (counted n st) = headerCount st"
  "informationalCount (counted n st) = informationalCount st" "ps_phase (counted n st) = ps_phase st"
  "chunked (counted n st) = chunked st" "hasContentLength (counted n st) = hasContentLength st"
  "closeAfter (counted n st) = closeAfter st" "httpMinor0 (counted n st) = httpMinor0 st" "lineAcc (counted n st) = lineAcc st"
  by (simp_all add: counted_def)

lemma counted_bytes: "line_room slot st n \<Longrightarrow> unat (headerBytes (counted n st)) = unat (headerBytes st) + n"
proof -
  assume "line_room slot st n"
  then have "unat (headerBytes st) + n < 2 ^ 32"
    using unat_u32_lt[of "maxHeaderBytes (limits (slot_options slot))"] by (simp add: line_room_def max_header_def)
  then show ?thesis by (simp add: counted_def unat_add_u32 unat_of_nat)
qed

lemma parse_head_line:
  assumes ph: "ps_phase st = STATUS_LINE \<or> ps_phase st = HDRS" and acc: "lineAcc st = []"
    and l: "LF \<notin> set l" and room: "line_room slot st (length l + 2)"
  shows "parse_result slot e (l @ [CR, LF] @ rest) res st =
     (case line_step slot l res (counted (length l + 2) st) of
        (Finish R, r', s') \<Rightarrow> (R, rest, r', s')
      | (Continue, r', s') \<Rightarrow> parse_result slot e rest r' s')"
proof -
  have m: "Suc (length l) \<le> unat (maxHeaderBytes (limits (slot_options slot)))" using room by (simp add: line_room_def max_header_def)
  have rl: "ReadLine (l @ [CR, LF] @ rest) (lineAcc st) (maxHeaderBytes (limits (slot_options slot))) = (GOT_LINE l, [], rest)"
    unfolding acc by (rule ReadLine_whole[OF l m])
  have lp: "line_phase (ps_phase st)" using ph by (auto simp: line_phase_def)
  have u: "length (l @ [CR, LF] @ rest) - length rest = length l + 2" by simp
  have st: "st\<lparr>lineAcc := []\<rparr> = st" using acc by simp
  have nb: "\<not> headerBytes (counted (length l + 2) st) > maxHeaderBytes (limits (slot_options slot))"
    using counted_bytes[OF room] room by (simp add: line_room_def max_header_def word_less_nat_alt)
  have "line_round slot (length l + 2) l res st = line_step slot l res (counted (length l + 2) st)"
    using ph nb by (auto simp: line_round_def Let_def counted_def)
  then have pr: "parse_round slot e (l @ [CR, LF] @ rest) res st =
      (case line_step slot l res (counted (length l + 2) st) of (c, r', s') \<Rightarrow> (c, rest, r', s'))"
    using parse_round_line[OF lp rl, of e res] unfolding u st by simp
  show ?thesis unfolding parse_result_unfold[of slot e "l @ [CR, LF] @ rest"] pr by (simp split: prod.split step_end.split)
qed

lemma parse_body_line:
  assumes ph: "ps_phase st = BODY_CHUNK_SIZE \<or> ps_phase st = BODY_CHUNK_LINE_END \<or> ps_phase st = BODY_CHUNK_TRAILER" and acc: "lineAcc st = []"
    and l: "LF \<notin> set l" and room: "Suc (length l) \<le> max_header slot"
  shows "parse_result slot e (l @ [CR, LF] @ rest) res st =
     (case line_step slot l res st of
        (Finish R, r', s') \<Rightarrow> (R, rest, r', s')
      | (Continue, r', s') \<Rightarrow> parse_result slot e rest r' s')"
proof -
  have rl: "ReadLine (l @ [CR, LF] @ rest) (lineAcc st) (maxHeaderBytes (limits (slot_options slot))) = (GOT_LINE l, [], rest)"
    unfolding acc by (rule ReadLine_whole[OF l]) (use room in \<open>simp add: max_header_def\<close>)
  have lp: "line_phase (ps_phase st)" using ph by (auto simp: line_phase_def)
  have st: "st\<lparr>lineAcc := []\<rparr> = st" using acc by simp
  have "line_round slot n l res st = line_step slot l res st" for n using ph by (auto simp: line_round_def Let_def)
  then have pr: "parse_round slot e (l @ [CR, LF] @ rest) res st = (case line_step slot l res st of (c, r', s') \<Rightarrow> (c, rest, r', s'))"
    using parse_round_line[OF lp rl, of e res] unfolding st by simp
  show ?thesis unfolding parse_result_unfold[of slot e "l @ [CR, LF] @ rest"] pr by (simp split: prod.split step_end.split)
qed

section \<open>The head of a response\<close>

text \<open>A header the client takes as it is: a name without colon or blanks at its ends, a trimmed value.\<close>

definition plain_header :: "string \<times> string \<Rightarrow> bool" where
  "plain_header h \<longleftrightarrow> fst h \<noteq> [] \<and> CHR '':'' \<notin> set (fst h) \<and> \<not> is_ows (hd (fst h)) \<and> \<not> is_ows (last (fst h)) \<and>
     trim_ows (snd h) = snd h \<and> LF \<notin> set (fst h) \<and> LF \<notin> set (snd h)"

definition special_header :: "string \<Rightarrow> bool" where
  "special_header k \<longleftrightarrow> InsensitiveEqual k ''content-length'' \<or> InsensitiveEqual k ''transfer-encoding'' \<or> InsensitiveEqual k ''connection''"

definition hdr_text :: "string \<times> string \<Rightarrow> string" where
  "hdr_text h = fst h @ '': '' @ snd h"

lemma hdr_line_text: "hdr_line h = hdr_text h @ [CR, LF]"
  by (simp add: hdr_line_def hdr_text_def)

lemma hdr_text_find: "CHR '':'' \<notin> set (fst h) \<Longrightarrow> sv_find (CHR '':'') (hdr_text h) = Some (length (fst h))"
  unfolding hdr_text_def by (simp add: sv_find_append[of _ "fst h", simplified])

text \<open>The part of \<open>ParseHeaderLine\<close> after the name and value are found.\<close>

definition header_value :: "HttpEndpointLimits \<Rightarrow> string \<Rightarrow> string \<Rightarrow> HttpEndpointResponse \<Rightarrow> ParseState \<Rightarrow>
    bool \<times> HttpEndpointResponse \<times> ParseState" where
  "header_value lim name val res st =
     (if InsensitiveEqual name ''content-length'' then
            if chunked st then (False, res, st)
            else (case from_chars_unsigned (2 ^ 64 - 1) val of
                    FcOk v n \<Rightarrow>
                      let v = word_of_int v :: u64 in
                      if n \<noteq> length val then (False, res, st)
                      else if v > ucast (maxBodyBytes lim) then (False, res, st)
                      else if hasContentLength st \<and> bodyRemaining st \<noteq> v then (False, res, st)
                      else count_header lim name val res (st\<lparr>hasContentLength := True, bodyRemaining := v\<rparr>)
                  | _ \<Rightarrow> (False, res, st))
          else if InsensitiveEqual name ''transfer-encoding'' then
            if hasContentLength st then (False, res, st)
            else if \<not> InsensitiveEqual val ''chunked'' then (False, res, st)
            else count_header lim name val res (st\<lparr>chunked := True\<rparr>)
          else if InsensitiveEqual name ''connection'' then
            count_header lim name val res (if close_tokens val then st\<lparr>closeAfter := True\<rparr> else st)
          else count_header lim name val res st)"

lemma trim_ows_space: "trim_ows (CHR '' '' # v) = trim_ows v"
  by (simp add: trim_ows_def is_ows_def)

lemma ParseHeaderLine_plain:
  assumes "plain_header h"
  shows "ParseHeaderLine lim (hdr_text h) res st = header_value lim (fst h) (snd h) res st"
proof -
  have h: "fst h \<noteq> []" "\<not> is_ows (last (fst h))" "trim_ows (snd h) = snd h" using assms by (simp_all add: plain_header_def)
  have o: "\<not> is_ows (hd (hdr_text h))" using assms by (simp add: plain_header_def hdr_text_def)
  have f: "sv_find (CHR '':'') (hdr_text h) = Some (length (fst h))" using assms by (intro hdr_text_find) (simp add: plain_header_def)
  have t: "take (length (fst h)) (hdr_text h) = fst h" "drop (Suc (length (fst h))) (hdr_text h) = CHR '' '' # snd h"
    by (simp_all add: hdr_text_def)
  show ?thesis
    unfolding ParseHeaderLine_def f option.case t Let_def trim_ows_space h(3) header_value_def using o h(1,2) by simp
qed

lemma header_value_plain: "\<not> special_header k \<Longrightarrow> header_value lim k v res st = count_header lim k v res st"
  by (simp add: header_value_def special_header_def)

definition count_room :: "SlotState \<Rightarrow> ParseState \<Rightarrow> nat \<Rightarrow> bool" where
  "count_room slot st n \<longleftrightarrow> unat (headerCount st) + n \<le> unat (maxHeaderCount (limits (slot_options slot)))"

lemma count_header_ok:
  assumes "count_room slot st 1"
  shows "count_header (limits (slot_options slot)) k v res st =
     (True, res\<lparr>rs_headers := rs_headers res @ [(k, v)]\<rparr>, st\<lparr>headerCount := headerCount st + 1\<rparr>)"
    "unat (headerCount st + 1) = unat (headerCount st) + 1"
proof -
  let ?m = "maxHeaderCount (limits (slot_options slot))"
  have "unat (headerCount st) + 1 < 2 ^ 16" using assms unat_u16_lt[of ?m] by (simp add: count_room_def)
  then show u: "unat (headerCount st + 1) = unat (headerCount st) + 1" by (simp add: unat_word_ariths)
  show "count_header (limits (slot_options slot)) k v res st =
     (True, res\<lparr>rs_headers := rs_headers res @ [(k, v)]\<rparr>, st\<lparr>headerCount := headerCount st + 1\<rparr>)"
    using assms u by (simp add: count_header_def Let_def hl_Add_def word_less_nat_alt count_room_def not_less)
qed


text \<open>A header line the client accepts, and the state it leaves.\<close>

lemma parse_header:
  assumes st: "ps_phase st = HDRS" "lineAcc st = []" and h: "plain_header h"
    and room: "line_room slot st (length (hdr_line h))"
    and v: "header_value (limits (slot_options slot)) (fst h) (snd h) res (counted (length (hdr_line h)) st) = (True, r', s')" 
  shows "parse_result slot e (hdr_line h @ rest) res st = parse_result slot e rest r' (s'\<lparr>lineAcc := []\<rparr>)"
proof -
  have lf: "LF \<notin> set (hdr_text h)" using h by (auto simp: hdr_text_def plain_header_def)
  have len: "length (hdr_line h) = length (hdr_text h) + 2" by (simp add: hdr_line_text)
  have ne: "hdr_text h \<noteq> []" by (simp add: hdr_text_def)
  have "line_step slot (hdr_text h) res (counted (length (hdr_text h) + 2) st) = (Continue, r', s'\<lparr>lineAcc := []\<rparr>)"
    using v st ne by (simp add: line_step_def Let_def ParseHeaderLine_plain[OF h] len)
  then show ?thesis
    using parse_head_line[OF disjI2[OF st(1)] st(2) lf, of slot e rest res] room
    unfolding hdr_line_text append_assoc by (simp add: hdr_line_text)
qed

text \<open>Ordinary headers, in a row.\<close>

definition ordinary :: "(string \<times> string) list \<Rightarrow> bool" where
  "ordinary hs \<longleftrightarrow> (\<forall>h \<in> set hs. plain_header h \<and> \<not> special_header (fst h))"

definition took :: "nat \<Rightarrow> nat \<Rightarrow> ParseState \<Rightarrow> ParseState" where
  "took bytes headers st = st\<lparr>headerBytes := headerBytes st + of_nat bytes, headerCount := headerCount st + of_nat headers\<rparr>"

lemma took_fields [simp]:
  "bodyRemaining (took n m st) = bodyRemaining st" "informationalCount (took n m st) = informationalCount st"
  "ps_phase (took n m st) = ps_phase st" "chunked (took n m st) = chunked st" "hasContentLength (took n m st) = hasContentLength st"
  "closeAfter (took n m st) = closeAfter st" "httpMinor0 (took n m st) = httpMinor0 st" "lineAcc (took n m st) = lineAcc st"
  by (simp_all add: took_def)

lemma took_took: "took a b (took c d st) = took (c + a) (d + b) st"
  by (simp add: took_def ac_simps)

lemma took_0: "took 0 0 st = st"
  by (simp add: took_def)

lemma took_room:
  assumes "line_room slot st (a + b)" "count_room slot st (c + d)"
  shows "line_room slot (took a c st) b" "count_room slot (took a c st) d"
proof -
  have "line_room slot st a" using assms(1) by (simp add: line_room_def)
  from counted_bytes[OF this] assms(1) show "line_room slot (took a c st) b" by (simp add: line_room_def counted_def took_def)
  have "unat (headerCount st) + c < 2 ^ 16"
    using assms(2) unat_u16_lt[of "maxHeaderCount (limits (slot_options slot))"] by (simp add: count_room_def)
  then have "unat (headerCount (took a c st)) = unat (headerCount st) + c" by (simp add: took_def unat_word_ariths unat_of_nat)
  with assms(2) show "count_room slot (took a c st) d" by (simp add: count_room_def)
qed

lemma parse_counted_header:
  assumes st: "ps_phase st = HDRS" "lineAcc st = []" and h: "plain_header h"
    and room: "line_room slot st (length (hdr_line h))" "count_room slot st 1"
    and v: "header_value (limits (slot_options slot)) (fst h) (snd h) res (counted (length (hdr_line h)) st) =
       count_header (limits (slot_options slot)) (fst h) (snd h) res (upd (counted (length (hdr_line h)) st))"
    and upd: "\<And>s. headerCount (upd s) = headerCount s" "\<And>s. lineAcc (upd s) = lineAcc s" "\<And>n s. upd (took n 1 s) = took n 1 (upd s)"
      "\<And>n s. upd (counted n s) = counted n (upd s)"
  shows "parse_result slot e (hdr_line h @ rest) res st =
     parse_result slot e rest (res\<lparr>rs_headers := rs_headers res @ [h]\<rparr>) (took (length (hdr_line h)) 1 (upd st))"
proof -
  let ?s = "upd (counted (length (hdr_line h)) st)"
  have c: "count_room slot ?s 1" using room(2) by (simp add: count_room_def upd(1))
  have "header_value (limits (slot_options slot)) (fst h) (snd h) res (counted (length (hdr_line h)) st) =
      (True, res\<lparr>rs_headers := rs_headers res @ [h]\<rparr>, ?s\<lparr>headerCount := headerCount ?s + 1\<rparr>)"
    unfolding v using count_header_ok(1)[OF c, of "fst h" "snd h" res] by simp
  from parse_header[OF st h room(1) this] have
    "parse_result slot e (hdr_line h @ rest) res st =
      parse_result slot e rest (res\<lparr>rs_headers := rs_headers res @ [h]\<rparr>) (?s\<lparr>headerCount := headerCount ?s + 1, lineAcc := []\<rparr>)" by simp
  moreover have "?s\<lparr>headerCount := headerCount ?s + 1, lineAcc := []\<rparr> = took (length (hdr_line h)) 1 (upd st)"
  proof -
    have "?s\<lparr>headerCount := headerCount ?s + 1, lineAcc := []\<rparr> = ?s\<lparr>headerCount := headerCount ?s + 1\<rparr>"
      using st(2) upd(2) by simp
    also have "\<dots> = took (length (hdr_line h)) 1 (upd st)"
      unfolding upd(4) by (simp add: took_def counted_def)
    finally show ?thesis .
  qed
  ultimately show ?thesis by simp
qed

lemma parse_ordinary:
  assumes "ordinary hs" "ps_phase st = HDRS" "lineAcc st = []" "line_room slot st (length (lines_of hs))" "count_room slot st (length hs)"
  shows "parse_result slot e (lines_of hs @ rest) res st =
     parse_result slot e rest (res\<lparr>rs_headers := rs_headers res @ hs\<rparr>) (took (length (lines_of hs)) (length hs) st)"
  using assms
proof (induction hs arbitrary: res st)
  case Nil
  then show ?case by (simp add: took_0)
next
  case (Cons h hs)
  have h: "plain_header h" "\<not> special_header (fst h)" "ordinary hs" using Cons.prems(1) by (simp_all add: ordinary_def)
  have l: "lines_of (h # hs) = hdr_line h @ lines_of hs" by (simp add: lines_of_def)
  have room: "line_room slot st (length (hdr_line h) + length (lines_of hs))" "count_room slot st (1 + length hs)"
    using Cons.prems(4,5) by (simp_all add: l)
  have r1: "line_room slot st (length (hdr_line h))" "count_room slot st 1" using room by (simp_all add: line_room_def count_room_def)
  have "parse_result slot e (hdr_line h @ lines_of hs @ rest) res st =
     parse_result slot e (lines_of hs @ rest) (res\<lparr>rs_headers := rs_headers res @ [h]\<rparr>) (took (length (hdr_line h)) 1 (id st))"
    by (rule parse_counted_header[OF Cons.prems(2,3) h(1) r1]) (simp_all add: header_value_plain[OF h(2)])
  also have "\<dots> = parse_result slot e rest ((res\<lparr>rs_headers := rs_headers res @ [h]\<rparr>)\<lparr>rs_headers := rs_headers (res\<lparr>rs_headers := rs_headers res @ [h]\<rparr>) @ hs\<rparr>)
      (took (length (lines_of hs)) (length hs) (took (length (hdr_line h)) 1 st))"
    unfolding id_apply by (rule Cons.IH[OF h(3) _ _ took_room[OF room]]) (use Cons.prems in simp_all)
  finally show ?case by (simp add: l took_took)
qed

text \<open>The connection header.\<close>

lemma connection_tokens: "close_tokens ''close''" "\<not> close_tokens ''keep-alive''"
  by code_simp+

lemma connection_plain: "plain_header (connection_header d)"
  by (simp add: plain_header_def connection_header_def is_ows_def trim_ows_def)

lemma connection_value:
  "header_value lim ''Connection'' (snd (connection_header d)) res st =
     count_header lim ''Connection'' (snd (connection_header d)) res (st\<lparr>closeAfter := closeAfter st \<or> d_close d\<rparr>)"
proof -
  have n: "\<not> InsensitiveEqual ''Connection'' ''content-length''" "\<not> InsensitiveEqual ''Connection'' ''transfer-encoding''"
    "InsensitiveEqual ''Connection'' ''connection''" by code_simp+
  show ?thesis using connection_tokens by (simp add: header_value_def n connection_header_def)
qed


text \<open>The status line.\<close>

definition status_text :: "doc \<Rightarrow> string" where
  "status_text d = ''HTTP/1.'' @ (if d_version d = HTTP_1_1 then ''1 '' else ''0 '') @ status_digits (d_status d) @ '' ''"

lemma status_line_text: "status_line d = status_text d @ [CR, LF]"
  by (simp add: status_line_def status_text_def)

lemma length_status_text [simp]: "length (status_text d) = 13"
  by (simp add: status_text_def)

definition head_state :: "doc \<Rightarrow> ParseState" where
  "head_state d = fresh_parse_state\<lparr>ps_phase := HDRS, httpMinor0 := (d_version d \<noteq> HTTP_1_1), headerBytes := 15\<rparr>"

lemma digits_no_LF: "list_all is_digit ds \<Longrightarrow> LF \<notin> set ds \<and> CHR '' '' \<notin> set ds \<and> TAB \<notin> set ds"
  by (auto simp: list_all_iff is_digit_def less_eq_char_def)

lemma status_nth:
  "status_text d ! 5 = CHR ''1''" "status_text d ! 6 = CHR ''.''" "status_text d ! 8 = CHR '' ''"
  "status_text d ! 7 = (if d_version d = HTTP_1_1 then CHR ''1'' else CHR ''0'')" "take 5 (status_text d) = ''HTTP/''"
  "take 3 (drop 9 (status_text d)) = status_digits (d_status d)"
proof -
  obtain x y z where sd: "status_digits (d_status d) = [x, y, z]"
    by (simp add: status_digits_def Let_def)
  show "status_text d ! 5 = CHR ''1''" "status_text d ! 6 = CHR ''.''" "status_text d ! 8 = CHR '' ''"
    "status_text d ! 7 = (if d_version d = HTTP_1_1 then CHR ''1'' else CHR ''0'')" "take 5 (status_text d) = ''HTTP/''"
    "take 3 (drop 9 (status_text d)) = status_digits (d_status d)"
    by (simp_all add: status_text_def sd eval_nat_numeral split: if_splits)
qed

lemma parse_status:
  assumes c: "100 \<le> unat (d_status d)" "unat (d_status d) < 1000" and m: "15 \<le> max_header slot"
  shows "parse_result slot e (status_line d @ rest) fresh_response fresh_parse_state =
     parse_result slot e rest (fresh_response\<lparr>rs_status := d_status d\<rparr>) (head_state d)"
proof -
  have dec: "decimal (unat (d_status d)) (status_digits (d_status d))" by (rule decimal_status[OF c])
  have lf: "LF \<notin> set (status_text d)"
    using dec digits_no_LF[of "status_digits (d_status d)"] by (simp add: status_text_def decimal_def)
  have room: "line_room slot fresh_parse_state (length (status_text d) + 2)"
    using m by (simp add: line_room_def fresh_parse_state_def)
  have fc: "from_chars_unsigned 65535 (status_digits (d_status d)) = FcOk (int (unat (d_status d))) 3"
    using decimal_from_chars[OF dec, of 65535] c by simp
  have wi: "(word_of_int (int (unat (d_status d))) :: u16) = d_status d" by simp
  have pl: "ParseStatusLine (status_text d) fresh_response (counted 15 fresh_parse_state) =
      (True, fresh_response\<lparr>rs_status := d_status d\<rparr>, (counted 15 fresh_parse_state)\<lparr>httpMinor0 := (d_version d \<noteq> HTTP_1_1)\<rparr>)"
    by (simp add: ParseStatusLine_def Let_def status_nth fc)
  have "line_step slot (status_text d) fresh_response (counted 15 fresh_parse_state) =
      (Continue, fresh_response\<lparr>rs_status := d_status d\<rparr>, head_state d)"
    using pl by (simp add: line_step_def Let_def head_state_def fresh_parse_state_def fresh_response_def counted_def)
  then show ?thesis
    using parse_head_line[OF _ _ lf room, of e rest fresh_response]
    by (simp add: status_line_text fresh_parse_state_def)
qed

text \<open>Everything before the lines that frame the body.\<close>

definition all_headers :: "doc \<Rightarrow> (string \<times> string) list" where
  "all_headers d = d_persist d @ [connection_header d] @ d_headers d"

definition open_state :: "doc \<Rightarrow> ParseState" where
  "open_state d = took (length (open_head d) - 15) (length (all_headers d)) ((head_state d)\<lparr>closeAfter := d_close d\<rparr>)"

lemma head_state_fields [simp]:
  "ps_phase (head_state d) = HDRS" "lineAcc (head_state d) = []" "chunked (head_state d) = False" "hasContentLength (head_state d) = False"
  "closeAfter (head_state d) = False" "headerBytes (head_state d) = 15" "headerCount (head_state d) = 0"
  "informationalCount (head_state d) = 0" "httpMinor0 (head_state d) = (d_version d \<noteq> HTTP_1_1)"
  by (simp_all add: head_state_def fresh_parse_state_def)

lemma parse_open_head:
  assumes c: "100 \<le> unat (d_status d)" "unat (d_status d) < 1000" and o: "ordinary (d_persist d)" "ordinary (d_headers d)"
    and room: "length (open_head d) \<le> max_header slot" "length (all_headers d) \<le> unat (maxHeaderCount (limits (slot_options slot)))"
  shows "parse_result slot e (open_head d @ rest) fresh_response fresh_parse_state =
     parse_result slot e rest (fresh_response\<lparr>rs_status := d_status d, rs_headers := all_headers d\<rparr>) (open_state d)"
proof -
  let ?P = "lines_of (d_persist d)" and ?C = "hdr_line (connection_header d)" and ?H = "lines_of (d_headers d)"
  let ?np = "length (d_persist d)" and ?nh = "length (d_headers d)"
  have oh: "open_head d = status_line d @ ?P @ ?C @ ?H" by (simp add: open_head_def kept_head_def)
  have L: "length (open_head d) = 15 + (length ?P + (length ?C + length ?H))" by (simp add: oh)
  have R: "line_room slot (head_state d) (length ?P + (length ?C + length ?H))" "count_room slot (head_state d) (?np + (1 + ?nh))"
    using room unfolding L by (simp_all add: line_room_def count_room_def all_headers_def)
  have Rp: "line_room slot (head_state d) (length ?P)" "count_room slot (head_state d) ?np" using R by (simp_all add: line_room_def count_room_def)
  define s1 where "s1 = took (length ?P) ?np (head_state d)"
  have R1: "line_room slot s1 (length ?C + length ?H)" "count_room slot s1 (1 + ?nh)" unfolding s1_def by (rule took_room[OF R])+
  have Rc: "line_room slot s1 (length ?C)" "count_room slot s1 1" using R1 by (simp_all add: line_room_def count_room_def)
  define s2 where "s2 = took (length ?C) 1 (s1\<lparr>closeAfter := closeAfter s1 \<or> d_close d\<rparr>)"
  have Rc2: "line_room slot (s1\<lparr>closeAfter := closeAfter s1 \<or> d_close d\<rparr>) (length ?C + length ?H)"
    "count_room slot (s1\<lparr>closeAfter := closeAfter s1 \<or> d_close d\<rparr>) (1 + ?nh)" using R1 by (simp_all add: line_room_def count_room_def)
  have R2: "line_room slot s2 (length ?H)" "count_room slot s2 ?nh" unfolding s2_def by (rule took_room[OF Rc2])+
  let ?r0 = "fresh_response\<lparr>rs_status := d_status d\<rparr>"
  have m: "15 \<le> max_header slot" using room(1) L by simp
  have "parse_result slot e (open_head d @ rest) fresh_response fresh_parse_state = parse_result slot e (?P @ ?C @ ?H @ rest) ?r0 (head_state d)"
    unfolding oh append_assoc by (rule parse_status[OF c m])
  also have "\<dots> = parse_result slot e (?C @ ?H @ rest) (?r0\<lparr>rs_headers := rs_headers ?r0 @ d_persist d\<rparr>) s1"
    unfolding s1_def by (rule parse_ordinary[OF o(1) _ _ Rp]) simp_all
  also have "\<dots> = parse_result slot e (?H @ rest) (?r0\<lparr>rs_headers := d_persist d @ [connection_header d]\<rparr>) s2"
  proof -
    have v: "header_value (limits (slot_options slot)) (fst (connection_header d)) (snd (connection_header d)) r (counted n s) =
        count_header (limits (slot_options slot)) (fst (connection_header d)) (snd (connection_header d)) r ((counted n s)\<lparr>closeAfter := closeAfter (counted n s) \<or> d_close d\<rparr>)" for r n s
      using connection_value[of _ d] by (simp add: connection_header_def)
    have "parse_result slot e (?C @ ?H @ rest) (?r0\<lparr>rs_headers := rs_headers ?r0 @ d_persist d\<rparr>) s1 =
        parse_result slot e (?H @ rest) ((?r0\<lparr>rs_headers := rs_headers ?r0 @ d_persist d\<rparr>)\<lparr>rs_headers :=
           rs_headers (?r0\<lparr>rs_headers := rs_headers ?r0 @ d_persist d\<rparr>) @ [connection_header d]\<rparr>) s2"
      unfolding s2_def
      by (rule parse_counted_header[where upd = "\<lambda>s. s\<lparr>closeAfter := closeAfter s \<or> d_close d\<rparr>", OF _ _ connection_plain Rc v])
        (simp_all add: s1_def took_def counted_def)
    then show ?thesis by (simp add: fresh_response_def)
  qed
  also have "\<dots> = parse_result slot e rest (?r0\<lparr>rs_headers := all_headers d\<rparr>) (took (length ?H) ?nh s2)"
  proof -
    have "parse_result slot e (?H @ rest) (?r0\<lparr>rs_headers := d_persist d @ [connection_header d]\<rparr>) s2 =
        parse_result slot e rest ((?r0\<lparr>rs_headers := d_persist d @ [connection_header d]\<rparr>)\<lparr>rs_headers :=
          rs_headers (?r0\<lparr>rs_headers := d_persist d @ [connection_header d]\<rparr>) @ d_headers d\<rparr>) (took (length ?H) ?nh s2)"
      by (rule parse_ordinary[OF o(2) _ _ R2]) (simp_all add: s2_def s1_def)
    then show ?thesis by (simp add: all_headers_def)
  qed
  also have "took (length ?H) ?nh s2 = open_state d"
  proof -
    have u: "took a b (st\<lparr>closeAfter := x\<rparr>) = (took a b st)\<lparr>closeAfter := x\<rparr>" for a b x and st :: ParseState by (simp add: took_def)
    have "took (length ?H) ?nh s2 = took (length ?P + (length ?C + length ?H)) (?np + (1 + ?nh)) ((head_state d)\<lparr>closeAfter := d_close d\<rparr>)"
      unfolding s2_def s1_def took_took u by (simp add: u add.assoc)
    then show ?thesis by (simp add: open_state_def L all_headers_def)
  qed
  finally show ?thesis by simp
qed


section \<open>Bodies\<close>

text \<open>The answer of a complete response.\<close>

definition final_answer :: "doc \<Rightarrow> ParseResult" where
  "final_answer d = (if d_close d \<or> d_version d \<noteq> HTTP_1_1 then ParseClose else ParseDone)"

definition body_status :: "SlotState \<Rightarrow> u16 \<Rightarrow> bool" where
  "body_status slot code \<longleftrightarrow> 200 \<le> unat code \<and> unat code < 1000 \<and> code \<noteq> 204 \<and> code \<noteq> 304 \<and> lastMethod slot \<noteq> M_HEAD"

lemma decimal_plain: "decimal n ds \<Longrightarrow> plain_header (''Content-Length'', ds)"
proof -
  assume d: "decimal n ds"
  then have no: "CHR '' '' \<notin> set ds" "TAB \<notin> set ds" "LF \<notin> set ds" using digits_no_LF[of ds] by (simp_all add: decimal_def)
  have t: "trim_front xs = xs" if "CHR '' '' \<notin> set xs" "TAB \<notin> set xs" for xs
    using that by (cases xs) (auto simp: is_ows_def)
  have "trim_ows ds = ds" using no by (simp add: trim_ows_def t)
  then show ?thesis using no by (simp add: plain_header_def is_ows_def)
qed

text \<open>The empty line, and what follows it.\<close>

lemma parse_headers_end:
  assumes st: "ps_phase st = HDRS" "lineAcc st = []" and room: "line_room slot st 2"
  shows "parse_result slot e ([CR, LF] @ rest) res st =
     (case headers_end slot res (counted 2 st) of
        (Finish R, s') \<Rightarrow> (R, rest, res, s')
      | (Continue, s') \<Rightarrow> parse_result slot e rest res s')"
proof -
  have "line_step slot [] res (counted 2 st) = (case headers_end slot res (counted 2 st) of (c, s') \<Rightarrow> (c, res, s'))"
    using st by (simp add: line_step_def Let_def)
  moreover have "LF \<notin> set []" "line_room slot st (length [] + 2)" using room by (simp_all add: numeral_2_eq_2)
  note parse_head_line[OF disjI2[OF st(1)] st(2) this, of e rest res]
  moreover have "length ([] :: string) + 2 = 2" by simp
  moreover obtain c s' where "headers_end slot res (counted 2 st) = (c, s')" by (cases "headers_end slot res (counted 2 st)")
  ultimately show ?thesis by (simp only: append.simps prod.case)
qed

lemma status_not_informational:
  assumes "body_status slot code"
  shows "\<not> unat code < 200" "lastMethod slot \<noteq> M_HEAD" "code \<noteq> 204" "code \<noteq> 304"
  using assms by (simp_all add: body_status_def)

text \<open>A body whose length was announced.\<close>

lemma parse_sized_body:
  assumes st: "ps_phase st = HDRS" "lineAcc st = []" "\<not> chunked st" "\<not> hasContentLength st"
    and ds: "decimal (length body) ds" and hs: "ordinary hs" and fit: "length body \<le> unat (maxBodyBytes (limits (slot_options slot)))" "rs_body res = []"
    and room: "line_room slot st (length (hdr_line (''Content-Length'', ds)) + (length (lines_of hs) + 2))" "count_room slot st (1 + length hs)"
    and code: "body_status slot (rs_status res)"
  shows "\<exists>s'. parse_result slot e (hdr_line (''Content-Length'', ds) @ lines_of hs @ [CR, LF] @ body @ rest) res st =
     (done_or_close st, rest, res\<lparr>rs_headers := rs_headers res @ (''Content-Length'', ds) # hs, rs_body := body\<rparr>, s')"
proof -
  let ?h = "(''Content-Length'', ds)" and ?n = "of_nat (length body) :: u64"
  let ?upd = "\<lambda>s. s\<lparr>hasContentLength := True, bodyRemaining := ?n\<rparr>"
  have lb: "length body < 2 ^ 32" using fit unat_u32_lt[of "maxBodyBytes (limits (slot_options slot))"] by simp
  have un: "unat ?n = length body" using lb by (simp add: unat_of_nat)
  have nm: "InsensitiveEqual ''Content-Length'' ''content-length''" by code_simp
  have fc: "from_chars_unsigned (2 ^ 64 - 1) ds = FcOk (int (length body)) (length ds)"
    by (rule decimal_from_chars[OF ds]) (use lb in simp)
  have nb: "\<not> (word_of_int (int (length body)) :: u64) > ucast (maxBodyBytes (limits (slot_options slot)))"
    using fit un by (simp add: word_less_nat_alt)
  have v: "header_value (limits (slot_options slot)) (fst ?h) (snd ?h) res (counted (length (hdr_line ?h)) st) =
      count_header (limits (slot_options slot)) (fst ?h) (snd ?h) res (?upd (counted (length (hdr_line ?h)) st))"
    using st nb by (simp add: header_value_def nm fc[simplified])
  have r1: "line_room slot st (length (hdr_line ?h))" "count_room slot st 1" using room by (simp_all add: line_room_def count_room_def)
  let ?stA = "took (length (hdr_line ?h)) 1 (?upd st)" and ?resA = "res\<lparr>rs_headers := rs_headers res @ [?h]\<rparr>"
  have p0: "parse_result slot e (hdr_line ?h @ lines_of hs @ [CR, LF] @ body @ rest) res st = parse_result slot e (lines_of hs @ [CR, LF] @ body @ rest) ?resA ?stA"
    by (rule parse_counted_header[where upd = ?upd, OF st(1,2) decimal_plain[OF ds] r1 v]) (simp_all add: took_def counted_def)
  have "line_room slot (?upd st) (length (hdr_line ?h) + (length (lines_of hs) + 2))" "count_room slot (?upd st) (1 + length hs)"
    using room by (simp_all add: line_room_def count_room_def)
  note rm0 = took_room[OF this]
  then have r0: "line_room slot ?stA (length (lines_of hs))" "line_room slot ?stA (length (lines_of hs) + 2)" "count_room slot ?stA (length hs + 0)"
    by (simp_all add: line_room_def)
  let ?st = "took (length (lines_of hs)) (length hs) ?stA" and ?res = "res\<lparr>rs_headers := rs_headers res @ ?h # hs\<rparr>"
  have p1: "parse_result slot e (hdr_line ?h @ lines_of hs @ [CR, LF] @ body @ rest) res st = parse_result slot e ([CR, LF] @ body @ rest) ?res ?st"
    unfolding p0 using parse_ordinary[OF hs _ _ r0(1), of e "[CR, LF] @ body @ rest" ?resA] rm0(2) st by simp
  from took_room(1)[OF r0(2,3)] have r2: "line_room slot ?st 2" .
  have dc: "done_or_close (?st\<lparr>headerBytes := x, lineAcc := y, ps_phase := z, bodyRemaining := w\<rparr>) = done_or_close st" for x y z w
    by (simp add: done_or_close_def)
  have he: "parse_result slot e ([CR, LF] @ body @ rest) ?res ?st =
     (case headers_end slot ?res (counted 2 ?st) of (Finish R, s') \<Rightarrow> (R, body @ rest, ?res, s') | (Continue, s') \<Rightarrow> parse_result slot e (body @ rest) ?res s')"
    by (rule parse_headers_end) (use st r2 in simp_all)
  note ni = status_not_informational[OF code]
  show ?thesis
  proof (cases "body = []")
    case True
    have rr: "?res\<lparr>rs_body := []\<rparr> = ?res" using fit(2) by simp
    have "headers_end slot ?res (counted 2 ?st) = (Finish (done_or_close st), counted 2 ?st)"
      using ni st True by (simp add: headers_end_def Let_def done_or_close_def)
    then show ?thesis unfolding p1 he using True rr by simp
  next
    case False
    then have n0: "?n \<noteq> 0" using un by (metis length_0_conv unat_0)
    let ?s = "(counted 2 ?st)\<lparr>ps_phase := BODY_CONTENT_LENGTH, lineAcc := []\<rparr>"
    have hd: "headers_end slot ?res (counted 2 ?st) = (Continue, ?s)"
      using ni st n0 by (simp add: headers_end_def Let_def)
    have br: "bodyRemaining ?s = ?n" by simp
    have ib: "in_body (ps_phase ?s)" by simp
    have pr: "parse_round slot e (body @ rest) ?res ?s =
        (Finish (done_or_close (?s\<lparr>bodyRemaining := bodyRemaining ?s - of_nat (length body)\<rparr>)), rest, ?res\<lparr>rs_body := body\<rparr>,
           ?s\<lparr>bodyRemaining := bodyRemaining ?s - of_nat (length body)\<rparr>)"
      unfolding body_round[OF ib] br un using fit by (simp add: Let_def)
    have "done_or_close (?s\<lparr>bodyRemaining := bodyRemaining ?s - of_nat (length body)\<rparr>) = done_or_close st"
      by (simp add: done_or_close_def)
    then show ?thesis unfolding p1 he hd using pr by (simp add: parse_result_unfold[of slot e "body @ rest"])
  qed
qed

text \<open>What the client gets from a document.\<close>

definition read_as :: "doc \<Rightarrow> (string \<times> string) list \<Rightarrow> string \<Rightarrow> HttpEndpointResponse" where
  "read_as d framing body = \<lparr>rs_status = d_status d, rs_body = body, rs_headers = all_headers d @ framing\<rparr>"

definition client_limits_ok :: "SlotState \<Rightarrow> doc \<Rightarrow> nat \<Rightarrow> nat \<Rightarrow> nat \<Rightarrow> bool" where
  "client_limits_ok slot d lineBytes lines bodyBytes \<longleftrightarrow>
     length (open_head d) + lineBytes \<le> max_header slot \<and>
     length (all_headers d) + lines \<le> unat (maxHeaderCount (limits (slot_options slot))) \<and>
     bodyBytes \<le> unat (maxBodyBytes (limits (slot_options slot)))"

lemma open_state_fields [simp]:
  "ps_phase (open_state d) = HDRS" "lineAcc (open_state d) = []" "\<not> chunked (open_state d)" "\<not> hasContentLength (open_state d)"
  "done_or_close (open_state d) = final_answer d"
  by (simp_all add: open_state_def done_or_close_def final_answer_def)

lemma open_state_room:
  assumes "client_limits_ok slot d n k b"
  shows "line_room slot (open_state d) n" "count_room slot (open_state d) k"
proof -
  let ?s = "(head_state d)\<lparr>closeAfter := d_close d\<rparr>"
  have "15 \<le> length (open_head d)" by (simp add: open_head_def kept_head_def)
  then have "line_room slot ?s ((length (open_head d) - 15) + n)" "count_room slot ?s (length (all_headers d) + k)"
    using assms by (simp_all add: client_limits_ok_def line_room_def count_room_def)
  from took_room[OF this] show "line_room slot (open_state d) n" "count_room slot (open_state d) k" by (simp_all add: open_state_def)
qed

lemma client_reads_sized:
  assumes code: "body_status slot (d_status d)" and o: "ordinary (d_persist d)" "ordinary (d_headers d)" "ordinary hs"
    and ds: "decimal (length body) ds" and lim: "client_limits_ok slot d (length ds + 20 + length (lines_of hs)) (1 + length hs) (length body)"
  shows "\<exists>s'. parse_result slot e (open_head d @ hdr_line (''Content-Length'', ds) @ lines_of hs @ [CR, LF] @ body @ rest) fresh_response fresh_parse_state =
     (final_answer d, rest, read_as d ((''Content-Length'', ds) # hs) body, s')"
proof -
  have c: "100 \<le> unat (d_status d)" "unat (d_status d) < 1000" using code by (simp_all add: body_status_def)
  have lm: "length (open_head d) \<le> max_header slot" "length (all_headers d) \<le> unat (maxHeaderCount (limits (slot_options slot)))"
    "length body \<le> unat (maxBodyBytes (limits (slot_options slot)))" using lim by (simp_all add: client_limits_ok_def)
  note p1 = parse_open_head[OF c o(1,2) lm(1,2), of e "hdr_line (''Content-Length'', ds) @ lines_of hs @ [CR, LF] @ body @ rest"]
  let ?r = "fresh_response\<lparr>rs_status := d_status d, rs_headers := all_headers d\<rparr>"
  have r: "line_room slot (open_state d) (length (hdr_line (''Content-Length'', ds)) + (length (lines_of hs) + 2))"
    using open_state_room(1)[OF lim] by (simp add: ac_simps)
  have "\<exists>s'. parse_result slot e (hdr_line (''Content-Length'', ds) @ lines_of hs @ [CR, LF] @ body @ rest) ?r (open_state d) =
     (done_or_close (open_state d), rest, ?r\<lparr>rs_headers := rs_headers ?r @ (''Content-Length'', ds) # hs, rs_body := body\<rparr>, s')"
    by (rule parse_sized_body[OF _ _ _ _ ds o(3) lm(3) _ r open_state_room(2)[OF lim]]) (simp_all add: fresh_response_def code)
  then show ?thesis unfolding p1 by (simp add: read_as_def fresh_response_def)
qed

text \<open>A status without a body.\<close>

lemma client_reads_bodiless:
  assumes code: "d_status d = 204 \<or> d_status d = 304" and o: "ordinary (d_persist d)" "ordinary (d_headers d)"
    and lim: "client_limits_ok slot d 2 0 0"
  shows "\<exists>s'. parse_result slot e (open_head d @ [CR, LF] @ rest) fresh_response fresh_parse_state = (final_answer d, rest, read_as d [] [], s')"
proof -
  have c: "100 \<le> unat (d_status d)" "unat (d_status d) < 1000" "\<not> unat (d_status d) < 200" using code by auto
  have lm: "length (open_head d) \<le> max_header slot" "length (all_headers d) \<le> unat (maxHeaderCount (limits (slot_options slot)))"
    using lim by (simp_all add: client_limits_ok_def)
  let ?r = "fresh_response\<lparr>rs_status := d_status d, rs_headers := all_headers d\<rparr>" and ?s = "counted 2 (open_state d)"
  have "headers_end slot ?r ?s = (Finish (done_or_close ?s), ?s)" using code c(3) by (auto simp: headers_end_def Let_def)
  moreover have "done_or_close ?s = final_answer d" using open_state_fields(5)[of d] by (simp add: done_or_close_def)
  ultimately show ?thesis
    unfolding parse_open_head[OF c(1,2) o lm] using parse_headers_end[of "open_state d" slot e rest ?r] open_state_room(1)[OF lim]
    by (simp add: read_as_def fresh_response_def)
qed

text \<open>A body in chunks.\<close>

definition chunk_text :: "string \<Rightarrow> string" where
  "chunk_text b = FormatFixedHex8 (of_nat (length b)) @ [CR, LF] @ b @ [CR, LF]"

lemma hex_no_break: "list_all (\<lambda>c. hex_val c \<noteq> None) ds \<Longrightarrow> LF \<notin> set ds \<and> CHR '';'' \<notin> set ds"
proof -
  have "hex_val LF = None" "hex_val (CHR '';'') = None" by code_simp+
  then show "list_all (\<lambda>c. hex_val c \<noteq> None) ds \<Longrightarrow> LF \<notin> set ds \<and> CHR '';'' \<notin> set ds" by (auto simp: list_all_iff)
qed

lemma FormatFixedHex8_ok:
  "list_all (\<lambda>c. hex_val c \<noteq> None) (FormatFixedHex8 n)" "hex_digits_val (FormatFixedHex8 n) = unat n" "length (FormatFixedHex8 n) = 8"
  "LF \<notin> set (FormatFixedHex8 n)"
  using fixed_hex_ok[of 8 n] unat_u32_lt[of n] length_fixed_hex[of 8 n "[]"] hex_no_break[of "fixed_hex 8 n []"]
  by (simp_all add: FormatFixedHex8_def del: fixed_hex.simps)

lemma ParseChunkSizeLine_hex8: "ParseChunkSizeLine (FormatFixedHex8 n) = Some (ucast n)"
proof -
  let ?ds = "FormatFixedHex8 n"
  note h = FormatFixedHex8_ok[of n]
  have s: "sv_find (CHR '';'') ?ds = None" using hex_no_break[OF h(1)] by (simp add: sv_find_None)
  have ne: "?ds \<noteq> []" using h(3) by (metis list.size(3) zero_neq_numeral)
  have t: "takeWhile (\<lambda>c. hex_val c \<noteq> None) ?ds = ?ds" using h(1) by (simp add: takeWhile_eq_all_conv list_all_iff)
  have "unat n \<le> 2 ^ 64 - 1" using unat_u32_lt[of n] by simp
  then have "from_chars_hex (2 ^ 64 - 1) ?ds = FcOk (int (unat n)) 8"
    unfolding from_chars_hex_def Let_def t using ne h(2,3) by simp
  moreover have "(word_of_int (int (unat n)) :: u64) = ucast n"
    by (simp add: word_unat_eq_iff)
  ultimately show ?thesis using s ne h(3) by (simp add: ParseChunkSizeLine_def Let_def)
qed

lemma parse_chunk:
  assumes st: "ps_phase st = BODY_CHUNK_SIZE" "lineAcc st = []" and room: "9 \<le> max_header slot" and b: "b \<noteq> []"
    and fit: "length (rs_body res) + length b \<le> unat (maxBodyBytes (limits (slot_options slot)))"
  shows "parse_result slot e (chunk_text b @ rest) res st =
     parse_result slot e rest (res\<lparr>rs_body := rs_body res @ b\<rparr>) (st\<lparr>bodyRemaining := 0\<rparr>)"
proof -
  let ?n = "of_nat (length b) :: u32" and ?max = "maxBodyBytes (limits (slot_options slot))"
  have lb: "length (rs_body res) + length b < 2 ^ 32" using fit unat_u32_lt[of ?max] by simp
  then have un: "unat (ucast ?n :: u64) = length b" by (simp add: unat_of_nat)
  then have n0: "(ucast ?n :: u64) \<noteq> 0" using b by (metis length_0_conv unat_0)
  have "unat (ucast ?max - of_nat (length (rs_body res)) :: u64) = unat ?max - length (rs_body res)"
    by (subst unat_sub_of_nat) (use fit in simp_all)
  then have nb: "\<not> (ucast ?n :: u64) > ucast ?max - of_nat (length (rs_body res))" using un fit by (simp add: word_less_nat_alt)
  let ?s1 = "st\<lparr>bodyRemaining := ucast ?n, ps_phase := BODY_CHUNK_DATA\<rparr>"
  have t: "chunk_text b @ rest = FormatFixedHex8 ?n @ [CR, LF] @ (b @ [CR, LF] @ rest)" by (simp add: chunk_text_def)
  have "line_step slot (FormatFixedHex8 ?n) res st = (Continue, res, ?s1)"
    using st n0 nb by (simp add: line_step_def Let_def ParseChunkSizeLine_hex8)
  then have p1: "parse_result slot e (chunk_text b @ rest) res st = parse_result slot e (b @ [CR, LF] @ rest) res ?s1"
    unfolding t using parse_body_line[OF disjI1[OF st(1)] st(2) FormatFixedHex8_ok(4)[of ?n], of slot e "b @ [CR, LF] @ rest" res] room
    by (simp add: FormatFixedHex8_ok(3))
  let ?r = "res\<lparr>rs_body := rs_body res @ b\<rparr>" and ?s2 = "st\<lparr>bodyRemaining := 0, ps_phase := BODY_CHUNK_LINE_END\<rparr>"
  have br: "bodyRemaining ?s1 = ucast ?n" and ib: "in_body (ps_phase ?s1)" by simp_all
  have z: "(ucast ?n :: u64) - of_nat (length b) = 0" 
  proof -
    have "unat (of_nat (length b) :: u64) = length b" using lb by (simp add: unat_of_nat)
    then have "(ucast ?n :: u64) = of_nat (length b)" using un by (simp add: word_unat_eq_iff)
    then show ?thesis by simp
  qed
  have "parse_round slot e (b @ [CR, LF] @ rest) res ?s1 = (Continue, [CR, LF] @ rest, ?r, ?s2)"
    unfolding body_round[OF ib] br un using fit z by (simp add: Let_def)
  then have p2: "parse_result slot e (b @ [CR, LF] @ rest) res ?s1 = parse_result slot e ([CR, LF] @ rest) ?r ?s2"
    by (simp only: parse_result_unfold[of slot e "b @ [CR, LF] @ rest"] prod.case step_end.case)
  have "line_step slot [] ?r ?s2 = (Continue, ?r, st\<lparr>bodyRemaining := 0\<rparr>)" using st by (simp add: line_step_def Let_def)
  then have p3: "parse_result slot e ([CR, LF] @ rest) ?r ?s2 = parse_result slot e rest ?r (st\<lparr>bodyRemaining := 0\<rparr>)"
    using parse_body_line[where st = ?s2 and l = "[]" and slot = slot and e = e and rest = rest and res = ?r] room st(2) by simp
  show ?thesis unfolding p1 p2 p3 ..
qed

lemma parse_chunk_end:
  assumes st: "ps_phase st = BODY_CHUNK_SIZE" "lineAcc st = []" and room: "9 \<le> max_header slot"
  shows "\<exists>s'. parse_result slot e (CHUNK_TERMINATOR @ rest) res st = (done_or_close st, rest, res, s')"
proof -
  let ?s = "st\<lparr>ps_phase := BODY_CHUNK_TRAILER\<rparr>"
  have "hex_val (CHR ''0'') = Some 0" by code_simp
  then have "ParseChunkSizeLine ''0'' = Some 0" by (simp add: ParseChunkSizeLine_def from_chars_hex_def hex_digits_val_def)
  then have l: "line_step slot ''0'' res st = (Continue, res, ?s)" using st by (simp add: line_step_def Let_def)
  have t: "CHUNK_TERMINATOR @ rest = ''0'' @ [CR, LF] @ [CR, LF] @ rest" by (simp add: CHUNK_TERMINATOR_def)
  have "LF \<notin> set ''0''" by simp
  from parse_body_line[OF disjI1[OF st(1)] st(2) this, of slot e "[CR, LF] @ rest" res] room l
  have p1: "parse_result slot e (CHUNK_TERMINATOR @ rest) res st = parse_result slot e ([CR, LF] @ rest) res ?s" unfolding t by simp
  have "line_step slot [] res ?s = (Finish (done_or_close st), res, ?s)" by (simp add: line_step_def Let_def done_or_close_def)
  then show ?thesis unfolding p1 using parse_body_line[where st = ?s and l = "[]" and slot = slot and e = e and rest = rest and res = res] room st(2) by simp
qed

lemma parse_chunks:
  assumes "ps_phase st = BODY_CHUNK_SIZE" "lineAcc st = []" "9 \<le> max_header slot" "[] \<notin> set bs"
    and "length (rs_body res) + length (concat bs) \<le> unat (maxBodyBytes (limits (slot_options slot)))"
  shows "\<exists>s'. parse_result slot e (concat (map chunk_text bs) @ CHUNK_TERMINATOR @ rest) res st =
     (done_or_close st, rest, res\<lparr>rs_body := rs_body res @ concat bs\<rparr>, s')"
  using assms(1,2,4,5)
proof (induction bs arbitrary: res st)
  case Nil
  then show ?case using parse_chunk_end[OF Nil(1,2) assms(3)] by simp
next
  case (Cons b bs)
  let ?r = "res\<lparr>rs_body := rs_body res @ b\<rparr>" and ?s = "st\<lparr>bodyRemaining := 0\<rparr>"
  have b: "b \<noteq> []" "[] \<notin> set bs" using Cons.prems(3) by auto
  have p: "parse_result slot e (concat (map chunk_text (b # bs)) @ CHUNK_TERMINATOR @ rest) res st =
      parse_result slot e (concat (map chunk_text bs) @ CHUNK_TERMINATOR @ rest) ?r ?s"
    using parse_chunk[OF Cons.prems(1,2) assms(3) b(1), of res e] Cons.prems(4) by simp
  have "\<exists>s'. parse_result slot e (concat (map chunk_text bs) @ CHUNK_TERMINATOR @ rest) ?r ?s =
      (done_or_close ?s, rest, ?r\<lparr>rs_body := rs_body ?r @ concat bs\<rparr>, s')"
    by (rule Cons.IH[OF _ _ b(2)]) (use Cons.prems in simp_all)
  then show ?case unfolding p by (simp add: done_or_close_def)
qed

lemma TE_CHUNKED_line: "TE_CHUNKED = hdr_line (''Transfer-Encoding'', ''chunked'')"
  by (simp add: TE_CHUNKED_def hdr_line_def)

lemma client_reads_chunked:
  assumes code: "body_status slot (d_status d)" and o: "ordinary (d_persist d)" "ordinary (d_headers d)" and bs: "[] \<notin> set bs"
    and lim: "client_limits_ok slot d 30 1 (length (concat bs))"
  shows "\<exists>s'. parse_result slot e (open_head d @ TE_CHUNKED @ [CR, LF] @ concat (map chunk_text bs) @ CHUNK_TERMINATOR @ rest)
       fresh_response fresh_parse_state =
     (final_answer d, rest, read_as d [(''Transfer-Encoding'', ''chunked'')] (concat bs), s')"
proof -
  let ?h = "(''Transfer-Encoding'', ''chunked'')" and ?text = "concat (map chunk_text bs) @ CHUNK_TERMINATOR @ rest"
  have c: "100 \<le> unat (d_status d)" "unat (d_status d) < 1000" using code by (simp_all add: body_status_def)
  have lm: "length (open_head d) \<le> max_header slot" "length (all_headers d) \<le> unat (maxHeaderCount (limits (slot_options slot)))"
    "length (concat bs) \<le> unat (maxBodyBytes (limits (slot_options slot)))" "30 \<le> max_header slot"
    using lim by (simp_all add: client_limits_ok_def)
  have "line_room slot (open_state d) (28 + 2)" "count_room slot (open_state d) (1 + 0)" using open_state_room[OF lim] by simp_all
  note rm = this took_room[OF this]
  have r1: "line_room slot (open_state d) (length (hdr_line ?h))" "count_room slot (open_state d) 1"
    using rm(1,2) by (simp_all add: line_room_def)
  have nm: "\<not> InsensitiveEqual ''Transfer-Encoding'' ''content-length''" "InsensitiveEqual ''Transfer-Encoding'' ''transfer-encoding''"
    "InsensitiveEqual ''chunked'' ''chunked''" by code_simp+
  let ?upd = "\<lambda>s :: ParseState. s\<lparr>chunked := True\<rparr>"
  let ?r = "fresh_response\<lparr>rs_status := d_status d, rs_headers := all_headers d\<rparr>"
  let ?rb = "?r\<lparr>rs_headers := rs_headers ?r @ [?h]\<rparr>" and ?sb = "took 28 1 (?upd (open_state d))"
  have v: "header_value (limits (slot_options slot)) (fst ?h) (snd ?h) ?r (counted (length (hdr_line ?h)) (open_state d)) =
      count_header (limits (slot_options slot)) (fst ?h) (snd ?h) ?r (?upd (counted (length (hdr_line ?h)) (open_state d)))"
    by (simp add: header_value_def nm)
  have pl: "plain_header ?h" by code_simp
  have p1: "parse_result slot e (hdr_line ?h @ [CR, LF] @ ?text) ?r (open_state d) = parse_result slot e ([CR, LF] @ ?text) ?rb ?sb"
    using parse_counted_header[where upd = ?upd, OF _ _ pl r1 v] by (simp add: took_def counted_def)
  have r2: "line_room slot ?sb 2" using rm(3) by (simp add: line_room_def took_def)
  let ?sc = "(counted 2 ?sb)\<lparr>ps_phase := BODY_CHUNK_SIZE, lineAcc := []\<rparr>"
  have "headers_end slot ?rb (counted 2 ?sb) = (Continue, ?sc)"
    using status_not_informational[OF code] by (simp add: headers_end_def Let_def)
  then have p2: "parse_result slot e ([CR, LF] @ ?text) ?rb ?sb = parse_result slot e ?text ?rb ?sc"
    using parse_headers_end[of ?sb slot e ?text ?rb] r2 by simp
  have "\<exists>s'. parse_result slot e ?text ?rb ?sc = (done_or_close ?sc, rest, ?rb\<lparr>rs_body := rs_body ?rb @ concat bs\<rparr>, s')"
    by (rule parse_chunks[OF _ _ _ bs]) (use lm(3,4) in \<open>simp_all add: fresh_response_def\<close>)
  moreover have "done_or_close ?sc = final_answer d" using open_state_fields(5)[of d] by (simp add: done_or_close_def)
  ultimately show ?thesis
    unfolding TE_CHUNKED_line parse_open_head[OF c o lm(1,2)] p1 p2 by (simp add: read_as_def fresh_response_def)
qed

end
