(* ===== verification/ResponseSend.thy ===== *)
theory ResponseSend
  imports HttpResponse
begin

text \<open>
  The sending side of an incremental body in \<open>src/os_specific/linux/epoll_connection.cpp\<close>: \<open>FlushChunk\<close>,
  \<open>DrainWriteBuffer\<close>, \<open>CompleteFlushRound\<close> and \<open>ResumeFlushChunk\<close>. The socket is a list of the answers
  it gives to the writes of one run of the event loop; a run without answers left would block.
\<close>

datatype FlushStatus = FLUSH_COMPLETED | FLUSH_PENDING | FLUSH_FAILED

datatype write_answer = Wrote nat | WouldBlock | WriteFailed

text \<open>The fields of \<open>ClientCtx\<close> the functions use. \<open>fc_async\<close> is the suspended coroutine,
  \<open>fc_resumed\<close> a trace of the coroutines resumed, \<open>fc_sent\<close> of the bytes the socket took.\<close>

record flush_ctx =
  fc_response :: HttpResponse
  fc_isAwaitFlush :: bool
  fc_awaitFlushFinal :: bool
  fc_async :: "nat option"
  fc_sending :: bool
  fc_closed :: bool
  fc_resumed :: "nat list"
  fc_sent :: string

definition fc_Close :: "flush_ctx \<Rightarrow> flush_ctx" where
  "fc_Close c = c\<lparr>fc_closed := True\<rparr>"

text \<open>\<open>WrapWrite\<close> takes at most what it is offered.\<close>

definition took_bytes :: "nat \<Rightarrow> WriteMetadata block \<Rightarrow> flush_ctx \<Rightarrow> flush_ctx" where
  "took_bytes n b c = c\<lparr>fc_sent := fc_sent c @ take n (drop (unat (writtenLength (blk_meta b))) (contents b)),
     fc_response := (fc_response c)\<lparr>res_rwBuffer := (res_rwBuffer (fc_response c))\<lparr>writeBuffer :=
       Some (b\<lparr>blk_meta := (blk_meta b)\<lparr>writtenLength := writtenLength (blk_meta b) + of_nat n\<rparr>\<rparr>)\<rparr>\<rparr>\<rparr>"

fun DrainWriteBuffer :: "write_answer list \<Rightarrow> flush_ctx \<Rightarrow> mem_fault + FlushStatus \<times> flush_ctx" where
  "DrainWriteBuffer ws c =
     (case writeBuffer (res_rwBuffer (fc_response c)) of
        None \<Rightarrow> Inl NullDeref
      | Some b \<Rightarrow>
          if writtenLength (blk_meta b) < dataLength (blk_meta b) then
            (case ws of
               Wrote n # ws' \<Rightarrow>
                 if n > 0 then DrainWriteBuffer ws' (took_bytes (min n (unat (dataLength (blk_meta b) - writtenLength (blk_meta b)))) b c)
                 else Inr (FLUSH_FAILED, fc_Close c)
             | WriteFailed # _ \<Rightarrow> Inr (FLUSH_FAILED, fc_Close c)
             | _ \<Rightarrow> Inr (FLUSH_PENDING, c\<lparr>fc_sending := True\<rparr>))
          else Inr (FLUSH_COMPLETED, c))"

declare DrainWriteBuffer.simps [simp del]

definition CompleteFlushRound :: "resp_env \<Rightarrow> flush_ctx \<Rightarrow> mem_fault + bool \<times> flush_ctx" where
  "CompleteFlushRound E c =
     (let isFinal = fc_awaitFlushFinal c; c1 = c\<lparr>fc_awaitFlushFinal := False\<rparr> in
      andThen (FinishFlushRound E isFinal (fc_response c1)) (\<lambda>(ok, r).
        let c2 = c1\<lparr>fc_response := r\<rparr> in
        Inr (if ok then (True, c2) else (False, fc_Close c2))))"

definition FlushChunk :: "resp_env \<Rightarrow> bool \<Rightarrow> nat \<Rightarrow> write_answer list \<Rightarrow> flush_ctx \<Rightarrow> mem_fault + FlushStatus \<times> flush_ctx" where
  "FlushChunk E isFinal onDone ws c =
     (if res_bodyKind (fc_response c) \<noteq> AWAIT_STREAM then Inr (FLUSH_FAILED, fc_Close c)
      else andThen (if isFinal then Inr True else HasPendingFlushData (fc_response c)) (\<lambda>go.
        if \<not> go then Inr (FLUSH_COMPLETED, c)
        else andThen (PrepareFlushChunk E isFinal (fc_response c)) (\<lambda>(ok, r).
          if \<not> ok then Inr (FLUSH_FAILED, fc_Close (c\<lparr>fc_response := r\<rparr>))
          else andThen (DrainWriteBuffer ws (c\<lparr>fc_response := r, fc_awaitFlushFinal := isFinal\<rparr>)) (\<lambda>(status, c1).
            case status of
              FLUSH_PENDING \<Rightarrow> Inr (status, c1\<lparr>fc_isAwaitFlush := True, fc_async := Some onDone\<rparr>)
            | FLUSH_COMPLETED \<Rightarrow> andThen (CompleteFlushRound E c1) (\<lambda>(done, c2). Inr (if done then status else FLUSH_FAILED, c2))
            | FLUSH_FAILED \<Rightarrow> Inr (status, c1)))))"

text \<open>\<open>HandleClientAsyncCallback\<close>: the callback is taken out before it runs.\<close>

definition fc_resume :: "flush_ctx \<Rightarrow> flush_ctx" where
  "fc_resume c = (case fc_async c of None \<Rightarrow> c | Some k \<Rightarrow> c\<lparr>fc_async := None, fc_resumed := fc_resumed c @ [k]\<rparr>)"

definition ResumeFlushChunk :: "resp_env \<Rightarrow> write_answer list \<Rightarrow> flush_ctx \<Rightarrow> mem_fault + flush_ctx" where
  "ResumeFlushChunk E ws c =
     andThen (DrainWriteBuffer ws c) (\<lambda>(status, c1).
       case status of
         FLUSH_COMPLETED \<Rightarrow> andThen (CompleteFlushRound E (c1\<lparr>fc_isAwaitFlush := False\<rparr>)) (\<lambda>(done, c2). Inr (if done then fc_resume c2 else c2))
       | _ \<Rightarrow> Inr c1)"

text \<open>The event loop wakes a waiting connection when its socket is writable again.\<close>

fun flush_wakeups :: "resp_env \<Rightarrow> write_answer list list \<Rightarrow> flush_ctx \<Rightarrow> mem_fault + flush_ctx" where
  "flush_wakeups E [] c = Inr c"
| "flush_wakeups E (ws # wss) c =
     (if fc_isAwaitFlush c \<and> \<not> fc_closed c then andThen (ResumeFlushChunk E ws c) (flush_wakeups E wss) else Inr c)"

text \<open>A handler's round: it writes, flushes, and awaits the flush; \<open>ws\<close> answers the first run, \<open>wss\<close> the wake-ups.\<close>

definition flush_round :: "resp_env \<Rightarrow> bool \<Rightarrow> nat \<Rightarrow> string list \<Rightarrow> write_answer list list \<Rightarrow> flush_ctx \<Rightarrow> mem_fault + flush_ctx" where
  "flush_round E isFinal onDone ds wss c =
     andThen (response_calls E (map CallWrite ds) (fc_response c)) (\<lambda>r.
       andThen (FlushChunk E isFinal onDone (case wss of [] \<Rightarrow> [] | ws # _ \<Rightarrow> ws) (c\<lparr>fc_response := r\<rparr>)) (\<lambda>(_, c1).
         flush_wakeups E (tl wss) c1))"

text \<open>A body in rounds, the last one final. The handler goes on when the round has completed.\<close>

fun flush_rounds :: "resp_env \<Rightarrow> nat \<Rightarrow> (string list \<times> write_answer list list) list \<Rightarrow> flush_ctx \<Rightarrow> mem_fault + flush_ctx" where
  "flush_rounds E k [] c = Inr c"
| "flush_rounds E k ((ds, wss) # rs) c =
     andThen (flush_round E (rs = []) k ds wss c) (\<lambda>c1.
       if fc_isAwaitFlush c1 \<or> fc_closed c1 then Inr c1 else flush_rounds E (Suc k) rs c1)"

definition flush_start :: "HttpResponse \<Rightarrow> flush_ctx" where
  "flush_start r = \<lparr>fc_response = r, fc_isAwaitFlush = False, fc_awaitFlushFinal = False, fc_async = None,
     fc_sending = False, fc_closed = False, fc_resumed = [], fc_sent = []\<rparr>"

end
