(* ===== verification/ResponseRoundtrip.thy ===== *)
theory ResponseRoundtrip
  imports ResponseReading ResponseSend
begin

text \<open>
  The two ends of the protocol together: what \<open>HttpResponse\<close> writes is what the HTTP client of the
  same code base reads back, as a buffer, a file or in flushed rounds, however the bytes travel.
\<close>

section \<open>Complete responses\<close>

text \<open>The headers that frame a complete document, and its body; the contents of files are given.\<close>

fun message :: "(string \<Rightarrow> string) \<Rightarrow> doc \<Rightarrow> doc_body \<Rightarrow> ((string \<times> string) list \<times> string) option" where
  "message content d (DDone b) =
     (if StatusForbidsBody (d_status d) then None else Some ([(''Content-Length'', FormatFixed10 (of_nat (length b)))], b))"
| "message content d DEmpty = Some (if StatusForbidsBody (d_status d) then ([], []) else ([(''Content-Length'', ''0'')], []))"
| "message content d (DFile n mime path) =
     (if StatusForbidsBody (d_status d) then None
      else Some ([(''Content-Length'', FormatUInt64 n), (''Content-Type'', mime)], content path))"
| "message content d _ = None"

definition file_part :: "(string \<Rightarrow> string) \<Rightarrow> doc_body \<Rightarrow> string" where
  "file_part content b = (case b of DFile _ _ path \<Rightarrow> content path | _ \<Rightarrow> [])"

text \<open>What goes on the wire: the buffer, and the file that the engine sends after it.\<close>

definition sent_bytes :: "(string \<Rightarrow> string) \<Rightarrow> HttpResponse \<Rightarrow> string" where
  "sent_bytes content r = wire r @ (if res_bodyKind r = FILE then content (res_filePath r) else [])"

lemma rep_sent: "rep d r \<Longrightarrow> sent_bytes content r = doc_text d @ file_part content (d_body d)"
  by (cases "d_body d") (simp_all add: rep_def sent_bytes_def file_part_def)

text \<open>A file document carries the size and the type of its file.\<close>

definition file_doc_ok :: "resp_env \<Rightarrow> doc \<Rightarrow> bool" where
  "file_doc_ok E d \<longleftrightarrow> (case d_body d of DFile n mime path \<Rightarrow> n = GetFileSize E (c_str path) \<and> mime = DetectMimeFromExt path | _ \<Rightarrow> True)"

lemma file_doc_error: "file_doc_ok E (error_doc code msg ab d)"
  by (simp add: file_doc_ok_def error_doc_def)

lemma file_doc_step: "file_doc_ok E d \<Longrightarrow> file_doc_ok E (doc_step E c d)"
  by (cases c) (auto simp: doc_violation_def doc_abort_def file_doc_error file_doc_ok_def error_doc_def split: doc_body.splits)

lemma file_doc_calls: "file_doc_ok E d \<Longrightarrow> file_doc_ok E (doc_calls E cs d)"
proof (induction cs arbitrary: d)
  case (Cons c cs)
  have "file_doc_ok E (doc_call E c d)"
    using Cons.prems file_doc_step[OF Cons.prems, of c] file_doc_error[of E 500 violation_text True d]
    by (auto simp: doc_call_def doc_violation_def simp del: doc_step.simps split: resp_call.split)
  with Cons.IH show ?case by simp
qed simp

lemma mime_plain: "plain_header (''Content-Type'', DetectMimeFromExt path)"
proof -
  have trim: "trim_ows m = m" if "m \<noteq> []" "\<not> is_ows (hd m)" "\<not> is_ows (last m)" for m
  proof -
    have "rev m \<noteq> []" "\<not> is_ows (hd (rev m))" using that by (simp_all add: hd_rev)
    then have "trim_front (rev m) = rev m" "trim_front m = m" using that by (cases "rev m"; cases m; simp)+
    then show ?thesis by (simp add: trim_ows_def)
  qed
  have "list_all (\<lambda>(e, m). m \<noteq> [] \<and> \<not> is_ows (hd m) \<and> \<not> is_ows (last m)) MIME_FROM_EXT"
    unfolding MIME_FROM_EXT_def by code_simp
  then have "DetectMimeFromExt path \<noteq> [] \<and> \<not> is_ows (hd (DetectMimeFromExt path)) \<and> \<not> is_ows (last (DetectMimeFromExt path))"
    by (auto simp: DetectMimeFromExt_def Let_def list_all_iff is_ows_def split: option.splits dest!: map_of_SomeD)
  with trim[of "DetectMimeFromExt path"] DetectMimeFromExt_safe(1)[of path] show ?thesis
    by (simp add: plain_header_def header_safe_def is_ows_def)
qed

text \<open>The client has room for the document, and is not talking about a HEAD request.\<close>

definition accepts :: "SlotState \<Rightarrow> doc \<Rightarrow> (string \<times> string) list \<Rightarrow> string \<Rightarrow> bool" where
  "accepts slot d framing body \<longleftrightarrow> 200 \<le> unat (d_status d) \<and> unat (d_status d) < 1000 \<and> lastMethod slot \<noteq> M_HEAD \<and>
     ordinary (d_persist d) \<and> ordinary (d_headers d) \<and>
     length (open_head d @ lines_of framing) + 2 \<le> unat (maxHeaderBytes (limits (slot_options slot))) \<and>
     length (all_headers d @ framing) \<le> unat (maxHeaderCount (limits (slot_options slot))) \<and>
     length body \<le> unat (maxBodyBytes (limits (slot_options slot))) \<and>
     unat (maxHeaderBytes (limits (slot_options slot))) < 2 ^ 31 - 1"

lemma accepts_limits: "accepts slot d framing body \<Longrightarrow> client_limits_ok slot d (length (lines_of framing) + 2) (length framing) (length body)"
  by (simp add: accepts_def client_limits_ok_def max_header_def)

lemma forbids_final: "200 \<le> unat code \<Longrightarrow> StatusForbidsBody code \<longleftrightarrow> code = 204 \<or> code = 304"
  by (auto simp: StatusForbidsBody_def word_unat_eq_iff)

lemma accepts_body_status: "accepts slot d framing body \<Longrightarrow> \<not> StatusForbidsBody (d_status d) \<Longrightarrow> body_status slot (d_status d)"
  by (auto simp: accepts_def body_status_def forbids_final)

lemma lines_of_Cons: "lines_of (h # hs) = hdr_line h @ lines_of hs" "lines_of [] = []"
  by (simp_all add: lines_of_def)

lemma client_reads_message:
  assumes m: "message content d (d_body d) = Some (framing, body)" and a: "accepts slot d framing body"
    and f: "file_doc_ok E d" "\<And>p. unat (GetFileSize E (c_str p)) = length (content p)"
    and small: "length (doc_text d) < 2 ^ 32"
  shows "\<exists>s'. parse_result slot e (doc_text d @ file_part content (d_body d)) fresh_response fresh_parse_state =
     (final_answer d, [], read_as d framing body, s')"
proof -
  have o: "ordinary (d_persist d)" "ordinary (d_headers d)" "ordinary []" using a by (simp_all add: accepts_def ordinary_def)
  note lim = accepts_limits[OF a] and code = accepts_body_status[OF a]
  have sized: ?thesis if d: "\<not> StatusForbidsBody (d_status d)" and ds: "decimal (length body) ds" and hs: "ordinary hs"
      and fr: "framing = (''Content-Length'', ds) # hs"
      and t: "doc_text d @ file_part content (d_body d) = open_head d @ hdr_line (''Content-Length'', ds) @ lines_of hs @ [CR, LF] @ body @ []" for ds hs
    unfolding t fr
  proof (rule client_reads_sized[OF code[OF d] o(1,2) hs ds])
    show "client_limits_ok slot d (length ds + 20 + length (lines_of hs)) (1 + length hs) (length body)"
      using lim by (simp add: fr lines_of_Cons ac_simps)
  qed
  show ?thesis
  proof (cases "d_body d")
    case (DDone b)
    then have d: "\<not> StatusForbidsBody (d_status d)" "framing = [(''Content-Length'', FormatFixed10 (of_nat (length b)))]" "body = b"
      using m by (auto split: if_splits)
    have "length b < 2 ^ 32" using small DDone by (simp add: doc_text_def)
    then have "decimal (length body) (FormatFixed10 (of_nat (length b)))"
      using decimal_FormatFixed10[of "of_nat (length b)"] d(3) by (simp add: unat_of_nat)
    from sized[OF d(1) this o(3)] show ?thesis using d by (simp add: DDone doc_text_def lines_of_Cons file_part_def)
  next
    case DEmpty
    show ?thesis
    proof (cases "StatusForbidsBody (d_status d)")
      case True
      then have "d_status d = 204 \<or> d_status d = 304" using a by (simp add: accepts_def forbids_final)
      moreover have fb: "framing = []" "body = []" using m DEmpty True by simp_all
      moreover have "client_limits_ok slot d 2 0 0" using lim fb by (simp add: lines_of_Cons numeral_2_eq_2)
      ultimately show ?thesis using client_reads_bodiless[OF _ o(1,2), of slot e "[]"] True
        by (simp add: DEmpty doc_text_def file_part_def lines_of_Cons)
    next
      case False
      then have d: "framing = [(''Content-Length'', ''0'')]" "body = []" using m DEmpty by simp_all
      have "decimal (length body) ''0''" using d(2) by (simp add: decimal_def is_digit_def digits_val_def digit_val_def)
      from sized[OF False this o(3)] show ?thesis using d False by (simp add: DEmpty doc_text_def lines_of_Cons file_part_def)
    qed
  next
    case (DFile n mime path)
    then have d: "\<not> StatusForbidsBody (d_status d)" "framing = [(''Content-Length'', FormatUInt64 n), (''Content-Type'', mime)]" "body = content path"
      using m by (auto split: if_splits)
    have nm: "n = GetFileSize E (c_str path)" "mime = DetectMimeFromExt path" using f(1) DFile by (simp_all add: file_doc_ok_def)
    have "decimal (length body) (FormatUInt64 n)" using decimal_FormatUInt64[of n] d(3) f(2)[of path] nm(1) by simp
    moreover have "\<not> special_header ''Content-Type''" by code_simp
    then have "ordinary [(''Content-Type'', mime)]" using mime_plain[of path] nm(2) by (simp add: ordinary_def)
    ultimately show ?thesis using sized[OF d(1)] d by (simp add: DFile doc_text_def lines_of_Cons file_part_def)
  qed (use m in simp_all)
qed

text \<open>C1. Any response that a handler completes, whatever calls it made, is read back by the client as
  exactly its status, its headers in order and its body, with the right decision to keep the
  connection, when the client has room for it: in the buffer, empty, or from a file, and in
  whatever pieces the bytes arrive.\<close>

theorem response_round_trip:
  assumes "env_ok E" "buf_present r" "stream_ok r" "all_fit E cs (new_doc r)" "doc_calls E cs (new_doc r) = d"
    and "message content d (d_body d) = Some (framing, body)" "accepts slot d framing body"
    and "\<And>p. unat (GetFileSize E (c_str p)) = length (content p)"
  shows "\<exists>r'. response_calls E cs (Response_Reset r) = Inr r' \<and>
     (\<forall>ps. concat ps = sent_bytes content r' \<longrightarrow>
        parse_pieces slot False ps fresh_response fresh_parse_state =
          Some (final_answer d, \<lparr>rs_status = d_status d, rs_body = body, rs_headers = all_headers d @ framing\<rparr>))"
proof -
  obtain r' where r': "response_calls E cs (Response_Reset r) = Inr r'" "rep d r'"
    using calls_ok[OF assms(1) reset_rep[OF assms(2,3)] assms(4)] assms(5) by blast
  have sm: "length (doc_text d) < 2 ^ 32" using rep_facts(1,2)[OF r'(2)] buf_length[of r'] by simp
  have fd: "file_doc_ok E d" using file_doc_calls[of E "new_doc r" cs] assms(5) by (simp add: file_doc_ok_def new_doc_def)
  obtain s' where p: "parse_result slot False (sent_bytes content r') fresh_response fresh_parse_state = (final_answer d, [], read_as d framing body, s')"
    unfolding rep_sent[OF r'(2)] using client_reads_message[OF assms(6,7) fd assms(8) sm] by blast
  have ne: "sent_bytes content r' \<noteq> []"
    unfolding rep_sent[OF r'(2)] using assms(6) by (cases "d_body d") (simp_all add: doc_text_def open_head_def length_kept_head kept_head_def status_line_def)
  have "parse_pieces slot False ps fresh_response fresh_parse_state = Some (final_answer d, read_as d framing body)"
    if c: "concat ps = sent_bytes content r'" for ps
  proof (rule parse_pieces_concat[OF _ _ p[folded c]])
    show "max_header slot < 2 ^ 31 - 1" using assms(7) by (simp add: accepts_def max_header_def)
    show "ps \<noteq> []" using c ne by auto
    show "final_answer d \<noteq> ParseError" by (simp add: final_answer_def)
  qed (simp add: fresh_parse_state_def)
  with r'(1) show ?thesis unfolding read_as_def by blast
qed

definition demo_final :: doc where
  "demo_final = \<lparr>d_version = HTTP_1_1, d_close = False, d_status = 201, d_persist = [],
     d_headers = [(''X-A'', ''1''), (''Content-Type'', ''text/plain'')], d_body = DDone ''hi'', d_aborted = False, d_destroyed = []\<rparr>"

lemma demo_final: "doc_calls demo_env demo_calls (new_doc demo_response) = demo_final"
  by (simp add: demo_calls_def user_SendText_def demo_doc doc_call_def demo_steps StatusForbidsBody_def demo_final_def)

lemma demo_ordinary: "ordinary (d_headers demo_final)"
proof -
  have "plain_header (''X-A'', ''1'') \<and> \<not> special_header ''X-A''" "plain_header (''Content-Type'', ''text/plain'') \<and> \<not> special_header ''Content-Type''"
    by code_simp+
  then show ?thesis by (simp add: ordinary_def demo_final_def)
qed

lemma demo_message: "message (\<lambda>_. []) demo_final (d_body demo_final) = Some ([(''Content-Length'', FormatFixed10 2)], ''hi'')"
  by (simp add: demo_final_def StatusForbidsBody_def)

lemma demo_accepts: "accepts demo_slot demo_final [(''Content-Length'', FormatFixed10 2)] ''hi''"
  using demo_ordinary
  by (simp add: accepts_def demo_slot_def demo_final_def all_headers_def open_head_def length_kept_head connection_header_def lines_of_Cons ordinary_def)

theorem response_round_trip_witness:
  "\<exists>r'. response_calls demo_env demo_calls (Response_Reset demo_response) = Inr r' \<and>
     (\<forall>ps. concat ps = sent_bytes (\<lambda>_. []) r' \<longrightarrow>
        parse_pieces demo_slot False ps fresh_response fresh_parse_state =
          Some (ParseDone, \<lparr>rs_status = 201, rs_body = ''hi'', rs_headers = [(''Connection'', ''keep-alive''),
            (''X-A'', ''1''), (''Content-Type'', ''text/plain''), (''Content-Length'', FormatFixed10 2)]\<rparr>))"
  using response_round_trip[OF demo_env_ok demo_fit demo_final demo_message demo_accepts]
  by (simp add: demo_env_def demo_final_def final_answer_def all_headers_def connection_header_def)

section \<open>The pieces of a stream\<close>

theorem client_parse_is_independent_of_pieces_witness:
  "parse_pieces demo_slot False [take 20 (doc_text demo_final), drop 20 (doc_text demo_final)] fresh_response fresh_parse_state =
     Some (ParseDone, read_as demo_final [(''Content-Length'', FormatFixed10 2)] ''hi'')"
proof -
  have f: "file_doc_ok demo_env demo_final" "unat (GetFileSize demo_env (c_str p)) = length ((\<lambda>_. []) p)" for p
    by (simp_all add: file_doc_ok_def demo_final_def demo_env_def)
  have l: "length (doc_text demo_final) < 2 ^ 32"
    by (simp add: demo_final_def doc_text_def open_head_def length_kept_head connection_header_def lines_of_Cons)
  obtain s' where "parse_result demo_slot False (doc_text demo_final) fresh_response fresh_parse_state =
      (ParseDone, [], read_as demo_final [(''Content-Length'', FormatFixed10 2)] ''hi'', s')"
    using client_reads_message[OF demo_message demo_accepts f l] by (auto simp: file_part_def demo_final_def final_answer_def)
  then obtain n where "Parse demo_slot False (concat [take 20 (doc_text demo_final), drop 20 (doc_text demo_final)]) fresh_response fresh_parse_state =
      Some (ParseDone, n, read_as demo_final [(''Content-Length'', FormatFixed10 2)] ''hi'', s')" by (simp add: Parse_result)
  from client_parse_is_independent_of_pieces[OF _ _ this] show ?thesis by (simp add: demo_slot_def)
qed

end
