(* ===== verification/ResponseStream.thy ===== *)
theory ResponseStream
  imports ResponseRoundtrip
begin

text \<open>
  Incremental bodies: a handler writes and flushes in rounds, the socket takes the bytes in whatever
  portions it likes, and the client still reads one response.
\<close>

section \<open>The socket\<close>

text \<open>The bytes still to send after one run of the loop, if the socket did not fail.\<close>

fun take_run :: "nat \<Rightarrow> write_answer list \<Rightarrow> nat option" where
  "take_run n ws =
     (if n = 0 then Some 0
      else case ws of
        Wrote k # ws' \<Rightarrow> if k = 0 then None else take_run (n - k) ws'
      | WriteFailed # _ \<Rightarrow> None
      | _ \<Rightarrow> Some n)"

declare take_run.simps [simp del]

text \<open>The runs take \<open>n\<close> bytes in the end.\<close>

fun takes :: "nat \<Rightarrow> write_answer list list \<Rightarrow> bool" where
  "takes n [] \<longleftrightarrow> n = 0"
| "takes n (ws # wss) \<longleftrightarrow> (case take_run n ws of None \<Rightarrow> False | Some m \<Rightarrow> m = 0 \<or> takes m wss)"

lemma take_run_0 [simp]: "take_run 0 ws = Some 0"
  by (simp add: take_run.simps)

lemma take_run_fewer: "take_run n ws = Some m \<Longrightarrow> k \<le> n \<Longrightarrow> \<exists>j\<le>m. take_run k ws = Some j"
proof (induction n ws arbitrary: m k rule: take_run.induct)
  case (1 n ws)
  show ?case
  proof (cases "k = 0")
    case False
    with 1 show ?thesis
      by (auto simp: take_run.simps[of n] take_run.simps[of k] split: list.splits write_answer.splits if_splits)
  qed simp
qed

lemma takes_fewer: "takes n wss \<Longrightarrow> k \<le> n \<Longrightarrow> takes k wss"
proof (induction wss arbitrary: n k)
  case (Cons ws wss)
  then obtain m where m: "take_run n ws = Some m" "m = 0 \<or> takes m wss" by (auto split: option.splits)
  obtain j where "j \<le> m" "take_run k ws = Some j" using take_run_fewer[OF m(1) Cons.prems(2)] by blast
  with Cons.IH[of m j] m(2) show ?case by auto
qed simp

text \<open>What is left of the buffer.\<close>

definition unsent :: "string \<Rightarrow> HttpResponse \<Rightarrow> bool" where
  "unsent t r \<longleftrightarrow> (case writeBuffer (res_rwBuffer r) of None \<Rightarrow> False
     | Some b \<Rightarrow> block_ok sizeof_WriteMetadata b \<and> unat (writtenLength (blk_meta b)) \<le> length (contents b) \<and>
         drop (unat (writtenLength (blk_meta b))) (contents b) = t)"

definition same_flush :: "flush_ctx \<Rightarrow> flush_ctx \<Rightarrow> bool" where
  "same_flush c c' \<longleftrightarrow> fc_isAwaitFlush c' = fc_isAwaitFlush c \<and> fc_awaitFlushFinal c' = fc_awaitFlushFinal c \<and>
     fc_async c' = fc_async c \<and> fc_closed c' = fc_closed c \<and> fc_resumed c' = fc_resumed c \<and>
     res_phase (fc_response c') = res_phase (fc_response c) \<and> res_bodyKind (fc_response c') = res_bodyKind (fc_response c) \<and>
     res_aborted (fc_response c') = res_aborted (fc_response c)"

lemma buf_ok_unsent: "buf_ok r \<Longrightarrow> unsent (wire r) r"
  by (auto simp: buf_ok_def unsent_def wire_def split: option.splits)

lemma unsent_took:
  assumes b: "writeBuffer (res_rwBuffer (fc_response c)) = Some b" and u: "unsent t (fc_response c)" and n: "n \<le> length t"
  shows "unsent (drop n t) (fc_response (took_bytes n b c))" "fc_sent (took_bytes n b c) = fc_sent c @ take n t"
    "same_flush c (took_bytes n b c)"
proof -
  have w: "block_ok sizeof_WriteMetadata b" "unat (writtenLength (blk_meta b)) \<le> length (contents b)"
    "drop (unat (writtenLength (blk_meta b))) (contents b) = t" using u b by (simp_all add: unsent_def)
  have le: "unat (writtenLength (blk_meta b)) + n \<le> length (contents b)" using w n by auto
  then have "unat (writtenLength (blk_meta b)) + n < 2 ^ 32"
    using length_contents[OF w(1)] unat_u32_lt[of "dataLength (blk_meta b)"] by simp
  then have un: "unat (writtenLength (blk_meta b) + of_nat n) = n + unat (writtenLength (blk_meta b))"
    by (simp add: unat_add_u32 unat_of_nat)
  have c: "contents (b\<lparr>blk_meta := (blk_meta b)\<lparr>writtenLength := x\<rparr>\<rparr>) = contents b" for x by (simp add: contents_def)
  show "unsent (drop n t) (fc_response (took_bytes n b c))"
    using w le by (simp add: unsent_def took_bytes_def c un block_ok_def flip: w(3))
  show "fc_sent (took_bytes n b c) = fc_sent c @ take n t" by (simp add: took_bytes_def w(3))
  show "same_flush c (took_bytes n b c)" by (simp add: same_flush_def took_bytes_def)
qed

lemma same_flush_trans: "same_flush a b \<Longrightarrow> same_flush b c \<Longrightarrow> same_flush a c"
  by (simp add: same_flush_def)

lemma drain_ok:
  assumes "unsent t (fc_response c)" "take_run (length t) ws = Some m"
  shows "\<exists>c' s t'. DrainWriteBuffer ws c = Inr (if m = 0 then FLUSH_COMPLETED else FLUSH_PENDING, c') \<and> t = s @ t' \<and> length t' = m \<and>
     unsent t' (fc_response c') \<and> fc_sent c' = fc_sent c @ s \<and> same_flush c c'"
  using assms
proof (induction ws c arbitrary: t rule: DrainWriteBuffer.induct)
  case (1 ws c)
  obtain b where b: "writeBuffer (res_rwBuffer (fc_response c)) = Some b" and w: "block_ok sizeof_WriteMetadata b"
    "unat (writtenLength (blk_meta b)) \<le> length (contents b)" "drop (unat (writtenLength (blk_meta b))) (contents b) = t"
    using "1.prems"(1) by (auto simp: unsent_def split: option.splits)
  have len: "length t = unat (dataLength (blk_meta b)) - unat (writtenLength (blk_meta b))"
    using w(3) length_contents[OF w(1)] by auto
  have lt: "writtenLength (blk_meta b) < dataLength (blk_meta b) \<longleftrightarrow> t \<noteq> []"
    using len w(2) length_contents[OF w(1)] by (simp add: word_less_nat_alt flip: length_greater_0_conv)
  have same: "same_flush c c" "same_flush c (c\<lparr>fc_sending := True\<rparr>)" by (simp_all add: same_flush_def)
  show ?case
  proof (cases "t = []")
    case True
    then have "DrainWriteBuffer ws c = Inr (FLUSH_COMPLETED, c)" using b lt by (simp add: DrainWriteBuffer.simps)
    moreover have "m = 0" using "1.prems"(2) True by simp
    ultimately show ?thesis using "1.prems"(1) True same(1) by (intro exI[of _ c] exI[of _ "[]"]) simp
  next
    case False
    note tr = "1.prems"(2)[unfolded take_run.simps[of "length t"]]
    show ?thesis
    proof (cases "ws = [] \<or> hd ws = WouldBlock")
      case True
      then have "m = length t" using tr False by (auto split: list.splits)
      moreover have "DrainWriteBuffer ws c = Inr (FLUSH_PENDING, c\<lparr>fc_sending := True\<rparr>)"
        using True b lt False by (subst DrainWriteBuffer.simps) (auto split: list.splits)
      ultimately show ?thesis using "1.prems"(1) False same(2)
        by - (rule exI[of _ "c\<lparr>fc_sending := True\<rparr>"], rule exI[of _ "[]"], rule exI[of _ t], simp)
    next
      case w2: False
      then obtain k ws' where ws: "ws = Wrote k # ws'" "k > 0" "take_run (length t - k) ws' = Some m"
        using tr False by (auto split: list.splits write_answer.splits if_splits)
      let ?n = "min k (unat (dataLength (blk_meta b) - writtenLength (blk_meta b)))"
      have "unat (dataLength (blk_meta b) - writtenLength (blk_meta b)) = length t"
        using lt False len by (simp add: unat_sub word_le_nat_alt word_less_nat_alt)
      then have n: "?n = min k (length t)" by simp
      note q = unsent_took[OF b "1.prems"(1), of ?n]
      have dr: "DrainWriteBuffer ws c = DrainWriteBuffer ws' (took_bytes ?n b c)"
        using b lt False ws(1,2) by (subst DrainWriteBuffer.simps) simp
      have tr': "take_run (length (drop ?n t)) ws' = Some m" using ws(3) unfolding n by (cases "k \<le> length t") (simp_all add: min_def)
      have nl: "?n \<le> length t" unfolding n by simp
      obtain c' s t' where c': "DrainWriteBuffer ws' (took_bytes ?n b c) = Inr (if m = 0 then FLUSH_COMPLETED else FLUSH_PENDING, c')"
        "drop ?n t = s @ t'" "length t' = m" "unsent t' (fc_response c')" "fc_sent c' = fc_sent (took_bytes ?n b c) @ s"
        "same_flush (took_bytes ?n b c) c'"
        using "1.IH"[OF b _ ws(1) refl ws(2) q(1)[OF nl] tr'] lt False by blast
      have "t = (take ?n t @ s) @ t'" using c'(2) by (metis append_assoc append_take_drop_id)
      then show ?thesis
        using c' q(2)[OF nl] same_flush_trans[OF q(3)[OF nl]] unfolding dr by (metis append_assoc)
    qed
  qed
qed

section \<open>One round\<close>

definition awaiting :: "string \<Rightarrow> string \<Rightarrow> HttpResponse \<Rightarrow> bool" where
  "awaiting pre b r \<longleftrightarrow> buf_ok r \<and> wire r = pre @ gap @ b \<and> res_bodyStartOffset r = of_nat (length pre + 10) \<and>
     res_phase r = BODY \<and> res_bodyKind r = AWAIT_STREAM \<and> \<not> res_aborted r"

lemma rep_awaiting:
  assumes "rep d r" "d_body d = DAwait []" "\<not> d_aborted d"
  shows "awaiting (open_head d @ TE_CHUNKED @ [CR, LF]) [] r"
  using assms by (simp add: awaiting_def rep_def doc_text_def)

lemma write_ok:
  assumes e: "env_ok E" and r: "awaiting pre b r" and f: "fits E (pre @ gap @ b @ ds)"
  obtains r' where "response_call E (CallWrite ds) r = Inr r'" "awaiting pre (b @ ds) r'"
proof -
  have rj: "RejectIfCommitted AE r = Inr (False, r)" for AE using r by (simp add: RejectIfCommitted_def awaiting_def)
  have "EnsureHeadersOpen E r = Inr r" using r by (simp add: EnsureHeadersOpen_def EnsureStatusLineReserved_def awaiting_def)
  then have o: "EnsureBodyOpen_by AE E r = Inr (True, r)" for AE using r by (simp add: EnsureBodyOpen_by_def awaiting_def)
  show ?thesis
  proof (cases "ds = []")
    case True
    then show ?thesis using r rj o by (intro that[of r]) (simp_all add: WriteBodyData_by_def)
  next
    case False
    have w: "buf_ok r" "fits E (wire r @ ds)" using r f by (simp_all add: awaiting_def)
    have "awaiting pre (b @ ds) (Put E ds r)" using r Put_ok[OF e w] by (simp add: awaiting_def)
    then show ?thesis using False rj o by (intro that[of "Put E ds r"]) (simp_all add: WriteBodyData_by_def)
  qed
qed

lemma writes_ok:
  assumes e: "env_ok E"
  shows "awaiting pre b r \<Longrightarrow> fits E (pre @ gap @ b @ concat dss) \<Longrightarrow>
     \<exists>r'. response_calls E (map CallWrite dss) r = Inr r' \<and> awaiting pre (b @ concat dss) r'"
proof (induction dss arbitrary: b r)
  case (Cons ds dss)
  have "fits E (pre @ gap @ b @ ds)" by (rule fits_mono[OF Cons.prems(2)]) simp
  then obtain r1 where r1: "response_call E (CallWrite ds) r = Inr r1" "awaiting pre (b @ ds) r1"
    by (rule write_ok[OF e Cons.prems(1)])
  then show ?case using Cons.IH[OF r1(2)] Cons.prems(2) by simp
qed simp

lemma block_length: "buf_ok r \<Longrightarrow> writeBuffer (res_rwBuffer r) = Some blk \<Longrightarrow> dataLength (blk_meta blk) = of_nat (length (wire r))"
proof -
  assume "buf_ok r" and blk: "writeBuffer (res_rwBuffer r) = Some blk"
  then have "block_ok sizeof_WriteMetadata blk" by (simp add: buf_ok_def)
  from length_contents[OF this] blk show ?thesis by (simp add: wire_def)
qed

text \<open>What a round sends.\<close>

definition round_text :: "string \<Rightarrow> string" where
  "round_text b = (if b = [] then [] else chunk_text b)"

lemma prepare_ok:
  assumes e: "env_ok E" and r: "awaiting pre b r" and f: "length pre + length b + 17 \<le> unat (maxSendBufferSize E)"
    and go: "b \<noteq> [] \<or> isFinal"
  obtains r' where "PrepareFlushChunk E isFinal r = Inr (True, r')" "buf_ok r'"
    "wire r' = pre @ round_text b @ (if isFinal then CHUNK_TERMINATOR else [])"
    "res_phase r' = BODY" "res_bodyKind r' = AWAIT_STREAM" "\<not> res_aborted r'"
proof -
  have w: "buf_ok r" "wire r = pre @ gap @ b" "res_bodyStartOffset r = of_nat (length pre + 10)"
    "res_phase r = BODY" "res_bodyKind r = AWAIT_STREAM" "\<not> res_aborted r" using r by (simp_all add: awaiting_def)
  obtain blk where blk: "writeBuffer (res_rwBuffer r) = Some blk" using w(1) by (auto simp: buf_ok_def split: option.splits)
  have L: "length (wire r) = length pre + 10 + length b" by (simp add: w(2))
  then have lt: "length pre + 10 + length b < 2 ^ 32" using buf_length[OF w(1)] by simp
  have dl: "dataLength (blk_meta blk) = of_nat (length pre + 10 + length b)" using block_length[OF w(1) blk] L by simp
  have ft: "fits E (pre @ t)" if "length t \<le> length b + 17" for t using f that by (simp add: fits_def)
  have n: "(ucast (ucast (dataLength (blk_meta blk)) - res_bodyStartOffset r :: u64) :: u32) = of_nat (length b)"
  proof -
    have "(ucast (of_nat (length pre + 10 + length b) :: u32) :: u64) = of_nat (length pre + 10 + length b)"
      using lt by (simp add: word_unat_eq_iff unat_of_nat del: of_nat_add)
    then have "(ucast (of_nat (length pre + 10 + length b) :: u32) :: u64) - of_nat (length pre + 10) = of_nat (length b)" by simp
    then show ?thesis unfolding dl w(3) using lt by (simp add: word_unat_eq_iff unat_ucast_64_32 unat_of_nat del: of_nat_add)
  qed
  show ?thesis
  proof (cases "b = []")
    case True
    have c10: "length pre \<le> length (wire r)" using L by simp
    note c = cut_ok[OF w(1) c10]
    have cw: "wire (cut (length pre) r) = pre" using c(3) w(2) by simp
    have "dataLength (blk_meta blk) - of_nat CHUNK_HDR_RESERVE = of_nat (length pre)" unfolding dl True by (simp add: CHUNK_HDR_RESERVE_def)
    moreover have "(ucast (of_nat (length pre) :: u32) :: u64) = of_nat (length pre)" using lt by (simp add: word_unat_eq_iff unat_of_nat)
    ultimately have cut: "set_write_length (ucast (dataLength (blk_meta blk) - of_nat CHUNK_HDR_RESERVE)) r = Inr (cut (length pre) r)"
      using c(1) by simp
    have "fits E (wire (cut (length pre) r) @ CHUNK_TERMINATOR)" unfolding cw by (rule ft) (simp add: CHUNK_TERMINATOR_def)
    note a = Append_ok[OF e c(2) this]
    have ne: "CHUNK_TERMINATOR \<noteq> []" by (simp add: CHUNK_TERMINATOR_def)
    have "PrepareFlushChunk E isFinal r = Inr (True, Put E CHUNK_TERMINATOR (cut (length pre) r))"
      using cut a(1)[OF ne] True by (simp add: PrepareFlushChunk_def blk n)
    then show ?thesis using that a(2,3)[OF ne] cw w(4-6) True go by (auto simp: round_text_def)
  next
    case False
    then have nz: "(of_nat (length b) :: u32) \<noteq> 0" using lt by (simp add: word_unat_eq_iff unat_of_nat)
    let ?hex = "FormatFixedHex8 (of_nat (length b)) @ [CR, LF]"
    have "length pre + length ?hex \<le> length (wire r)" using L by (simp add: FormatFixedHex8_ok)
    note p = patched_ok[OF w(1) this]
    define r1 where "r1 = patched (length pre) ?hex r"
    have w1: "buf_ok r1" "wire r1 = pre @ ?hex @ b"
      using p(2,3) unfolding r1_def by (simp_all add: w(2) write_at_middle FormatFixedHex8_ok)
    have fl: "res_phase r1 = BODY" "res_bodyKind r1 = AWAIT_STREAM" "\<not> res_aborted r1" using w(4-6) by (simp_all add: r1_def)
    have off: "int (unat (res_bodyStartOffset r)) - int CHUNK_HDR_RESERVE = int (length pre)"
      unfolding w(3) CHUNK_HDR_RESERVE_def using lt by (simp add: unat_of_nat del: of_nat_add)
    have pt: "patch (int (unat (res_bodyStartOffset r)) - int CHUNK_HDR_RESERVE) ?hex r = Inr r1" unfolding off p(1) r1_def ..
    have "fits E (wire r1 @ [CR, LF])" unfolding w1(2) append_assoc by (rule ft) (simp add: FormatFixedHex8_ok)
    note a = Append_ok[OF e w1(1) this]
    define r2 where "r2 = Put E [CR, LF] r1"
    have a1: "Append E [CR, LF] r1 = (True, r2)" and w2: "buf_ok r2" "wire r2 = pre @ chunk_text b"
      using a by (simp_all add: r2_def w1(2) chunk_text_def)
    have fl2: "res_phase r2 = BODY" "res_bodyKind r2 = AWAIT_STREAM" "\<not> res_aborted r2" using fl by (simp_all add: r2_def)
    show ?thesis
    proof (cases isFinal)
      case False
      then have "PrepareFlushChunk E isFinal r = Inr (True, r2)" using pt a1 nz by (simp add: PrepareFlushChunk_def blk n)
      then show ?thesis using that w2 fl2 False \<open>b \<noteq> []\<close> by (simp add: round_text_def)
    next
      case True
      have "fits E (wire r2 @ CHUNK_TERMINATOR)"
        unfolding w2(2) append_assoc by (rule ft) (simp add: FormatFixedHex8_ok chunk_text_def CHUNK_TERMINATOR_def)
      note q = Append_ok[OF e w2(1) this]
      have ne: "CHUNK_TERMINATOR \<noteq> []" by (simp add: CHUNK_TERMINATOR_def)
      have "PrepareFlushChunk E isFinal r = Inr (True, Put E CHUNK_TERMINATOR r2)"
        using pt a1 nz q(1)[OF ne] True by (simp add: PrepareFlushChunk_def blk n)
      then show ?thesis using that q(2,3)[OF ne] w2(2) fl2 True \<open>b \<noteq> []\<close> by (simp add: round_text_def)
    qed
  qed
qed

text \<open>A connection between rounds, and one whose round is on its way.\<close>

definition idle :: "flush_ctx \<Rightarrow> bool" where
  "idle c \<longleftrightarrow> \<not> fc_isAwaitFlush c \<and> \<not> fc_awaitFlushFinal c \<and> \<not> fc_closed c"

definition settled :: "bool \<Rightarrow> HttpResponse \<Rightarrow> bool" where
  "settled isFinal r \<longleftrightarrow> (if isFinal then res_phase r = COMMITTED \<and> wire r = [] else awaiting [] [] r)"

definition in_flight :: "bool \<Rightarrow> string \<Rightarrow> flush_ctx \<Rightarrow> bool" where
  "in_flight isFinal t c \<longleftrightarrow> unsent t (fc_response c) \<and> fc_awaitFlushFinal c = isFinal \<and> \<not> fc_closed c \<and>
     res_phase (fc_response c) = BODY \<and> res_bodyKind (fc_response c) = AWAIT_STREAM \<and> \<not> res_aborted (fc_response c)"

lemma in_flight_same: "in_flight f t c \<Longrightarrow> same_flush c c' \<Longrightarrow> unsent t' (fc_response c') \<Longrightarrow> in_flight f t' c'"
  by (simp add: in_flight_def same_flush_def)

lemma cleared: "unsent t r \<Longrightarrow> buf_ok (r\<lparr>res_rwBuffer := ClearWriteBuffer (res_rwBuffer r)\<rparr>) \<and> wire (r\<lparr>res_rwBuffer := ClearWriteBuffer (res_rwBuffer r)\<rparr>) = []"
  by (auto simp: unsent_def ClearWriteBuffer_def buf_ok_def wire_def block_ok_def contents_def split: option.splits)

lemma complete_ok:
  assumes e: "env_ok E" and c: "in_flight f [] c" and m: "10 \<le> unat (maxSendBufferSize E)"
  shows "\<exists>c'. CompleteFlushRound E c = Inr (True, c') \<and> fc_sent c' = fc_sent c \<and> settled f (fc_response c') \<and>
     fc_isAwaitFlush c' = fc_isAwaitFlush c \<and> \<not> fc_awaitFlushFinal c' \<and> \<not> fc_closed c' \<and> fc_async c' = fc_async c \<and> fc_resumed c' = fc_resumed c"
proof -
  let ?r = "(fc_response c)\<lparr>res_rwBuffer := ClearWriteBuffer (res_rwBuffer (fc_response c))\<rparr>"
  have u: "buf_ok ?r" "wire ?r = []" using c cleared by (auto simp: in_flight_def)
  have fl: "fc_awaitFlushFinal c = f" "\<not> fc_closed c" using c by (simp_all add: in_flight_def)
  show ?thesis
  proof (cases f)
    case True
    have "CompleteFlushRound E c = Inr (True, c\<lparr>fc_awaitFlushFinal := False, fc_response := ?r\<lparr>res_phase := COMMITTED\<rparr>\<rparr>)"
      using True fl by (simp add: CompleteFlushRound_def FinishFlushRound_def Let_def)
    moreover have "settled f (?r\<lparr>res_phase := COMMITTED\<rparr>)" using True u by (simp add: settled_def)
    ultimately show ?thesis using fl by (intro exI[of _ "c\<lparr>fc_awaitFlushFinal := False, fc_response := ?r\<lparr>res_phase := COMMITTED\<rparr>\<rparr>"]) simp
  next
    case False
    have g: "replicate CHUNK_HDR_RESERVE NUL = gap" "gap \<noteq> []" by (simp_all add: CHUNK_HDR_RESERVE_def gap_def)
    have "fits E (wire ?r @ gap)" using m u(2) by (simp add: fits_def)
    note a = Append_ok[OF e u(1) this g(2)]
    define r2 where "r2 = (Put E gap ?r)\<lparr>res_bodyStartOffset := 10\<rparr>"
    have "awaiting [] [] r2" using a(2,3) u(2) c by (simp add: r2_def awaiting_def in_flight_def)
    moreover have "CompleteFlushRound E c = Inr (True, c\<lparr>fc_awaitFlushFinal := False, fc_response := r2\<rparr>)"
      using False fl a u(2) by (simp add: CompleteFlushRound_def FinishFlushRound_def ReserveNextFlushGap_def Let_def g(1) r2_def)
    ultimately show ?thesis using False fl by (intro exI[of _ "c\<lparr>fc_awaitFlushFinal := False, fc_response := r2\<rparr>"]) (simp add: settled_def)
  qed
qed

lemma fc_resume_simps [simp]:
  "fc_sent (fc_resume c) = fc_sent c" "fc_response (fc_resume c) = fc_response c" "fc_isAwaitFlush (fc_resume c) = fc_isAwaitFlush c"
  "fc_awaitFlushFinal (fc_resume c) = fc_awaitFlushFinal c" "fc_closed (fc_resume c) = fc_closed c"
  by (simp_all add: fc_resume_def split: option.split)

lemma wakeups_ok:
  assumes e: "env_ok E" and m: "10 \<le> unat (maxSendBufferSize E)"
  shows "in_flight f t c \<Longrightarrow> fc_isAwaitFlush c \<Longrightarrow> t \<noteq> [] \<Longrightarrow> takes (length t) wss \<Longrightarrow>
     \<exists>c'. flush_wakeups E wss c = Inr c' \<and> fc_sent c' = fc_sent c @ t \<and> idle c' \<and> settled f (fc_response c')"
proof (induction wss arbitrary: c t)
  case (Cons ws wss)
  have open_c: "\<not> fc_closed c" using Cons.prems(1) by (simp add: in_flight_def)
  obtain k where k: "take_run (length t) ws = Some k" "k = 0 \<or> takes k wss" using Cons.prems(4) by (auto split: option.splits)
  have "unsent t (fc_response c)" using Cons.prems(1) by (simp add: in_flight_def)
  from drain_ok[OF this k(1)] obtain c1 s t' where c1: "DrainWriteBuffer ws c = Inr (if k = 0 then FLUSH_COMPLETED else FLUSH_PENDING, c1)"
    "t = s @ t'" "length t' = k" "unsent t' (fc_response c1)" "fc_sent c1 = fc_sent c @ s" "same_flush c c1" by blast
  have fl1: "in_flight f t' c1" by (rule in_flight_same[OF Cons.prems(1) c1(6,4)])
  show ?case
  proof (cases "k = 0")
    case True
    then have t: "t' = []" "s = t" using c1 by simp_all
    let ?c = "c1\<lparr>fc_isAwaitFlush := False\<rparr>"
    have "in_flight f [] ?c" using fl1 t by (simp add: in_flight_def)
    from complete_ok[OF e this m] obtain c2 where c2: "CompleteFlushRound E ?c = Inr (True, c2)" "fc_sent c2 = fc_sent c1"
      "settled f (fc_response c2)" "\<not> fc_isAwaitFlush c2" "\<not> fc_awaitFlushFinal c2" "\<not> fc_closed c2" by auto
    have "ResumeFlushChunk E ws c = Inr (fc_resume c2)" using c1(1) c2(1) True by (simp add: ResumeFlushChunk_def)
    moreover have "flush_wakeups E wss (fc_resume c2) = Inr (fc_resume c2)" using c2(4) by (cases wss) simp_all
    ultimately show ?thesis using c2 c1(5) t(2) Cons.prems(2) open_c by (simp add: idle_def)
  next
    case False
    then have r: "ResumeFlushChunk E ws c = Inr c1" using c1(1) by (simp add: ResumeFlushChunk_def)
    have "\<exists>c'. flush_wakeups E wss c1 = Inr c' \<and> fc_sent c' = fc_sent c1 @ t' \<and> idle c' \<and> settled f (fc_response c')"
      by (rule Cons.IH[OF fl1]) (use Cons.prems(2) c1(3,6) False k(2) in \<open>auto simp: same_flush_def\<close>)
    then show ?thesis using r c1(2,5) Cons.prems(2) open_c by simp
  qed
qed simp

lemma flush_round_ok:
  assumes e: "env_ok E" and c: "idle c" "awaiting pre [] (fc_response c)"
    and f: "length pre + length (concat ds) + 17 \<le> unat (maxSendBufferSize E)" and tk: "takes (unat (maxSendBufferSize E)) wss"
  shows "\<exists>c' pre'. flush_round E isFinal k ds wss c = Inr c' \<and> idle c' \<and>
     fc_sent c' @ pre' = fc_sent c @ pre @ round_text (concat ds) @ (if isFinal then CHUNK_TERMINATOR else []) \<and>
     length pre' \<le> length pre \<and>
     (if isFinal then pre' = [] \<and> settled True (fc_response c') else awaiting pre' [] (fc_response c'))"
proof -
  let ?b = "concat ds"
  have m: "10 \<le> unat (maxSendBufferSize E)" using f by simp
  have "fits E (pre @ gap @ [] @ ?b)" using f by (simp add: fits_def)
  then obtain r1 where r1: "response_calls E (map CallWrite ds) (fc_response c) = Inr r1" "awaiting pre ?b r1"
    using writes_ok[OF e c(2)] by auto
  let ?c = "c\<lparr>fc_response := r1\<rparr>" and ?ws = "case wss of [] \<Rightarrow> [] | ws # _ \<Rightarrow> ws"
  have w: "buf_ok r1" "wire r1 = pre @ gap @ ?b" "res_bodyStartOffset r1 = of_nat (length pre + 10)" "res_bodyKind r1 = AWAIT_STREAM"
    using r1(2) by (simp_all add: awaiting_def)
  have lt: "length pre + 10 + length ?b < 2 ^ 64" using f unat_u32_lt[of "maxSendBufferSize E"] by simp
  have pend: "HasPendingFlushData r1 = Inr (?b \<noteq> [])"
    using lt by (simp add: HasPendingFlushData_def w(1-3) word_less_nat_alt unat_of_nat del: of_nat_add)
  show ?thesis
  proof (cases "?b \<noteq> [] \<or> isFinal")
    case False
    then have fl: "FlushChunk E isFinal k ?ws ?c = Inr (FLUSH_COMPLETED, ?c)" using pend w(4) by (simp add: FlushChunk_def)
    have "flush_wakeups E (tl wss) ?c = Inr ?c" using c(1) by (cases "tl wss") (simp_all add: idle_def)
    then have "flush_round E isFinal k ds wss c = Inr ?c" using r1(1) fl by (simp add: flush_round_def)
    moreover have "idle ?c" using c(1) by (simp add: idle_def)
    moreover have "?b = []" using False by blast
    then have "awaiting pre [] r1" using r1(2) by (simp only:)
    ultimately show ?thesis using False
      by (intro exI[of _ ?c] exI[of _ pre]) (simp add: round_text_def)
  next
    case True
    define out where "out = pre @ round_text ?b @ (if isFinal then CHUNK_TERMINATOR else [])"
    obtain r2 where r2: "PrepareFlushChunk E isFinal r1 = Inr (True, r2)" "buf_ok r2" "wire r2 = out"
      "res_phase r2 = BODY" "res_bodyKind r2 = AWAIT_STREAM" "\<not> res_aborted r2"
      unfolding out_def by (rule prepare_ok[OF e r1(2) f True])
    have out: "out \<noteq> []" using True by (auto simp: out_def round_text_def CHUNK_TERMINATOR_def chunk_text_def)
    have lo: "length out \<le> unat (maxSendBufferSize E)"
      using f by (simp add: out_def round_text_def chunk_text_def CHUNK_TERMINATOR_def FormatFixedHex8_ok)
    let ?c2 = "?c\<lparr>fc_response := r2, fc_awaitFlushFinal := isFinal\<rparr>"
    have if2: "in_flight isFinal out ?c2" using r2 c(1) buf_ok_unsent[OF r2(2)] by (simp add: in_flight_def idle_def)
    have tk1: "takes (length out) wss" by (rule takes_fewer[OF tk lo])
    then obtain ws wss' j where wss: "wss = ws # wss'" "take_run (length out) ws = Some j" "j = 0 \<or> takes j wss'"
      using out by (cases wss) (auto split: option.splits)
    have "unsent out (fc_response ?c2)" using if2 by (simp add: in_flight_def)
    from drain_ok[OF this wss(2)] obtain c3 s t' where c3: "DrainWriteBuffer ws ?c2 = Inr (if j = 0 then FLUSH_COMPLETED else FLUSH_PENDING, c3)"
      "out = s @ t'" "length t' = j" "unsent t' (fc_response c3)" "fc_sent c3 = fc_sent c @ s" "same_flush ?c2 c3" by auto
    have if3: "in_flight isFinal t' c3" by (rule in_flight_same[OF if2 c3(6,4)])
    have fin: ?thesis if "flush_round E isFinal k ds wss c = Inr c'" "idle c'" "fc_sent c' = fc_sent c @ out" "settled isFinal (fc_response c')" for c'
    proof (intro exI[of _ c'] exI[of _ "[] :: string"] conjI)
      show "fc_sent c' @ [] = fc_sent c @ pre @ round_text ?b @ (if isFinal then CHUNK_TERMINATOR else [])" using that(3) by (simp add: out_def)
      show "if isFinal then ([] :: string) = [] \<and> settled True (fc_response c') else awaiting [] [] (fc_response c')"
        using that(4) by (simp add: settled_def split: if_splits)
    qed (use that in simp_all)
    show ?thesis
    proof (cases "j = 0")
      case True
      then have t: "t' = []" "s = out" using c3 by simp_all
      obtain c4 where c4: "CompleteFlushRound E c3 = Inr (True, c4)" "fc_sent c4 = fc_sent c3" "settled isFinal (fc_response c4)"
        "fc_isAwaitFlush c4 = fc_isAwaitFlush c3" "\<not> fc_awaitFlushFinal c4" "\<not> fc_closed c4"
        using complete_ok[OF e _ m] if3 t by blast
      have id4: "idle c4" using c4 c3(6) c(1) by (simp add: idle_def same_flush_def)
      have "FlushChunk E isFinal k ws ?c = Inr (FLUSH_COMPLETED, c4)"
        using pend w(4) r2(1) c3(1) c4(1) True \<open>?b \<noteq> [] \<or> isFinal\<close> by (auto simp: FlushChunk_def)
      moreover have "flush_wakeups E wss' c4 = Inr c4" using id4 by (cases wss') (simp_all add: idle_def)
      ultimately have "flush_round E isFinal k ds wss c = Inr c4" using r1(1) wss(1) by (simp add: flush_round_def)
      then show ?thesis by (rule fin) (use id4 c4 c3(5) t in simp_all)
    next
      case False
      let ?c4 = "c3\<lparr>fc_isAwaitFlush := True, fc_async := Some k\<rparr>"
      have fl: "FlushChunk E isFinal k ws ?c = Inr (FLUSH_PENDING, ?c4)"
        using pend w(4) r2(1) c3(1) False \<open>?b \<noteq> [] \<or> isFinal\<close> by (auto simp: FlushChunk_def)
      have if4: "in_flight isFinal t' ?c4" using if3 by (simp add: in_flight_def)
      have t': "t' \<noteq> []" "takes (length t') wss'" using c3(3) False wss(3) by auto
      obtain c5 where c5: "flush_wakeups E wss' ?c4 = Inr c5" "fc_sent c5 = fc_sent ?c4 @ t'" "idle c5" "settled isFinal (fc_response c5)"
        using wakeups_ok[OF e m if4 _ t'] by auto
      have "flush_round E isFinal k ds wss c = Inr c5" using r1(1) fl c5(1) wss(1) by (simp add: flush_round_def)
      then show ?thesis by (rule fin) (use c5 c3(2,5) in simp_all)
    qed
  qed
qed

text \<open>All rounds fit, and the socket takes every one of them in the end.\<close>

definition rounds_fit :: "resp_env \<Rightarrow> nat \<Rightarrow> (string list \<times> write_answer list list) list \<Rightarrow> bool" where
  "rounds_fit E n rs \<longleftrightarrow> rs \<noteq> [] \<and> list_all (\<lambda>(ds, wss). n + length (concat ds) + 17 \<le> unat (maxSendBufferSize E) \<and>
     takes (unat (maxSendBufferSize E)) wss) rs"

definition bodies :: "(string list \<times> write_answer list list) list \<Rightarrow> string list" where
  "bodies rs = filter (\<lambda>b. b \<noteq> []) (map (concat \<circ> fst) rs)"

lemma bodies_Cons: "concat (map chunk_text (bodies ((ds, wss) # rs))) = round_text (concat ds) @ concat (map chunk_text (bodies rs))"
  by (simp add: bodies_def round_text_def)

lemma flush_rounds_ok:
  assumes e: "env_ok E"
  shows "idle c \<Longrightarrow> awaiting pre [] (fc_response c) \<Longrightarrow> rounds_fit E (length pre) rs \<Longrightarrow>
     \<exists>c'. flush_rounds E k rs c = Inr c' \<and> idle c' \<and> settled True (fc_response c') \<and>
       fc_sent c' = fc_sent c @ pre @ concat (map chunk_text (bodies rs)) @ CHUNK_TERMINATOR"
proof (induction rs arbitrary: k c pre)
  case (Cons r rs)
  obtain ds wss where r: "r = (ds, wss)" by (cases r)
  have f: "length pre + length (concat ds) + 17 \<le> unat (maxSendBufferSize E)" "takes (unat (maxSendBufferSize E)) wss"
    using Cons.prems(3) by (simp_all add: rounds_fit_def r)
  obtain c1 pre1 where c1: "flush_round E (rs = []) k ds wss c = Inr c1" "idle c1" "length pre1 \<le> length pre"
    "fc_sent c1 @ pre1 = fc_sent c @ pre @ round_text (concat ds) @ (if rs = [] then CHUNK_TERMINATOR else [])"
    "if rs = [] then pre1 = [] \<and> settled True (fc_response c1) else awaiting pre1 [] (fc_response c1)"
    using flush_round_ok[OF e Cons.prems(1,2) f] by blast
  have go: "flush_rounds E k (r # rs) c = flush_rounds E (Suc k) rs c1" using c1(1,2) by (simp add: r idle_def)
  show ?case
  proof (cases "rs = []")
    case True
    then show ?thesis using c1 unfolding go by (simp add: r bodies_def round_text_def)
  next
    case False
    then have "rounds_fit E (length pre1) rs" using Cons.prems(3) c1(3) by (auto simp: rounds_fit_def list_all_iff)
    with Cons.IH[OF c1(2), of pre1] c1(5) False obtain c' where c': "flush_rounds E (Suc k) rs c1 = Inr c'" "idle c'"
      "settled True (fc_response c')" "fc_sent c' = fc_sent c1 @ pre1 @ concat (map chunk_text (bodies rs)) @ CHUNK_TERMINATOR" by auto
    have "fc_sent c' = (fc_sent c1 @ pre1) @ concat (map chunk_text (bodies rs)) @ CHUNK_TERMINATOR" using c'(4) by simp
    then have "fc_sent c' = fc_sent c @ pre @ concat (map chunk_text (bodies (r # rs))) @ CHUNK_TERMINATOR"
      unfolding c1(4) using False by (simp add: r bodies_Cons)
    with c' show ?thesis unfolding go by blast
  qed
qed (simp add: rounds_fit_def)

section \<open>A streamed response\<close>

text \<open>C2. An incremental body reaches the client whole: whatever a handler did before it started the
  body, and whatever it writes in each round, if every round fits the buffer and the socket
  takes the bytes in the end, in portions and with wake-ups of any kind, then no call faults,
  the response is committed with nothing left to send, and the client reads from the bytes sent, cut
  in any way, the status, the headers and all that was written, in order.\<close>

theorem streamed_response_round_trip:
  assumes "env_ok E" "buf_present r" "stream_ok r" "all_fit E cs (new_doc r)" "doc_calls E cs (new_doc r) = d"
    and "d_body d = DAwait []" "\<not> d_aborted d" "\<not> StatusForbidsBody (d_status d)"
    and "rounds_fit E (length (doc_text d)) rs"
    and "accepts slot d [(''Transfer-Encoding'', ''chunked'')] (concat (bodies rs))"
  shows "\<exists>r0 c. response_calls E cs (Response_Reset r) = Inr r0 \<and> flush_rounds E 0 rs (flush_start r0) = Inr c \<and>
     \<not> fc_closed c \<and> \<not> fc_isAwaitFlush c \<and> res_phase (fc_response c) = COMMITTED \<and> wire (fc_response c) = [] \<and>
     (\<forall>ps. concat ps = fc_sent c \<longrightarrow>
        parse_pieces slot False ps fresh_response fresh_parse_state =
          Some (final_answer d, \<lparr>rs_status = d_status d, rs_body = concat (map (concat \<circ> fst) rs),
            rs_headers = all_headers d @ [(''Transfer-Encoding'', ''chunked'')]\<rparr>))"
proof -
  let ?pre = "open_head d @ TE_CHUNKED @ [CR, LF]" and ?body = "concat (bodies rs)"
  obtain r0 where r0: "response_calls E cs (Response_Reset r) = Inr r0" "rep d r0"
    using calls_ok[OF assms(1) reset_rep[OF assms(2,3)] assms(4)] assms(5) by blast
  have st: "idle (flush_start r0)" "awaiting ?pre [] (fc_response (flush_start r0))"
    using rep_awaiting[OF r0(2) assms(6,7)] by (simp_all add: idle_def flush_start_def)
  have "rounds_fit E (length ?pre) rs" using assms(6,9) by (auto simp: rounds_fit_def doc_text_def list_all_iff)
  from flush_rounds_ok[OF assms(1) st this] obtain c where c: "flush_rounds E 0 rs (flush_start r0) = Inr c" "idle c"
    "settled True (fc_response c)" "fc_sent c = ?pre @ concat (map chunk_text (bodies rs)) @ CHUNK_TERMINATOR" by (auto simp: flush_start_def)
  have o: "ordinary (d_persist d)" "ordinary (d_headers d)" using assms(10) by (simp_all add: accepts_def)
  have bs: "[] \<notin> set (bodies rs)" by (simp add: bodies_def)
  have lim: "client_limits_ok slot d 30 1 (length ?body)" using accepts_limits[OF assms(10)] by (simp add: lines_of_Cons)
  obtain s' where p: "parse_result slot False (fc_sent c) fresh_response fresh_parse_state =
      (final_answer d, [], read_as d [(''Transfer-Encoding'', ''chunked'')] ?body, s')"
    using client_reads_chunked[OF accepts_body_status[OF assms(10,8)] o bs lim, of False "[]"] by (auto simp: c(4))
  have all: "?body = concat (map (concat \<circ> fst) rs)" unfolding bodies_def by (induction rs) auto
  have "parse_pieces slot False ps fresh_response fresh_parse_state = Some (final_answer d, read_as d [(''Transfer-Encoding'', ''chunked'')] ?body)"
    if ps: "concat ps = fc_sent c" for ps
  proof (rule parse_pieces_concat[OF _ _ p[folded ps]])
    show "max_header slot < 2 ^ 31 - 1" using assms(10) by (simp add: accepts_def max_header_def)
    show "ps \<noteq> []" using ps c(4) by (auto simp: CHUNK_TERMINATOR_def)
    show "final_answer d \<noteq> ParseError" by (simp add: final_answer_def)
  qed (simp add: fresh_parse_state_def)
  then show ?thesis using r0(1) c(1-3) unfolding read_as_def all by (auto simp: idle_def settled_def)
qed

definition demo_stream_calls :: "resp_call list" where
  "demo_stream_calls = [CallHeader ''X-A'' ''1'', CallFlushStart]"

definition demo_stream_doc :: doc where
  "demo_stream_doc = \<lparr>d_version = HTTP_1_1, d_close = False, d_status = 200, d_persist = [], d_headers = [(''X-A'', ''1'')],
     d_body = DAwait [], d_aborted = False, d_destroyed = []\<rparr>"

definition demo_rounds :: "(string list \<times> write_answer list list) list" where
  "demo_rounds = [([''he'', ''llo''], [[Wrote 3, WouldBlock], [WouldBlock], [Wrote 2000]]), ([], [[Wrote 1024]]), ([''!''], [[], [Wrote 1025]])]"

lemma demo_stream: "doc_calls demo_env demo_stream_calls (new_doc demo_response) = demo_stream_doc"
  by (simp add: demo_stream_calls_def demo_doc doc_call_def demo_steps StatusForbidsBody_def demo_stream_doc_def)

lemma demo_stream_fit: "all_fit demo_env demo_stream_calls (new_doc demo_response)"
  unfolding demo_stream_calls_def
  by (simp add: demo_doc fits_def doc_call_def demo_steps StatusForbidsBody_def doc_text_def demo_env_def
      open_head_def length_kept_head connection_header_def TE_CHUNKED_def lines_of_def)

lemma demo_rounds_fit: "rounds_fit demo_env (length (doc_text demo_stream_doc)) demo_rounds"
  by (simp add: rounds_fit_def demo_rounds_def demo_env_def demo_stream_doc_def doc_text_def open_head_def length_kept_head
      connection_header_def TE_CHUNKED_def lines_of_def take_run.simps)

lemma demo_stream_accepts: "accepts demo_slot demo_stream_doc [(''Transfer-Encoding'', ''chunked'')] (concat (bodies demo_rounds))"
  using demo_ordinary
  by (simp add: accepts_def demo_slot_def demo_stream_doc_def demo_final_def all_headers_def open_head_def length_kept_head connection_header_def
      lines_of_Cons ordinary_def demo_rounds_def bodies_def)

theorem streamed_response_round_trip_witness:
  "\<exists>r0 c. response_calls demo_env demo_stream_calls (Response_Reset demo_response) = Inr r0 \<and>
     flush_rounds demo_env 0 demo_rounds (flush_start r0) = Inr c \<and>
     (\<forall>ps. concat ps = fc_sent c \<longrightarrow>
        parse_pieces demo_slot False ps fresh_response fresh_parse_state =
          Some (ParseDone, \<lparr>rs_status = 200, rs_body = ''hello!'', rs_headers = [(''Connection'', ''keep-alive''), (''X-A'', ''1''),
            (''Transfer-Encoding'', ''chunked'')]\<rparr>))"
proof -
  have d: "d_body demo_stream_doc = DAwait []" "\<not> d_aborted demo_stream_doc" "\<not> StatusForbidsBody (d_status demo_stream_doc)"
    by (simp_all add: demo_stream_doc_def StatusForbidsBody_def)
  have v: "final_answer demo_stream_doc = ParseDone" "d_status demo_stream_doc = 200" "concat (map (concat \<circ> fst) demo_rounds) = ''hello!''"
    "all_headers demo_stream_doc = [(''Connection'', ''keep-alive''), (''X-A'', ''1'')]"
    by (simp_all add: demo_stream_doc_def final_answer_def demo_rounds_def all_headers_def connection_header_def)
  show ?thesis
    using streamed_response_round_trip[OF demo_env_ok demo_stream_fit demo_stream d demo_rounds_fit demo_stream_accepts] by (auto simp: v)
qed

end
