(* ===== verification/Spec2Isabelle.thy ===== *)
theory Spec2Isabelle
  imports HttpParserProofs Uuid BitmapPool HashShardMap ConnectionLimiter RateLimiter
    TimerHeapProofs TimerWheelProofs RouterProofs JsonRoundtrip ResponseStream
begin

text \<open>
  WFX is an HTTP server framework: worker processes accept connections on one port, parse requests,
  route them to user callbacks and write responses. This development models the parts of it that decide
  something, translated from the C++ sources, and proves what makes them correct.

  \<^bold>\<open>Parts and theories.\<close>

  \<^item> \<open>WFX_Prelude\<close>: machine words, byte strings, the value \<open>Fatal\<close> for \<open>Logger::Fatal\<close>, the searches of
    \<open>std::string_view\<close>, shared lemmas on lists, words and results.
  \<^item> \<open>StringUtils\<close> (\<open>utils/string/string.cpp\<close>): comparisons, trimming, number conversion, percent decoding
    and path normalisation in place. The normal form has no dot segments and no double slashes.
  \<^item> \<open>RWBuffer\<close> (\<open>utils/rw_buffer\<close>): the read and write buffers over an allocator that may fail. Bytes are
    neither lost nor repeated by growth, appending, consumption and compaction.
  \<^item> \<open>HttpHeaders\<close>, \<open>HttpParser\<close>, \<open>HttpParserProofs\<close> (\<open>http/headers\<close>, \<open>http/parser\<close>): the incremental request
    parser as a function of the connection state, with its rewriting of the buffer.
  \<^item> \<open>Encoding\<close>, \<open>Uuid\<close> (\<open>wfx/utils/encoding.hpp\<close>, \<open>shared/abis/uuid.hpp\<close>): Base64, hex, percent encoding and
    the text form of UUIDs, with their round trips.
  \<^item> \<open>BitmapPool\<close> (\<open>utils/pool/bitmap_pool.hpp\<close>): slot allocation over 64-bit words.
  \<^item> \<open>Swar\<close>, \<open>HashShard\<close>, \<open>HashShardProofs\<close>, \<open>HashShardCompact\<close>, \<open>HashShardMap\<close> (\<open>utils/hash_map\<close>): the open
    addressing hash table with control bytes matched eight at a time. It refines a finite map; the locale
    \<open>keyed_store\<close> states the contract its clients use and is interpreted on the table.
  \<^item> \<open>SipHash\<close>, \<open>IpUtils\<close>, \<open>ConnectionLimiter\<close>, \<open>RateLimiter\<close> (\<open>utils/crypto/hash.cpp\<close>, \<open>http/limits\<close>): client
    addresses behind proxies, CIDR blocks, the connection limit per subnet and the token buckets.
  \<^item> \<open>TimerHeap\<close>, \<open>TimerHeapProofs\<close>, \<open>Dll\<close>, \<open>TimerWheel\<close>, \<open>TimerWheelProofs\<close> (\<open>utils/timer\<close>): the heap of timers
    with its position index, and the hashed timer wheel over intrusive doubly linked lists.
  \<^item> \<open>RouteTrie\<close>, \<open>RouteProofs\<close>, \<open>RouterProofs\<close> (\<open>http/routing\<close>): route tries, groups and the router.
  \<^item> \<open>Json\<close>, \<open>JsonWriter\<close>, \<open>JsonText\<close>, \<open>JsonProofs\<close>, \<open>JsonRoundtrip\<close> (\<open>shared/json\<close>): the recursive descent
    parser, over the values its store holds, and the streaming writer with its bit masks. What the parser
    accepts is well formed, its errors are located, and it reads back what the writer wrote.
  \<^item> \<open>HttpDetector\<close>, \<open>HttpResponse\<close>, \<open>HttpResponseProofs\<close> (\<open>http/common/http_detector.cpp\<close>, \<open>http/response\<close>): a
    response built in the write buffer phase by phase, with the fields that are patched later and the
    rebuild after a contract violation. It refines a machine on documents, whose text the buffer holds.
  \<^item> \<open>HttpClient\<close>, \<open>HttpClientProofs\<close>, \<open>HttpClientStream\<close> (\<open>wfx/endpoint/http.hpp\<close>, \<open>helper.hpp\<close>): the HTTP client
    codec, which serialises requests into a bounded buffer and parses responses as they arrive.
  \<^item> \<open>ResponseReading\<close>, \<open>ResponseSend\<close>, \<open>ResponseRoundtrip\<close>, \<open>ResponseStream\<close>
    (\<open>os_specific/linux/epoll_connection.cpp\<close> for the sending): server and client together. What a
    handler wrote is what the client reads, as one buffer, as a file, or in flushed rounds over a socket
    that takes the bytes in portions.

  \<^bold>\<open>Conventions.\<close> A C++ object is a record and an operation a function to the new record, or to
  \<^typ>\<open>fatal + 'a\<close> where the code can end the process. Unsigned members are words of their width; sizes and
  positions that index containers are natural numbers. Memory allocation, the address conversion of the
  C library and callbacks are arguments.

  \<^bold>\<open>Fuel.\<close> The probe loops of the hash table get the number of groups, after which a triangular probe
  sequence has seen every group; the bucket walk of the timer wheel gets one step more than there are
  slots, which a well-formed list never exhausts; the JSON parser gets three steps for every byte left, and
  never reports the exhaustion. The response parser gets two rounds for every byte and two more; the error
  path of a response is closed at depth two, since only the first rebuild can violate the contract. All of
  this is proved, not assumed.

  \<^bold>\<open>Not modelled.\<close> The rest of the epoll loop, TLS, coroutines, the template compiler, the other
  clients, the command line and the wrappers of system calls: they call the kernel, OpenSSL, a C++
  compiler or user code. Of a response, the template body, which the template engine produces.
\<close>

end
